(* ===== verification/Apue_Prelude.thy ===== *)
theory Apue_Prelude
  imports Main "HOL-Library.Word"
begin

text \<open>
  What the component theories share: the exits of the error routines as an error type, the
  state-and-error monad in which the stateful C functions are written, the C library's
  conversions between numbers and decimal text (\<open>sprintf\<close> with \<open>%d\<close> and \<open>%*d\<close>,
  \<open>atol\<close>), null-terminated strings, the list lemmas the byte-level proofs use, and the search
  for a free descriptor.
\<close>

named_theorems io_simps \<open>unfolding equations of the state-and-error monad\<close>

section \<open>Exits\<close>

text \<open>
  The ways a C function of this code base ends other than by returning: the fatal error
  routines of \<open>lib/error.c\<close> and \<open>lib/errorlog.c\<close>, a call that blocks in the kernel, a
  loop that never ends, and undefined behaviour of the C language (a null dereference, a
  use of freed memory, an out-of-bounds store).
\<close>

datatype exit_reason =
    Dump string         \<comment> \<open>\<open>err_dump\<close>: message, core dump\<close>
  | SysExit string      \<comment> \<open>\<open>err_sys\<close>, \<open>log_sys\<close>: message with \<open>errno\<close>, exit\<close>
  | QuitExit string     \<comment> \<open>\<open>err_quit\<close>, \<open>log_quit\<close>: message, exit\<close>
  | Exit int            \<comment> \<open>\<open>exit\<close> with a status\<close>
  | Blocked             \<comment> \<open>the call sleeps in the kernel\<close>
  | Diverges            \<comment> \<open>the loop never ends\<close>
  | Undefined string    \<comment> \<open>undefined behaviour\<close>

section \<open>The state-and-error monad\<close>

type_synonym ('s, 'a) io = "'s \<Rightarrow> exit_reason + ('a \<times> 's)"

definition ret_io :: "'a \<Rightarrow> ('s, 'a) io" where
  "ret_io x s = Inr (x, s)"

definition fail_io :: "exit_reason \<Rightarrow> ('s, 'a) io" where
  "fail_io e s = Inl e"

definition bind_io :: "('s, 'a) io \<Rightarrow> ('a \<Rightarrow> ('s, 'b) io) \<Rightarrow> ('s, 'b) io" where
  "bind_io m k s = (case m s of Inl e \<Rightarrow> Inl e | Inr (x, s') \<Rightarrow> k x s')"

definition seq_io :: "('s, 'a) io \<Rightarrow> ('s, 'b) io \<Rightarrow> ('s, 'b) io" where
  "seq_io m k = bind_io m (\<lambda>_. k)"

definition gets_io :: "('s \<Rightarrow> 'a) \<Rightarrow> ('s, 'a) io" where
  "gets_io f s = Inr (f s, s)"

definition modify_io :: "('s \<Rightarrow> 's) \<Rightarrow> ('s, unit) io" where
  "modify_io f s = Inr ((), f s)"

definition when_io :: "bool \<Rightarrow> ('s, unit) io \<Rightarrow> ('s, unit) io" where
  "when_io b m = (if b then m else ret_io ())"

lemma ret_io_apply [io_simps]: "ret_io x s = Inr (x, s)"
  by (simp add: ret_io_def)

lemma fail_io_apply [io_simps]: "fail_io e s = Inl e"
  by (simp add: fail_io_def)

lemma gets_io_apply [io_simps]: "gets_io f s = Inr (f s, s)"
  by (simp add: gets_io_def)

lemma modify_io_apply [io_simps]: "modify_io f s = Inr ((), f s)"
  by (simp add: modify_io_def)

lemma bind_io_apply [io_simps]:
  "bind_io m k s = (case m s of Inl e \<Rightarrow> Inl e | Inr (x, s') \<Rightarrow> k x s')"
  by (simp add: bind_io_def)

lemma seq_io_apply [io_simps]:
  "seq_io m k s = (case m s of Inl e \<Rightarrow> Inl e | Inr (x, s') \<Rightarrow> k s')"
  by (simp add: seq_io_def bind_io_def)

lemma when_io_apply [io_simps]: "when_io b m s = (if b then m s else Inr ((), s))"
  by (simp add: when_io_def ret_io_def)

lemma bind_io_InrD:
  assumes "bind_io m k s = Inr r"
  obtains x s' where "m s = Inr (x, s')" "k x s' = Inr r"
  using assms by (auto simp: bind_io_def split: sum.splits)

lemma seq_io_InrD:
  assumes "seq_io m k s = Inr r"
  obtains x s' where "m s = Inr (x, s')" "k s' = Inr r"
  using assms by (auto simp: seq_io_def bind_io_def split: sum.splits)

section \<open>Characters and C strings\<close>

abbreviation NUL :: char where "NUL \<equiv> CHR 0x00"
abbreviation NEWLINE :: char where "NEWLINE \<equiv> CHR 0x0A"
abbreviation SPACE :: char where "SPACE \<equiv> CHR 0x20"

text \<open>The string a \<open>char\<close> array holds: its bytes up to the first null byte.\<close>

definition cstr :: "string \<Rightarrow> string" where
  "cstr bs = takeWhile (\<lambda>c. c \<noteq> NUL) bs"

lemma cstr_no_nul [simp]: "NUL \<notin> set s \<Longrightarrow> cstr s = s"
  by (auto simp: cstr_def takeWhile_eq_all_conv)

lemma cstr_append_nul [simp]: "NUL \<notin> set s \<Longrightarrow> cstr (s @ NUL # t) = s"
  by (induction s) (auto simp: cstr_def)

lemma nul_notin_cstr [simp]: "NUL \<notin> set (cstr s)"
  by (auto simp: cstr_def dest: set_takeWhileD)

text \<open>A string that is safe as the only argument of a function that takes a format.\<close>

fun format_plain :: "string \<Rightarrow> bool" where
  "format_plain [] = True"
| "format_plain (c # cs) =
     (if c = CHR ''%'' then (case cs of d # ds \<Rightarrow> d = CHR ''%'' \<and> format_plain ds | [] \<Rightarrow> False) else format_plain cs)"

text \<open>\<open>isspace\<close> and \<open>isdigit\<close> of the C locale.\<close>

definition isspace :: "char \<Rightarrow> bool" where
  "isspace c \<longleftrightarrow> c = SPACE \<or> (9 \<le> (of_char c :: nat) \<and> (of_char c :: nat) \<le> 13)"

definition isdigit :: "char \<Rightarrow> bool" where
  "isdigit c \<longleftrightarrow> 48 \<le> (of_char c :: nat) \<and> (of_char c :: nat) \<le> 57"

section \<open>Decimal numbers\<close>

definition digit :: "nat \<Rightarrow> char" where
  "digit d = char_of (48 + d)"

text \<open>\<open>sprintf(buf, "%d", n)\<close> for a number that is not negative.\<close>

fun dec :: "nat \<Rightarrow> string" where
  "dec n = (if n < 10 then [digit n] else dec (n div 10) @ [digit (n mod 10)])"

declare dec.simps [simp del]

definition dec_int :: "int \<Rightarrow> string" where
  "dec_int z = (if z < 0 then CHR ''-'' # dec (nat (- z)) else dec (nat z))"

text \<open>\<open>%*d\<close> with width \<open>w\<close>: blanks on the left.\<close>

definition padl :: "nat \<Rightarrow> string \<Rightarrow> string" where
  "padl w s = replicate (w - length s) SPACE @ s"

text \<open>\<open>atol\<close>: leading white space, a sign, digits up to the first other byte.\<close>

definition digits_val :: "nat \<Rightarrow> string \<Rightarrow> nat" where
  "digits_val a s = fold (\<lambda>c v. 10 * v + (of_char c - 48)) (takeWhile isdigit s) a"

definition atol :: "string \<Rightarrow> int" where
  "atol s =
     (let t = dropWhile isspace s in
      case t of
        [] \<Rightarrow> 0
      | c # r \<Rightarrow>
          if c = CHR ''-'' then - int (digits_val 0 r)
          else if c = CHR ''+'' then int (digits_val 0 r)
          else int (digits_val 0 t))"

text \<open>\<open>atoi\<close>: the value cut to an \<open>int\<close>.\<close>

definition atoi :: "string \<Rightarrow> int" where
  "atoi s = sint (word_of_int (atol s) :: 32 word)"

lemma of_char_digit: "d < 10 \<Longrightarrow> (of_char (digit d) :: nat) = 48 + d"
  by (simp add: digit_def)

lemma isdigit_digit [simp]: "d < 10 \<Longrightarrow> isdigit (digit d)"
  by (simp add: isdigit_def of_char_digit)

lemma isdigit_SPACE [simp]: "\<not> isdigit SPACE"
  by (simp add: isdigit_def)

lemma isdigit_NUL [simp]: "\<not> isdigit NUL"
  by (simp add: isdigit_def)

lemma isspace_SPACE [simp]: "isspace SPACE"
  by (simp add: isspace_def)

lemma isdigit_not_space: "isdigit c \<Longrightarrow> \<not> isspace c"
  by (auto simp: isdigit_def isspace_def)

lemma isdigit_not_sign: "isdigit c \<Longrightarrow> c \<noteq> CHR ''-'' \<and> c \<noteq> CHR ''+''"
  by (auto simp: isdigit_def)

lemma dec_digits: "c \<in> set (dec n) \<Longrightarrow> isdigit c"
proof (induction n rule: dec.induct)
  case (1 n)
  show ?case
  proof (cases "n < 10")
    case True
    with "1.prems" show ?thesis by (simp add: dec.simps [of n])
  next
    case False
    with "1.prems" have "c \<in> set (dec (n div 10)) \<or> c = digit (n mod 10)"
      by (auto simp: dec.simps [of n])
    with "1.IH" [OF False] show ?thesis by auto
  qed
qed

lemma dec_not_Nil [simp]: "dec n \<noteq> []"
  by (subst dec.simps) simp

lemma dec_no [simp]: "\<not> isdigit c \<Longrightarrow> c \<notin> set (dec n)"
  using dec_digits by blast

lemma digits_val_append:
  assumes "\<forall>c \<in> set s. isdigit c"
  shows "digits_val a (s @ t) = digits_val (digits_val a s) t"
proof -
  have 1: "takeWhile isdigit (s @ t) = s @ takeWhile isdigit t"
    using assms by (simp add: takeWhile_append2)
  have 2: "takeWhile isdigit s = s"
    using assms by (simp add: takeWhile_eq_all_conv)
  show ?thesis unfolding digits_val_def 1 2 by simp
qed

lemma digits_val_stop: "\<not> isdigit c \<Longrightarrow> digits_val a (c # t) = a"
  by (simp add: digits_val_def)

lemma digits_val_Nil [simp]: "digits_val a [] = a"
  by (simp add: digits_val_def)

lemma digits_val_dec: "digits_val 0 (dec n) = n"
proof (induction n rule: dec.induct)
  case (1 n)
  show ?case
  proof (cases "n < 10")
    case True
    then show ?thesis by (simp add: dec.simps [of n] digits_val_def of_char_digit)
  next
    case False
    have "digits_val 0 (dec n) = digits_val (digits_val 0 (dec (n div 10))) [digit (n mod 10)]"
      using False dec_digits by (subst dec.simps) (simp add: digits_val_append)
    also have "\<dots> = digits_val (n div 10) [digit (n mod 10)]"
      using "1.IH" [OF False] by simp
    also have "\<dots> = n" by (simp add: digits_val_def of_char_digit)
    finally show ?thesis .
  qed
qed

text \<open>Reading back a padded decimal field, whatever follows the digits.\<close>

lemma atol_padded:
  assumes "t = [] \<or> \<not> isdigit (hd t)"
  shows "atol (replicate k SPACE @ dec n @ t) = int n"
proof -
  obtain c r where d: "dec n = c # r" by (cases "dec n") auto
  then have c: "isdigit c" using dec_digits by (metis list.set_intros(1))
  have "dropWhile isspace (replicate k SPACE @ dec n @ t) = dec n @ t"
    using d isdigit_not_space [OF c] by (induction k) auto
  moreover have "digits_val 0 (dec n @ t) = n"
    using assms dec_digits
    by (cases t) (auto simp: digits_val_append digits_val_dec digits_val_stop)
  ultimately show ?thesis
    using d isdigit_not_sign [OF c] by (simp add: atol_def)
qed

lemma atol_dec [simp]: "atol (dec n) = int n"
  using atol_padded [of "[]" 0 n] by simp

lemma atoi_dec:
  assumes "n < 2 ^ 31"
  shows "atoi (dec n) = int n"
proof -
  have "sint (word_of_int (int n) :: 32 word) = int n"
    using assms by (simp add: sint_uint unsigned_of_nat take_bit_nat_eq_self signed_take_bit_int_eq_self)
  then show ?thesis by (simp add: atoi_def)
qed

lemma atol_padl [simp]: "atol (padl w (dec n)) = int n"
  using atol_padded [of "[]" "w - length (dec n)" n] by (simp add: padl_def)

lemma length_dec_le: "n < 10 ^ k \<Longrightarrow> 0 < k \<Longrightarrow> length (dec n) \<le> k"
proof (induction k arbitrary: n)
  case 0
  then show ?case by simp
next
  case (Suc k)
  show ?case
  proof (cases "n < 10")
    case True
    then show ?thesis by (simp add: dec.simps [of n])
  next
    case False
    with Suc.prems(1) have "0 < k" by (cases k) auto
    moreover from Suc.prems(1) have "n div 10 < 10 ^ k" by auto
    ultimately have "length (dec (n div 10)) \<le> k" by (rule Suc.IH [rotated])
    with False show ?thesis by (simp add: dec.simps [of n])
  qed
qed

lemma length_padl: "length s \<le> w \<Longrightarrow> length (padl w s) = w"
  by (simp add: padl_def)

lemma set_padl_dec: "c \<in> set (padl w (dec n)) \<Longrightarrow> c = SPACE \<or> isdigit c"
  by (auto simp: padl_def dec_digits)

lemma nat_atol_dec_int: "0 \<le> z \<Longrightarrow> dec_int z = dec (nat z)"
  by (simp add: dec_int_def)

section \<open>Lists as byte arrays\<close>

lemma take_drop_middle: "length a = n \<Longrightarrow> length b = m \<Longrightarrow> take m (drop n (a @ b @ c)) = b"
  by simp

lemma split_string_at:
  assumes "c \<notin> set s"
  shows "takeWhile (\<lambda>x. x \<noteq> c) (s @ c # t) = s" "dropWhile (\<lambda>x. x \<noteq> c) (s @ c # t) = c # t"
  using assms by (induction s) auto

lemma in_set_split_nth:
  assumes "i < length xs"
  shows "xs = take i xs @ xs ! i # drop (Suc i) xs"
  using assms by (rule id_take_nth_drop)

section \<open>Descriptor tables\<close>

text \<open>The lowest free descriptor of \<open>n\<close> from \<open>fd\<close> on, which a call that opens a file takes.\<close>

fun free_from :: "(nat \<rightharpoonup> 'a) \<Rightarrow> nat \<Rightarrow> nat \<Rightarrow> nat option" where
  "free_from t 0 fd = None"
| "free_from t (Suc n) fd = (if t fd = None then Some fd else free_from t n (Suc fd))"

lemma free_from_free: "free_from t n fd = Some r \<Longrightarrow> t r = None \<and> fd \<le> r"
  by (induction t n fd rule: free_from.induct) (auto split: if_splits)

lemma free_from_lim: "free_from t n fd = Some r \<Longrightarrow> r < fd + n"
  by (induction t n fd rule: free_from.induct) (auto split: if_splits)

lemma free_from_exists: "fd \<le> r \<Longrightarrow> r < fd + n \<Longrightarrow> t r = None \<Longrightarrow> \<exists>d. free_from t n fd = Some d \<and> d \<le> r"
proof (induction n arbitrary: fd)
  case (Suc n)
  then show ?case by (cases "fd = r") (auto simp: le_Suc_eq intro: Suc.IH)
qed simp

end
