(* ===== verification/Posix_File.thy ===== *)
theory Posix_File
  imports Apue_Prelude
begin

text \<open>
  Regular files as the code sees them through a descriptor: the bytes, the file offset and
  the record locks of the i-node. \<open>lseek\<close>, \<open>read\<close>, \<open>write\<close> and the record-lock commands of
  \<open>fcntl\<close> follow their POSIX description; on top of them stand \<open>lock_reg\<close>
  (\<open>lib/lockreg.c\<close>), \<open>lock_test\<close> (\<open>lib/locktest.c\<close>) and the locking macros of
  \<open>include/apue.h\<close>. The lemmas show that a lock request changes the locks of the caller on
  exactly the requested bytes, that a conflicting request fails or waits, and that two
  processes never hold conflicting locks.
\<close>

section \<open>Open files\<close>

datatype whence = SEEK_SET | SEEK_CUR | SEEK_END

datatype lock_type = F_RDLCK | F_WRLCK | F_UNLCK

text \<open>
  A record lock: owner, type, first byte and length (0 means up to any end of file).
\<close>

record flock =
  l_pid :: nat
  l_type :: lock_type
  l_start :: nat
  l_len :: nat

record ofile =
  f_bytes :: string
  f_pos :: nat
  f_locks :: "flock list"

definition seek_base :: "ofile \<Rightarrow> whence \<Rightarrow> int" where
  "seek_base f w =
     (case w of SEEK_SET \<Rightarrow> 0 | SEEK_CUR \<Rightarrow> int (f_pos f) | SEEK_END \<Rightarrow> int (length (f_bytes f)))"

text \<open>\<open>lseek\<close>: the resulting offset, or -1 when it would be negative.\<close>

definition lseek :: "ofile \<Rightarrow> int \<Rightarrow> whence \<Rightarrow> int \<times> ofile" where
  "lseek f off w =
     (let p = seek_base f w + off in
      if p < 0 then (-1, f) else (p, f\<lparr>f_pos := nat p\<rparr>))"

text \<open>\<open>read\<close> (and \<open>readv\<close>): at most \<open>n\<close> bytes, fewer only at the end of the file.\<close>

definition read_file :: "ofile \<Rightarrow> nat \<Rightarrow> string \<times> ofile" where
  "read_file f n =
     (let bs = take n (drop (f_pos f) (f_bytes f)) in
      (bs, f\<lparr>f_pos := f_pos f + length bs\<rparr>))"

text \<open>Overwriting bytes from an offset on; a gap after the old end reads as null bytes.\<close>

definition overwrite :: "string \<Rightarrow> nat \<Rightarrow> string \<Rightarrow> string" where
  "overwrite bs p new =
     take p bs @ replicate (p - length bs) NUL @ new @ drop (p + length new) bs"

definition write_file :: "ofile \<Rightarrow> string \<Rightarrow> ofile" where
  "write_file f new =
     f\<lparr>f_bytes := overwrite (f_bytes f) (f_pos f) new, f_pos := f_pos f + length new\<rparr>"

lemma overwrite_middle:
  assumes "length a = p" "length b = length new"
  shows "overwrite (a @ b @ c) p new = a @ new @ c"
  using assms by (simp add: overwrite_def)

lemma overwrite_end: "length bs = p \<Longrightarrow> overwrite bs p new = bs @ new"
  by (simp add: overwrite_def)

lemma length_overwrite: "length (overwrite bs p new) = max (length bs) (p + length new)"
  by (auto simp: overwrite_def)

lemma read_back_write:
  "fst (read_file (snd (lseek (write_file f new) (int (f_pos f)) SEEK_SET)) (length new)) = new"
  by (simp add: read_file_def lseek_def seek_base_def write_file_def overwrite_def)

section \<open>Record locks\<close>

definition in_range :: "nat \<Rightarrow> nat \<Rightarrow> nat \<Rightarrow> bool" where
  "in_range st len b \<longleftrightarrow> st \<le> b \<and> (len = 0 \<or> b < st + len)"

definition ranges_meet :: "nat \<Rightarrow> nat \<Rightarrow> nat \<Rightarrow> nat \<Rightarrow> bool" where
  "ranges_meet s1 n1 s2 n2 \<longleftrightarrow> (n1 = 0 \<or> s2 < s1 + n1) \<and> (n2 = 0 \<or> s1 < s2 + n2)"

lemma ranges_meet_iff: "ranges_meet s1 n1 s2 n2 \<longleftrightarrow> (\<exists>b. in_range s1 n1 b \<and> in_range s2 n2 b)"
proof
  assume "ranges_meet s1 n1 s2 n2"
  then have "in_range s1 n1 (max s1 s2) \<and> in_range s2 n2 (max s1 s2)"
    by (auto simp: ranges_meet_def in_range_def max_def)
  then show "\<exists>b. in_range s1 n1 b \<and> in_range s2 n2 b" by blast
qed (auto simp: ranges_meet_def in_range_def)

text \<open>What is left of one lock when its owner unlocks \<open>[st, st + len)\<close>.\<close>

definition cut_lock :: "nat \<Rightarrow> nat \<Rightarrow> flock \<Rightarrow> flock list" where
  "cut_lock st len l =
     (if \<not> ranges_meet st len (l_start l) (l_len l) then [l]
      else (if l_start l < st then [l\<lparr>l_len := st - l_start l\<rparr>] else []) @
           (if len \<noteq> 0 \<and> (l_len l = 0 \<or> st + len < l_start l + l_len l)
            then [l\<lparr>l_start := st + len,
                    l_len := (if l_len l = 0 then 0 else l_start l + l_len l - (st + len))\<rparr>]
            else []))"

definition clear_locks :: "nat \<Rightarrow> nat \<Rightarrow> nat \<Rightarrow> flock list \<Rightarrow> flock list" where
  "clear_locks pid st len ls =
     concat (map (\<lambda>l. if l_pid l = pid then cut_lock st len l else [l]) ls)"

definition conflicting :: "nat \<Rightarrow> lock_type \<Rightarrow> nat \<Rightarrow> nat \<Rightarrow> flock \<Rightarrow> bool" where
  "conflicting pid ty st len l \<longleftrightarrow>
     l_pid l \<noteq> pid \<and> ranges_meet st len (l_start l) (l_len l) \<and>
     (ty = F_WRLCK \<or> l_type l = F_WRLCK)"

text \<open>The byte range an \<open>flock\<close> request names, \<open>None\<close> when it starts before the file.\<close>

definition lock_range :: "ofile \<Rightarrow> int \<Rightarrow> whence \<Rightarrow> int \<Rightarrow> (nat \<times> nat) option" where
  "lock_range f off w len =
     (let st = seek_base f w + off in
      if 0 \<le> len then (if st < 0 then None else Some (nat st, nat len))
      else (if st + len < 0 then None else Some (nat (st + len), nat (- len))))"

datatype lock_cmd = F_SETLK | F_SETLKW

text \<open>
  \<open>fcntl\<close> with \<open>F_SETLK\<close> or \<open>F_SETLKW\<close>: \<open>Inr 0\<close> or \<open>Inr (-1)\<close> as the call returns,
  \<open>Inl Blocked\<close> when \<open>F_SETLKW\<close> has to wait for another process.
\<close>

definition fcntl_lock ::
  "nat \<Rightarrow> ofile \<Rightarrow> lock_cmd \<Rightarrow> lock_type \<Rightarrow> int \<Rightarrow> whence \<Rightarrow> int \<Rightarrow> exit_reason + (int \<times> ofile)" where
  "fcntl_lock pid f cmd ty off w len =
     (case lock_range f off w len of
        None \<Rightarrow> Inr (-1, f)
      | Some (st, n) \<Rightarrow>
          (if ty = F_UNLCK then Inr (0, f\<lparr>f_locks := clear_locks pid st n (f_locks f)\<rparr>)
           else if list_ex (conflicting pid ty st n) (f_locks f)
           then (case cmd of F_SETLK \<Rightarrow> Inr (-1, f) | F_SETLKW \<Rightarrow> Inl Blocked)
           else Inr (0, f\<lparr>f_locks :=
                  \<lparr>l_pid = pid, l_type = ty, l_start = st, l_len = n\<rparr> # clear_locks pid st n (f_locks f)\<rparr>)))"

text \<open>\<open>lock_reg\<close> of \<open>lib/lockreg.c\<close>: it fills a \<open>struct flock\<close> and calls \<open>fcntl\<close>.\<close>

definition lock_reg ::
  "nat \<Rightarrow> ofile \<Rightarrow> lock_cmd \<Rightarrow> lock_type \<Rightarrow> int \<Rightarrow> whence \<Rightarrow> int \<Rightarrow> exit_reason + (int \<times> ofile)" where
  "lock_reg pid f cmd type offset whence len = fcntl_lock pid f cmd type offset whence len"

definition read_lock :: "nat \<Rightarrow> ofile \<Rightarrow> int \<Rightarrow> whence \<Rightarrow> int \<Rightarrow> exit_reason + (int \<times> ofile)" where
  "read_lock pid f offset whence len = lock_reg pid f F_SETLK F_RDLCK offset whence len"

definition readw_lock :: "nat \<Rightarrow> ofile \<Rightarrow> int \<Rightarrow> whence \<Rightarrow> int \<Rightarrow> exit_reason + (int \<times> ofile)" where
  "readw_lock pid f offset whence len = lock_reg pid f F_SETLKW F_RDLCK offset whence len"

definition write_lock :: "nat \<Rightarrow> ofile \<Rightarrow> int \<Rightarrow> whence \<Rightarrow> int \<Rightarrow> exit_reason + (int \<times> ofile)" where
  "write_lock pid f offset whence len = lock_reg pid f F_SETLK F_WRLCK offset whence len"

definition writew_lock :: "nat \<Rightarrow> ofile \<Rightarrow> int \<Rightarrow> whence \<Rightarrow> int \<Rightarrow> exit_reason + (int \<times> ofile)" where
  "writew_lock pid f offset whence len = lock_reg pid f F_SETLKW F_WRLCK offset whence len"

definition un_lock :: "nat \<Rightarrow> ofile \<Rightarrow> int \<Rightarrow> whence \<Rightarrow> int \<Rightarrow> exit_reason + (int \<times> ofile)" where
  "un_lock pid f offset whence len = lock_reg pid f F_SETLK F_UNLCK offset whence len"

text \<open>
  \<open>fcntl\<close> with \<open>F_GETLK\<close>: the first lock that would block the request, or the request with
  its type set to \<open>F_UNLCK\<close>; and \<open>lock_test\<close> of \<open>lib/locktest.c\<close>, which returns the pid
  of the owner, 0 when there is none.
\<close>

definition fcntl_getlk ::
  "nat \<Rightarrow> ofile \<Rightarrow> lock_type \<Rightarrow> int \<Rightarrow> whence \<Rightarrow> int \<Rightarrow> (int \<times> flock) option" where
  "fcntl_getlk pid f ty off w len =
     (case lock_range f off w len of
        None \<Rightarrow> None
      | Some (st, n) \<Rightarrow>
          Some (0, case find (conflicting pid ty st n) (f_locks f) of
                     None \<Rightarrow> \<lparr>l_pid = pid, l_type = F_UNLCK, l_start = st, l_len = n\<rparr>
                   | Some l \<Rightarrow> l))"

definition lock_test ::
  "nat \<Rightarrow> ofile \<Rightarrow> lock_type \<Rightarrow> int \<Rightarrow> whence \<Rightarrow> int \<Rightarrow> exit_reason + nat" where
  "lock_test pid f type offset whence len =
     (case fcntl_getlk pid f type offset whence len of
        None \<Rightarrow> Inl (SysExit ''fcntl error'')
      | Some (_, lock) \<Rightarrow> if l_type lock = F_UNLCK then Inr 0 else Inr (l_pid lock))"

lemmas lock_macros = read_lock_def readw_lock_def write_lock_def writew_lock_def un_lock_def lock_reg_def

subsection \<open>What a process holds on a byte\<close>

definition holds :: "flock list \<Rightarrow> nat \<Rightarrow> nat \<Rightarrow> lock_type \<Rightarrow> bool" where
  "holds ls pid b ty \<longleftrightarrow>
     list_ex (\<lambda>l. l_pid l = pid \<and> l_type l = ty \<and> in_range (l_start l) (l_len l) b) ls"

lemma holds_Nil [simp]: "\<not> holds [] pid b ty"
  by (simp add: holds_def)

lemma holds_Cons [simp]:
  "holds (l # ls) pid b ty \<longleftrightarrow>
     l_pid l = pid \<and> l_type l = ty \<and> in_range (l_start l) (l_len l) b \<or> holds ls pid b ty"
  by (simp add: holds_def)

lemma holds_append [simp]: "holds (ls @ ms) pid b ty \<longleftrightarrow> holds ls pid b ty \<or> holds ms pid b ty"
  by (simp add: holds_def)

lemma holds_cut_lock:
  "holds (cut_lock st len l) p b ty \<longleftrightarrow>
     l_pid l = p \<and> l_type l = ty \<and> in_range (l_start l) (l_len l) b \<and> \<not> in_range st len b"
  by (auto simp: cut_lock_def in_range_def ranges_meet_def)

lemma holds_clear_locks:
  "holds (clear_locks pid st len ls) p b ty \<longleftrightarrow>
     holds ls p b ty \<and> \<not> (p = pid \<and> in_range st len b)"
  by (induction ls) (auto simp: clear_locks_def holds_cut_lock)

lemma clear_locks_disjoint:
  assumes "\<And>l. l \<in> set ls \<Longrightarrow> l_pid l = pid \<Longrightarrow> \<not> ranges_meet st len (l_start l) (l_len l)"
  shows "clear_locks pid st len ls = ls"
  using assms by (induction ls) (auto simp: clear_locks_def cut_lock_def)

lemma clear_locks_Nil [simp]: "clear_locks pid st len [] = []"
  by (simp add: clear_locks_def)

lemma clear_locks_Cons:
  "clear_locks pid st len (l # ls) =
     (if l_pid l = pid then cut_lock st len l else [l]) @ clear_locks pid st len ls"
  by (simp add: clear_locks_def)

lemma cut_lock_same:
  "l_start l = st \<Longrightarrow> l_len l = len \<Longrightarrow> cut_lock st len l = []"
  by (auto simp: cut_lock_def ranges_meet_def)

lemma cut_lock_apart:
  "\<not> ranges_meet st len (l_start l) (l_len l) \<Longrightarrow> cut_lock st len l = [l]"
  by (simp add: cut_lock_def)

subsection \<open>Mutual exclusion\<close>

definition locks_ok :: "flock list \<Rightarrow> bool" where
  "locks_ok ls \<longleftrightarrow>
     (\<forall>p q b ty. p \<noteq> q \<longrightarrow> holds ls p b F_WRLCK \<longrightarrow> \<not> holds ls q b ty)"

lemma not_conflicting_apart:
  assumes "\<not> list_ex (conflicting pid ty st n) ls" "q \<noteq> pid" "in_range st n b" "holds ls q b t"
  shows "ty \<noteq> F_WRLCK \<and> t \<noteq> F_WRLCK"
proof -
  from assms(4) obtain l where l: "l \<in> set ls" "l_pid l = q" "l_type l = t"
      "in_range (l_start l) (l_len l) b"
    by (auto simp: holds_def list_ex_iff)
  have "\<not> conflicting pid ty st n l" using assms(1) l(1) by (auto simp: list_ex_iff)
  moreover have "ranges_meet st n (l_start l) (l_len l)"
    using assms(3) l(4) by (auto simp: ranges_meet_iff)
  ultimately show ?thesis using l assms(2) by (auto simp: conflicting_def)
qed

lemma fcntl_lock_locks_ok:
  assumes ok: "locks_ok (f_locks f)"
    and r: "fcntl_lock pid f cmd ty off w len = Inr (v, f')"
  shows "locks_ok (f_locks f')"
proof (cases "lock_range f off w len")
  case None
  with r ok show ?thesis by (simp add: fcntl_lock_def)
next
  case (Some rg)
  obtain st n where rg: "rg = (st, n)" by (cases rg)
  let ?c = "clear_locks pid st n (f_locks f)"
  have clear: "locks_ok ?c" using ok by (auto simp: locks_ok_def holds_clear_locks)
  show ?thesis
  proof (cases "ty = F_UNLCK \<or> list_ex (conflicting pid ty st n) (f_locks f)")
    case True
    with r Some rg ok clear show ?thesis
      by (auto simp: fcntl_lock_def split: if_splits lock_cmd.splits)
  next
    case False
    then have f': "f_locks f' = \<lparr>l_pid = pid, l_type = ty, l_start = st, l_len = n\<rparr> # ?c"
      using r Some rg by (auto simp: fcntl_lock_def)
    have "\<not> list_ex (conflicting pid ty st n) (f_locks f)" using False by simp
    note apart = not_conflicting_apart [OF this]
    show ?thesis unfolding locks_ok_def f'
    proof (intro allI impI)
      fix p q b t
      assume pq: "p \<noteq> q"
        and h: "holds (\<lparr>l_pid = pid, l_type = ty, l_start = st, l_len = n\<rparr> # ?c) p b F_WRLCK"
      show "\<not> holds (\<lparr>l_pid = pid, l_type = ty, l_start = st, l_len = n\<rparr> # ?c) q b t"
        using pq h ok apart [of p b F_WRLCK] apart [of q b t]
        by (auto simp: locks_ok_def holds_clear_locks)
    qed
  qed
qed

subsection \<open>What the locking calls promise\<close>

text \<open>
  The region a call names, as \<open>apue.h\<close> and the manual page of \<open>fcntl\<close> describe it: \<open>len\<close> bytes
  from \<open>offset\<close> relative to \<open>whence\<close>, to any end of file for length 0, before the offset for a
  negative length; and the processes in the way of a request.
\<close>

definition in_region :: "ofile \<Rightarrow> int \<Rightarrow> whence \<Rightarrow> int \<Rightarrow> int \<Rightarrow> bool" where
  "in_region f offset whence len b \<longleftrightarrow>
     (let first = seek_base f whence + offset in
      if len = 0 then first \<le> b else if 0 < len then first \<le> b \<and> b < first + len else first + len \<le> b \<and> b < first)"

definition in_the_way :: "nat \<Rightarrow> ofile \<Rightarrow> lock_type \<Rightarrow> int \<Rightarrow> whence \<Rightarrow> int \<Rightarrow> nat \<Rightarrow> bool" where
  "in_the_way pid f type offset whence len q \<longleftrightarrow> q \<noteq> pid \<and> type \<noteq> F_UNLCK \<and>
     (\<exists>b ty. in_region f offset whence len (int b) \<and> holds (f_locks f) q b ty \<and> (type = F_WRLCK \<or> ty = F_WRLCK))"

definition lock_promise ::
  "nat \<Rightarrow> ofile \<Rightarrow> lock_cmd \<Rightarrow> lock_type \<Rightarrow> int \<Rightarrow> whence \<Rightarrow> int \<Rightarrow> exit_reason + (int \<times> ofile) \<Rightarrow> bool" where
  "lock_promise pid f cmd type offset whence len r \<longleftrightarrow>
     (if seek_base f whence + offset + min len 0 < 0
      then r = Inr (-1, f)
      else if \<exists>q. in_the_way pid f type offset whence len q
      then r = (case cmd of F_SETLK \<Rightarrow> Inr (-1, f) | F_SETLKW \<Rightarrow> Inl Blocked)
      else \<exists>f'. r = Inr (0, f') \<and> f_bytes f' = f_bytes f \<and> f_pos f' = f_pos f \<and>
        (\<forall>q b ty. holds (f_locks f') q b ty \<longleftrightarrow>
           (if q = pid \<and> in_region f offset whence len (int b) then ty = type \<and> type \<noteq> F_UNLCK
            else holds (f_locks f) q b ty)))"

lemma lock_range_region:
  "lock_range f off w len = None \<longleftrightarrow> seek_base f w + off + min len 0 < 0"
  "lock_range f off w len = Some (st, n) \<Longrightarrow> in_range st n b \<longleftrightarrow> in_region f off w len (int b)"
  by (auto simp: lock_range_def in_region_def in_range_def Let_def split: if_splits)

lemma conflict_in_the_way:
  assumes "lock_range f off w len = Some (st, n)" "type \<noteq> F_UNLCK"
  shows "list_ex (conflicting pid type st n) (f_locks f) \<longleftrightarrow> (\<exists>q. in_the_way pid f type off w len q)"
  using assms
  by (auto simp: in_the_way_def lock_range_region(2) [OF assms(1), symmetric] list_ex_iff conflicting_def
      ranges_meet_iff holds_def)

lemma lock_reg_promise: "lock_promise pid f cmd type off w len (lock_reg pid f cmd type off w len)"
proof (cases "lock_range f off w len")
  case None
  then show ?thesis
    using lock_range_region(1) [of f off w len] by (simp add: lock_promise_def lock_reg_def fcntl_lock_def)
next
  case (Some rg)
  obtain st n where rg: "lock_range f off w len = Some (st, n)" using Some by (cases rg) auto
  note reg = lock_range_region(2) [OF rg]
  have in_file: "\<not> seek_base f w + off + min len 0 < 0"
    using lock_range_region(1) [of f off w len] rg by simp
  show ?thesis
  proof (cases "type = F_UNLCK")
    case True
    then have "\<not> (\<exists>q. in_the_way pid f type off w len q)" by (simp add: in_the_way_def)
    with True rg in_file show ?thesis
      by (auto simp: lock_promise_def lock_reg_def fcntl_lock_def holds_clear_locks reg)
  next
    case False
    note way = conflict_in_the_way [OF rg False, of pid]
    show ?thesis
    proof (cases "\<exists>q. in_the_way pid f type off w len q")
      case True
      with False rg in_file way show ?thesis
        by (simp add: lock_promise_def lock_reg_def fcntl_lock_def split: lock_cmd.splits)
    next
      case free: False
      with way have "\<not> list_ex (conflicting pid type st n) (f_locks f)" by simp
      with free False rg in_file show ?thesis
        by (auto simp: lock_promise_def lock_reg_def fcntl_lock_def holds_clear_locks reg)
    qed
  qed
qed

text \<open>C12: the five locking macros, and \<open>lock_reg\<close> below them, lock what their names and arguments
  say. A region that would start before the file is refused. When another process holds a
  lock that conflicts with the type of the macro on a byte of the region, the call fails and
  changes nothing (\<open>read_lock\<close>, \<open>write_lock\<close>) or waits (\<open>readw_lock\<close>, \<open>writew_lock\<close>); \<open>un_lock\<close>
  never conflicts. Otherwise the caller holds, on exactly the bytes of the region, a lock of
  that type (none after \<open>un_lock\<close>); its locks elsewhere, the locks of all others, and the
  file stay as they are. Two processes never come to hold conflicting locks.\<close>

theorem lock_macros_exact:
  "lock_promise pid f F_SETLK F_RDLCK off w len (read_lock pid f off w len) \<and>
   lock_promise pid f F_SETLKW F_RDLCK off w len (readw_lock pid f off w len) \<and>
   lock_promise pid f F_SETLK F_WRLCK off w len (write_lock pid f off w len) \<and>
   lock_promise pid f F_SETLKW F_WRLCK off w len (writew_lock pid f off w len) \<and>
   lock_promise pid f F_SETLK F_UNLCK off w len (un_lock pid f off w len) \<and>
   (\<forall>cmd type. lock_promise pid f cmd type off w len (lock_reg pid f cmd type off w len)) \<and>
   (\<forall>cmd type v f'. locks_ok (f_locks f) \<longrightarrow> lock_reg pid f cmd type off w len = Inr (v, f') \<longrightarrow> locks_ok (f_locks f'))"
  using lock_reg_promise [of pid f _ _ off w len] fcntl_lock_locks_ok [of f pid _ _ off w len]
  by (auto simp: read_lock_def readw_lock_def write_lock_def writew_lock_def un_lock_def lock_reg_def)

theorem lock_macros_exact_witness:
  "let f = \<lparr>f_bytes = [], f_pos = 0, f_locks = [\<lparr>l_pid = 2, l_type = F_RDLCK, l_start = 0, l_len = 4\<rparr>]\<rparr> in
   write_lock 1 f 3 SEEK_SET 2 = Inr (-1, f) \<and> writew_lock 1 f 3 SEEK_SET 2 = Inl Blocked \<and>
   (\<exists>f'. write_lock 1 f 4 SEEK_SET 2 = Inr (0, f') \<and> holds (f_locks f') 1 5 F_WRLCK \<and>
      \<not> holds (f_locks f') 1 6 F_WRLCK \<and> locks_ok (f_locks f'))"
proof -
  let ?f = "\<lparr>f_bytes = [], f_pos = 0, f_locks = [\<lparr>l_pid = 2, l_type = F_RDLCK, l_start = 0, l_len = 4\<rparr>]\<rparr>"
  have ok: "locks_ok (f_locks ?f)" by (simp add: locks_ok_def)
  have "in_the_way 1 ?f F_WRLCK 3 SEEK_SET 2 2"
    by (auto simp: in_the_way_def in_region_def seek_base_def in_range_def Let_def intro: exI [of _ 3])
  then have way: "\<exists>q. in_the_way 1 ?f F_WRLCK 3 SEEK_SET 2 q" by blast
  have free: "\<not> (\<exists>q. in_the_way 1 ?f F_WRLCK 4 SEEK_SET 2 q)"
    by (auto simp: in_the_way_def in_region_def seek_base_def in_range_def Let_def)
  have base: "\<not> seek_base ?f SEEK_SET + 3 + min 2 0 < 0" "\<not> seek_base ?f SEEK_SET + 4 + min 2 0 < 0"
    by (simp_all add: seek_base_def)
  have r3: "lock_promise 1 ?f F_SETLK F_WRLCK 3 SEEK_SET 2 (write_lock 1 ?f 3 SEEK_SET 2)"
    "lock_promise 1 ?f F_SETLKW F_WRLCK 3 SEEK_SET 2 (writew_lock 1 ?f 3 SEEK_SET 2)"
    using lock_macros_exact [of 1 ?f 3 SEEK_SET 2] by blast+
  have r4: "lock_promise 1 ?f F_SETLK F_WRLCK 4 SEEK_SET 2 (write_lock 1 ?f 4 SEEK_SET 2)"
    "\<And>v f'. lock_reg 1 ?f F_SETLK F_WRLCK 4 SEEK_SET 2 = Inr (v, f') \<Longrightarrow> locks_ok (f_locks f')"
    using lock_macros_exact [of 1 ?f 4 SEEK_SET 2] ok by blast+
  from r4(1) obtain f' where f': "write_lock 1 ?f 4 SEEK_SET 2 = Inr (0, f')"
    "\<And>q b ty. holds (f_locks f') q b ty \<longleftrightarrow>
        (if q = 1 \<and> in_region ?f 4 SEEK_SET 2 (int b) then ty = F_WRLCK else holds (f_locks ?f) q b ty)"
    unfolding lock_promise_def if_not_P [OF base(2)] if_not_P [OF free] by auto
  have "locks_ok (f_locks f')" using r4(2) f'(1) by (simp add: write_lock_def)
  moreover have "holds (f_locks f') 1 5 F_WRLCK \<and> \<not> holds (f_locks f') 1 6 F_WRLCK"
    by (simp add: f'(2) in_region_def seek_base_def)
  ultimately show ?thesis
    using r3 f'(1) unfolding lock_promise_def if_not_P [OF base(1)] if_P [OF way] Let_def by simp
qed

text \<open>\<open>lock_test\<close> answers the question it is asked: it returns 0 exactly when
  \<open>lock_reg\<close> with \<open>F_SETLK\<close> and the same arguments would be granted, and otherwise the pid of
  another process that holds a lock on the region.\<close>

theorem lock_test_predicts_lock_reg:
  assumes "lock_test pid f ty off w len = Inr owner" "ty \<noteq> F_UNLCK"
    and "\<forall>l \<in> set (f_locks f). l_pid l \<noteq> 0 \<and> l_type l \<noteq> F_UNLCK"
  shows "(owner = 0 \<longleftrightarrow> (\<exists>f'. lock_reg pid f F_SETLK ty off w len = Inr (0, f'))) \<and>
         (owner \<noteq> 0 \<longrightarrow> owner \<noteq> pid \<and> (\<exists>l \<in> set (f_locks f). l_pid l = owner))"
proof -
  from assms(1) obtain st n where rg: "lock_range f off w len = Some (st, n)"
    by (auto simp: lock_test_def fcntl_getlk_def split: option.splits)
  show ?thesis
  proof (cases "find (conflicting pid ty st n) (f_locks f)")
    case None
    then have "\<not> list_ex (conflicting pid ty st n) (f_locks f)"
      by (auto simp: find_None_iff list_ex_iff)
    with None assms rg show ?thesis
      by (auto simp: lock_test_def fcntl_getlk_def lock_reg_def fcntl_lock_def)
  next
    case (Some l)
    then have l: "l \<in> set (f_locks f)" "conflicting pid ty st n l"
      by (auto simp: find_Some_iff)
    then have "list_ex (conflicting pid ty st n) (f_locks f)" by (auto simp: list_ex_iff)
    with Some assms rg l show ?thesis
      by (auto simp: lock_test_def fcntl_getlk_def lock_reg_def fcntl_lock_def conflicting_def)
  qed
qed

theorem lock_test_predicts_lock_reg_witness:
  "lock_test 1 \<lparr>f_bytes = [], f_pos = 0, f_locks =
       [\<lparr>l_pid = 2, l_type = F_RDLCK, l_start = 0, l_len = 0\<rparr>]\<rparr> F_WRLCK 4 SEEK_SET 2 = Inr 2
   \<and> \<not> (\<exists>f'. lock_reg 1 \<lparr>f_bytes = [], f_pos = 0, f_locks =
       [\<lparr>l_pid = 2, l_type = F_RDLCK, l_start = 0, l_len = 0\<rparr>]\<rparr> F_SETLK F_WRLCK 4 SEEK_SET 2 = Inr (0, f'))"
proof -
  let ?f = "\<lparr>f_bytes = [], f_pos = 0, f_locks =
       [\<lparr>l_pid = 2, l_type = F_RDLCK, l_start = 0, l_len = 0\<rparr>]\<rparr>"
  have t: "lock_test 1 ?f F_WRLCK 4 SEEK_SET 2 = Inr 2"
    by (simp add: lock_test_def fcntl_getlk_def lock_range_def seek_base_def conflicting_def
        ranges_meet_def)
  show ?thesis using lock_test_predicts_lock_reg [OF t] t by simp
qed

end
