(* ===== verification/Db_Model.thy ===== *)
theory Db_Model
  imports Posix_File
begin

text \<open>
  The database library \<open>db/db.c\<close>, function by function. The state of every operation is
  the \<open>DB\<close> structure together with what the kernel keeps for its two descriptors: the fields
  \<open>idxfd\<close> and \<open>datfd\<close> hold the open files themselves (bytes, offset, record locks),
  \<open>self\<close> is the calling process and \<open>errno\<close> its error number. \<open>faults\<close> is the schedule of
  system-call failures: every system call takes one element and fails when it is \<open>True\<close>;
  an empty schedule means that no further call fails. All loops over the index file carry
  the number of bytes of the file as fuel: a chain of index records without repetition is
  shorter than that, so running out of fuel (\<open>Diverges\<close>) means the chain is cyclic and the C
  loop does not end.
\<close>

section \<open>Constants and the DB structure\<close>

abbreviation IDXLEN_SZ :: nat where "IDXLEN_SZ \<equiv> 4"
abbreviation SEP :: char where "SEP \<equiv> CHR '':''"
abbreviation PTR_SZ :: nat where "PTR_SZ \<equiv> 7"
abbreviation PTR_MAX :: int where "PTR_MAX \<equiv> 9999999"
abbreviation NHASH_DEF :: nat where "NHASH_DEF \<equiv> 137"
abbreviation FREE_OFF :: int where "FREE_OFF \<equiv> 0"
abbreviation HASH_OFF :: nat where "HASH_OFF \<equiv> PTR_SZ"
abbreviation IDXLEN_MIN :: int where "IDXLEN_MIN \<equiv> 6"
abbreviation IDXLEN_MAX :: int where "IDXLEN_MAX \<equiv> 1024"
abbreviation DATLEN_MIN :: int where "DATLEN_MIN \<equiv> 2"
abbreviation DATLEN_MAX :: int where "DATLEN_MAX \<equiv> 1024"
abbreviation DB_INSERT :: int where "DB_INSERT \<equiv> 1"
abbreviation DB_REPLACE :: int where "DB_REPLACE \<equiv> 2"
abbreviation DB_STORE :: int where "DB_STORE \<equiv> 3"
abbreviation EINVAL :: int where "EINVAL \<equiv> 22"
abbreviation ENOENT :: int where "ENOENT \<equiv> 2"

record DB =
  idxfd :: ofile
  datfd :: ofile
  idxbuf :: string
  datbuf :: string
  name :: string
  idxoff :: int
  idxlen :: int
  datoff :: int
  datlen :: int
  ptrval :: int
  ptroff :: int
  chainoff :: int
  hashoff :: nat
  nhash :: nat
  cnt_delok :: "64 word"
  cnt_delerr :: "64 word"
  cnt_fetchok :: "64 word"
  cnt_fetcherr :: "64 word"
  cnt_nextrec :: "64 word"
  cnt_stor1 :: "64 word"
  cnt_stor2 :: "64 word"
  cnt_stor3 :: "64 word"
  cnt_stor4 :: "64 word"
  cnt_storerr :: "64 word"
  self :: nat
  errno :: int
  faults :: "bool list"

section \<open>System calls on the two descriptors\<close>

datatype dbfd = IDX | DAT

fun fd_get :: "dbfd \<Rightarrow> DB \<Rightarrow> ofile" where
  "fd_get IDX db = idxfd db"
| "fd_get DAT db = datfd db"

fun fd_put :: "dbfd \<Rightarrow> ofile \<Rightarrow> DB \<Rightarrow> DB" where
  "fd_put IDX f db = db\<lparr>idxfd := f\<rparr>"
| "fd_put DAT f db = db\<lparr>datfd := f\<rparr>"

definition fault_io :: "(DB, bool) io" where
  "fault_io db = (case faults db of [] \<Rightarrow> Inr (False, db) | b # bs \<Rightarrow> Inr (b, db\<lparr>faults := bs\<rparr>))"

definition lseek_io :: "dbfd \<Rightarrow> int \<Rightarrow> whence \<Rightarrow> (DB, int) io" where
  "lseek_io fd off w = bind_io fault_io (\<lambda>bad db.
     if bad then Inr (-1, db)
     else (case lseek (fd_get fd db) off w of (p, f) \<Rightarrow> Inr (p, fd_put fd f db)))"

text \<open>\<open>read\<close>: \<open>None\<close> for -1, otherwise the bytes read.\<close>

definition read_io :: "dbfd \<Rightarrow> nat \<Rightarrow> (DB, string option) io" where
  "read_io fd n = bind_io fault_io (\<lambda>bad db.
     if bad then Inr (None, db)
     else (case read_file (fd_get fd db) n of (bs, f) \<Rightarrow> Inr (Some bs, fd_put fd f db)))"

definition write_io :: "dbfd \<Rightarrow> string \<Rightarrow> (DB, int) io" where
  "write_io fd bs = bind_io fault_io (\<lambda>bad db.
     if bad then Inr (-1, db)
     else Inr (int (length bs), fd_put fd (write_file (fd_get fd db) bs) db))"

definition lock_io ::
  "(nat \<Rightarrow> ofile \<Rightarrow> int \<Rightarrow> whence \<Rightarrow> int \<Rightarrow> exit_reason + (int \<times> ofile))
     \<Rightarrow> dbfd \<Rightarrow> int \<Rightarrow> int \<Rightarrow> (DB, int) io" where
  "lock_io call fd off len = bind_io fault_io (\<lambda>bad db.
     if bad then Inr (-1, db)
     else (case call (self db) (fd_get fd db) off SEEK_SET len of
             Inl e \<Rightarrow> Inl e
           | Inr (v, f) \<Rightarrow> Inr (v, fd_put fd f db)))"

text \<open>\<open>if (call < 0) err_dump(msg);\<close>\<close>

definition or_dump :: "(DB, int) io \<Rightarrow> string \<Rightarrow> (DB, unit) io" where
  "or_dump m msg = bind_io m (\<lambda>r. when_io (r < 0) (fail_io (Dump msg)))"

section \<open>Hash value of a key\<close>

text \<open>A \<open>char\<close> is signed, as on the x86 targets of the makefiles.\<close>

definition schar :: "char \<Rightarrow> int" where
  "schar c = (let v = int (of_char c) in if v < 128 then v else v - 256)"

fun db_hash_loop :: "int \<Rightarrow> 64 word \<Rightarrow> string \<Rightarrow> 64 word" where
  "db_hash_loop i hval [] = hval"
| "db_hash_loop i hval (c # cs) = db_hash_loop (i + 1) (hval + word_of_int (schar c * i)) cs"

definition db_hash :: "DB \<Rightarrow> string \<Rightarrow> nat" where
  "db_hash db key = unat (db_hash_loop 1 0 key) mod nhash db"

section \<open>Reading the index and data files\<close>

definition db_readptr :: "int \<Rightarrow> (DB, int) io" where
  "db_readptr offset =
     bind_io (lseek_io IDX offset SEEK_SET) (\<lambda>p.
     if p = -1 then fail_io (Dump ''_db_readptr: lseek error to ptr field'')
     else bind_io (read_io IDX PTR_SZ) (\<lambda>r.
     case r of
       None \<Rightarrow> fail_io (Dump ''_db_readptr: read error of ptr field'')
     | Some asciiptr \<Rightarrow>
         if length asciiptr \<noteq> PTR_SZ then fail_io (Dump ''_db_readptr: read error of ptr field'')
         else ret_io (atol asciiptr)))"

text \<open>
  The separators of an index record: the string up to the first separator, the string up to
  the second, and the rest, which may hold no third.
\<close>

definition split_idx :: "string \<Rightarrow> exit_reason + (string \<times> string \<times> string)" where
  "split_idx s =
     (if SEP \<notin> set s then Inl (Dump ''_db_readidx: missing first separator'')
      else let key = takeWhile (\<lambda>c. c \<noteq> SEP) s; ptr1 = tl (dropWhile (\<lambda>c. c \<noteq> SEP) s) in
      if SEP \<notin> set ptr1 then Inl (Dump ''_db_readidx: missing second separator'')
      else let off = takeWhile (\<lambda>c. c \<noteq> SEP) ptr1; ptr2 = tl (dropWhile (\<lambda>c. c \<noteq> SEP) ptr1) in
      if SEP \<in> set ptr2 then Inl (Dump ''_db_readidx: too many separators'')
      else Inr (key, off, ptr2))"

text \<open>The second half of \<open>_db_readidx\<close>: the index record itself is in hand.\<close>

definition db_parseidx :: "string \<Rightarrow> (DB, int) io" where
  "db_parseidx bs =
     (if last bs \<noteq> NEWLINE then fail_io (Dump ''_db_readidx: missing newline'')
      else case split_idx (cstr (butlast bs)) of
        Inl e \<Rightarrow> fail_io e
      | Inr (key, ptr1, ptr2) \<Rightarrow>
          seq_io (modify_io (\<lambda>db. db\<lparr>idxbuf := key @ [NUL] @ ptr1 @ [NUL] @ ptr2 @ [NUL],
                                      datoff := atol ptr1\<rparr>))
          (if atol ptr1 < 0 then fail_io (Dump ''_db_readidx: starting offset < 0'')
           else seq_io (modify_io (\<lambda>db. db\<lparr>datlen := atol ptr2\<rparr>))
           (if atol ptr2 \<le> 0 \<or> atol ptr2 > DATLEN_MAX
            then fail_io (Dump ''_db_readidx: invalid length'')
            else gets_io ptrval)))"

definition db_readidx :: "int \<Rightarrow> (DB, int) io" where
  "db_readidx offset =
     bind_io (lseek_io IDX offset (if offset = 0 then SEEK_CUR else SEEK_SET)) (\<lambda>p.
     seq_io (modify_io (\<lambda>db. db\<lparr>idxoff := p\<rparr>))
     (if p = -1 then fail_io (Dump ''_db_readidx: lseek error'')
      else bind_io (read_io IDX (PTR_SZ + IDXLEN_SZ)) (\<lambda>r.
        let bs = (case r of None \<Rightarrow> [] | Some bs \<Rightarrow> bs) in
        if r = None \<or> length bs \<noteq> PTR_SZ + IDXLEN_SZ
        then (if r = Some [] \<and> offset = 0 then ret_io (-1)
              else fail_io (Dump ''_db_readidx: readv error of index record''))
        else
          seq_io (modify_io (\<lambda>db. db\<lparr>ptrval := atol (take PTR_SZ bs),
                                      idxlen := atol (drop PTR_SZ bs)\<rparr>))
          (let len = atol (drop PTR_SZ bs) in
           if len < IDXLEN_MIN \<or> len > IDXLEN_MAX
           then fail_io (Dump ''_db_readidx: invalid length'')
           else bind_io (read_io IDX (nat len)) (\<lambda>r2.
             case r2 of
               None \<Rightarrow> fail_io (Dump ''_db_readidx: read error of index record'')
             | Some rec \<Rightarrow>
                 if int (length rec) \<noteq> len
                 then fail_io (Dump ''_db_readidx: read error of index record'')
                 else db_parseidx rec)))))"

text \<open>The returned pointer is the data buffer: the result is the string in it.\<close>

definition db_readdat :: "(DB, string) io" where
  "db_readdat =
     bind_io (gets_io datoff) (\<lambda>off.
     bind_io (gets_io datlen) (\<lambda>len.
     bind_io (lseek_io DAT off SEEK_SET) (\<lambda>p.
     if p = -1 then fail_io (Dump ''_db_readdat: lseek error'')
     else bind_io (read_io DAT (nat len)) (\<lambda>r.
     case r of
       None \<Rightarrow> fail_io (Dump ''_db_readdat: read error'')
     | Some bs \<Rightarrow>
         if int (length bs) \<noteq> len then fail_io (Dump ''_db_readdat: read error'')
         else if last bs \<noteq> NEWLINE then fail_io (Dump ''_db_readdat: missing newline'')
         else seq_io (modify_io (\<lambda>db. db\<lparr>datbuf := butlast bs @ [NUL]\<rparr>))
                (gets_io (\<lambda>db. cstr (datbuf db)))))))"

section \<open>Writing the index and data files\<close>

definition db_writeptr :: "int \<Rightarrow> int \<Rightarrow> (DB, unit) io" where
  "db_writeptr offset pv =
     (if pv < 0 \<or> pv > PTR_MAX then fail_io (QuitExit ''_db_writeptr: invalid ptr'')
      else
        bind_io (lseek_io IDX offset SEEK_SET) (\<lambda>p.
        if p = -1 then fail_io (Dump ''_db_writeptr: lseek error to ptr field'')
        else bind_io (write_io IDX (take PTR_SZ (padl PTR_SZ (dec_int pv)))) (\<lambda>n.
        when_io (n \<noteq> int PTR_SZ) (fail_io (Dump ''_db_writeptr: write error of ptr field'')))))"

definition db_writedat :: "string \<Rightarrow> int \<Rightarrow> whence \<Rightarrow> (DB, unit) io" where
  "db_writedat data offset whence =
     seq_io (when_io (whence = SEEK_END)
       (or_dump (lock_io writew_lock DAT 0 0) ''_db_writedat: writew_lock error''))
     (bind_io (lseek_io DAT offset whence) (\<lambda>p.
      seq_io (modify_io (\<lambda>db. db\<lparr>datoff := p\<rparr>))
      (if p = -1 then fail_io (Dump ''_db_writedat: lseek error'')
       else
         seq_io (modify_io (\<lambda>db. db\<lparr>datlen := int (length data) + 1\<rparr>))
         (bind_io (write_io DAT (data @ [NEWLINE])) (\<lambda>n.
          if n \<noteq> int (length data) + 1
          then fail_io (Dump ''_db_writedat: writev error of data record'')
          else when_io (whence = SEEK_END)
                 (or_dump (lock_io un_lock DAT 0 0) ''_db_writedat: un_lock error''))))))"

text \<open>
  \<open>sprintf\<close> writes the record and a null byte into \<open>idxbuf\<close>, which has \<open>IDXLEN_MAX + 2\<close> bytes:
  a longer record is stored outside the buffer before its length is checked. In the call
  from \<open>_db_dodelete\<close> the key argument is the string in \<open>idxbuf\<close> itself; C leaves a copy
  between overlapping objects undefined, and the model gives the result of copying the key
  onto itself before the rest is appended, which is what the code relies on.
\<close>

definition db_writeidx :: "string \<Rightarrow> int \<Rightarrow> whence \<Rightarrow> int \<Rightarrow> (DB, unit) io" where
  "db_writeidx key offset whence pv =
     seq_io (modify_io (\<lambda>db. db\<lparr>ptrval := pv\<rparr>))
     (if pv < 0 \<or> pv > PTR_MAX then fail_io (QuitExit ''_db_writeidx: invalid ptr'')
      else bind_io (gets_io (\<lambda>db. key @ [SEP] @ dec_int (datoff db) @ [SEP] @ dec_int (datlen db) @ [NEWLINE]))
      (\<lambda>rec.
      seq_io (if int (length rec) + 1 > IDXLEN_MAX + 2 then fail_io (Undefined ''_db_writeidx: idxbuf overflow'')
              else modify_io (\<lambda>db. db\<lparr>idxbuf := rec @ [NUL]\<rparr>))
      (let len = int (length rec) in
       if len < IDXLEN_MIN \<or> len > IDXLEN_MAX then fail_io (Dump ''_db_writeidx: invalid length'')
       else
        bind_io (gets_io (\<lambda>db. int ((nhash db + 1) * PTR_SZ) + 1)) (\<lambda>recs.
        seq_io (when_io (whence = SEEK_END)
          (or_dump (lock_io writew_lock IDX recs 0) ''_db_writeidx: writew_lock error''))
        (bind_io (lseek_io IDX offset whence) (\<lambda>p.
         seq_io (modify_io (\<lambda>db. db\<lparr>idxoff := p\<rparr>))
         (if p = -1 then fail_io (Dump ''_db_writeidx: lseek error'')
          else
           bind_io (write_io IDX
             (take (PTR_SZ + IDXLEN_SZ) (padl PTR_SZ (dec_int pv) @ padl IDXLEN_SZ (dec_int len)) @ rec))
           (\<lambda>n.
            if n \<noteq> int (PTR_SZ + IDXLEN_SZ) + len
            then fail_io (Dump ''_db_writeidx: writev error of index record'')
            else when_io (whence = SEEK_END)
                   (or_dump (lock_io un_lock IDX recs 0) ''_db_writeidx: un_lock error'')))))))))"

section \<open>Finding a record\<close>

fun db_find_loop :: "nat \<Rightarrow> string \<Rightarrow> int \<Rightarrow> (DB, int) io" where
  "db_find_loop fuel key offset =
     (if offset = 0 then ret_io 0
      else case fuel of
        0 \<Rightarrow> fail_io Diverges
      | Suc n \<Rightarrow>
          bind_io (db_readidx offset) (\<lambda>nextoffset.
          bind_io (gets_io (\<lambda>db. cstr (idxbuf db))) (\<lambda>k.
          if k = key then ret_io offset
          else seq_io (modify_io (\<lambda>db. db\<lparr>ptroff := offset\<rparr>)) (db_find_loop n key nextoffset))))"

declare db_find_loop.simps [simp del]

definition idx_fuel :: "DB \<Rightarrow> nat" where
  "idx_fuel db = Suc (length (f_bytes (idxfd db)))"

definition db_find_and_lock :: "string \<Rightarrow> bool \<Rightarrow> (DB, int) io" where
  "db_find_and_lock key writelock =
     seq_io (modify_io (\<lambda>db. let c = int (db_hash db key * PTR_SZ + hashoff db) in
                            db\<lparr>chainoff := c, ptroff := c\<rparr>))
     (bind_io (gets_io chainoff) (\<lambda>c.
      seq_io (if writelock
              then or_dump (lock_io writew_lock IDX c 1) ''_db_find_and_lock: writew_lock error''
              else or_dump (lock_io readw_lock IDX c 1) ''_db_find_and_lock: readw_lock error'')
      (bind_io (gets_io ptroff) (\<lambda>po.
       bind_io (db_readptr po) (\<lambda>offset.
       bind_io (gets_io idx_fuel) (\<lambda>fuel.
       bind_io (db_find_loop fuel key offset) (\<lambda>found.
       ret_io (if found = 0 then -1 else 0))))))))"

section \<open>Fetch, delete, store\<close>

definition unlock_chain :: "string \<Rightarrow> (DB, unit) io" where
  "unlock_chain msg = bind_io (gets_io chainoff) (\<lambda>c. or_dump (lock_io un_lock IDX c 1) msg)"

definition db_fetch :: "string \<Rightarrow> (DB, string option) io" where
  "db_fetch key =
     bind_io (db_find_and_lock key False) (\<lambda>rc.
     bind_io (if rc < 0
              then seq_io (modify_io (\<lambda>db. db\<lparr>cnt_fetcherr := cnt_fetcherr db + 1\<rparr>)) (ret_io None)
              else bind_io db_readdat (\<lambda>d.
                   seq_io (modify_io (\<lambda>db. db\<lparr>cnt_fetchok := cnt_fetchok db + 1\<rparr>)) (ret_io (Some d))))
     (\<lambda>ptr. seq_io (unlock_chain ''db_fetch: un_lock error'') (ret_io ptr)))"

definition db_dodelete :: "(DB, unit) io" where
  "db_dodelete =
     seq_io (modify_io (\<lambda>db. db\<lparr>
         datbuf := replicate (nat (datlen db - 1)) SPACE @ [NUL],
         idxbuf := replicate (length (cstr (idxbuf db))) SPACE @ drop (length (cstr (idxbuf db))) (idxbuf db)\<rparr>))
     (seq_io (or_dump (lock_io writew_lock IDX FREE_OFF 1) ''_db_dodelete: writew_lock error'')
     (bind_io (gets_io (\<lambda>db. cstr (datbuf db))) (\<lambda>blank.
      bind_io (gets_io datoff) (\<lambda>doff.
      seq_io (db_writedat blank doff SEEK_SET)
     (bind_io (db_readptr FREE_OFF) (\<lambda>freeptr.
      bind_io (gets_io ptrval) (\<lambda>saveptr.
      bind_io (gets_io (\<lambda>db. cstr (idxbuf db))) (\<lambda>k.
      bind_io (gets_io idxoff) (\<lambda>ioff.
      seq_io (db_writeidx k ioff SEEK_SET freeptr)
     (bind_io (gets_io idxoff) (\<lambda>ioff2.
      seq_io (db_writeptr FREE_OFF ioff2)
     (bind_io (gets_io ptroff) (\<lambda>po.
      seq_io (db_writeptr po saveptr)
      (or_dump (lock_io un_lock IDX FREE_OFF 1) ''_db_dodelete: un_lock error''))))))))))))))"

definition db_delete :: "string \<Rightarrow> (DB, int) io" where
  "db_delete key =
     bind_io (db_find_and_lock key True) (\<lambda>found.
     bind_io (if found = 0
              then seq_io db_dodelete
                   (seq_io (modify_io (\<lambda>db. db\<lparr>cnt_delok := cnt_delok db + 1\<rparr>)) (ret_io 0))
              else seq_io (modify_io (\<lambda>db. db\<lparr>cnt_delerr := cnt_delerr db + 1\<rparr>)) (ret_io (-1)))
     (\<lambda>rc. seq_io (unlock_chain ''db_delete: un_lock error'') (ret_io rc)))"

text \<open>
  The search of \<open>_db_findfree\<close>: the offset of the record found (0 when there is none) and
  the offset of the chain pointer that points to it.
\<close>

fun db_free_loop :: "nat \<Rightarrow> nat \<Rightarrow> int \<Rightarrow> int \<Rightarrow> int \<Rightarrow> (DB, int \<times> int) io" where
  "db_free_loop fuel keylen datalen saveoffset offset =
     (if offset = 0 then ret_io (0, saveoffset)
      else case fuel of
        0 \<Rightarrow> fail_io Diverges
      | Suc n \<Rightarrow>
          bind_io (db_readidx offset) (\<lambda>nextoffset.
          bind_io (gets_io (\<lambda>db. length (cstr (idxbuf db)) = keylen \<and> datlen db = datalen)) (\<lambda>hit.
          if hit then ret_io (offset, saveoffset)
          else db_free_loop n keylen datalen offset nextoffset)))"

declare db_free_loop.simps [simp del]

definition db_findfree :: "nat \<Rightarrow> int \<Rightarrow> (DB, int) io" where
  "db_findfree keylen datalen =
     seq_io (or_dump (lock_io writew_lock IDX FREE_OFF 1) ''_db_findfree: writew_lock error'')
     (bind_io (db_readptr FREE_OFF) (\<lambda>offset.
      bind_io (gets_io idx_fuel) (\<lambda>fuel.
      bind_io (db_free_loop fuel keylen datalen FREE_OFF offset) (\<lambda>(found, saveoffset).
      bind_io (if found = 0 then ret_io (-1)
               else bind_io (gets_io ptrval) (\<lambda>pv. seq_io (db_writeptr saveoffset pv) (ret_io 0)))
      (\<lambda>rc.
       seq_io (or_dump (lock_io un_lock IDX FREE_OFF 1) ''_db_findfree: un_lock error'')
       (ret_io rc))))))"

text \<open>
  The two ways \<open>db_store\<close> writes a new record: at the end of both files, or over the free
  record \<open>_db_findfree\<close> left in \<open>datoff\<close> and \<open>idxoff\<close>; either becomes the head of the chain.
\<close>

definition db_append_rec :: "string \<Rightarrow> string \<Rightarrow> int \<Rightarrow> (DB, unit) io" where
  "db_append_rec key data pv =
     seq_io (db_writedat data 0 SEEK_END)
     (seq_io (db_writeidx key 0 SEEK_END pv)
     (bind_io (gets_io chainoff) (\<lambda>c. bind_io (gets_io idxoff) (\<lambda>o1. db_writeptr c o1))))"

definition db_reuse_rec :: "string \<Rightarrow> string \<Rightarrow> int \<Rightarrow> (DB, unit) io" where
  "db_reuse_rec key data pv =
     bind_io (gets_io datoff) (\<lambda>doff.
     seq_io (db_writedat data doff SEEK_SET)
     (bind_io (gets_io idxoff) (\<lambda>ioff.
      seq_io (db_writeidx key ioff SEEK_SET pv)
     (bind_io (gets_io chainoff) (\<lambda>c. bind_io (gets_io idxoff) (\<lambda>o1. db_writeptr c o1))))))"

definition db_store_new :: "string \<Rightarrow> string \<Rightarrow> int \<Rightarrow> (DB, unit) io" where
  "db_store_new key data dlen =
     bind_io (gets_io chainoff) (\<lambda>c.
     bind_io (db_readptr c) (\<lambda>pv.
     bind_io (db_findfree (length key) dlen) (\<lambda>rc.
     if rc < 0
     then seq_io (db_append_rec key data pv)
            (modify_io (\<lambda>db. db\<lparr>cnt_stor1 := cnt_stor1 db + 1\<rparr>))
     else seq_io (db_reuse_rec key data pv)
            (modify_io (\<lambda>db. db\<lparr>cnt_stor2 := cnt_stor2 db + 1\<rparr>)))))"

definition db_store_over :: "string \<Rightarrow> string \<Rightarrow> int \<Rightarrow> (DB, unit) io" where
  "db_store_over key data dlen =
     bind_io (gets_io datlen) (\<lambda>old.
     if dlen \<noteq> old
     then seq_io db_dodelete
            (bind_io (gets_io chainoff) (\<lambda>c.
             bind_io (db_readptr c) (\<lambda>pv.
             seq_io (db_append_rec key data pv)
               (modify_io (\<lambda>db. db\<lparr>cnt_stor3 := cnt_stor3 db + 1\<rparr>)))))
     else bind_io (gets_io datoff) (\<lambda>doff.
            seq_io (db_writedat data doff SEEK_SET)
              (modify_io (\<lambda>db. db\<lparr>cnt_stor4 := cnt_stor4 db + 1\<rparr>))))"

definition db_store :: "string \<Rightarrow> string \<Rightarrow> int \<Rightarrow> (DB, int) io" where
  "db_store key data flag =
     (if flag \<noteq> DB_INSERT \<and> flag \<noteq> DB_REPLACE \<and> flag \<noteq> DB_STORE
      then seq_io (modify_io (\<lambda>db. db\<lparr>errno := EINVAL\<rparr>)) (ret_io (-1))
      else let dlen = int (length data) + 1 in
      if dlen < DATLEN_MIN \<or> dlen > DATLEN_MAX
      then fail_io (Dump ''db_store: invalid data length'')
      else bind_io (db_find_and_lock key True) (\<lambda>found.
      bind_io (if found < 0
               then if flag = DB_REPLACE
                    then seq_io (modify_io (\<lambda>db. db\<lparr>cnt_storerr := cnt_storerr db + 1, errno := ENOENT\<rparr>))
                           (ret_io (-1))
                    else seq_io (db_store_new key data dlen) (ret_io 0)
               else if flag = DB_INSERT
                    then seq_io (modify_io (\<lambda>db. db\<lparr>cnt_storerr := cnt_storerr db + 1\<rparr>)) (ret_io 1)
                    else seq_io (db_store_over key data dlen) (ret_io 0))
      (\<lambda>rc. seq_io (unlock_chain ''db_store: un_lock error'') (ret_io rc))))"

section \<open>Sequential access\<close>

definition db_rewind :: "(DB, unit) io" where
  "db_rewind =
     bind_io (gets_io (\<lambda>db. int ((nhash db + 1) * PTR_SZ))) (\<lambda>offset.
     bind_io (lseek_io IDX (offset + 1) SEEK_SET) (\<lambda>p.
     seq_io (modify_io (\<lambda>db. db\<lparr>idxoff := p\<rparr>))
       (when_io (p = -1) (fail_io (Dump ''db_rewind: lseek error'')))))"

text \<open>The loop of \<open>db_nextrec\<close>: \<open>True\<close> when a record with a nonblank key is in the buffer.\<close>

fun db_next_loop :: "nat \<Rightarrow> (DB, bool) io" where
  "db_next_loop fuel =
     (case fuel of
        0 \<Rightarrow> fail_io Diverges
      | Suc n \<Rightarrow>
          bind_io (db_readidx 0) (\<lambda>r.
          if r < 0 then ret_io False
          else bind_io (gets_io (\<lambda>db. list_all (\<lambda>c. c = SPACE) (cstr (idxbuf db)))) (\<lambda>blank.
               if blank then db_next_loop n else ret_io True)))"

declare db_next_loop.simps [simp del]

definition db_nextrec :: "(DB, (string \<times> string) option) io" where
  "db_nextrec =
     seq_io (or_dump (lock_io readw_lock IDX FREE_OFF 1) ''db_nextrec: readw_lock error'')
     (bind_io (gets_io idx_fuel) (\<lambda>fuel.
      bind_io (db_next_loop fuel) (\<lambda>more.
      bind_io (if \<not> more then ret_io None
               else bind_io (gets_io (\<lambda>db. cstr (idxbuf db))) (\<lambda>key.
                    bind_io db_readdat (\<lambda>d.
                    seq_io (modify_io (\<lambda>db. db\<lparr>cnt_nextrec := cnt_nextrec db + 1\<rparr>))
                      (ret_io (Some (key, d))))))
      (\<lambda>ptr.
       seq_io (or_dump (lock_io un_lock IDX FREE_OFF 1) ''db_nextrec: un_lock error'')
         (ret_io ptr)))))"

section \<open>Opening and closing\<close>

text \<open>
  The files of the system by path name, and the flags \<open>db_open\<close> passes to \<open>open(2)\<close>. The
  access mode is \<open>O_RDWR\<close>. While the database is open its bytes are those of the open files:
  one process at a time has it open.
\<close>

type_synonym fsys = "string \<rightharpoonup> string"

record oflags =
  O_CREAT :: bool
  O_TRUNC :: bool
  O_EXCL :: bool

definition sys_open :: "fsys \<Rightarrow> string \<Rightarrow> oflags \<Rightarrow> (ofile \<times> fsys) option" where
  "sys_open fs path fl =
     (case fs path of
        None \<Rightarrow> if O_CREAT fl
                then Some (\<lparr>f_bytes = [], f_pos = 0, f_locks = []\<rparr>, fs(path \<mapsto> []))
                else None
      | Some bs \<Rightarrow>
          if O_CREAT fl \<and> O_EXCL fl then None
          else let bs' = (if O_TRUNC fl then [] else bs) in
               Some (\<lparr>f_bytes = bs', f_pos = 0, f_locks = []\<rparr>, fs(path \<mapsto> bs')))"

text \<open>\<open>_db_alloc\<close>: the zeroed structure, then the name and the two buffers.\<close>

definition db_zero :: "nat \<Rightarrow> string \<Rightarrow> bool list \<Rightarrow> DB" where
  "db_zero pid path flts =
     (let nofile = \<lparr>f_bytes = [], f_pos = 0, f_locks = []\<rparr> in
      \<lparr>idxfd = nofile, datfd = nofile, idxbuf = [], datbuf = [], name = path,
       idxoff = 0, idxlen = 0, datoff = 0, datlen = 0, ptrval = 0, ptroff = 0, chainoff = 0,
       hashoff = 0, nhash = 0,
       cnt_delok = 0, cnt_delerr = 0, cnt_fetchok = 0, cnt_fetcherr = 0, cnt_nextrec = 0,
       cnt_stor1 = 0, cnt_stor2 = 0, cnt_stor3 = 0, cnt_stor4 = 0, cnt_storerr = 0,
       self = pid, errno = 0, faults = flts\<rparr>)"

definition malloc_io :: "string \<Rightarrow> (DB, unit) io" where
  "malloc_io msg = bind_io fault_io (\<lambda>bad. when_io bad (fail_io (Dump msg)))"

definition db_alloc :: "(DB, unit) io" where
  "db_alloc =
     seq_io (malloc_io ''_db_alloc: calloc error for DB'')
     (seq_io (malloc_io ''_db_alloc: malloc error for name'')
     (seq_io (malloc_io ''_db_alloc: malloc error for index buffer'')
     (malloc_io ''_db_alloc: malloc error for data buffer'')))"

text \<open>The initial index file: \<open>NHASH_DEF + 1\<close> chain pointers with value 0 and a newline.\<close>

definition db_init_image :: string where
  "db_init_image = concat (replicate (NHASH_DEF + 1) (padl PTR_SZ (dec 0))) @ [NEWLINE]"

definition db_init_io :: "(DB, unit) io" where
  "db_init_io =
     seq_io (or_dump (lock_io writew_lock IDX 0 0) ''db_open: writew_lock error'')
     (bind_io fault_io (\<lambda>bad.
      if bad then fail_io (SysExit ''db_open: fstat error'')
      else bind_io (gets_io (\<lambda>db. length (f_bytes (idxfd db)))) (\<lambda>st_size.
      seq_io (when_io (st_size = 0)
        (bind_io (write_io IDX db_init_image) (\<lambda>n.
         when_io (n \<noteq> int (length db_init_image))
           (fail_io (Dump ''db_open: index file init write error'')))))
      (or_dump (lock_io un_lock IDX 0 0) ''db_open: un_lock error''))))"

text \<open>
  \<open>db_open\<close>: \<open>None\<close> is the null handle. Both \<open>open\<close> calls are made before either result is
  looked at, so a failure of one leaves the effect of the other on the file system.
\<close>

definition open_io :: "fsys \<Rightarrow> string \<Rightarrow> oflags \<Rightarrow> (DB, ofile option \<times> fsys) io" where
  "open_io fs path fl = bind_io fault_io (\<lambda>bad.
     ret_io (if bad then (None, fs)
             else case sys_open fs path fl of None \<Rightarrow> (None, fs) | Some (f, fs') \<Rightarrow> (Some f, fs')))"

definition db_open_io :: "fsys \<Rightarrow> string \<Rightarrow> oflags \<Rightarrow> (DB, bool \<times> fsys) io" where
  "db_open_io fs pathname oflag =
     seq_io db_alloc
     (seq_io (modify_io (\<lambda>db. db\<lparr>nhash := NHASH_DEF, hashoff := HASH_OFF\<rparr>))
     (bind_io (open_io fs (pathname @ ''.idx'') oflag) (\<lambda>(r1, fs1).
      bind_io (open_io fs1 (pathname @ ''.dat'') oflag) (\<lambda>(r2, fs2).
      case (r1, r2) of
        (Some f1, Some f2) \<Rightarrow>
          seq_io (modify_io (\<lambda>db. db\<lparr>idxfd := f1, datfd := f2\<rparr>))
          (seq_io (when_io (O_CREAT oflag \<and> O_TRUNC oflag) db_init_io)
          (seq_io db_rewind (ret_io (True, fs2))))
      | _ \<Rightarrow> ret_io (False, fs2)))))"

definition db_open ::
  "nat \<Rightarrow> fsys \<Rightarrow> string \<Rightarrow> oflags \<Rightarrow> bool list \<Rightarrow> exit_reason + (DB option \<times> fsys)" where
  "db_open pid fs pathname oflag flts =
     (case db_open_io fs pathname oflag (db_zero pid (pathname @ ''.dat'') flts) of
        Inl e \<Rightarrow> Inl e
      | Inr ((True, fs'), db) \<Rightarrow> Inr (Some db, fs')
      | Inr ((False, fs'), db) \<Rightarrow> Inr (None, fs'))"

text \<open>
  \<open>close\<close>: the locks of the process on the file go. \<open>_db_free\<close> closes the two descriptors (and
  frees the memory: no \<open>DB\<close> is left); the result is what the kernel keeps of the two files.
\<close>

definition sys_close :: "nat \<Rightarrow> ofile \<Rightarrow> ofile" where
  "sys_close pid f = f\<lparr>f_locks := filter (\<lambda>l. l_pid l \<noteq> pid) (f_locks f)\<rparr>"

definition db_free :: "DB \<Rightarrow> ofile \<times> ofile" where
  "db_free db = (sys_close (self db) (idxfd db), sys_close (self db) (datfd db))"

definition db_close :: "DB \<Rightarrow> ofile \<times> ofile" where
  "db_close db = db_free db"

text \<open>
  A write through a descriptor is a write to the file that its path name refers to. The
  model keeps these bytes with the open files; \<open>as_named\<close> is the file system in which the
  two path names of a database refer to the given files.
\<close>

definition as_named :: "string \<Rightarrow> ofile \<times> ofile \<Rightarrow> fsys \<Rightarrow> fsys" where
  "as_named pathname = (\<lambda>(fi, fd) fs. fs(pathname @ ''.idx'' \<mapsto> f_bytes fi, pathname @ ''.dat'' \<mapsto> f_bytes fd))"

end
