(* ===== verification/Db_Layout.thy ===== *)
theory Db_Layout
  imports Db_Model
begin

text \<open>
  The on-disk format of a database as an abstract layout, and what the byte-level operations
  of \<open>Db_Model\<close> do to it. A layout lists the record slots in file order; slot \<open>i\<close> of the
  index file describes record \<open>i\<close> of the data file. Every place that holds a chain pointer
  (the free-list head, a hash-table entry, a slot) is a cell, so that the list surgery of the
  operations can be stated once for all of them.
\<close>

section \<open>Layouts and their images\<close>

record slot =
  s_ptr :: nat
  s_key :: string
  s_data :: string

record layout =
  L_free :: nat
  L_hash :: "nat list"
  L_slots :: "slot list"

definition ptr7 :: "nat \<Rightarrow> string" where
  "ptr7 p = padl PTR_SZ (dec p)"

definition slot_rec :: "nat \<Rightarrow> slot \<Rightarrow> string" where
  "slot_rec d s = s_key s @ [SEP] @ dec d @ [SEP] @ dec (length (s_data s) + 1) @ [NEWLINE]"

definition enc_slot :: "nat \<Rightarrow> slot \<Rightarrow> string" where
  "enc_slot d s = ptr7 (s_ptr s) @ padl IDXLEN_SZ (dec (length (slot_rec d s))) @ slot_rec d s"

fun enc_slots :: "nat \<Rightarrow> slot list \<Rightarrow> string" where
  "enc_slots d [] = []"
| "enc_slots d (s # ss) = enc_slot d s @ enc_slots (d + length (s_data s) + 1) ss"

fun dat_img :: "slot list \<Rightarrow> string" where
  "dat_img [] = []"
| "dat_img (s # ss) = s_data s @ [NEWLINE] @ dat_img ss"

definition hdr_img :: "layout \<Rightarrow> string" where
  "hdr_img L = ptr7 (L_free L) @ concat (map ptr7 (L_hash L)) @ [NEWLINE]"

definition idx_img :: "layout \<Rightarrow> string" where
  "idx_img L = hdr_img L @ enc_slots 0 (L_slots L)"

definition doff :: "slot list \<Rightarrow> nat \<Rightarrow> nat" where
  "doff ss i = length (dat_img (take i ss))"

abbreviation HDR_SZ :: nat where "HDR_SZ \<equiv> 967"

definition ioff :: "slot list \<Rightarrow> nat \<Rightarrow> nat" where
  "ioff ss i = HDR_SZ + length (enc_slots 0 (take i ss))"

definition ptr_ok :: "nat \<Rightarrow> bool" where
  "ptr_ok p \<longleftrightarrow> p \<le> 9999999"

definition key_ok :: "string \<Rightarrow> bool" where
  "key_ok k \<longleftrightarrow> NUL \<notin> set k \<and> SEP \<notin> set k"

definition data_ok :: "string \<Rightarrow> bool" where
  "data_ok x \<longleftrightarrow> NUL \<notin> set x \<and> 1 \<le> length x \<and> length x \<le> 1023"

definition slot_ok :: "nat \<Rightarrow> slot \<Rightarrow> bool" where
  "slot_ok d s \<longleftrightarrow>
     ptr_ok (s_ptr s) \<and> key_ok (s_key s) \<and> data_ok (s_data s) \<and>
     6 \<le> length (slot_rec d s) \<and> length (slot_rec d s) \<le> 1024"

fun slots_ok :: "nat \<Rightarrow> slot list \<Rightarrow> bool" where
  "slots_ok d [] = True"
| "slots_ok d (s # ss) = (slot_ok d s \<and> slots_ok (d + length (s_data s) + 1) ss)"

definition layout_ok :: "layout \<Rightarrow> bool" where
  "layout_ok L \<longleftrightarrow>
     ptr_ok (L_free L) \<and> length (L_hash L) = NHASH_DEF \<and> list_all ptr_ok (L_hash L) \<and>
     slots_ok 0 (L_slots L)"

lemma length_ptr7 [simp]: "ptr_ok p \<Longrightarrow> length (ptr7 p) = 7"
  using length_dec_le [of p 7] by (simp add: ptr7_def ptr_ok_def length_padl)

lemma atol_ptr7 [simp]: "atol (ptr7 p) = int p"
  by (simp add: ptr7_def)

lemma ptr7_dec_int: "padl PTR_SZ (dec_int (int p)) = ptr7 p"
  by (simp add: ptr7_def dec_int_def)

lemma length_len4 [simp]: "n \<le> 1024 \<Longrightarrow> length (padl IDXLEN_SZ (dec n)) = 4"
  using length_dec_le [of n 4] by (simp add: length_padl)

lemma length_concat_ptr7: "list_all ptr_ok ps \<Longrightarrow> length (concat (map ptr7 ps)) = 7 * length ps"
  by (induction ps) auto

lemma length_hdr_img [simp]: "layout_ok L \<Longrightarrow> length (hdr_img L) = HDR_SZ"
  by (simp add: layout_ok_def hdr_img_def length_concat_ptr7)

lemma length_enc_slot [simp]: "slot_ok d s \<Longrightarrow> length (enc_slot d s) = 11 + length (slot_rec d s)"
  by (simp add: enc_slot_def slot_ok_def)

lemma enc_slots_append:
  "enc_slots d (xs @ ys) = enc_slots d xs @ enc_slots (d + length (dat_img xs)) ys"
  by (induction xs arbitrary: d) (auto simp: ac_simps)

lemma dat_img_append: "dat_img (xs @ ys) = dat_img xs @ dat_img ys"
  by (induction xs) auto

lemma slots_ok_append:
  "slots_ok d (xs @ ys) \<longleftrightarrow> slots_ok d xs \<and> slots_ok (d + length (dat_img xs)) ys"
  by (induction xs arbitrary: d) (auto simp: ac_simps)

lemma slots_ok_nth: "slots_ok 0 ss \<Longrightarrow> i < length ss \<Longrightarrow> slot_ok (doff ss i) (ss ! i)"
  using slots_ok_append [of 0 "take i ss" "ss ! i # drop (Suc i) ss"]
  by (simp add: id_take_nth_drop [symmetric] doff_def)

lemma layout_ok_nth: "layout_ok L \<Longrightarrow> i < length (L_slots L) \<Longrightarrow> slot_ok (doff (L_slots L) i) (L_slots L ! i)"
  by (simp add: layout_ok_def slots_ok_nth)

text \<open>Both images around slot \<open>i\<close>.\<close>

lemma idx_split_slot:
  assumes "i < length (L_slots L)"
  shows "idx_img L =
    (hdr_img L @ enc_slots 0 (take i (L_slots L))) @ enc_slot (doff (L_slots L) i) (L_slots L ! i) @
    enc_slots (doff (L_slots L) i + length (s_data (L_slots L ! i)) + 1) (drop (Suc i) (L_slots L))"
proof -
  have "enc_slots 0 (L_slots L) = enc_slots 0 (take i (L_slots L) @ L_slots L ! i # drop (Suc i) (L_slots L))"
    using assms by (simp add: id_take_nth_drop [symmetric])
  then show ?thesis by (simp add: idx_img_def enc_slots_append doff_def)
qed

lemma dat_split_slot:
  assumes "i < length ss"
  shows "dat_img ss = dat_img (take i ss) @ (s_data (ss ! i) @ [NEWLINE]) @ dat_img (drop (Suc i) ss)"
proof -
  have "dat_img ss = dat_img (take i ss @ ss ! i # drop (Suc i) ss)"
    using assms by (simp add: id_take_nth_drop [symmetric])
  then show ?thesis by (simp add: dat_img_append)
qed

lemma length_idx_prefix:
  "layout_ok L \<Longrightarrow> length (hdr_img L @ enc_slots 0 (take i (L_slots L))) = ioff (L_slots L) i"
  by (simp add: ioff_def)

lemma ioff_length: "layout_ok L \<Longrightarrow> ioff (L_slots L) (length (L_slots L)) = length (idx_img L)"
  by (simp add: ioff_def idx_img_def)

lemma doff_length: "doff ss (length ss) = length (dat_img ss)"
  by (simp add: doff_def)

lemma ioff_pos [simp]: "0 < ioff ss i" "ioff ss i \<noteq> 0" "HDR_SZ \<le> ioff ss i"
  by (auto simp: ioff_def)

lemma ioff_Suc:
  assumes "layout_ok L" "i < length (L_slots L)"
  shows "ioff (L_slots L) (Suc i) = ioff (L_slots L) i + 11 + length (slot_rec (doff (L_slots L) i) (L_slots L ! i))"
  using assms layout_ok_nth [OF assms]
  by (simp add: ioff_def take_Suc_conv_app_nth enc_slots_append doff_def)

lemma ioff_le_length: "layout_ok L \<Longrightarrow> ioff (L_slots L) i \<le> length (idx_img L)"
proof -
  assume ok: "layout_ok L"
  have "enc_slots 0 (L_slots L) = enc_slots 0 (take i (L_slots L) @ drop i (L_slots L))" by simp
  then have "length (enc_slots 0 (take i (L_slots L))) \<le> length (enc_slots 0 (L_slots L))"
    by (simp only: enc_slots_append) simp
  with ok show ?thesis by (simp add: ioff_def idx_img_def)
qed

lemma ioff_mono_add:
  "ioff ss i \<le> ioff ss (i + k)"
proof -
  have "take (i + k) ss = take i ss @ take k (drop i ss)" by (simp add: take_add)
  then show ?thesis by (simp add: ioff_def enc_slots_append)
qed

lemma ioff_strict:
  assumes ok: "layout_ok L" and i: "i < length (L_slots L)" and ij: "i < j"
  shows "ioff (L_slots L) i < ioff (L_slots L) j"
proof -
  obtain k where "j = Suc i + k" using ij less_imp_Suc_add by (metis add_Suc)
  then have "ioff (L_slots L) (Suc i) \<le> ioff (L_slots L) j" by (simp only: ioff_mono_add)
  with ioff_Suc [OF ok i] show ?thesis by simp
qed

lemma ioff_inj:
  assumes "layout_ok L" "i < length (L_slots L)" "j < length (L_slots L)"
  shows "ioff (L_slots L) i = ioff (L_slots L) j \<longleftrightarrow> i = j"
  using assms ioff_strict by (metis less_irrefl nat_neq_iff)

section \<open>Pointer cells\<close>

datatype cell = CFree | CHash nat | CSlot nat

fun cell_ok :: "layout \<Rightarrow> cell \<Rightarrow> bool" where
  "cell_ok L CFree = True"
| "cell_ok L (CHash h) = (h < length (L_hash L))"
| "cell_ok L (CSlot i) = (i < length (L_slots L))"

fun cell_off :: "layout \<Rightarrow> cell \<Rightarrow> nat" where
  "cell_off L CFree = 0"
| "cell_off L (CHash h) = 7 + 7 * h"
| "cell_off L (CSlot i) = ioff (L_slots L) i"

fun cell_get :: "layout \<Rightarrow> cell \<Rightarrow> nat" where
  "cell_get L CFree = L_free L"
| "cell_get L (CHash h) = L_hash L ! h"
| "cell_get L (CSlot i) = s_ptr (L_slots L ! i)"

fun cell_set :: "layout \<Rightarrow> cell \<Rightarrow> nat \<Rightarrow> layout" where
  "cell_set L CFree p = L\<lparr>L_free := p\<rparr>"
| "cell_set L (CHash h) p = L\<lparr>L_hash := (L_hash L)[h := p]\<rparr>"
| "cell_set L (CSlot i) p = L\<lparr>L_slots := (L_slots L)[i := (L_slots L ! i)\<lparr>s_ptr := p\<rparr>]\<rparr>"

lemma cell_set_get [simp]: "cell_ok L c \<Longrightarrow> cell_set L c (cell_get L c) = L"
  by (cases c) auto

lemma cell_get_set: "cell_ok L c \<Longrightarrow> cell_ok L c' \<Longrightarrow>
   cell_get (cell_set L c p) c' = (if c = c' then p else cell_get L c')"
  by (cases c; cases c') (auto simp: nth_list_update)

lemma dat_img_update:
  assumes "length (s_data s) = length (s_data (ss ! i))"
  shows "length (dat_img (take j (ss[i := s]))) = length (dat_img (take j ss))"
  using assms
proof (induction ss arbitrary: i j)
  case (Cons a ss)
  then show ?case by (cases i; cases j) auto
qed simp

lemma doff_update:
  assumes "length (s_data s) = length (s_data (ss ! i))"
  shows "doff (ss[i := s]) j = doff ss j"
  using dat_img_update [OF assms] by (simp add: doff_def)

text \<open>Replacing a slot by one of the same shape leaves every offset where it is.\<close>

definition same_shape :: "slot \<Rightarrow> slot \<Rightarrow> bool" where
  "same_shape s t \<longleftrightarrow> length (s_key s) = length (s_key t) \<and> length (s_data s) = length (s_data t)"

lemma same_shape_rec: "same_shape s t \<Longrightarrow> length (slot_rec d s) = length (slot_rec d t)"
  by (simp add: same_shape_def slot_rec_def)

lemma length_enc_slots_update:
  assumes "same_shape s (ss ! i)" "ptr_ok (s_ptr s)" "slots_ok d ss"
  shows "length (enc_slots d (take j (ss[i := s]))) = length (enc_slots d (take j ss))"
  using assms
proof (induction ss arbitrary: d i j)
  case (Cons a ss)
  show ?case
  proof (cases i)
    case 0
    with Cons.prems(1) have "length (slot_rec d s) = length (slot_rec d a)"
      by (intro same_shape_rec) simp
    with 0 Cons.prems show ?thesis
      by (cases j) (auto simp: enc_slot_def slot_ok_def same_shape_def)
  next
    case (Suc k)
    with Cons.prems Cons.IH [of k "d + length (s_data a) + 1"] show ?thesis by (cases j) auto
  qed
qed simp

lemma ioff_update:
  assumes "same_shape s (ss ! i)" "ptr_ok (s_ptr s)" "slots_ok 0 ss"
  shows "ioff (ss[i := s]) j = ioff ss j"
  using length_enc_slots_update [OF assms] by (simp add: ioff_def)

lemma slots_ok_update:
  assumes "slots_ok 0 ss" "i < length ss" "same_shape s (ss ! i)"
    "ptr_ok (s_ptr s)" "key_ok (s_key s)" "data_ok (s_data s)"
  shows "slots_ok 0 (ss[i := s])"
proof -
  have "slot_ok (doff ss i) (ss ! i)" using assms(1,2) by (rule slots_ok_nth)
  then have "slot_ok (doff ss i) s"
    using assms(3-6) same_shape_rec [OF assms(3)] by (simp add: slot_ok_def)
  moreover have "slots_ok 0 (take i ss @ ss ! i # drop (Suc i) ss)"
    using assms(1,2) by (simp add: id_take_nth_drop [symmetric])
  ultimately have "slots_ok 0 (take i ss @ s # drop (Suc i) ss)"
    using assms(3) by (auto simp: slots_ok_append doff_def same_shape_def)
  with assms(2) show ?thesis by (simp add: upd_conv_take_nth_drop)
qed

lemma cell_set_ok:
  assumes "layout_ok L" "cell_ok L c" "ptr_ok p"
  shows "layout_ok (cell_set L c p)"
proof (cases c)
  case (CHash h)
  with assms show ?thesis
    by (auto simp: layout_ok_def list_all_iff dest!: set_update_subset_insert [THEN subsetD])
next
  case (CSlot i)
  then have "slot_ok (doff (L_slots L) i) (L_slots L ! i)"
    using assms by (auto intro: layout_ok_nth)
  with CSlot assms slots_ok_update [of "L_slots L" i "(L_slots L ! i)\<lparr>s_ptr := p\<rparr>"] show ?thesis
    by (auto simp: layout_ok_def same_shape_def slot_ok_def)
qed (use assms in \<open>auto simp: layout_ok_def\<close>)

lemma cell_off_set:
  assumes "layout_ok L" "cell_ok L c" "ptr_ok p"
  shows "cell_off (cell_set L c p) c' = cell_off L c'"
  using assms ioff_update [of "(L_slots L ! i)\<lparr>s_ptr := p\<rparr>" "L_slots L" i for i]
  by (cases c; cases c') (auto simp: layout_ok_def same_shape_def)

lemma cell_ok_set [simp]: "cell_ok (cell_set L c p) c' = cell_ok L c'"
  by (cases c; cases c') auto

text \<open>Every cell is seven bytes of the index file, and setting it changes those alone.\<close>

lemma idx_split_cell:
  assumes ok: "layout_ok L" and c: "cell_ok L c"
  obtains pre post where "length pre = cell_off L c"
    and "\<And>p. idx_img (cell_set L c p) = pre @ ptr7 p @ post"
proof (cases c)
  case CFree
  show ?thesis
    by (rule that [of "[]" "concat (map ptr7 (L_hash L)) @ [NEWLINE] @ enc_slots 0 (L_slots L)"])
      (auto simp: CFree idx_img_def hdr_img_def)
next
  case (CHash h)
  let ?pre = "ptr7 (L_free L) @ concat (map ptr7 (take h (L_hash L)))"
  let ?post = "concat (map ptr7 (drop (Suc h) (L_hash L))) @ [NEWLINE] @ enc_slots 0 (L_slots L)"
  have h: "h < length (L_hash L)" using c CHash by simp
  have "list_all ptr_ok (take h (L_hash L))"
    using ok by (auto simp: layout_ok_def list_all_iff dest: in_set_takeD)
  then have "length ?pre = cell_off L c"
    using ok h by (simp add: CHash length_concat_ptr7 layout_ok_def)
  moreover have "idx_img (cell_set L c p) = ?pre @ ptr7 p @ ?post" for p
    using h by (simp add: CHash idx_img_def hdr_img_def upd_conv_take_nth_drop)
  ultimately show ?thesis by (rule that)
next
  case (CSlot i)
  let ?ss = "L_slots L"
  let ?s = "?ss ! i"
  have i: "i < length ?ss" using c CSlot by simp
  let ?r = "slot_rec (doff ?ss i) ?s"
  let ?pre = "hdr_img L @ enc_slots 0 (take i ?ss)"
  let ?post = "padl IDXLEN_SZ (dec (length ?r)) @ ?r @
      enc_slots (doff ?ss i + length (s_data ?s) + 1) (drop (Suc i) ?ss)"
  have "idx_img (cell_set L c p) = ?pre @ ptr7 p @ ?post" for p
    using i by (simp add: CSlot idx_img_def hdr_img_def upd_conv_take_nth_drop enc_slots_append
        doff_def enc_slot_def slot_rec_def)
  moreover have "length ?pre = cell_off L c"
    using length_idx_prefix [OF ok, of i] by (simp add: CSlot)
  ultimately show ?thesis by (rule that [rotated])
qed

end
