(* ===== verification/Db_Ops.thy ===== *)
theory Db_Ops
  imports Db_Layout
begin

text \<open>
  What the file operations of \<open>Db_Model\<close> do to a database whose two files are the images of
  a layout, when no system call fails: reading a cell or a slot returns what the layout
  holds, and every write leaves the images of the updated layout.
\<close>

section \<open>System calls that do not fail\<close>

definition irep :: "DB \<Rightarrow> layout \<Rightarrow> bool" where
  "irep db L \<longleftrightarrow>
     f_bytes (idxfd db) = idx_img L \<and> layout_ok L \<and> faults db = [] \<and>
     nhash db = NHASH_DEF \<and> hashoff db = HASH_OFF"

definition drep :: "DB \<Rightarrow> slot list \<Rightarrow> bool" where
  "drep db ss \<longleftrightarrow> f_bytes (datfd db) = dat_img ss"

lemma fault_io_ok [simp]: "faults db = [] \<Longrightarrow> fault_io db = Inr (False, db)"
  by (simp add: fault_io_def)

lemma faults_fd_put [simp]: "faults (fd_put fd f db) = faults db"
  by (cases fd) auto

lemma lseek_io_set [simp]:
  "faults db = [] \<Longrightarrow> 0 \<le> z \<Longrightarrow>
   lseek_io fd z SEEK_SET db = Inr (z, fd_put fd ((fd_get fd db)\<lparr>f_pos := nat z\<rparr>) db)"
  by (simp add: lseek_io_def io_simps lseek_def seek_base_def)

lemma lseek_io_cur [simp]:
  "faults db = [] \<Longrightarrow> lseek_io fd 0 SEEK_CUR db = Inr (int (f_pos (fd_get fd db)), db)"
  by (cases fd) (simp_all add: lseek_io_def io_simps lseek_def seek_base_def)

lemma lseek_io_end [simp]:
  "faults db = [] \<Longrightarrow> lseek_io fd 0 SEEK_END db =
     Inr (int (length (f_bytes (fd_get fd db))),
          fd_put fd ((fd_get fd db)\<lparr>f_pos := length (f_bytes (fd_get fd db))\<rparr>) db)"
  by (simp add: lseek_io_def io_simps lseek_def seek_base_def)

lemma read_io_at:
  assumes "faults db = []" "f_bytes (fd_get fd db) = a @ b @ c"
    "length a = f_pos (fd_get fd db)" "length b = n"
  shows "read_io fd n db =
    Inr (Some b, fd_put fd ((fd_get fd db)\<lparr>f_pos := f_pos (fd_get fd db) + n\<rparr>) db)"
  using assms by (simp add: read_io_def io_simps read_file_def)

lemma write_io_at:
  assumes "faults db = []" "f_bytes (fd_get fd db) = a @ b @ c"
    "length a = f_pos (fd_get fd db)" "length b = length new"
  shows "write_io fd new db =
    Inr (int (length new),
      fd_put fd ((fd_get fd db)\<lparr>f_bytes := a @ new @ c, f_pos := f_pos (fd_get fd db) + length new\<rparr>) db)"
  using assms by (simp add: write_io_def io_simps write_file_def overwrite_middle)

lemma write_io_end:
  assumes "faults db = []" "length (f_bytes (fd_get fd db)) = f_pos (fd_get fd db)"
  shows "write_io fd new db =
    Inr (int (length new),
      fd_put fd ((fd_get fd db)\<lparr>f_bytes := f_bytes (fd_get fd db) @ new,
                               f_pos := f_pos (fd_get fd db) + length new\<rparr>) db)"
  using assms by (simp add: write_io_def io_simps write_file_def overwrite_end)

text \<open>Locks: the process holds only locks of its own, away from the requested range.\<close>

definition locks_free :: "nat \<Rightarrow> nat \<Rightarrow> nat \<Rightarrow> flock list \<Rightarrow> bool" where
  "locks_free pid st len ls \<longleftrightarrow>
     list_all (\<lambda>l. l_pid l = pid \<and> \<not> ranges_meet st len (l_start l) (l_len l)) ls"

lemma locks_free_clear: "locks_free pid st len ls \<Longrightarrow> clear_locks pid st len ls = ls"
  by (rule clear_locks_disjoint) (auto simp: locks_free_def list_all_iff)

lemma locks_free_no_conflict:
  "locks_free pid st len ls \<Longrightarrow> \<not> list_ex (conflicting pid ty st len) ls"
  by (auto simp: locks_free_def list_all_iff list_ex_iff conflicting_def)

definition own_lock :: "DB \<Rightarrow> lock_type \<Rightarrow> nat \<Rightarrow> nat \<Rightarrow> flock" where
  "own_lock db ty st len = \<lparr>l_pid = self db, l_type = ty, l_start = st, l_len = len\<rparr>"

definition add_lock :: "dbfd \<Rightarrow> flock \<Rightarrow> DB \<Rightarrow> DB" where
  "add_lock fd l db = fd_put fd ((fd_get fd db)\<lparr>f_locks := l # f_locks (fd_get fd db)\<rparr>) db"

lemma lock_range_set: "lock_range f (int st) SEEK_SET (int len) = Some (st, len)"
  by (simp add: lock_range_def seek_base_def)

lemma writew_lock_ok:
  assumes "faults db = []" "locks_free (self db) st len (f_locks (fd_get fd db))"
  shows "or_dump (lock_io writew_lock fd (int st) (int len)) msg db =
    Inr ((), add_lock fd (own_lock db F_WRLCK st len) db)"
  using assms locks_free_no_conflict [OF assms(2)]
  by (simp add: or_dump_def lock_io_def io_simps lock_macros fcntl_lock_def lock_range_set
      locks_free_clear add_lock_def own_lock_def)

lemma readw_lock_ok:
  assumes "faults db = []" "locks_free (self db) st len (f_locks (fd_get fd db))"
  shows "or_dump (lock_io readw_lock fd (int st) (int len)) msg db =
    Inr ((), add_lock fd (own_lock db F_RDLCK st len) db)"
  using assms locks_free_no_conflict [OF assms(2)]
  by (simp add: or_dump_def lock_io_def io_simps lock_macros fcntl_lock_def lock_range_set
      locks_free_clear add_lock_def own_lock_def)

lemma un_lock_ok:
  assumes "faults db = []" "f_locks (fd_get fd db) = \<lparr>l_pid = self db, l_type = ty, l_start = st, l_len = len\<rparr> # ls"
    "locks_free (self db) st len ls"
  shows "or_dump (lock_io un_lock fd (int st) (int len)) msg db =
    Inr ((), fd_put fd ((fd_get fd db)\<lparr>f_locks := ls\<rparr>) db)"
  using assms
  by (simp add: or_dump_def lock_io_def io_simps lock_macros fcntl_lock_def lock_range_set
      locks_free_clear clear_locks_Cons cut_lock_same)

section \<open>Reading\<close>

lemma db_readptr_cell:
  assumes r: "irep db L" and c: "cell_ok L c" and p: "ptr_ok (cell_get L c)"
  shows "db_readptr (int (cell_off L c)) db =
    Inr (int (cell_get L c), db\<lparr>idxfd := (idxfd db)\<lparr>f_pos := cell_off L c + 7\<rparr>\<rparr>)"
proof -
  have ok: "layout_ok L" and fl: "faults db = []" using r by (auto simp: irep_def)
  obtain pre post where pre: "length pre = cell_off L c"
    and img: "\<And>p. idx_img (cell_set L c p) = pre @ ptr7 p @ post"
    using idx_split_cell [OF ok c] by blast
  let ?db1 = "db\<lparr>idxfd := (idxfd db)\<lparr>f_pos := cell_off L c\<rparr>\<rparr>"
  have bytes: "f_bytes (fd_get IDX ?db1) = pre @ ptr7 (cell_get L c) @ post"
    using img [of "cell_get L c"] c r by (simp add: irep_def)
  have rd: "read_io IDX 7 ?db1 =
      Inr (Some (ptr7 (cell_get L c)), db\<lparr>idxfd := (idxfd db)\<lparr>f_pos := cell_off L c + 7\<rparr>\<rparr>)"
    by (subst read_io_at [OF _ bytes]) (use fl pre p in auto)
  show ?thesis using fl rd p by (simp add: db_readptr_def io_simps)
qed

lemma ptr_ok_cell: "layout_ok L \<Longrightarrow> cell_ok L c \<Longrightarrow> ptr_ok (cell_get L c)"
  by (cases c) (auto simp: layout_ok_def list_all_iff dest: slots_ok_nth simp: slot_ok_def)

lemma split_idx_ok:
  assumes "SEP \<notin> set k" "SEP \<notin> set a" "SEP \<notin> set b"
  shows "split_idx (k @ SEP # a @ SEP # b) = Inr (k, a, b)"
proof -
  have 1: "takeWhile (\<lambda>c. c \<noteq> SEP) (k @ SEP # a @ SEP # b) = k"
    "dropWhile (\<lambda>c. c \<noteq> SEP) (k @ SEP # a @ SEP # b) = SEP # a @ SEP # b"
    using assms(1) by (rule split_string_at)+
  have 2: "takeWhile (\<lambda>c. c \<noteq> SEP) (a @ SEP # b) = a"
    "dropWhile (\<lambda>c. c \<noteq> SEP) (a @ SEP # b) = SEP # b"
    using assms(2) by (rule split_string_at)+
  show ?thesis unfolding split_idx_def 1 Let_def list.sel 2 using assms by simp
qed

lemma isdigit_SEP [simp]: "\<not> isdigit SEP"
  by (simp add: isdigit_def)

text \<open>The structure after \<open>_db_readidx\<close> has read slot \<open>i\<close>.\<close>

definition load_slot :: "slot list \<Rightarrow> nat \<Rightarrow> DB \<Rightarrow> DB" where
  "load_slot ss i db =
     (let s = ss ! i; d = doff ss i in
      db\<lparr>idxfd := (idxfd db)\<lparr>f_pos := ioff ss i + 11 + length (slot_rec d s)\<rparr>,
         idxbuf := s_key s @ [NUL] @ dec d @ [NUL] @ dec (length (s_data s) + 1) @ [NUL],
         idxoff := int (ioff ss i), idxlen := int (length (slot_rec d s)),
         datoff := int d, datlen := int (length (s_data s)) + 1,
         ptrval := int (s_ptr s)\<rparr>)"

lemma db_parseidx_ok:
  assumes "slot_ok d s"
  shows "db_parseidx (slot_rec d s) db =
    Inr (ptrval db, db\<lparr>idxbuf := s_key s @ [NUL] @ dec d @ [NUL] @ dec (length (s_data s) + 1) @ [NUL],
         datoff := int d, datlen := int (length (s_data s)) + 1\<rparr>)"
proof -
  let ?t = "s_key s @ SEP # dec d @ SEP # dec (length (s_data s) + 1)"
  have r: "slot_rec d s = ?t @ [NEWLINE]" by (simp add: slot_rec_def)
  have nul: "NUL \<notin> set ?t" using assms by (auto simp: slot_ok_def key_ok_def)
  have sp: "split_idx ?t = Inr (s_key s, dec d, dec (length (s_data s) + 1))"
    by (rule split_idx_ok) (use assms in \<open>auto simp: slot_ok_def key_ok_def\<close>)
  have "split_idx (cstr (butlast (slot_rec d s))) = Inr (s_key s, dec d, dec (length (s_data s) + 1))"
    unfolding r butlast_snoc cstr_no_nul [OF nul] by (rule sp)
  moreover have "last (slot_rec d s) = NEWLINE" by (simp add: r)
  moreover have "length (s_data s) \<le> 1023" using assms by (simp add: slot_ok_def data_ok_def)
  ultimately show ?thesis
    by (simp add: db_parseidx_def io_simps)
qed

lemma db_readidx_at:
  assumes r: "irep db L" and i: "i < length (L_slots L)"
    and o: "offset = int (ioff (L_slots L) i) \<or> offset = 0 \<and> f_pos (idxfd db) = ioff (L_slots L) i"
  shows "db_readidx offset db = Inr (int (s_ptr (L_slots L ! i)), load_slot (L_slots L) i db)"
proof -
  let ?ss = "L_slots L" let ?s = "?ss ! i" let ?d = "doff ?ss i" let ?r = "slot_rec ?d ?s"
  have ok: "layout_ok L" and fl: "faults db = []" using r by (auto simp: irep_def)
  have sok: "slot_ok ?d ?s" using ok i by (rule layout_ok_nth)
  then have len: "6 \<le> length ?r" "length ?r \<le> 1024" and pok: "ptr_ok (s_ptr ?s)"
    by (auto simp: slot_ok_def)
  let ?pre = "hdr_img L @ enc_slots 0 (take i ?ss)"
  let ?post = "enc_slots (?d + length (s_data ?s) + 1) (drop (Suc i) ?ss)"
  let ?h = "ptr7 (s_ptr ?s) @ padl IDXLEN_SZ (dec (length ?r))"
  have img: "f_bytes (idxfd db) = ?pre @ ?h @ ?r @ ?post"
    using r idx_split_slot [OF i] by (simp add: irep_def enc_slot_def)
  have pre: "length ?pre = ioff ?ss i" using ok by (rule length_idx_prefix)
  let ?o = "ioff ?ss i"
  have lh: "length ?h = 11" using pok len by simp
  have seek: "lseek_io IDX offset (if offset = 0 then SEEK_CUR else SEEK_SET) db =
      Inr (int ?o, db\<lparr>idxfd := (idxfd db)\<lparr>f_pos := ?o\<rparr>\<rparr>)"
    using o fl by auto
  let ?db1 = "db\<lparr>idxfd := (idxfd db)\<lparr>f_pos := ?o\<rparr>, idxoff := int ?o\<rparr>"
  have rd1: "read_io IDX 11 ?db1 =
      Inr (Some ?h, db\<lparr>idxfd := (idxfd db)\<lparr>f_pos := ?o + 11\<rparr>, idxoff := int ?o\<rparr>)"
    by (subst read_io_at [where a = ?pre and b = ?h and c = "?r @ ?post"])
      (use fl img pre lh in auto)
  let ?db2 = "db\<lparr>idxfd := (idxfd db)\<lparr>f_pos := ?o + 11\<rparr>, idxoff := int ?o,
      ptrval := int (s_ptr ?s), idxlen := int (length ?r)\<rparr>"
  have rd2: "read_io IDX (length ?r) ?db2 =
      Inr (Some ?r, ?db2\<lparr>idxfd := (idxfd db)\<lparr>f_pos := ?o + 11 + length ?r\<rparr>\<rparr>)"
    by (subst read_io_at [where a = "?pre @ ?h" and b = ?r and c = ?post])
      (use fl img pre lh in auto)
  have tk: "take 7 ?h = ptr7 (s_ptr ?s)" "drop 7 ?h = padl IDXLEN_SZ (dec (length ?r))"
    using pok by auto
  show ?thesis
    using lh
    by (simp add: db_readidx_def seek rd1 rd2 io_simps tk db_parseidx_ok [OF sok]
        len leD load_slot_def Let_def del: append_assoc)
qed

lemma db_readidx_slot:
  "irep db L \<Longrightarrow> i < length (L_slots L) \<Longrightarrow>
   db_readidx (int (ioff (L_slots L) i)) db = Inr (int (s_ptr (L_slots L ! i)), load_slot (L_slots L) i db)"
  by (rule db_readidx_at) auto


lemma db_readdat_slot:
  assumes "drep db ss" "i < length ss" "faults db = []" "data_ok (s_data (ss ! i))"
    "datoff db = int (doff ss i)" "datlen db = int (length (s_data (ss ! i))) + 1"
  shows "db_readdat db =
    Inr (s_data (ss ! i),
         db\<lparr>datfd := (datfd db)\<lparr>f_pos := doff ss i + length (s_data (ss ! i)) + 1\<rparr>,
            datbuf := s_data (ss ! i) @ [NUL]\<rparr>)"
proof -
  let ?x = "s_data (ss ! i)"
  let ?db1 = "db\<lparr>datfd := (datfd db)\<lparr>f_pos := doff ss i\<rparr>\<rparr>"
  have nul: "NUL \<notin> set ?x" using assms(4) by (simp add: data_ok_def)
  have img: "f_bytes (datfd db) = dat_img (take i ss) @ (?x @ [NEWLINE]) @ dat_img (drop (Suc i) ss)"
    using assms(1,2) dat_split_slot by (simp add: drep_def)
  have rd: "read_io DAT (Suc (length ?x)) ?db1 =
      Inr (Some (?x @ [NEWLINE]), db\<lparr>datfd := (datfd db)\<lparr>f_pos := doff ss i + length ?x + 1\<rparr>\<rparr>)"
    by (subst read_io_at [where a = "dat_img (take i ss)" and b = "?x @ [NEWLINE]"
          and c = "dat_img (drop (Suc i) ss)"])
      (use assms(3) img in \<open>auto simp: doff_def\<close>)
  have n: "nat (int (length ?x) + 1) = Suc (length ?x)" by simp
  show ?thesis
    by (simp add: db_readdat_def io_simps assms(3,5,6) n rd nul)
qed

section \<open>Writing\<close>

lemma db_writeptr_cell:
  assumes r: "irep db L" and c: "cell_ok L c" and p: "ptr_ok p"
  shows "db_writeptr (int (cell_off L c)) (int p) db =
    Inr ((), db\<lparr>idxfd := (idxfd db)\<lparr>f_bytes := idx_img (cell_set L c p), f_pos := cell_off L c + 7\<rparr>\<rparr>)"
proof -
  have ok: "layout_ok L" and fl: "faults db = []" using r by (auto simp: irep_def)
  obtain pre post where pre: "length pre = cell_off L c"
    and img: "\<And>p. idx_img (cell_set L c p) = pre @ ptr7 p @ post"
    using idx_split_cell [OF ok c] by blast
  let ?db1 = "db\<lparr>idxfd := (idxfd db)\<lparr>f_pos := cell_off L c\<rparr>\<rparr>"
  have bytes: "f_bytes (fd_get IDX ?db1) = pre @ ptr7 (cell_get L c) @ post"
    using img [of "cell_get L c"] c r by (simp add: irep_def)
  have wr: "write_io IDX (ptr7 p) ?db1 =
      Inr (7, db\<lparr>idxfd := (idxfd db)\<lparr>f_bytes := idx_img (cell_set L c p), f_pos := cell_off L c + 7\<rparr>\<rparr>)"
    by (subst write_io_at [OF _ bytes]) (use fl pre p ptr_ok_cell [OF ok c] img in auto)
  have tk: "take 7 (ptr7 p) = ptr7 p" using p by simp
  show ?thesis using fl p wr by (simp add: db_writeptr_def io_simps ptr7_dec_int tk ptr_ok_def)
qed

lemma db_writedat_over:
  assumes "drep db ss" "i < length ss" "faults db = []" "length x = length (s_data (ss ! i))"
  shows "db_writedat x (int (doff ss i)) SEEK_SET db =
    Inr ((), db\<lparr>datfd := (datfd db)\<lparr>f_bytes := dat_img (ss[i := (ss ! i)\<lparr>s_data := x\<rparr>]),
                                      f_pos := doff ss i + length x + 1\<rparr>,
                datoff := int (doff ss i), datlen := int (length x) + 1\<rparr>)"
proof -
  let ?db1 = "db\<lparr>datfd := (datfd db)\<lparr>f_pos := doff ss i\<rparr>, datoff := int (doff ss i), datlen := int (length x) + 1\<rparr>"
  have img: "f_bytes (datfd db) = dat_img (take i ss) @ (s_data (ss ! i) @ [NEWLINE]) @ dat_img (drop (Suc i) ss)"
    using assms(1,2) dat_split_slot by (simp add: drep_def)
  have new: "dat_img (ss[i := (ss ! i)\<lparr>s_data := x\<rparr>]) =
      dat_img (take i ss) @ (x @ [NEWLINE]) @ dat_img (drop (Suc i) ss)"
    using assms(2) by (simp add: upd_conv_take_nth_drop dat_img_append)
  have wr: "write_io DAT (x @ [NEWLINE]) ?db1 =
      Inr (int (length x) + 1, ?db1\<lparr>datfd := (datfd db)\<lparr>f_bytes := dat_img (ss[i := (ss ! i)\<lparr>s_data := x\<rparr>]),
                                      f_pos := doff ss i + length x + 1\<rparr>\<rparr>)"
    by (subst write_io_at [where a = "dat_img (take i ss)" and b = "s_data (ss ! i) @ [NEWLINE]"
          and c = "dat_img (drop (Suc i) ss)"])
      (use assms(3,4) img new in \<open>auto simp: doff_def\<close>)
  show ?thesis using assms(3) by (simp add: db_writedat_def io_simps wr)
qed

lemma db_writedat_append:
  assumes "drep db ss" "faults db = []" "f_locks (datfd db) = []"
  shows "db_writedat x 0 SEEK_END db =
    Inr ((), db\<lparr>datfd := (datfd db)\<lparr>f_bytes := dat_img (ss @ [\<lparr>s_ptr = p, s_key = k, s_data = x\<rparr>]),
                                      f_pos := doff ss (length ss) + length x + 1\<rparr>,
                datoff := int (doff ss (length ss)), datlen := int (length x) + 1\<rparr>)"
proof -
  let ?l = "own_lock db F_WRLCK 0 0"
  have lk: "or_dump (lock_io writew_lock DAT 0 0) ''_db_writedat: writew_lock error'' db =
      Inr ((), add_lock DAT ?l db)"
    using writew_lock_ok [of db 0 0 DAT] assms by (simp add: locks_free_def)
  have bytes: "f_bytes (datfd db) = dat_img ss" using assms(1) by (simp add: drep_def)
  note ul = un_lock_ok [where fd = DAT and ty = F_WRLCK and st = 0 and len = 0 and ls = "[]", simplified]
  show ?thesis
    using assms(2,3) lk bytes
    by (simp add: db_writedat_def io_simps add_lock_def doff_length dat_img_append write_io_end
        ul own_lock_def locks_free_def)
qed

text \<open>The bytes \<open>_db_writeidx\<close> writes are the encoding of the slot.\<close>

lemma dec_int_int [simp]: "dec_int (int n) = dec n"
  by (simp add: dec_int_def)

lemma enc_slot_eq:
  "slot_ok d s \<Longrightarrow> (ptr7 (s_ptr s) @ padl IDXLEN_SZ (dec (length (slot_rec d s)))) @ slot_rec d s = enc_slot d s"
  by (simp add: enc_slot_def)

lemmas writeidx_simps = io_simps ptr7_dec_int [unfolded dec_int_int] ptr_ok_def Let_def

lemma db_writeidx_over:
  assumes r: "irep db L" and i: "i < length (L_slots L)"
    and s: "same_shape s (L_slots L ! i)" "slot_ok (doff (L_slots L) i) s"
    and d: "datoff db = int (doff (L_slots L) i)" "datlen db = int (length (s_data s)) + 1"
  shows "db_writeidx (s_key s) (int (ioff (L_slots L) i)) SEEK_SET (int (s_ptr s)) db =
    Inr ((), db\<lparr>ptrval := int (s_ptr s), idxbuf := slot_rec (doff (L_slots L) i) s @ [NUL],
                idxoff := int (ioff (L_slots L) i),
                idxfd := (idxfd db)\<lparr>f_bytes := idx_img (L\<lparr>L_slots := (L_slots L)[i := s]\<rparr>),
                   f_pos := ioff (L_slots L) i + 11 + length (slot_rec (doff (L_slots L) i) s)\<rparr>\<rparr>)"
proof -
  let ?ss = "L_slots L" let ?d = "doff ?ss i" let ?r = "slot_rec ?d s"
  have ok: "layout_ok L" and fl: "faults db = []" using r by (auto simp: irep_def)
  let ?pre = "hdr_img L @ enc_slots 0 (take i ?ss)"
  let ?post = "enc_slots (?d + length (s_data s) + 1) (drop (Suc i) ?ss)"
  have img: "f_bytes (idxfd db) = ?pre @ enc_slot ?d (?ss ! i) @ ?post"
    using r idx_split_slot [OF i] s(1) by (simp add: irep_def same_shape_def)
  have pre: "length ?pre = ioff ?ss i" using ok by (rule length_idx_prefix)
  have new: "idx_img (L\<lparr>L_slots := ?ss[i := s]\<rparr>) = ?pre @ enc_slot ?d s @ ?post"
    using i by (simp add: idx_img_def hdr_img_def upd_conv_take_nth_drop enc_slots_append doff_def)
  have leq: "length (enc_slot ?d (?ss ! i)) = length (enc_slot ?d s)"
    using s layout_ok_nth [OF ok i] same_shape_rec [OF s(1)] by simp
  have rec: "s_key s @ SEP # dec_int (datoff db) @ SEP # dec_int (datlen db) @ [NEWLINE] = ?r"
    using d by (simp add: slot_rec_def dec_int_def nat_add_distrib)
  have len: "6 \<le> length ?r" "length ?r \<le> 1024" and pok: "ptr_ok (s_ptr s)" using s(2) by (auto simp: slot_ok_def)
  have fits: "\<not> 1026 \<le> length ?r" using len(2) by simp
  have wr: "write_io IDX (enc_slot ?d s) db' =
      Inr (11 + int (length ?r), db'\<lparr>idxfd := (idxfd db)\<lparr>f_bytes := idx_img (L\<lparr>L_slots := ?ss[i := s]\<rparr>),
          f_pos := ioff ?ss i + 11 + length ?r\<rparr>\<rparr>)"
    if "faults db' = []" "idxfd db' = (idxfd db)\<lparr>f_pos := ioff ?ss i\<rparr>" for db'
    by (subst write_io_at [where a = ?pre and b = "enc_slot ?d (?ss ! i)" and c = ?post])
      (use that img pre leq new s(2) in auto)
  show ?thesis
    using fl pok length_ptr7 [OF pok] length_len4 [OF len(2)]
    by (simp add: db_writeidx_def writeidx_simps rec fits leD [OF len(1)] leD [OF len(2)]
        ptr7_def [symmetric] enc_slot_eq [OF s(2)] wr del: append_assoc)
qed

lemma db_writeidx_append:
  assumes r: "irep db L"
    and s: "slot_ok (doff (L_slots L) (length (L_slots L))) s"
    and d: "datoff db = int (doff (L_slots L) (length (L_slots L)))" "datlen db = int (length (s_data s)) + 1"
    and lk: "locks_free (self db) HDR_SZ 0 (f_locks (idxfd db))"
  shows "db_writeidx (s_key s) 0 SEEK_END (int (s_ptr s)) db =
    Inr ((), db\<lparr>ptrval := int (s_ptr s), idxbuf := slot_rec (doff (L_slots L) (length (L_slots L))) s @ [NUL],
                idxoff := int (ioff (L_slots L) (length (L_slots L))),
                idxfd := (idxfd db)\<lparr>f_bytes := idx_img (L\<lparr>L_slots := L_slots L @ [s]\<rparr>),
                   f_pos := ioff (L_slots L) (length (L_slots L)) + 11 + length (slot_rec (doff (L_slots L) (length (L_slots L))) s)\<rparr>\<rparr>)"
proof -
  let ?ss = "L_slots L" let ?n = "length ?ss" let ?d = "doff ?ss ?n" let ?r = "slot_rec ?d s"
  have ok: "layout_ok L" and fl: "faults db = []" and nh: "nhash db = 137" using r by (auto simp: irep_def)
  have img: "f_bytes (idxfd db) = idx_img L" using r by (simp add: irep_def)
  have new: "idx_img (L\<lparr>L_slots := ?ss @ [s]\<rparr>) = idx_img L @ enc_slot ?d s"
    by (simp add: idx_img_def hdr_img_def enc_slots_append doff_def)
  have len: "6 \<le> length ?r" "length ?r \<le> 1024" and pok: "ptr_ok (s_ptr s)" using s by (auto simp: slot_ok_def)
  have fits: "\<not> 1026 \<le> length ?r" using len(2) by simp
  have rec: "s_key s @ SEP # dec_int (datoff db) @ SEP # dec_int (datlen db) @ [NEWLINE] = ?r"
    using d by (simp add: slot_rec_def dec_int_def nat_add_distrib)
  let ?l = "own_lock db F_WRLCK HDR_SZ 0"
  let ?dbr = "db\<lparr>ptrval := int (s_ptr s), idxbuf := ?r @ [NUL]\<rparr>"
  have lk1: "or_dump (lock_io writew_lock IDX 967 0) ''_db_writeidx: writew_lock error'' ?dbr =
      Inr ((), ?dbr\<lparr>idxfd := (idxfd db)\<lparr>f_locks := ?l # f_locks (idxfd db)\<rparr>\<rparr>)"
    using writew_lock_ok [of ?dbr 967 0 IDX] lk fl by (simp add: add_lock_def own_lock_def)
  let ?ls = "?l # f_locks (idxfd db)"
  let ?L = "L\<lparr>L_slots := ?ss @ [s]\<rparr>"
  have wr: "write_io IDX (enc_slot ?d s) db' =
      Inr (11 + int (length ?r), db'\<lparr>idxfd := (idxfd db)\<lparr>f_bytes := idx_img ?L,
          f_pos := length (idx_img L) + 11 + length ?r, f_locks := ?ls\<rparr>\<rparr>)"
    if "faults db' = []" "idxfd db' = (idxfd db)\<lparr>f_pos := length (idx_img L), f_locks := ?ls\<rparr>" for db'
    by (subst write_io_end) (use that img new s in auto)
  note ul = un_lock_ok [where fd = IDX and ty = F_WRLCK and st = 967 and len = 0
      and ls = "f_locks (idxfd db)", simplified]
  show ?thesis
    using fl pok length_ptr7 [OF pok] length_len4 [OF len(2)] lk
    by (simp add: db_writeidx_def writeidx_simps rec fits leD [OF len(1)] leD [OF len(2)] nh lk1 img
        ptr7_def [symmetric] enc_slot_eq [OF s] wr ul own_lock_def ioff_length [OF ok] del: append_assoc)
qed

end
