(* ===== verification/Db_Chains.thy ===== *)
theory Db_Chains
  imports Db_Ops
begin

text \<open>
  Hash chains and the free list as lists of slot numbers, how the pointer updates of the
  operations change them, the database invariant, and the two searches along a chain
  (\<open>_db_find_and_lock\<close> and \<open>_db_findfree\<close>).
\<close>

section \<open>Chains of slots\<close>

fun seg :: "slot list \<Rightarrow> nat \<Rightarrow> nat list \<Rightarrow> nat \<Rightarrow> bool" where
  "seg ss p [] q = (p = q)"
| "seg ss p (i # is) q = (i < length ss \<and> p = ioff ss i \<and> seg ss (s_ptr (ss ! i)) is q)"

abbreviation chain :: "slot list \<Rightarrow> nat \<Rightarrow> nat list \<Rightarrow> bool" where
  "chain ss p is \<equiv> seg ss p is 0"

lemma seg_append: "seg ss p (xs @ ys) q \<longleftrightarrow> (\<exists>r. seg ss p xs r \<and> seg ss r ys q)"
  by (induction xs arbitrary: p) auto

lemma seg_bound: "seg ss p is q \<Longrightarrow> i \<in> set is \<Longrightarrow> i < length ss"
  by (induction "is" arbitrary: p) auto

lemma seg_snoc: "seg ss p (xs @ [i]) q \<longleftrightarrow> seg ss p xs (ioff ss i) \<and> i < length ss \<and> s_ptr (ss ! i) = q"
  by (auto simp: seg_append)

text \<open>Replacing a slot outside the chain, or appending a slot, keeps the chain.\<close>

lemma seg_update:
  assumes "same_shape s (ss ! i)" "ptr_ok (s_ptr s)" "slots_ok 0 ss" "i \<notin> set is"
  shows "seg (ss[i := s]) p is q \<longleftrightarrow> seg ss p is q"
  using assms(4)
proof (induction "is" arbitrary: p)
  case (Cons j js)
  then show ?case using ioff_update [OF assms(1-3)] by auto
qed simp

lemma ioff_snoc: "i \<le> length ss \<Longrightarrow> ioff (ss @ ts) i = ioff ss i"
  by (simp add: ioff_def)

lemma doff_snoc: "i \<le> length ss \<Longrightarrow> doff (ss @ ts) i = doff ss i"
  by (simp add: doff_def)

lemma seg_snoc_slot: "seg ss p is q \<Longrightarrow> seg (ss @ ts) p is q"
proof (induction "is" arbitrary: p)
  case (Cons j js)
  then show ?case by (auto simp: nth_append ioff_snoc)
qed simp

text \<open>The cell that points to the first element after \<open>pre\<close>, for a chain that starts in \<open>c\<close>.\<close>

definition pred_cell :: "cell \<Rightarrow> nat list \<Rightarrow> cell" where
  "pred_cell c pre = (if pre = [] then c else CSlot (last pre))"

lemma pred_cell_Nil [simp]: "pred_cell c [] = c"
  by (simp add: pred_cell_def)

lemma pred_cell_Cons: "pred_cell c (i # pre) = pred_cell (CSlot i) pre"
  by (simp add: pred_cell_def)

lemma pred_cell_ok:
  "cell_ok L c \<Longrightarrow> seg (L_slots L) p pre q \<Longrightarrow> cell_ok L (pred_cell c pre)"
  using seg_bound [of "L_slots L" p pre q] by (auto simp: pred_cell_def)

text \<open>Unlinking: the predecessor's pointer is set to the successor of the removed slot.\<close>

definition is_slot :: "cell \<Rightarrow> bool" where
  "is_slot c \<longleftrightarrow> (\<exists>i. c = CSlot i)"

lemma is_slot_simps [simp]: "\<not> is_slot CFree" "\<not> is_slot (CHash h)" "is_slot (CSlot i)"
  by (auto simp: is_slot_def)

lemma unlink_chain:
  assumes ok: "layout_ok L" and c: "cell_ok L c" "\<not> is_slot c"
    and ch: "chain (L_slots L) (cell_get L c) (pre @ i # post)" and d: "distinct (pre @ i # post)"
    and q: "q = s_ptr (L_slots L ! i)"
  shows "chain (L_slots (cell_set L (pred_cell c pre) q))
           (cell_get (cell_set L (pred_cell c pre) q) c) (pre @ post)"
proof (cases pre rule: rev_cases)
  case Nil
  with c ch q show ?thesis by (cases c) auto
next
  case (snoc xs j)
  let ?ss = "L_slots L" let ?s = "(?ss ! j)\<lparr>s_ptr := q\<rparr>"
  obtain r where r: "seg ?ss (cell_get L c) pre r" "chain ?ss r (i # post)"
    using ch by (auto simp: seg_append)
  have j: "j < length ?ss" using r(1) snoc by (auto simp: seg_append)
  have sok: "slots_ok 0 ?ss" using ok by (simp add: layout_ok_def)
  have i: "i < length ?ss" using r by simp
  have pq: "ptr_ok q" using q layout_ok_nth [OF ok i] by (simp add: slot_ok_def)
  have sh: "same_shape ?s (?ss ! j)" by (simp add: same_shape_def)
  note upd = seg_update [OF sh _ sok]
  have "seg (?ss[j := ?s]) (cell_get L c) xs (ioff ?ss j)"
    using r(1) d snoc pq by (subst upd) (auto simp: seg_append)
  moreover have "chain (?ss[j := ?s]) q post"
    using r(2) d snoc q pq by (subst upd) auto
  ultimately have "chain (?ss[j := ?s]) (cell_get L c) (pre @ post)"
    using j snoc ioff_update [OF sh _ sok] pq by (auto simp: seg_append)
  with snoc c show ?thesis by (cases c) (auto simp: pred_cell_def)
qed

section \<open>The database invariant\<close>

definition hash137 :: "string \<Rightarrow> nat" where
  "hash137 key = unat (db_hash_loop 1 0 key) mod NHASH_DEF"

lemma hash137_less [simp]: "hash137 k < NHASH_DEF"
  by (simp add: hash137_def)

definition blank :: "string \<Rightarrow> bool" where
  "blank s \<longleftrightarrow> list_all (\<lambda>c. c = SPACE) s"

definition chain_ok :: "slot list \<Rightarrow> nat \<Rightarrow> nat \<Rightarrow> nat list \<Rightarrow> bool" where
  "chain_ok ss h p is \<longleftrightarrow>
     chain ss p is \<and> distinct is \<and> (\<forall>i \<in> set is. hash137 (s_key (ss ! i)) = h) \<and>
     inj_on (\<lambda>i. s_key (ss ! i)) (set is)"

definition free_ok :: "slot list \<Rightarrow> nat \<Rightarrow> nat list \<Rightarrow> bool" where
  "free_ok ss p is \<longleftrightarrow>
     chain ss p is \<and> distinct is \<and> (\<forall>i \<in> set is. blank (s_key (ss ! i)) \<and> blank (s_data (ss ! i)))"

text \<open>
  \<open>X\<close> are the slots that are in no list at the moment: none between operations, one while
  an operation moves it.
\<close>

definition db_invx :: "nat set \<Rightarrow> layout \<Rightarrow> (nat \<Rightarrow> nat list) \<Rightarrow> nat list \<Rightarrow> bool" where
  "db_invx X L ch fr \<longleftrightarrow>
     layout_ok L \<and>
     (\<forall>h < NHASH_DEF. chain_ok (L_slots L) h (L_hash L ! h) (ch h) \<and>
        set (ch h) \<inter> set fr = {} \<and> set (ch h) \<inter> X = {}) \<and>
     free_ok (L_slots L) (L_free L) fr \<and> set fr \<inter> X = {} \<and>
     {..< length (L_slots L)} = X \<union> set fr \<union> (\<Union>h < NHASH_DEF. set (ch h))"

abbreviation db_inv :: "layout \<Rightarrow> (nat \<Rightarrow> nat list) \<Rightarrow> nat list \<Rightarrow> bool" where
  "db_inv \<equiv> db_invx {}"

definition db_map :: "slot list \<Rightarrow> (nat \<Rightarrow> nat list) \<Rightarrow> string \<rightharpoonup> string" where
  "db_map ss ch key =
     map_option (\<lambda>i. s_data (ss ! i)) (find (\<lambda>i. s_key (ss ! i) = key) (ch (hash137 key)))"

lemma find_split:
  assumes "find P xs = Some x"
  obtains pre post where "xs = pre @ x # post" "P x" "\<forall>y \<in> set pre. \<not> P y"
  using assms
proof (induction xs arbitrary: thesis)
  case (Cons a xs)
  show ?case
  proof (cases "P a")
    case True
    with Cons.prems show ?thesis by (auto intro: Cons.prems(1) [of "[]" xs])
  next
    case False
    with Cons.prems(2) have "find P xs = Some x" by simp
    then obtain pre post where "xs = pre @ x # post" "P x" "\<forall>y \<in> set pre. \<not> P y"
      using Cons.IH by blast
    with False show ?thesis by (intro Cons.prems(1) [of "a # pre" post]) auto
  qed
qed simp

lemma find_append_skip: "\<forall>y \<in> set pre. \<not> P y \<Longrightarrow> find P (pre @ xs) = find P xs"
  by (induction pre) auto

text \<open>An entry of the map through its slot.\<close>

lemma db_map_slot:
  assumes "chain_ok ss h p (ch h)" "i \<in> set (ch h)" "hash137 k = h" "s_key (ss ! i) = k"
  shows "db_map ss ch k = Some (s_data (ss ! i))"
proof -
  obtain j where j: "find (\<lambda>i. s_key (ss ! i) = k) (ch h) = Some j"
    using assms(2,4) by (cases "find (\<lambda>i. s_key (ss ! i) = k) (ch h)") (auto simp: find_None_iff)
  then have "j \<in> set (ch h)" "s_key (ss ! j) = k"
    by (auto simp: find_Some_iff in_set_conv_nth)
  with assms have "j = i" by (auto simp: chain_ok_def inj_on_def)
  with j assms show ?thesis by (simp add: db_map_def)
qed

lemma db_map_None:
  "db_map ss ch k = None \<longleftrightarrow> (\<forall>i \<in> set (ch (hash137 k)). s_key (ss ! i) \<noteq> k)"
  by (auto simp: db_map_def find_None_iff)

lemma chain_length_bound:
  assumes ok: "layout_ok L" and c: "chain (L_slots L) p is" and d: "distinct is"
  shows "length is < Suc (length (idx_img L))"
proof -
  let ?n = "length (L_slots L)"
  have "set is \<subseteq> {..<?n}" using seg_bound [OF c] by auto
  then have "length is \<le> ?n"
    using d card_mono [of "{..<?n}" "set is"] by (simp add: distinct_card)
  also have "?n \<le> length (enc_slots 0 (L_slots L))"
  proof -
    have "slots_ok d ss \<Longrightarrow> length ss \<le> length (enc_slots d ss)" for d ss
      by (induction ss arbitrary: d) (auto intro: le_trans [OF _ le_add2])
    then show ?thesis using ok by (simp add: layout_ok_def)
  qed
  finally show ?thesis by (simp add: idx_img_def)
qed

section \<open>Frames\<close>

text \<open>What the internal functions leave alone: locks, the chain, counters, parameters.\<close>

definition frame :: "DB \<Rightarrow> DB \<Rightarrow> bool" where
  "frame db db' \<longleftrightarrow>
     f_locks (idxfd db') = f_locks (idxfd db) \<and> f_locks (datfd db') = f_locks (datfd db) \<and>
     self db' = self db \<and> faults db' = faults db \<and> nhash db' = nhash db \<and> hashoff db' = hashoff db \<and>
     chainoff db' = chainoff db \<and> errno db' = errno db \<and>
     cnt_delok db' = cnt_delok db \<and> cnt_delerr db' = cnt_delerr db \<and>
     cnt_fetchok db' = cnt_fetchok db \<and> cnt_fetcherr db' = cnt_fetcherr db \<and>
     cnt_nextrec db' = cnt_nextrec db \<and>
     cnt_stor1 db' = cnt_stor1 db \<and> cnt_stor2 db' = cnt_stor2 db \<and> cnt_stor3 db' = cnt_stor3 db \<and>
     cnt_stor4 db' = cnt_stor4 db \<and> cnt_storerr db' = cnt_storerr db"

lemma frame_refl [simp]: "frame db db"
  by (simp add: frame_def)

lemma frame_trans: "frame a b \<Longrightarrow> frame b c \<Longrightarrow> frame a c"
  by (simp add: frame_def)

lemma frame_load_slot [simp]: "frame db (load_slot ss i db)"
  by (simp add: frame_def load_slot_def Let_def)

lemma irep_frame: "irep db L \<Longrightarrow> frame db db' \<Longrightarrow> layout_ok L' \<Longrightarrow> f_bytes (idxfd db') = idx_img L' \<Longrightarrow> irep db' L'"
  by (simp add: irep_def frame_def)

lemma irep_load_slot [simp]: "irep (load_slot ss i db) L = irep db L"
  by (simp add: irep_def load_slot_def Let_def)

text \<open>The fields of the structure describe slot \<open>i\<close>.\<close>

definition loaded :: "slot list \<Rightarrow> nat \<Rightarrow> DB \<Rightarrow> bool" where
  "loaded ss i db \<longleftrightarrow>
     idxoff db = int (ioff ss i) \<and> datoff db = int (doff ss i) \<and>
     datlen db = int (length (s_data (ss ! i))) + 1 \<and> ptrval db = int (s_ptr (ss ! i)) \<and>
     cstr (idxbuf db) = s_key (ss ! i) \<and> length (s_key (ss ! i)) \<le> length (idxbuf db)"

lemma loaded_load_slot: "key_ok (s_key (ss ! i)) \<Longrightarrow> loaded ss i (load_slot ss i db)"
  by (simp add: loaded_def load_slot_def Let_def key_ok_def)

lemma key_ok_slot: "layout_ok L \<Longrightarrow> i < length (L_slots L) \<Longrightarrow> key_ok (s_key (L_slots L ! i))"
  using layout_ok_nth by (simp add: slot_ok_def)

lemma datfd_load_slot [simp]: "datfd (load_slot ss i db) = datfd db"
  by (simp add: load_slot_def Let_def)

lemma idxfd_load_slot: "f_bytes (idxfd (load_slot ss i db)) = f_bytes (idxfd db)"
  by (simp add: load_slot_def Let_def)

section \<open>The search loops\<close>

lemma db_find_loop_end [simp]: "db_find_loop fuel key 0 db = Inr (0, db)"
  by (simp add: db_find_loop.simps [of fuel] io_simps)

lemma db_find_loop_step:
  assumes r: "irep db L" and j: "j < length (L_slots L)"
  shows "db_find_loop (Suc n) key (int (ioff (L_slots L) j)) db =
    (if s_key (L_slots L ! j) = key then Inr (int (ioff (L_slots L) j), load_slot (L_slots L) j db)
     else db_find_loop n key (int (s_ptr (L_slots L ! j)))
            ((load_slot (L_slots L) j db)\<lparr>ptroff := int (ioff (L_slots L) j)\<rparr>))"
proof -
  have "layout_ok L" using r by (simp add: irep_def)
  then have "loaded (L_slots L) j (load_slot (L_slots L) j db)"
    using j by (intro loaded_load_slot key_ok_slot)
  then show ?thesis
    using db_readidx_slot [OF r j]
    by (subst db_find_loop.simps) (simp add: io_simps loaded_def)
qed

lemma load_slot_ptroff:
  "irep db L \<Longrightarrow> irep ((load_slot ss j db)\<lparr>ptroff := q\<rparr>) L"
  "frame db ((load_slot ss j db)\<lparr>ptroff := q\<rparr>)"
  by (simp_all add: irep_def frame_def load_slot_def Let_def)

lemma db_find_loop_found:
  assumes "irep db L" "chain (L_slots L) p (pre @ i # post)" "length pre < fuel"
    "\<forall>j \<in> set pre. s_key (L_slots L ! j) \<noteq> key" "s_key (L_slots L ! i) = key"
    "ptroff db = int (cell_off L c)"
  shows "\<exists>db'. db_find_loop fuel key (int p) db = Inr (int (ioff (L_slots L) i), db') \<and>
     frame db db' \<and> irep db' L \<and> datfd db' = datfd db \<and> loaded (L_slots L) i db' \<and>
     ptroff db' = int (cell_off L (pred_cell c pre))"
  using assms
proof (induction pre arbitrary: p fuel db c)
  case Nil
  let ?ss = "L_slots L"
  have i: "i < length ?ss" "p = ioff ?ss i" using Nil.prems(2) by auto
  obtain n where fuel: "fuel = Suc n" using Nil.prems(3) by (cases fuel) auto
  have "layout_ok L" using Nil.prems(1) by (simp add: irep_def)
  then have ld: "loaded ?ss i (load_slot ?ss i db)" using i(1) by (intro loaded_load_slot key_ok_slot)
  have "ptroff (load_slot ?ss i db) = ptroff db" by (simp add: load_slot_def Let_def)
  with ld Nil.prems i show ?case unfolding fuel by (auto simp: db_find_loop_step)
next
  case (Cons j pre)
  let ?ss = "L_slots L"
  have j: "j < length ?ss" "p = ioff ?ss j" and ch: "chain ?ss (s_ptr (?ss ! j)) (pre @ i # post)"
    using Cons.prems(2) by auto
  obtain n where fuel: "fuel = Suc n" and n: "length pre < n" using Cons.prems(3) by (cases fuel) auto
  let ?db1 = "(load_slot ?ss j db)\<lparr>ptroff := int (ioff ?ss j)\<rparr>"
  note f1 = load_slot_ptroff(2) [where db = db and ss = ?ss and j = j and q = "int (ioff ?ss j)"]
  have "\<exists>db'. db_find_loop n key (int (s_ptr (?ss ! j))) ?db1 = Inr (int (ioff ?ss i), db') \<and>
     frame ?db1 db' \<and> irep db' L \<and> datfd db' = datfd ?db1 \<and> loaded ?ss i db' \<and>
     ptroff db' = int (cell_off L (pred_cell (CSlot j) pre))"
    by (rule Cons.IH [OF load_slot_ptroff(1) [OF Cons.prems(1)] ch n]) (use Cons.prems in auto)
  with Cons.prems j f1 show ?case unfolding fuel pred_cell_Cons
    by (auto simp: db_find_loop_step intro: frame_trans)
qed

lemma db_find_loop_missing:
  assumes "irep db L" "chain (L_slots L) p is" "length is < fuel"
    "\<forall>j \<in> set is. s_key (L_slots L ! j) \<noteq> key"
  shows "\<exists>db'. db_find_loop fuel key (int p) db = Inr (0, db') \<and>
     frame db db' \<and> irep db' L \<and> datfd db' = datfd db"
  using assms
proof (induction "is" arbitrary: p fuel db)
  case Nil
  then show ?case by auto
next
  case (Cons j js)
  let ?ss = "L_slots L"
  have j: "j < length ?ss" "p = ioff ?ss j" and ch: "chain ?ss (s_ptr (?ss ! j)) js"
    using Cons.prems(2) by auto
  obtain n where fuel: "fuel = Suc n" and n: "length js < n" using Cons.prems(3) by (cases fuel) auto
  let ?db1 = "(load_slot ?ss j db)\<lparr>ptroff := int (ioff ?ss j)\<rparr>"
  note f1 = load_slot_ptroff(2) [where db = db and ss = ?ss and j = j and q = "int (ioff ?ss j)"]
  have "\<exists>db'. db_find_loop n key (int (s_ptr (?ss ! j))) ?db1 = Inr (0, db') \<and>
     frame ?db1 db' \<and> irep db' L \<and> datfd db' = datfd ?db1"
    by (rule Cons.IH [OF load_slot_ptroff(1) [OF Cons.prems(1)] ch n]) (use Cons.prems in auto)
  with Cons.prems j f1 show ?case unfolding fuel
    by (auto simp: db_find_loop_step intro: frame_trans)
qed

text \<open>The search of the free list, with the cell that points to the slot it finds.\<close>

definition fits :: "slot list \<Rightarrow> nat \<Rightarrow> int \<Rightarrow> nat \<Rightarrow> bool" where
  "fits ss keylen dlen i \<longleftrightarrow> length (s_key (ss ! i)) = keylen \<and> int (length (s_data (ss ! i))) + 1 = dlen"

lemma db_free_loop_end [simp]: "db_free_loop fuel k d save 0 db = Inr ((0, save), db)"
  by (simp add: db_free_loop.simps [of fuel] io_simps)

lemma db_free_loop_step:
  assumes r: "irep db L" and j: "j < length (L_slots L)"
  shows "db_free_loop (Suc n) k d save (int (ioff (L_slots L) j)) db =
    (if fits (L_slots L) k d j then Inr ((int (ioff (L_slots L) j), save), load_slot (L_slots L) j db)
     else db_free_loop n k d (int (ioff (L_slots L) j)) (int (s_ptr (L_slots L ! j)))
            (load_slot (L_slots L) j db))"
proof -
  have "layout_ok L" using r by (simp add: irep_def)
  then have "loaded (L_slots L) j (load_slot (L_slots L) j db)"
    using j by (intro loaded_load_slot key_ok_slot)
  then show ?thesis
    using db_readidx_slot [OF r j]
    by (subst db_free_loop.simps) (simp add: io_simps loaded_def fits_def)
qed

lemma db_free_loop_search:
  assumes "irep db L" "chain (L_slots L) p is" "length is < fuel" "save = int (cell_off L c)"
  shows "\<exists>db'. frame db db' \<and> irep db' L \<and> datfd db' = datfd db \<and>
     (case find (fits (L_slots L) k d) is of
        None \<Rightarrow> \<exists>s. db_free_loop fuel k d save (int p) db = Inr ((0, s), db')
      | Some i \<Rightarrow> \<exists>pre post. is = pre @ i # post \<and> fits (L_slots L) k d i \<and> loaded (L_slots L) i db' \<and>
          db_free_loop fuel k d save (int p) db =
            Inr ((int (ioff (L_slots L) i), int (cell_off L (pred_cell c pre))), db'))"
  using assms
proof (induction "is" arbitrary: p fuel db save c)
  case Nil
  then show ?case by auto
next
  case (Cons j js)
  let ?ss = "L_slots L"
  have j: "j < length ?ss" "p = ioff ?ss j" and ch: "chain ?ss (s_ptr (?ss ! j)) js"
    using Cons.prems(2) by auto
  obtain n where fuel: "fuel = Suc n" and n: "length js < n" using Cons.prems(3) by (cases fuel) auto
  let ?db1 = "load_slot ?ss j db"
  have r1: "irep ?db1 L" using Cons.prems(1) by simp
  show ?case
  proof (cases "fits ?ss k d j")
    case True
    have "layout_ok L" using Cons.prems(1) by (simp add: irep_def)
    then have "loaded ?ss j ?db1" using j(1) by (intro loaded_load_slot key_ok_slot)
    moreover have "db_free_loop fuel k d save (int p) db = Inr ((int (ioff ?ss j), int (cell_off L (pred_cell c []))), ?db1)"
      using True Cons.prems j fuel by (simp add: db_free_loop_step)
    ultimately show ?thesis using True r1 by (intro exI [of _ ?db1]) force
  next
    case False
    have step: "db_free_loop fuel k d save (int p) db =
        db_free_loop n k d (int (ioff ?ss j)) (int (s_ptr (?ss ! j))) ?db1"
      using False Cons.prems j fuel by (simp add: db_free_loop_step)
    obtain db' where db': "frame ?db1 db'" "irep db' L" "datfd db' = datfd ?db1"
      and res: "case find (fits ?ss k d) js of
          None \<Rightarrow> \<exists>s. db_free_loop n k d (int (ioff ?ss j)) (int (s_ptr (?ss ! j))) ?db1 = Inr ((0, s), db')
        | Some i \<Rightarrow> \<exists>pre post. js = pre @ i # post \<and> fits ?ss k d i \<and> loaded ?ss i db' \<and>
            db_free_loop n k d (int (ioff ?ss j)) (int (s_ptr (?ss ! j))) ?db1 =
              Inr ((int (ioff ?ss i), int (cell_off L (pred_cell (CSlot j) pre))), db')"
      using Cons.IH [OF r1 ch n, of "int (ioff ?ss j)" "CSlot j"] by auto
    have "frame db db'" using frame_trans [OF frame_load_slot db'(1)] .
    moreover have "datfd db' = datfd db" using db'(3) by simp
    moreover have "case find (fits ?ss k d) (j # js) of
          None \<Rightarrow> \<exists>s. db_free_loop fuel k d save (int p) db = Inr ((0, s), db')
        | Some i \<Rightarrow> \<exists>pre post. j # js = pre @ i # post \<and> fits ?ss k d i \<and> loaded ?ss i db' \<and>
            db_free_loop fuel k d save (int p) db =
              Inr ((int (ioff ?ss i), int (cell_off L (pred_cell c pre))), db')"
    proof (cases "find (fits ?ss k d) js")
      case None
      with res False step show ?thesis by simp
    next
      case (Some i)
      with res obtain pre post where "js = pre @ i # post" "fits ?ss k d i" "loaded ?ss i db'"
        "db_free_loop n k d (int (ioff ?ss j)) (int (s_ptr (?ss ! j))) ?db1 =
              Inr ((int (ioff ?ss i), int (cell_off L (pred_cell (CSlot j) pre))), db')"
        by auto
      with Some False step show ?thesis
        by (simp, intro exI [of _ "j # pre"]) (auto simp: pred_cell_Cons)
    qed
    ultimately show ?thesis using db'(2) by blast
  qed
qed

end
