(* ===== verification/Db_Surgery.thy ===== *)
theory Db_Surgery
  imports Db_Chains
begin

text \<open>
  The four moves of a slot between the lists of a database, on layouts: out of a hash chain,
  onto the free list, off the free list, and to the head of a hash chain; and a new slot at
  the end of the files. Each keeps the invariant and changes the map of the database as the
  operation that performs it should.
\<close>

definition slot_set :: "layout \<Rightarrow> nat \<Rightarrow> slot \<Rightarrow> layout" where
  "slot_set L i s = L\<lparr>L_slots := (L_slots L)[i := s]\<rparr>"

lemma slot_set_sel [simp]:
  "L_slots (slot_set L i s) = (L_slots L)[i := s]"
  "L_free (slot_set L i s) = L_free L" "L_hash (slot_set L i s) = L_hash L"
  by (simp_all add: slot_set_def)

lemma cell_set_sel [simp]:
  "length (L_slots (cell_set L c p)) = length (L_slots L)"
  "length (L_hash (cell_set L c p)) = length (L_hash L)"
  by (cases c, auto)+

lemma cell_set_key [simp]:
  assumes "j < length (L_slots L)"
  shows "s_key (L_slots (cell_set L c p) ! j) = s_key (L_slots L ! j)"
    "s_data (L_slots (cell_set L c p) ! j) = s_data (L_slots L ! j)"
proof -
  have "s_key (L_slots (cell_set L c p) ! j) = s_key (L_slots L ! j) \<and>
      s_data (L_slots (cell_set L c p) ! j) = s_data (L_slots L ! j)"
  proof (cases c)
    case (CSlot i)
    show ?thesis
    proof (cases "i = j")
      case True
      with assms show ?thesis unfolding CSlot by simp
    next
      case False
      then show ?thesis unfolding CSlot by simp
    qed
  qed simp_all
  then show "s_key (L_slots (cell_set L c p) ! j) = s_key (L_slots L ! j)"
    "s_data (L_slots (cell_set L c p) ! j) = s_data (L_slots L ! j)" by simp_all
qed

lemma slot_set_ok:
  "layout_ok L \<Longrightarrow> i < length (L_slots L) \<Longrightarrow> same_shape s (L_slots L ! i) \<Longrightarrow>
   ptr_ok (s_ptr s) \<Longrightarrow> key_ok (s_key s) \<Longrightarrow> data_ok (s_data s) \<Longrightarrow> layout_ok (slot_set L i s)"
  by (simp add: layout_ok_def slots_ok_update)

lemma seg_cell_set:
  assumes "layout_ok L" "ptr_ok p" "\<And>j. c = CSlot j \<Longrightarrow> j \<notin> set is"
  shows "seg (L_slots (cell_set L c p)) q is r \<longleftrightarrow> seg (L_slots L) q is r"
proof (cases c)
  case (CSlot j)
  with assms show ?thesis
    by (simp add: seg_update layout_ok_def same_shape_def)
qed auto

lemma seg_slot_set:
  assumes "layout_ok L" "same_shape s (L_slots L ! i)" "ptr_ok (s_ptr s)" "i \<notin> set is"
  shows "seg ((L_slots L)[i := s]) q is r \<longleftrightarrow> seg (L_slots L) q is r"
  using assms by (simp add: seg_update layout_ok_def)

text \<open>Chain and free-list conditions under a change of a slot that is not on the list.\<close>

lemma chain_ok_cong:
  assumes "\<And>q r. seg ss' q is r = seg ss q is r"
    "\<And>j. j \<in> set is \<Longrightarrow> s_key (ss' ! j) = s_key (ss ! j)"
  shows "chain_ok ss' h p is = chain_ok ss h p is"
  using assms by (auto simp: chain_ok_def inj_on_def)

lemma free_ok_cong:
  assumes "\<And>q r. seg ss' q is r = seg ss q is r"
    "\<And>j. j \<in> set is \<Longrightarrow> s_key (ss' ! j) = s_key (ss ! j) \<and> s_data (ss' ! j) = s_data (ss ! j)"
  shows "free_ok ss' p is = free_ok ss p is"
  using assms by (auto simp: free_ok_def)

lemma chain_ok_bound: "chain_ok ss h p is \<Longrightarrow> j \<in> set is \<Longrightarrow> j < length ss"
  using seg_bound by (auto simp: chain_ok_def)

lemma free_ok_bound: "free_ok ss p is \<Longrightarrow> j \<in> set is \<Longrightarrow> j < length ss"
  using seg_bound by (auto simp: free_ok_def)

lemma chain_ok_cell_set:
  assumes "layout_ok L" "ptr_ok p" "\<And>j. c = CSlot j \<Longrightarrow> j \<notin> set is" "chain_ok (L_slots L) h q is"
  shows "chain_ok (L_slots (cell_set L c p)) h q is"
proof -
  have "chain_ok (L_slots (cell_set L c p)) h q is = chain_ok (L_slots L) h q is"
    by (rule chain_ok_cong) (use assms chain_ok_bound in \<open>auto simp: seg_cell_set\<close>)
  with assms(4) show ?thesis by simp
qed

lemma free_ok_cell_set:
  assumes "layout_ok L" "ptr_ok p" "\<And>j. c = CSlot j \<Longrightarrow> j \<notin> set is" "free_ok (L_slots L) q is"
  shows "free_ok (L_slots (cell_set L c p)) q is"
proof -
  have "free_ok (L_slots (cell_set L c p)) q is = free_ok (L_slots L) q is"
    by (rule free_ok_cong) (use assms free_ok_bound in \<open>auto simp: seg_cell_set\<close>)
  with assms(4) show ?thesis by simp
qed

lemma chain_ok_slot_set:
  assumes "layout_ok L" "same_shape s (L_slots L ! i)" "ptr_ok (s_ptr s)" "i \<notin> set is"
    "chain_ok (L_slots L) h q is"
  shows "chain_ok ((L_slots L)[i := s]) h q is"
proof -
  have "chain_ok ((L_slots L)[i := s]) h q is = chain_ok (L_slots L) h q is"
    by (rule chain_ok_cong) (use assms in \<open>auto simp: seg_slot_set intro!: arg_cong [where f = s_key] arg_cong [where f = s_data] nth_list_update_neq\<close>)
  with assms(5) show ?thesis by simp
qed

lemma free_ok_slot_set:
  assumes "layout_ok L" "same_shape s (L_slots L ! i)" "ptr_ok (s_ptr s)" "i \<notin> set is"
    "free_ok (L_slots L) q is"
  shows "free_ok ((L_slots L)[i := s]) q is"
proof -
  have "free_ok ((L_slots L)[i := s]) q is = free_ok (L_slots L) q is"
    by (rule free_ok_cong) (use assms in \<open>auto simp: seg_slot_set intro!: arg_cong [where f = s_key] arg_cong [where f = s_data] nth_list_update_neq\<close>)
  with assms(5) show ?thesis by simp
qed

lemma db_invx_disjoint:
  assumes "db_invx X L ch fr" "h < NHASH_DEF" "h' < NHASH_DEF" "h \<noteq> h'"
  shows "set (ch h) \<inter> set (ch h') = {}"
proof -
  have "chain_ok (L_slots L) h (L_hash L ! h) (ch h)" "chain_ok (L_slots L) h' (L_hash L ! h') (ch h')"
    using assms by (auto simp: db_invx_def)
  with assms(4) show ?thesis by (auto simp: chain_ok_def)
qed

lemma db_invx_free: "db_invx X L ch fr \<Longrightarrow> h < NHASH_DEF \<Longrightarrow> set (ch h) \<inter> set fr = {}"
  by (simp add: db_invx_def)

lemma db_invx_out: "db_invx X L ch fr \<Longrightarrow> h < NHASH_DEF \<Longrightarrow> set (ch h) \<inter> X = {}"
  by (simp add: db_invx_def)

lemma db_invx_chain:
  "db_invx X L ch fr \<Longrightarrow> h < NHASH_DEF \<Longrightarrow> chain_ok (L_slots L) h (L_hash L ! h) (ch h)"
  by (simp add: db_invx_def)

lemma db_invx_layout: "db_invx X L ch fr \<Longrightarrow> layout_ok L"
  by (simp add: db_invx_def)

lemma db_invx_hash_len: "db_invx X L ch fr \<Longrightarrow> length (L_hash L) = NHASH_DEF"
  by (simp add: db_invx_def layout_ok_def)

lemma pred_cell_slot: "pred_cell c pre = CSlot j \<Longrightarrow> \<not> is_slot c \<Longrightarrow> j \<in> set pre"
  by (auto simp: pred_cell_def split: if_splits)

section \<open>Out of a hash chain\<close>

lemma chains_remove:
  fixes ch :: "nat \<Rightarrow> 'a list"
  assumes h: "h < n" and ch: "ch h = pre @ i # post"
  shows "(\<Union>h' < n. set (ch h')) = insert i (\<Union>h' < n. set ((ch(h := pre @ post)) h'))"
proof (rule set_eqI)
  fix x
  have "(\<exists>h' < n. x \<in> set (ch h')) \<longleftrightarrow> x = i \<or> (\<exists>h' < n. x \<in> set ((ch(h := pre @ post)) h'))"
  proof (cases "x \<in> set (ch h)")
    case True
    with h ch show ?thesis by (auto intro: exI [of _ h])
  next
    case False
    with h ch show ?thesis by (metis fun_upd_apply in_set_conv_decomp Un_iff set_append insert_iff list.set(2))
  qed
  then show "x \<in> (\<Union>h' < n. set (ch h')) \<longleftrightarrow>
      x \<in> insert i (\<Union>h' < n. set ((ch(h := pre @ post)) h'))" by (simp add: Bex_def)
qed

lemma unlink_hash:
  assumes inv: "db_inv L ch fr" and h: "h < NHASH_DEF" and ch: "ch h = pre @ i # post"
  defines "L' \<equiv> cell_set L (pred_cell (CHash h) pre) (s_ptr (L_slots L ! i))"
  shows "db_invx {i} L' (ch(h := pre @ post)) fr"
proof -
  let ?ss = "L_slots L" let ?c = "pred_cell (CHash h) pre" let ?p = "s_ptr (?ss ! i)"
  have ok: "layout_ok L" using inv by (simp add: db_invx_def)
  have hl: "length (L_hash L) = NHASH_DEF" using ok by (simp add: layout_ok_def)
  have co: "chain_ok ?ss h (L_hash L ! h) (pre @ i # post)" using inv h ch by (auto simp: db_invx_def)
  then have c: "chain ?ss (L_hash L ! h) (pre @ i # post)" and d: "distinct (pre @ i # post)"
    by (auto simp: chain_ok_def)
  have i: "i < length ?ss" using chain_ok_bound [OF co, of i] by simp
  have pq: "ptr_ok ?p" using layout_ok_nth [OF ok i] by (simp add: slot_ok_def)
  have pc: "cell_ok L ?c" using pred_cell_ok [of L "CHash h"] c h hl by (auto simp: seg_append)
  have ok': "layout_ok L'" using cell_set_ok [OF ok pc pq] by (simp add: L'_def)
  have notin: "j \<notin> set fr" "\<And>h'. h' < NHASH_DEF \<Longrightarrow> h' \<noteq> h \<Longrightarrow> j \<notin> set (ch h')" if "?c = CSlot j" for j
    using pred_cell_slot [OF that] ch db_invx_disjoint [OF inv h] db_invx_free [OF inv h] by auto
  have hash': "L_hash L' ! h' = L_hash L ! h'" if "h' < NHASH_DEF" "h' \<noteq> h" for h'
    using that by (simp add: L'_def pred_cell_def)
  have "chain (L_slots L') (L_hash L' ! h) (pre @ post)"
    using unlink_chain [OF ok _ _ _ d refl, of "CHash h"] c h hl by (simp add: L'_def)
  then have mine: "chain_ok (L_slots L') h (L_hash L' ! h) (pre @ post)"
    using co chain_ok_bound [OF co] d by (auto simp: chain_ok_def L'_def inj_on_def)
  have other: "chain_ok (L_slots L') h' (L_hash L' ! h') (ch h')" if "h' < NHASH_DEF" "h' \<noteq> h" for h'
    unfolding L'_def
    by (rule chain_ok_cell_set [OF ok pq notin(2)])
      (use that inv hash' in \<open>auto simp: db_invx_def L'_def [symmetric]\<close>)
  have free: "free_ok (L_slots L') (L_free L') fr"
  proof -
    have "L_free L' = L_free L" by (simp add: L'_def pred_cell_def)
    moreover have "free_ok ?ss (L_free L) fr" using inv by (simp add: db_invx_def)
    from free_ok_cell_set [OF ok pq notin(1) this] have "free_ok (L_slots L') (L_free L) fr"
      by (simp add: L'_def)
    ultimately show ?thesis by simp
  qed
  have inh: "i \<in> set (ch h)" using ch by simp
  have ni: "i \<notin> set (ch h')" if "h' < NHASH_DEF" "h' \<noteq> h" for h'
    using inh that db_invx_disjoint [OF inv h] by blast
  have cover: "{..<length (L_slots L')} = {i} \<union> set fr \<union> (\<Union>h' < NHASH_DEF. set ((ch(h := pre @ post)) h'))"
    using inv chains_remove [of h NHASH_DEF ch, OF h ch] by (simp add: db_invx_def L'_def)
  have "chain_ok (L_slots L') h' (L_hash L' ! h') ((ch(h := pre @ post)) h') \<and>
      set ((ch(h := pre @ post)) h') \<inter> set fr = {} \<and> set ((ch(h := pre @ post)) h') \<inter> {i} = {}"
    if h': "h' < NHASH_DEF" for h'
    using mine other [OF h'] db_invx_free [OF inv h'] d ni [OF h'] ch by auto
  moreover have "set fr \<inter> {i} = {}" using db_invx_free [OF inv h] inh by auto
  ultimately show ?thesis
    unfolding db_invx_def using ok' free cover by simp
qed

section \<open>Onto the free list\<close>

lemma push_free:
  assumes inv: "db_invx {i} L ch fr"
    and s: "same_shape s (L_slots L ! i)" "s_ptr s = L_free L" "blank (s_key s)" "blank (s_data s)"
      "key_ok (s_key s)" "data_ok (s_data s)"
    and po: "ptr_ok (ioff (L_slots L) i)"
  defines "L' \<equiv> cell_set (slot_set L i s) CFree (ioff (L_slots L) i)"
  shows "db_inv L' ch (i # fr)"
proof -
  let ?ss = "L_slots L"
  have ok: "layout_ok L" and i: "i < length ?ss" using inv by (auto simp: db_invx_def)
  have pf: "ptr_ok (s_ptr s)" using ok s(2) by (simp add: layout_ok_def)
  have ok1: "layout_ok (slot_set L i s)" using slot_set_ok [OF ok i s(1) pf s(5,6)] .
  have ok': "layout_ok L'" using cell_set_ok [OF ok1, of CFree] po by (simp add: L'_def)
  have io: "ioff (?ss[i := s]) i = ioff ?ss i"
    using ioff_update [OF s(1) pf] ok by (simp add: layout_ok_def)
  have fr: "free_ok (?ss[i := s]) (L_free L) fr"
    by (rule free_ok_slot_set [OF ok s(1) pf]) (use inv in \<open>auto simp: db_invx_def\<close>)
  have "free_ok (L_slots L') (L_free L') (i # fr)"
    using fr i io s(2-4) inv by (auto simp: L'_def free_ok_def db_invx_def)
  moreover have "chain_ok (L_slots L') h (L_hash L' ! h) (ch h)" if "h < NHASH_DEF" for h
    using that inv by (auto simp: L'_def db_invx_def intro!: chain_ok_slot_set [OF ok s(1) pf])
  ultimately show ?thesis
    using ok' inv unfolding db_invx_def L'_def by auto
qed

section \<open>Off the free list\<close>

lemma take_free:
  assumes inv: "db_inv L ch fr" and fr: "fr = pre @ i # post"
  defines "L' \<equiv> cell_set L (pred_cell CFree pre) (s_ptr (L_slots L ! i))"
  shows "db_invx {i} L' ch (pre @ post)"
proof -
  let ?ss = "L_slots L" let ?c = "pred_cell CFree pre" let ?p = "s_ptr (?ss ! i)"
  have ok: "layout_ok L" using inv by (simp add: db_invx_def)
  have fo: "free_ok ?ss (L_free L) (pre @ i # post)" using inv fr by (simp add: db_invx_def)
  then have c: "chain ?ss (L_free L) (pre @ i # post)" and d: "distinct (pre @ i # post)"
    by (auto simp: free_ok_def)
  have i: "i < length ?ss" using free_ok_bound [OF fo, of i] by simp
  have pq: "ptr_ok ?p" using layout_ok_nth [OF ok i] by (simp add: slot_ok_def)
  have pc: "cell_ok L ?c" using pred_cell_ok [of L CFree] c by (auto simp: seg_append)
  have ok': "layout_ok L'" using cell_set_ok [OF ok pc pq] by (simp add: L'_def)
  have notin: "\<And>h'. h' < NHASH_DEF \<Longrightarrow> j \<notin> set (ch h')" if "?c = CSlot j" for j
    using pred_cell_slot [OF that] inv fr by (auto simp: db_invx_def)
  have hash': "L_hash L' = L_hash L" by (simp add: L'_def pred_cell_def)
  have "chain (L_slots L') (L_free L') (pre @ post)"
    using unlink_chain [OF ok _ _ _ d refl, of CFree] c by (simp add: L'_def)
  then have free: "free_ok (L_slots L') (L_free L') (pre @ post)"
    using fo free_ok_bound [OF fo] d by (auto simp: free_ok_def L'_def)
  have other: "chain_ok (L_slots L') h' (L_hash L' ! h') (ch h')" if "h' < NHASH_DEF" for h'
    unfolding L'_def
    by (rule chain_ok_cell_set [OF ok pq notin])
      (use that inv hash' in \<open>auto simp: db_invx_def L'_def [symmetric]\<close>)
  show ?thesis
    unfolding db_invx_def
    using ok' other free d inv fr by (auto simp: db_invx_def L'_def)
qed

section \<open>To the head of a hash chain\<close>

lemma chain_ok_Cons:
  assumes "chain_ok ss h q is" "i < length ss" "p = ioff ss i" "s_ptr (ss ! i) = q" "i \<notin> set is"
    "hash137 (s_key (ss ! i)) = h" "\<And>j. j \<in> set is \<Longrightarrow> s_key (ss ! j) \<noteq> s_key (ss ! i)"
  shows "chain_ok ss h p (i # is)"
proof -
  have c: "chain ss q is" "distinct is" "\<forall>j \<in> set is. hash137 (s_key (ss ! j)) = h"
    "inj_on (\<lambda>i. s_key (ss ! i)) (set is)"
    using assms(1) by (simp_all add: chain_ok_def)
  have "s_key (ss ! i) \<notin> (\<lambda>i. s_key (ss ! i)) ` (set is - {i})" using assms(7) by force
  then have "inj_on (\<lambda>i. s_key (ss ! i)) (set (i # is))" using c(4) by (simp only: list.set inj_on_insert) blast
  moreover have "chain ss p (i # is)" using c(1) assms(2,3,4) by simp
  ultimately show ?thesis using c(2,3) assms(5,6) by (simp add: chain_ok_def)
qed

text \<open>The slot that was in no list is now the head of chain \<open>h\<close>.\<close>

lemma db_inv_push:
  assumes inv: "db_invx X L ch fr" and ok: "layout_ok L'" and h: "h < NHASH_DEF"
    and sl: "{..< length (L_slots L')} = insert i (set fr \<union> (\<Union>h' < NHASH_DEF. set (ch h')))"
    and i: "i \<notin> set fr"
    and mine: "chain_ok (L_slots L') h (L_hash L' ! h) (i # ch h)"
    and other: "\<And>h'. h' < NHASH_DEF \<Longrightarrow> h' \<noteq> h \<Longrightarrow> chain_ok (L_slots L') h' (L_hash L' ! h') (ch h')"
    and free: "free_ok (L_slots L') (L_free L') fr"
  shows "db_inv L' (ch(h := i # ch h)) fr"
proof -
  have "chain_ok (L_slots L') h' (L_hash L' ! h') ((ch(h := i # ch h)) h')" if "h' < NHASH_DEF" for h'
    using mine other that by simp
  moreover have "set ((ch(h := i # ch h)) h') \<inter> set fr = {}" if "h' < NHASH_DEF" for h'
    using db_invx_free [OF inv that] i by auto
  moreover have "{..< length (L_slots L')} = set fr \<union> (\<Union>h' < NHASH_DEF. set ((ch(h := i # ch h)) h'))"
    unfolding sl using h by (auto split: if_splits)
  ultimately show ?thesis using ok free by (simp add: db_invx_def)
qed

lemma push_hash:
  assumes inv: "db_invx {i} L ch fr" and h: "h = hash137 (s_key s)"
    and s: "same_shape s (L_slots L ! i)" "s_ptr s = L_hash L ! h" "key_ok (s_key s)" "data_ok (s_data s)"
    and new: "\<forall>j \<in> set (ch h). s_key (L_slots L ! j) \<noteq> s_key s"
    and po: "ptr_ok (ioff (L_slots L) i)"
  defines "L' \<equiv> cell_set (slot_set L i s) (CHash h) (ioff (L_slots L) i)"
  shows "db_inv L' (ch(h := i # ch h)) fr"
proof -
  let ?ss = "L_slots L"
  have ok: "layout_ok L" and i: "i < length ?ss" using inv by (auto simp: db_invx_def)
  have hl: "length (L_hash L) = NHASH_DEF" and h137: "h < NHASH_DEF" using ok h by (auto simp: layout_ok_def)
  have pf: "ptr_ok (s_ptr s)" using ok s(2) hl h137 by (auto simp: layout_ok_def list_all_length)
  have ok1: "layout_ok (slot_set L i s)" using slot_set_ok [OF ok i s(1) pf s(3,4)] .
  have ok': "layout_ok L'" using cell_set_ok [OF ok1, of "CHash h"] po hl h137 by (simp add: L'_def)
  have io: "ioff (?ss[i := s]) i = ioff ?ss i"
    using ioff_update [OF s(1) pf] ok by (simp add: layout_ok_def)
  have chs: "chain_ok (?ss[i := s]) h' (L_hash L ! h') (ch h')" if "h' < NHASH_DEF" for h'
    using that inv by (auto simp: db_invx_def intro!: chain_ok_slot_set [OF ok s(1) pf])
  have ni: "i \<notin> set (ch h')" if "h' < NHASH_DEF" for h' using inv that by (auto simp: db_invx_def)
  have keys: "s_key (?ss[i := s] ! j) = s_key (?ss ! j)" if "j \<in> set (ch h)" for j
    using ni [OF h137] that by (metis nth_list_update_neq)
  have mine: "chain_ok (?ss[i := s]) h (ioff ?ss i) (i # ch h)"
    by (rule chain_ok_Cons [OF chs [OF h137]]) (use i io s(2) h new ni [OF h137] keys in auto)
  have free: "free_ok (?ss[i := s]) (L_free L) fr"
    by (rule free_ok_slot_set [OF ok s(1) pf]) (use inv in \<open>auto simp: db_invx_def\<close>)
  have L': "L_slots L' = ?ss[i := s]" "L_free L' = L_free L" "L_hash L' = (L_hash L)[h := ioff ?ss i]"
    by (simp_all add: L'_def)
  have hash': "L_hash L' ! h' = (if h' = h then ioff ?ss i else L_hash L ! h')" if "h' < NHASH_DEF" for h'
    using that hl L'(3) by auto
  have cover: "{..< length (L_slots L')} = insert i (set fr \<union> (\<Union>h' < NHASH_DEF. set (ch h')))"
    and ifr: "i \<notin> set fr" using inv L'(1) by (simp_all add: db_invx_def)
  show ?thesis
    by (rule db_inv_push [OF inv ok' h137 cover ifr]) (use L' mine chs free hash' h137 in simp_all)
qed

section \<open>A new slot at the end\<close>

lemma append_hash:
  assumes inv: "db_inv L ch fr" and h: "h = hash137 (s_key s)"
    and s: "slot_ok (doff (L_slots L) (length (L_slots L))) s" "s_ptr s = L_hash L ! h"
    and new: "\<forall>j \<in> set (ch h). s_key (L_slots L ! j) \<noteq> s_key s"
    and po: "ptr_ok (ioff (L_slots L) (length (L_slots L)))"
  defines "n \<equiv> length (L_slots L)"
  defines "L' \<equiv> cell_set (L\<lparr>L_slots := L_slots L @ [s]\<rparr>) (CHash h) (ioff (L_slots L) n)"
  shows "db_inv L' (ch(h := n # ch h)) fr"
proof -
  let ?ss = "L_slots L" let ?ss' = "?ss @ [s]"
  have ok: "layout_ok L" using inv by (auto simp: db_invx_def)
  have hl: "length (L_hash L) = NHASH_DEF" and h137: "h < NHASH_DEF" using ok h by (auto simp: layout_ok_def)
  have ok1: "layout_ok (L\<lparr>L_slots := ?ss'\<rparr>)"
    using ok s(1) by (simp add: layout_ok_def slots_ok_append doff_def)
  have ok': "layout_ok L'" using cell_set_ok [OF ok1, of "CHash h"] po hl h137 by (simp add: L'_def n_def)
  have bound: "j < n" if "j \<in> set (ch h')" "h' < NHASH_DEF" for j h'
    using that inv chain_ok_bound by (auto simp: db_invx_def n_def)
  have chs: "chain_ok ?ss' h' (L_hash L ! h') (ch h')" if "h' < NHASH_DEF" for h'
    using that inv bound [OF _ that] by (auto simp: db_invx_def chain_ok_def inj_on_def seg_snoc_slot nth_append n_def)
  have mine: "chain_ok ?ss' h (ioff ?ss n) (n # ch h)"
    by (rule chain_ok_Cons [OF chs [OF h137]])
      (use s(2) h new bound [OF _ h137] in \<open>auto simp: nth_append n_def ioff_snoc\<close>)
  have free: "free_ok ?ss' (L_free L) fr"
    using inv free_ok_bound [of ?ss] by (auto simp: db_invx_def free_ok_def seg_snoc_slot nth_append)
  have nfr: "n \<notin> set fr" using inv free_ok_bound by (fastforce simp: db_invx_def n_def)
  have L': "L_slots L' = ?ss'" "L_free L' = L_free L" "L_hash L' = (L_hash L)[h := ioff ?ss n]"
    by (simp_all add: L'_def)
  have hash': "L_hash L' ! h' = (if h' = h then ioff ?ss n else L_hash L ! h')" if "h' < NHASH_DEF" for h'
    using that hl L'(3) by auto
  have cover: "{..< length (L_slots L')} = insert n (set fr \<union> (\<Union>h' < NHASH_DEF. set (ch h')))"
    using inv by (simp add: db_invx_def L'(1) lessThan_Suc n_def)
  show ?thesis
    by (rule db_inv_push [OF inv ok' h137 cover nfr]) (use L' mine chs free hash' h137 in simp_all)
qed

end
