(* ===== verification/Db_Delete.thy ===== *)
theory Db_Delete
  imports Db_Surgery
begin

text \<open>
  The map a database represents and how the list surgery changes it; finding a record under
  the lock of its chain (\<open>_db_find_and_lock\<close>), and deleting the record found
  (\<open>_db_dodelete\<close>): its data and key become blanks, it moves to the free list, and the map
  loses its key.
\<close>

section \<open>The map of a database\<close>

lemma db_map_Some:
  assumes "\<And>h. h < NHASH_DEF \<Longrightarrow> chain_ok ss h (p h) (ch h)"
  shows "db_map ss ch k = Some d \<longleftrightarrow> (\<exists>i \<in> set (ch (hash137 k)). s_key (ss ! i) = k \<and> s_data (ss ! i) = d)"
    (is "?l = ?r")
proof
  assume ?l
  then obtain i where "find (\<lambda>i. s_key (ss ! i) = k) (ch (hash137 k)) = Some i" "s_data (ss ! i) = d"
    by (auto simp: db_map_def)
  then show ?r by (auto simp: find_Some_iff)
next
  assume ?r
  with db_map_slot [of ss "hash137 k" "p (hash137 k)" ch _ k] assms [of "hash137 k"] show ?l by auto
qed

lemma map_eqI_Some: "(\<And>k d. m k = Some d \<longleftrightarrow> m' k = Some d) \<Longrightarrow> m = m'"
  by (rule ext) (metis option.exhaust)

lemma db_inv_map_Some:
  "db_inv L ch fr \<Longrightarrow> db_map (L_slots L) ch k = Some d \<longleftrightarrow>
     (\<exists>i \<in> set (ch (hash137 k)). s_key (L_slots L ! i) = k \<and> s_data (L_slots L ! i) = d)"
  using db_map_Some [of "L_slots L" "\<lambda>h. L_hash L ! h" ch k d] by (simp add: db_invx_chain)

lemma db_inv_key_unique:
  assumes "db_inv L ch fr" "h < NHASH_DEF" "i \<in> set (ch h)" "j \<in> set (ch h)"
    "s_key (L_slots L ! i) = s_key (L_slots L ! j)"
  shows "i = j"
  using db_invx_chain [OF assms(1,2)] assms(3-5) by (auto simp: chain_ok_def inj_on_def)

text \<open>Removing slot \<open>i\<close> from its chain removes its key; every other slot keeps its contents.\<close>

lemma db_map_remove:
  assumes inv: "db_inv L ch fr" and inv': "db_inv L' (ch(h := pre @ post)) fr'" and h: "h = hash137 k"
    and ch: "ch h = pre @ i # post" and k: "s_key (L_slots L ! i) = k"
    and same: "\<And>j. j < length (L_slots L) \<Longrightarrow> j \<noteq> i \<Longrightarrow>
      s_key (L_slots L' ! j) = s_key (L_slots L ! j) \<and> s_data (L_slots L' ! j) = s_data (L_slots L ! j)"
  shows "db_map (L_slots L') (ch(h := pre @ post)) = (db_map (L_slots L) ch)(k := None)"
proof (rule map_eqI_Some)
  fix k' d
  have bound: "j < length (L_slots L)" if "h' < NHASH_DEF" "j \<in> set (ch h')" for h' j
    using chain_ok_bound [OF db_invx_chain [OF inv that(1)] that(2)] .
  have d: "i \<notin> set pre" "i \<notin> set post" using db_invx_chain [OF inv, of h] h ch by (auto simp: chain_ok_def)
  let ?h = "hash137 k'"
  have uniq: "j = i" if "j \<in> set (ch h)" "s_key (L_slots L ! j) = k" for j
    using db_inv_key_unique [OF inv, of h j i] that h ch k by auto
  have iff: "j \<in> set ((ch(h := pre @ post)) ?h) \<longleftrightarrow> j \<in> set (ch ?h) \<and> j \<noteq> i" if "j < length (L_slots L)" for j
  proof (cases "?h = h")
    case False
    then have "i \<notin> set (ch ?h)"
      using db_invx_disjoint [OF inv, of ?h h] h ch by auto
    with False show ?thesis by auto
  qed (use ch d in auto)
  have sub: "j < length (L_slots L)" if "j \<in> set ((ch(h := pre @ post)) ?h)" for j
    using that bound [of ?h j] ch by (auto split: if_splits)
  have "db_map (L_slots L') (ch(h := pre @ post)) k' = Some d \<longleftrightarrow>
      (\<exists>j \<in> set (ch ?h). j \<noteq> i \<and> s_key (L_slots L ! j) = k' \<and> s_data (L_slots L ! j) = d)"
    unfolding db_inv_map_Some [OF inv'] using iff sub same bound [of ?h] by (metis hash137_less)
  also have "\<dots> \<longleftrightarrow> ((db_map (L_slots L) ch)(k := None)) k' = Some d"
  proof (cases "k' = k")
    case True
    with uniq h show ?thesis by auto
  next
    case False
    with k show ?thesis by (auto simp: db_inv_map_Some [OF inv])
  qed
  finally show "db_map (L_slots L') (ch(h := pre @ post)) k' = Some d \<longleftrightarrow>
      ((db_map (L_slots L) ch)(k := None)) k' = Some d" .
qed

text \<open>A slot pushed onto the chain of a key that was absent.\<close>

lemma db_map_push:
  assumes inv': "db_inv L' (ch(h := i # ch h)) fr'" and h: "h = hash137 k"
    and old: "\<And>h'. h' < NHASH_DEF \<Longrightarrow> chain_ok ss h' (p h') (ch h')"
    and i: "s_key (L_slots L' ! i) = k" "s_data (L_slots L' ! i) = x"
    and new: "db_map ss ch k = None"
    and same: "\<And>h' j. h' < NHASH_DEF \<Longrightarrow> j \<in> set (ch h') \<Longrightarrow>
      s_key (L_slots L' ! j) = s_key (ss ! j) \<and> s_data (L_slots L' ! j) = s_data (ss ! j)"
  shows "db_map (L_slots L') (ch(h := i # ch h)) = (db_map ss ch)(k \<mapsto> x)"
proof (rule map_eqI_Some)
  fix k' d
  let ?h = "hash137 k'"
  have "db_map (L_slots L') (ch(h := i # ch h)) k' = Some d \<longleftrightarrow>
     (k' = k \<and> d = x) \<or> (\<exists>j \<in> set (ch ?h). s_key (ss ! j) = k' \<and> s_data (ss ! j) = d)"
    unfolding db_inv_map_Some [OF inv'] using same [of ?h] i h by (auto split: if_splits)
  also have "\<dots> \<longleftrightarrow> ((db_map ss ch)(k \<mapsto> x)) k' = Some d"
    using new by (auto simp: db_map_Some [of ss p ch, OF old] db_map_None)
  finally show "db_map (L_slots L') (ch(h := i # ch h)) k' = Some d \<longleftrightarrow>
      ((db_map ss ch)(k \<mapsto> x)) k' = Some d" .
qed

text \<open>New data of the same length in the slot of a key.\<close>

lemma db_map_overwrite:
  assumes inv: "db_inv L ch fr" and h: "h = hash137 k" and i: "i \<in> set (ch h)" "s_key (L_slots L ! i) = k"
  shows "db_map ((L_slots L)[i := (L_slots L ! i)\<lparr>s_data := x\<rparr>]) ch = (db_map (L_slots L) ch)(k \<mapsto> x)"
proof
  fix k'
  let ?ss = "L_slots L" let ?ss' = "?ss[i := (?ss ! i)\<lparr>s_data := x\<rparr>]" let ?h = "hash137 k'"
  have bound: "i < length ?ss" using chain_ok_bound [OF db_invx_chain [OF inv, of h] i(1)] h by simp
  have key: "s_key (?ss' ! j) = s_key (?ss ! j)" for j
    using bound by (cases "j = i") auto
  show "db_map ?ss' ch k' = ((db_map ?ss ch)(k \<mapsto> x)) k'"
  proof (cases "k' = k")
    case True
    obtain j where j: "find (\<lambda>i. s_key (?ss ! i) = k) (ch h) = Some j"
      using i by (cases "find (\<lambda>i. s_key (?ss ! i) = k) (ch h)") (auto simp: find_None_iff)
    then have "j \<in> set (ch h)" "s_key (?ss ! j) = k" by (auto simp: find_Some_iff)
    then have "j = i" using db_inv_key_unique [OF inv, of h j i] i h by simp
    with j True h bound show ?thesis by (simp add: db_map_def key)
  next
    case False
    have "j \<noteq> i" if "find (\<lambda>i. s_key (?ss ! i) = k') (ch ?h) = Some j" for j
      using that False i(2) by (auto simp: find_Some_iff)
    then have "s_data (?ss' ! j) = s_data (?ss ! j)" if "find (\<lambda>i. s_key (?ss ! i) = k') (ch ?h) = Some j" for j
      using that by simp
    with False show ?thesis
      by (cases "find (\<lambda>i. s_key (?ss ! i) = k') (ch ?h)") (simp_all add: db_map_def key)
  qed
qed

section \<open>Finding and locking\<close>

text \<open>The calling process holds the lock of chain \<open>h\<close> and no other.\<close>

definition in_chain :: "nat \<Rightarrow> lock_type \<Rightarrow> DB \<Rightarrow> bool" where
  "in_chain h ty db \<longleftrightarrow>
     f_locks (idxfd db) = [\<lparr>l_pid = self db, l_type = ty, l_start = 7 + 7 * h, l_len = 1\<rparr>] \<and>
     f_locks (datfd db) = [] \<and> chainoff db = int (7 + 7 * h)"

definition no_locks :: "DB \<Rightarrow> bool" where
  "no_locks db \<longleftrightarrow> f_locks (idxfd db) = [] \<and> f_locks (datfd db) = []"

lemma in_chain_frame: "in_chain h ty db \<Longrightarrow> frame db db' \<Longrightarrow> in_chain h ty db'"
  by (simp add: in_chain_def frame_def)

definition enter_chain :: "nat \<Rightarrow> lock_type \<Rightarrow> DB \<Rightarrow> DB" where
  "enter_chain h ty db =
     (let db1 = db\<lparr>chainoff := int (7 + 7 * h), ptroff := int (7 + 7 * h)\<rparr>
      in add_lock IDX (own_lock db1 ty (7 + 7 * h) 1) db1)"

lemma in_chain_enter: "no_locks db \<Longrightarrow> in_chain h ty (enter_chain h ty db)"
  by (simp add: in_chain_def enter_chain_def no_locks_def add_lock_def own_lock_def Let_def)

lemma irep_enter: "irep (enter_chain h ty db) L = irep db L"
  "datfd (enter_chain h ty db) = datfd db" "ptroff (enter_chain h ty db) = int (7 + 7 * h)"
  "chainoff (enter_chain h ty db) = int (7 + 7 * h)"
  by (simp_all add: enter_chain_def irep_def Let_def add_lock_def)

lemma db_find_and_lock_start:
  fixes w :: bool
  assumes r: "irep db L" and nl: "no_locks db" and h: "h = hash137 key"
  defines "db1 \<equiv> enter_chain h (if w then F_WRLCK else F_RDLCK) db"
  defines "db2 \<equiv> db1\<lparr>idxfd := (idxfd db1)\<lparr>f_pos := 14 + 7 * h\<rparr>\<rparr>"
  shows "db_find_and_lock key w db =
    bind_io (db_find_loop (Suc (length (idx_img L))) key (int (L_hash L ! h)))
      (\<lambda>found. ret_io (if found = 0 then -1 else 0)) db2"
proof -
  let ?db = "db\<lparr>chainoff := int (7 + 7 * h), ptroff := int (7 + 7 * h)\<rparr>"
  have c: "int (db_hash db key * 7 + hashoff db) = int (7 + 7 * h)" "faults db = []"
    using r h by (simp_all add: db_hash_def hash137_def irep_def)
  have fr: "locks_free (self ?db) (7 + 7 * h) 1 (f_locks (fd_get IDX ?db))"
    using nl by (simp add: no_locks_def locks_free_def)
  have lk: "(if w then or_dump (lock_io writew_lock IDX (int (7 + 7 * h)) 1) ''_db_find_and_lock: writew_lock error''
     else or_dump (lock_io readw_lock IDX (int (7 + 7 * h)) 1) ''_db_find_and_lock: readw_lock error'') ?db = Inr ((), db1)"
    using writew_lock_ok [OF _ fr] readw_lock_ok [OF _ fr] c(2)
    by (simp add: db1_def enter_chain_def Let_def del: of_nat_add of_nat_mult)
  have r1: "irep db1 L" using r by (simp add: db1_def irep_enter)
  have ok: "layout_ok L" using r by (simp add: irep_def)
  have h137: "h < length (L_hash L)" using ok h by (simp add: layout_ok_def)
  have rd: "db_readptr (int (7 + 7 * h)) db1 = Inr (int (L_hash L ! h), db2)"
    using db_readptr_cell [OF r1, of "CHash h"] ptr_ok_cell [OF ok, of "CHash h"] h137
    by (simp add: db2_def)
  have fuel: "idx_fuel db2 = Suc (length (idx_img L))"
    using r1 by (simp add: idx_fuel_def db2_def irep_def)
  have off: "chainoff db1 = int (7 + 7 * h)" "ptroff db1 = int (7 + 7 * h)"
    by (simp_all add: db1_def irep_enter)
  show ?thesis
    unfolding db_find_and_lock_def
    by (simp add: io_simps Let_def c(1) lk off rd fuel del: of_nat_add of_nat_mult)
qed

lemma db_find_and_lock_ok:
  fixes w :: bool
  assumes r: "irep db L" and nl: "no_locks db" and inv: "db_inv L ch fr" and h: "h = hash137 key"
  defines "ty \<equiv> if w then F_WRLCK else F_RDLCK"
  shows "\<exists>db'. db_find_and_lock key w db =
        Inr (if db_map (L_slots L) ch key = None then -1 else 0, db') \<and>
     frame (enter_chain h ty db) db' \<and> irep db' L \<and> datfd db' = datfd db \<and> in_chain h ty db' \<and>
     (db_map (L_slots L) ch key \<noteq> None \<longrightarrow>
       (\<exists>pre i post. ch h = pre @ i # post \<and> s_key (L_slots L ! i) = key \<and>
          db_map (L_slots L) ch key = Some (s_data (L_slots L ! i)) \<and>
          loaded (L_slots L) i db' \<and> ptroff db' = int (cell_off L (pred_cell (CHash h) pre))))"
proof -
  let ?ss = "L_slots L"
  let ?db1 = "enter_chain h ty db"
  let ?db2 = "?db1\<lparr>idxfd := (idxfd ?db1)\<lparr>f_pos := 14 + 7 * h\<rparr>\<rparr>"
  note start = db_find_and_lock_start [OF r nl h, of w, folded ty_def]
  have ok: "layout_ok L" using inv by (rule db_invx_layout)
  have co: "chain_ok ?ss h (L_hash L ! h) (ch h)" using db_invx_chain [OF inv] h by simp
  then have c: "chain ?ss (L_hash L ! h) (ch h)" and d: "distinct (ch h)" by (auto simp: chain_ok_def)
  have fuel: "length (ch h) < Suc (length (idx_img L))" using chain_length_bound [OF ok c d] .
  have r1: "irep ?db1 L" using r by (simp add: irep_enter)
  have r2: "irep ?db2 L" using r1 by (simp add: irep_def)
  have f2: "frame ?db1 ?db2" by (simp add: frame_def)
  have dat: "datfd ?db2 = datfd db" by (simp add: irep_enter)
  show ?thesis
  proof (cases "find (\<lambda>i. s_key (?ss ! i) = key) (ch h)")
    case None
    then have "\<forall>j \<in> set (ch h). s_key (?ss ! j) \<noteq> key" by (simp add: find_None_iff)
    from db_find_loop_missing [OF r2 c fuel this] obtain db' where
      "db_find_loop (Suc (length (idx_img L))) key (int (L_hash L ! h)) ?db2 = Inr (0, db')"
      "frame ?db2 db'" "irep db' L" "datfd db' = datfd ?db2" by blast
    moreover have "db_map ?ss ch key = None" using None h by (simp add: db_map_def)
    ultimately show ?thesis
      using start dat frame_trans [OF f2] in_chain_frame [OF in_chain_enter [OF nl]]
      by (simp add: io_simps del: of_nat_add of_nat_mult)
  next
    case (Some i)
    then obtain pre post where sp: "ch h = pre @ i # post" "s_key (?ss ! i) = key"
      "\<forall>j \<in> set pre. s_key (?ss ! j) \<noteq> key" by (rule find_split)
    have po: "ptroff ?db2 = int (cell_off L (CHash h))" by (simp add: irep_enter)
    from db_find_loop_found [OF r2 c [unfolded sp(1)] _ sp(3,2) po, of "Suc (length (idx_img L))"] fuel sp(1)
    obtain db' where
      "db_find_loop (Suc (length (idx_img L))) key (int (L_hash L ! h)) ?db2 = Inr (int (ioff ?ss i), db')"
      "frame ?db2 db'" "irep db' L" "datfd db' = datfd ?db2" "loaded ?ss i db'"
      "ptroff db' = int (cell_off L (pred_cell (CHash h) pre))" by auto
    moreover have "db_map ?ss ch key = Some (s_data (?ss ! i))" using Some h by (simp add: db_map_def)
    ultimately show ?thesis
      using start dat sp(1,2) frame_trans [OF f2] in_chain_frame [OF in_chain_enter [OF nl]]
      by (intro exI [of _ db'])
        (simp add: io_simps del: of_nat_add of_nat_mult append_assoc, intro exI [of _ pre] exI [of _ i], simp)
  qed
qed

text \<open>Leaving the chain.\<close>

lemma unlock_chain_ok:
  assumes "in_chain h ty db" "faults db = []"
  shows "unlock_chain msg db = Inr ((), db\<lparr>idxfd := (idxfd db)\<lparr>f_locks := []\<rparr>\<rparr>)"
proof -
  have "or_dump (lock_io un_lock IDX (int (7 + 7 * h)) (int 1)) msg db =
      Inr ((), fd_put IDX ((fd_get IDX db)\<lparr>f_locks := []\<rparr>) db)"
    by (rule un_lock_ok) (use assms in \<open>auto simp: in_chain_def locks_free_def\<close>)
  then show ?thesis using assms by (simp add: unlock_chain_def io_simps in_chain_def)
qed

section \<open>Deleting a record\<close>

lemma dat_img_map: "dat_img ss = concat (map (\<lambda>s. s_data s @ [NEWLINE]) ss)"
  by (induction ss) auto

lemma dat_img_cong:
  "length ss' = length ss \<Longrightarrow> (\<And>j. j < length ss \<Longrightarrow> s_data (ss' ! j) = s_data (ss ! j)) \<Longrightarrow> dat_img ss' = dat_img ss"
  unfolding dat_img_map by (rule arg_cong [where f = concat]) (auto intro!: nth_equalityI)

lemma dat_img_cell_set [simp]: "dat_img (L_slots (cell_set L c p)) = dat_img (L_slots L)"
  by (rule dat_img_cong) auto

lemma dat_img_slot_data:
  "i < length ss \<Longrightarrow> s_data s = x \<Longrightarrow> dat_img (ss[i := (ss ! i)\<lparr>s_data := x\<rparr>]) = dat_img (ss[i := s])"
  by (rule dat_img_cong) (auto simp: nth_list_update)

lemma chain_ptr_ok:
  assumes "layout_ok L" "chain (L_slots L) p (pre @ i # post)" "ptr_ok p"
  shows "ptr_ok (ioff (L_slots L) i)"
  using assms(2,3)
proof (induction pre arbitrary: p)
  case (Cons j pre)
  then have "j < length (L_slots L)" by simp
  from layout_ok_nth [OF assms(1) this] Cons show ?case by (auto simp: slot_ok_def)
qed auto

lemma length_idx_img_cell_set:
  assumes "layout_ok L" "cell_ok L c" "ptr_ok p"
  shows "length (idx_img (cell_set L c p)) = length (idx_img L)"
proof -
  obtain pre post where "\<And>p. idx_img (cell_set L c p) = pre @ ptr7 p @ post"
    using idx_split_cell [OF assms(1,2)] by blast
  from this [of p] this [of "cell_get L c"] show ?thesis
    using assms ptr_ok_cell [OF assms(1,2)] by simp
qed

text \<open>The lock of the free list, taken and given back inside a chain.\<close>

definition free_lock :: "DB \<Rightarrow> DB" where
  "free_lock db = add_lock IDX (own_lock db F_WRLCK 0 1) db"

lemma free_lock_sel [simp]:
  "irep (free_lock db) L = irep db L" "datfd (free_lock db) = datfd db"
  "idxbuf (free_lock db) = idxbuf db" "datbuf (free_lock db) = datbuf db"
  "datoff (free_lock db) = datoff db" "datlen (free_lock db) = datlen db"
  "idxoff (free_lock db) = idxoff db" "ptrval (free_lock db) = ptrval db"
  "ptroff (free_lock db) = ptroff db" "chainoff (free_lock db) = chainoff db"
  "faults (free_lock db) = faults db" "self (free_lock db) = self db"
  by (simp_all add: free_lock_def irep_def add_lock_def)

lemma free_lock_ok:
  assumes "in_chain h ty db" "faults db = []"
  shows "or_dump (lock_io writew_lock IDX 0 1) msg db = Inr ((), free_lock db)"
proof -
  have "locks_free (self db) 0 1 (f_locks (fd_get IDX db))"
    using assms(1) by (simp add: in_chain_def locks_free_def ranges_meet_def)
  from writew_lock_ok [OF assms(2) this, of msg] show ?thesis by (simp add: free_lock_def)
qed

lemma free_unlock_ok:
  assumes "in_chain h ty db" "frame (free_lock db) db'" "faults db = []"
  shows "or_dump (lock_io un_lock IDX 0 1) msg db' =
     Inr ((), db'\<lparr>idxfd := (idxfd db')\<lparr>f_locks := f_locks (idxfd db)\<rparr>\<rparr>)"
proof -
  have "or_dump (lock_io un_lock IDX (int 0) (int 1)) msg db' =
      Inr ((), fd_put IDX ((fd_get IDX db')\<lparr>f_locks := f_locks (idxfd db)\<rparr>) db')"
    by (rule un_lock_ok [where ty = F_WRLCK])
      (use assms in \<open>auto simp: in_chain_def locks_free_def ranges_meet_def frame_def free_lock_def
         add_lock_def own_lock_def\<close>)
  then show ?thesis by simp
qed

lemma frame_unlock: "frame (free_lock db) db' \<Longrightarrow> frame db (db'\<lparr>idxfd := (idxfd db')\<lparr>f_locks := f_locks (idxfd db)\<rparr>\<rparr>)"
  by (simp add: frame_def free_lock_def add_lock_def)

lemma cell_set_commute:
  "c \<noteq> CFree \<Longrightarrow> c \<noteq> CSlot i \<Longrightarrow>
   cell_set (cell_set (slot_set L i s) CFree p) c q = cell_set (slot_set (cell_set L c q) i s) CFree p"
  by (cases c) (auto simp: slot_set_def list_update_swap)

lemma slot_set_key:
  "j \<noteq> i \<Longrightarrow> s_key (L_slots (slot_set L i s) ! j) = s_key (L_slots L ! j)"
  "j \<noteq> i \<Longrightarrow> s_data (L_slots (slot_set L i s) ! j) = s_data (L_slots L ! j)"
  by simp_all

lemma cstr_blank:
  "cstr (replicate (length (cstr b)) SPACE @ drop (length (cstr b)) b) = replicate (length (cstr b)) SPACE"
proof (induction b)
  case (Cons c b)
  then show ?case by (cases "c = NUL") (simp_all add: cstr_def)
qed (simp add: cstr_def)

lemma blank_replicate: "blank (replicate n SPACE)" "key_ok (replicate n SPACE)"
  "data_ok (replicate n SPACE) \<longleftrightarrow> 1 \<le> n \<and> n \<le> 1023"
  by (auto simp: blank_def key_ok_def data_ok_def list_all_iff)

definition blank_slot :: "slot \<Rightarrow> nat \<Rightarrow> slot" where
  "blank_slot s p = \<lparr>s_ptr = p, s_key = replicate (length (s_key s)) SPACE,
                     s_data = replicate (length (s_data s)) SPACE\<rparr>"

text \<open>What \<open>_db_dodelete\<close> writes, as an update of the layout.\<close>

definition del_layout :: "layout \<Rightarrow> cell \<Rightarrow> nat \<Rightarrow> layout" where
  "del_layout L c i =
     cell_set (cell_set (slot_set L i (blank_slot (L_slots L ! i) (L_free L))) CFree (ioff (L_slots L) i)) c
       (s_ptr (L_slots L ! i))"

lemma db_dodelete_run:
  assumes r: "irep db L" and d: "drep db (L_slots L)" and i: "i < length (L_slots L)"
    and ld: "loaded (L_slots L) i db" and lk: "in_chain h F_WRLCK db"
    and c: "cell_ok L c" "ptroff db = int (cell_off L c)" and po: "ptr_ok (ioff (L_slots L) i)"
  shows "\<exists>db'. db_dodelete db = Inr ((), db') \<and> frame db db' \<and> irep db' (del_layout L c i) \<and>
     drep db' (L_slots (del_layout L c i))"
proof -
  let ?ss = "L_slots L" let ?t = "?ss ! i"
  let ?s = "blank_slot ?t (L_free L)" let ?L1 = "slot_set L i ?s"
  let ?L2 = "cell_set ?L1 CFree (ioff ?ss i)" let ?L3 = "del_layout L c i"
  have ok: "layout_ok L" and fl: "faults db = []" using r by (auto simp: irep_def)
  have tok: "slot_ok (doff ?ss i) ?t" using layout_ok_nth [OF ok i] .
  have pf: "ptr_ok (L_free L)" "ptr_ok (s_ptr ?t)" using ok tok by (auto simp: layout_ok_def slot_ok_def)
  have sh: "same_shape ?s ?t" by (simp add: same_shape_def blank_slot_def)
  have sok: "slot_ok (doff ?ss i) ?s"
    using tok pf same_shape_rec [OF sh] by (auto simp: slot_ok_def blank_slot_def blank_replicate data_ok_def)
  have ok1: "layout_ok ?L1"
    using slot_set_ok [OF ok i sh] sok by (simp add: slot_ok_def)
  have ok2: "layout_ok ?L2" using cell_set_ok [OF ok1, of CFree] po by simp
  have off: "cell_off ?L2 c = cell_off L c"
    using ioff_update [OF sh] ok pf(1) by (cases c) (auto simp: layout_ok_def blank_slot_def)
  have cok: "cell_ok ?L2 c" using c(1) by (cases c) auto
  have ok3: "layout_ok ?L3" using cell_set_ok [OF ok2 cok pf(2)] by (simp add: del_layout_def)
  let ?x = "replicate (length (s_data ?t)) SPACE" let ?k = "replicate (length (s_key ?t)) SPACE"
  let ?db1 = "db\<lparr>datbuf := replicate (nat (datlen db - 1)) SPACE @ [NUL],
     idxbuf := replicate (length (cstr (idxbuf db))) SPACE @ drop (length (cstr (idxbuf db))) (idxbuf db)\<rparr>"
  have b1: "cstr (datbuf ?db1) = ?x" "cstr (idxbuf ?db1) = ?k"
    using ld cstr_blank [of "idxbuf db"] by (auto simp: loaded_def)
  have lk1: "in_chain h F_WRLCK ?db1" using lk by (simp add: in_chain_def)
  let ?db2 = "free_lock ?db1"
  note l2 = free_lock_ok [OF lk1, of "''_db_dodelete: writew_lock error''"]
  have "irep ?db1 L" using r by (simp add: irep_def)
  then have r2: "irep ?db2 L" by simp
  have d2: "drep ?db2 ?ss" using d by (simp add: drep_def)
  obtain db3 where w3: "db_writedat ?x (int (doff ?ss i)) SEEK_SET ?db2 = Inr ((), db3)"
    and r3: "irep db3 L" and f3: "frame ?db2 db3" and d3: "f_bytes (datfd db3) = dat_img (?ss[i := ?s])"
    and v3: "datoff db3 = int (doff ?ss i)" "datlen db3 = int (length ?x) + 1"
      "idxbuf db3 = idxbuf ?db1" "idxoff db3 = idxoff db" "ptrval db3 = ptrval db" "ptroff db3 = ptroff db"
    using db_writedat_over [OF d2 i, of ?x] fl r2 dat_img_slot_data [OF i, of ?s ?x]
    by (auto simp: irep_def frame_def blank_slot_def)
  have rd4: "db_readptr 0 db3 = Inr (int (L_free L), db3\<lparr>idxfd := (idxfd db3)\<lparr>f_pos := 7\<rparr>\<rparr>)"
    using db_readptr_cell [OF r3, of CFree] pf by simp
  let ?db4 = "db3\<lparr>idxfd := (idxfd db3)\<lparr>f_pos := 7\<rparr>\<rparr>"
  have r4: "irep ?db4 L" using r3 by (simp add: irep_def)
  obtain db5 where w5: "db_writeidx ?k (int (ioff ?ss i)) SEEK_SET (int (L_free L)) ?db4 = Inr ((), db5)"
    and r5: "irep db5 ?L1" and f5: "frame ?db4 db5" and d5: "datfd db5 = datfd db3"
    and v5: "idxoff db5 = int (ioff ?ss i)" "ptroff db5 = ptroff db"
    using db_writeidx_over [OF r4 i sh sok] v3 r4 ok1
    by (auto simp: irep_def frame_def blank_slot_def slot_set_def)
  have w6: "db_writeptr 0 (int (ioff ?ss i)) db5 =
      Inr ((), db5\<lparr>idxfd := (idxfd db5)\<lparr>f_bytes := idx_img ?L2, f_pos := 7\<rparr>\<rparr>)"
    using db_writeptr_cell [OF r5, of CFree "ioff ?ss i"] po by simp
  let ?db6 = "db5\<lparr>idxfd := (idxfd db5)\<lparr>f_bytes := idx_img ?L2, f_pos := 7\<rparr>\<rparr>"
  have r6: "irep ?db6 ?L2" using r5 ok2 by (simp add: irep_def)
  let ?db7 = "?db6\<lparr>idxfd := (idxfd ?db6)\<lparr>f_bytes := idx_img ?L3, f_pos := cell_off L c + 7\<rparr>\<rparr>"
  have w7: "db_writeptr (int (cell_off L c)) (int (s_ptr ?t)) ?db6 = Inr ((), ?db7)"
    using db_writeptr_cell [OF r6 cok pf(2)] unfolding off by (simp add: del_layout_def)
  have f: "frame ?db2 ?db7" using f3 f5 by (simp add: frame_def)
  note u = free_unlock_ok [OF lk1 f, of "''_db_dodelete: un_lock error''"]
  let ?db8 = "?db7\<lparr>idxfd := (idxfd ?db7)\<lparr>f_locks := f_locks (idxfd db)\<rparr>\<rparr>"
  have run: "db_dodelete db = Inr ((), ?db8)"
    unfolding db_dodelete_def using l2 b1 w3 rd4 w5 w6 w7 u fl v3 v5 c(2) ld
    by (simp add: io_simps loaded_def)
  have "frame db ?db8" using frame_unlock [OF f] by (simp add: frame_def)
  moreover have "irep ?db8 ?L3" using r6 ok3 by (simp add: irep_def)
  moreover have "drep ?db8 (L_slots ?L3)" using d5 d3 by (simp add: drep_def del_layout_def)
  ultimately show ?thesis using run by blast
qed

lemma del_layout_inv:
  assumes inv: "db_inv L ch fr" and h: "h < NHASH_DEF" and ch: "ch h = pre @ i # post"
  defines "L' \<equiv> del_layout L (pred_cell (CHash h) pre) i"
  shows "db_inv L' (ch(h := pre @ post)) (i # fr)"
    and "length (idx_img L') = length (idx_img L)" "length (dat_img (L_slots L')) = length (dat_img (L_slots L))"
    and "length (L_slots L') = length (L_slots L)"
    and "\<And>j. j < length (L_slots L) \<Longrightarrow> j \<noteq> i \<Longrightarrow>
      s_key (L_slots L' ! j) = s_key (L_slots L ! j) \<and> s_data (L_slots L' ! j) = s_data (L_slots L ! j)"
proof -
  let ?ss = "L_slots L" let ?c = "pred_cell (CHash h) pre" let ?q = "s_ptr (?ss ! i)"
  let ?s = "blank_slot (?ss ! i) (L_free L)" let ?L1 = "cell_set L ?c ?q"
  have ok: "layout_ok L" using inv by (rule db_invx_layout)
  have co: "chain_ok ?ss h (L_hash L ! h) (pre @ i # post)" using db_invx_chain [OF inv h] ch by simp
  then have c: "chain ?ss (L_hash L ! h) (pre @ i # post)" and d: "i \<notin> set pre" by (auto simp: chain_ok_def)
  have i: "i < length ?ss" using chain_ok_bound [OF co, of i] by simp
  have tok: "slot_ok (doff ?ss i) (?ss ! i)" using layout_ok_nth [OF ok i] .
  then have pq: "ptr_ok ?q" by (simp add: slot_ok_def)
  have hl: "h < length (L_hash L)" using db_invx_hash_len [OF inv] h by simp
  have pc: "cell_ok L ?c" using pred_cell_ok [of L "CHash h"] c hl by (auto simp: seg_append)
  have ph: "ptr_ok (L_hash L ! h)" using ptr_ok_cell [OF ok, of "CHash h"] hl by simp
  have po: "ptr_ok (ioff ?ss i)" using chain_ptr_ok [OF ok c ph] .
  have nc: "?c \<noteq> CFree" "?c \<noteq> CSlot i" using d by (auto simp: pred_cell_def)
  have io: "ioff (L_slots ?L1) i = ioff ?ss i"
    using cell_off_set [OF ok pc pq, of "CSlot i"] by simp
  have L': "L' = cell_set (slot_set ?L1 i ?s) CFree (ioff (L_slots ?L1) i)"
    unfolding L'_def del_layout_def io using nc by (rule cell_set_commute)
  have "s_key (L_slots ?L1 ! i) = s_key (?ss ! i)" "s_data (L_slots ?L1 ! i) = s_data (?ss ! i)"
    using i by simp_all
  then have sh: "same_shape ?s (L_slots ?L1 ! i)" by (simp add: same_shape_def blank_slot_def)
  have free1: "L_free ?L1 = L_free L" using nc(1) by (cases ?c) auto
  show "db_inv L' (ch(h := pre @ post)) (i # fr)"
    unfolding L' by (rule push_free [OF unlink_hash [of L ch fr h, OF inv h ch] sh])
      (use tok po io free1 in \<open>auto simp: blank_slot_def blank_replicate slot_ok_def data_ok_def\<close>)
  have sh0: "same_shape ?s (?ss ! i)" by (simp add: same_shape_def blank_slot_def)
  have pf: "ptr_ok (s_ptr ?s)" using ok by (simp add: layout_ok_def blank_slot_def)
  have ok1: "layout_ok (slot_set L i ?s)"
    using slot_set_ok [OF ok i sh0 pf] tok by (auto simp: blank_slot_def blank_replicate slot_ok_def data_ok_def)
  have ok2: "layout_ok (cell_set (slot_set L i ?s) CFree (ioff ?ss i))" using cell_set_ok [OF ok1, of CFree] po by simp
  have cok: "cell_ok (cell_set (slot_set L i ?s) CFree (ioff ?ss i)) ?c" using pc by (cases ?c) auto
  have "length (idx_img (slot_set L i ?s)) = length (idx_img L)"
    using ioff_update [OF sh0 pf, of "length ?ss"] ok ioff_length [OF ok1] ioff_length [OF ok]
    by (simp add: layout_ok_def)
  then show "length (idx_img L') = length (idx_img L)"
    using length_idx_img_cell_set [OF ok2 cok pq] length_idx_img_cell_set [OF ok1, of CFree] po
    by (simp add: L'_def del_layout_def)
  show "length (dat_img (L_slots L')) = length (dat_img (L_slots L))"
    using dat_img_update [of ?s ?ss i "length ?ss"] by (simp add: L'_def del_layout_def blank_slot_def)
  show "length (L_slots L') = length (L_slots L)" by (simp add: L'_def del_layout_def)
  show "s_key (L_slots L' ! j) = s_key (L_slots L ! j) \<and> s_data (L_slots L' ! j) = s_data (L_slots L ! j)"
    if "j < length (L_slots L)" "j \<noteq> i" for j
    using that by (simp add: L'_def del_layout_def)
qed

lemma pred_cell_chain_ok:
  assumes inv: "db_inv L ch fr" and h: "h < NHASH_DEF" and ch: "ch h = pre @ i # post"
  shows "cell_ok L (pred_cell (CHash h) pre)" "ptr_ok (ioff (L_slots L) i)" "i < length (L_slots L)"
proof -
  have ok: "layout_ok L" using inv by (rule db_invx_layout)
  have co: "chain_ok (L_slots L) h (L_hash L ! h) (pre @ i # post)" using db_invx_chain [OF inv h] ch by simp
  then have c: "chain (L_slots L) (L_hash L ! h) (pre @ i # post)" by (auto simp: chain_ok_def)
  show "i < length (L_slots L)" using chain_ok_bound [OF co, of i] by simp
  have hl: "h < length (L_hash L)" using db_invx_hash_len [OF inv] h by simp
  show "cell_ok L (pred_cell (CHash h) pre)" using pred_cell_ok [of L "CHash h"] c hl by (auto simp: seg_append)
  have "ptr_ok (L_hash L ! h)" using ptr_ok_cell [OF ok, of "CHash h"] hl by simp
  with ok c show "ptr_ok (ioff (L_slots L) i)" by (rule chain_ptr_ok)
qed

lemma db_dodelete_ok:
  assumes r: "irep db L" and d: "drep db (L_slots L)" and inv: "db_inv L ch fr"
    and h: "h = hash137 k" and ch: "ch h = pre @ i # post" and k: "s_key (L_slots L ! i) = k"
    and ld: "loaded (L_slots L) i db" and lk: "in_chain h F_WRLCK db"
    and po: "ptroff db = int (cell_off L (pred_cell (CHash h) pre))"
  shows "\<exists>db' L' ch' fr'. db_dodelete db = Inr ((), db') \<and> frame db db' \<and>
     irep db' L' \<and> drep db' (L_slots L') \<and> db_inv L' ch' fr' \<and>
     db_map (L_slots L') ch' = (db_map (L_slots L) ch)(k := None) \<and>
     length (idx_img L') = length (idx_img L) \<and> length (dat_img (L_slots L')) = length (dat_img (L_slots L))"
proof -
  have h137: "h < NHASH_DEF" using h by simp
  note pc = pred_cell_chain_ok [of L ch fr h, OF inv h137 ch]
  note di = del_layout_inv [of L ch fr h, OF inv h137 ch]
  obtain db' where "db_dodelete db = Inr ((), db')" "frame db db'"
    "irep db' (del_layout L (pred_cell (CHash h) pre) i)"
    "drep db' (L_slots (del_layout L (pred_cell (CHash h) pre) i))"
    using db_dodelete_run [OF r d pc(3) ld lk pc(1) po pc(2)] by blast
  moreover note db_map_remove [OF inv di(1) h ch k di(5)]
  ultimately show ?thesis using di(1-3) by blast
qed

end
