(* ===== verification/Db_Store.thy ===== *)
theory Db_Store
  imports Db_Delete
begin

text \<open>
  Storing a record: the search of the free list (\<open>_db_findfree\<close>), a record written over a
  free one or appended to both files, and the record made the head of its hash chain.
\<close>

section \<open>The free list\<close>

lemma db_findfree_ok:
  assumes r: "irep db L" and inv: "db_inv L ch fr" and lk: "in_chain h F_WRLCK db"
  shows "\<exists>db'. frame db db' \<and> datfd db' = datfd db \<and>
    (case find (fits (L_slots L) n d) fr of
       None \<Rightarrow> db_findfree n d db = Inr (-1, db') \<and> irep db' L
     | Some i \<Rightarrow> db_findfree n d db = Inr (0, db') \<and> idxoff db' = int (ioff (L_slots L) i) \<and>
         datoff db' = int (doff (L_slots L) i) \<and> fits (L_slots L) n d i \<and>
         (\<exists>pre post. fr = pre @ i # post \<and>
            irep db' (cell_set L (pred_cell CFree pre) (s_ptr (L_slots L ! i)))))"
proof -
  let ?ss = "L_slots L"
  have ok: "layout_ok L" and fl: "faults db = []" using r by (auto simp: irep_def)
  have fo: "free_ok ?ss (L_free L) fr" using inv by (simp add: db_invx_def)
  then have c: "chain ?ss (L_free L) fr" and di: "distinct fr" by (auto simp: free_ok_def)
  have fuel: "length fr < Suc (length (idx_img L))" using chain_length_bound [OF ok c di] .
  note l1 = free_lock_ok [OF lk fl, of "''_db_findfree: writew_lock error''"]
  let ?db1 = "free_lock db" let ?db2 = "?db1\<lparr>idxfd := (idxfd ?db1)\<lparr>f_pos := 7\<rparr>\<rparr>"
  have r1: "irep ?db1 L" using r by simp
  have rd: "db_readptr 0 ?db1 = Inr (int (L_free L), ?db2)"
    using db_readptr_cell [OF r1, of CFree] ok by (simp add: layout_ok_def)
  have r2: "irep ?db2 L" using r1 by (simp add: irep_def)
  have f2: "frame ?db1 ?db2" by (simp add: frame_def)
  have fu: "idx_fuel ?db2 = Suc (length (idx_img L))" using r1 by (simp add: idx_fuel_def irep_def)
  obtain db3 where db3: "frame ?db2 db3" "irep db3 L" "datfd db3 = datfd ?db2"
    and res: "case find (fits ?ss n d) fr of
        None \<Rightarrow> \<exists>s. db_free_loop (Suc (length (idx_img L))) n d 0 (int (L_free L)) ?db2 = Inr ((0, s), db3)
      | Some i \<Rightarrow> \<exists>pre post. fr = pre @ i # post \<and> fits ?ss n d i \<and> loaded ?ss i db3 \<and>
          db_free_loop (Suc (length (idx_img L))) n d 0 (int (L_free L)) ?db2 =
            Inr ((int (ioff ?ss i), int (cell_off L (pred_cell CFree pre))), db3)"
    using db_free_loop_search [OF r2 c fuel, of 0 CFree n d] by auto
  have f3: "frame ?db1 db3" using frame_trans [OF f2 db3(1)] .
  note u = free_unlock_ok [OF lk _ fl, where msg = "''_db_findfree: un_lock error''"]
  show ?thesis
  proof (cases "find (fits ?ss n d) fr")
    case None
    let ?db4 = "db3\<lparr>idxfd := (idxfd db3)\<lparr>f_locks := f_locks (idxfd db)\<rparr>\<rparr>"
    have "db_findfree n d db = Inr (-1, ?db4)"
      unfolding db_findfree_def using l1 rd fu res None u [OF f3] by (auto simp: io_simps)
    moreover have "frame db ?db4" using frame_unlock [OF f3] .
    moreover have "irep ?db4 L" using db3(2) by (simp add: irep_def)
    ultimately show ?thesis using None db3(3) by (intro exI [of _ ?db4]) simp
  next
    case (Some i)
    with res obtain pre post where sp: "fr = pre @ i # post" "fits ?ss n d i" "loaded ?ss i db3"
      and lp: "db_free_loop (Suc (length (idx_img L))) n d 0 (int (L_free L)) ?db2 =
            Inr ((int (ioff ?ss i), int (cell_off L (pred_cell CFree pre))), db3)" by auto
    let ?c = "pred_cell CFree pre" let ?L' = "cell_set L ?c (s_ptr (?ss ! i))"
    have i: "i < length ?ss" using free_ok_bound [OF fo] sp(1) by simp
    have pq: "ptr_ok (s_ptr (?ss ! i))" using layout_ok_nth [OF ok i] by (simp add: slot_ok_def)
    have pc: "cell_ok L ?c" using pred_cell_ok [of L CFree] c sp(1) by (auto simp: seg_append)
    let ?db4 = "db3\<lparr>idxfd := (idxfd db3)\<lparr>f_bytes := idx_img ?L', f_pos := cell_off L ?c + 7\<rparr>\<rparr>"
    have w: "db_writeptr (int (cell_off L ?c)) (int (s_ptr (?ss ! i))) db3 = Inr ((), ?db4)"
      using db_writeptr_cell [OF db3(2) pc pq] .
    have f4: "frame ?db1 ?db4" using f3 by (simp add: frame_def)
    let ?db5 = "?db4\<lparr>idxfd := (idxfd ?db4)\<lparr>f_locks := f_locks (idxfd db)\<rparr>\<rparr>"
    have pv: "ptrval db3 = int (s_ptr (?ss ! i))" using sp(3) by (simp add: loaded_def)
    have "db_findfree n d db = Inr (0, ?db5)"
      unfolding db_findfree_def using l1 rd fu lp pv w u [OF f4] by (simp add: io_simps)
    moreover have "frame db ?db5" using frame_unlock [OF f4] .
    moreover have "irep ?db5 ?L'" using db3(2) cell_set_ok [OF ok pc pq] by (simp add: irep_def)
    ultimately show ?thesis using Some sp db3(3) by (intro exI [of _ ?db5]) (auto simp: loaded_def)
  qed
qed

section \<open>A record at the end of the files\<close>

text \<open>How much one store lengthens the two files, at most.\<close>

definition grows :: "layout \<Rightarrow> layout \<Rightarrow> bool" where
  "grows L L' \<longleftrightarrow> length (idx_img L') \<le> length (idx_img L) + 1035 \<and>
     length (dat_img (L_slots L')) \<le> length (dat_img (L_slots L)) + 1024"

definition new_slot :: "nat \<Rightarrow> string \<Rightarrow> string \<Rightarrow> slot" where
  "new_slot p key data = \<lparr>s_ptr = p, s_key = key, s_data = data\<rparr>"

lemma new_slot_sel [simp]: "s_ptr (new_slot p k x) = p" "s_key (new_slot p k x) = k" "s_data (new_slot p k x) = x"
  by (simp_all add: new_slot_def)

definition app_layout :: "layout \<Rightarrow> nat \<Rightarrow> slot \<Rightarrow> layout" where
  "app_layout L h s = cell_set (L\<lparr>L_slots := L_slots L @ [s]\<rparr>) (CHash h) (ioff (L_slots L) (length (L_slots L)))"

lemma db_append_run:
  assumes r: "irep db L" and d: "drep db (L_slots L)" and lk: "in_chain h F_WRLCK db" and h: "h < NHASH_DEF"
    and s: "slot_ok (length (dat_img (L_slots L))) (new_slot p key data)"
    and po: "ptr_ok (length (idx_img L))"
  shows "\<exists>db'. db_append_rec key data (int p) db = Inr ((), db') \<and> frame db db' \<and>
     irep db' (app_layout L h (new_slot p key data)) \<and> drep db' (L_slots (app_layout L h (new_slot p key data)))"
proof -
  let ?ss = "L_slots L" let ?s = "new_slot p key data" let ?n = "length ?ss"
  let ?L1 = "L\<lparr>L_slots := ?ss @ [?s]\<rparr>" let ?L2 = "app_layout L h ?s"
  have ok: "layout_ok L" and fl: "faults db = []" using r by (auto simp: irep_def)
  have sok: "slot_ok (doff ?ss ?n) ?s" using s by (simp add: doff_length)
  have ok1: "layout_ok ?L1" using ok s by (simp add: layout_ok_def slots_ok_append)
  have pi: "ptr_ok (ioff ?ss ?n)" using po ioff_length [OF ok] by simp
  have hl: "cell_ok ?L1 (CHash h)" using ok h by (simp add: layout_ok_def)
  have ok2: "layout_ok ?L2" unfolding app_layout_def using cell_set_ok [OF ok1 hl pi] .
  have dl: "f_locks (datfd db) = []" using lk by (simp add: in_chain_def)
  obtain db1 where w1: "db_writedat data 0 SEEK_END db = Inr ((), db1)" and f1: "frame db db1"
    and r1: "irep db1 L" and d1: "f_bytes (datfd db1) = dat_img (?ss @ [?s])"
    and v1: "datoff db1 = int (doff ?ss ?n)" "datlen db1 = int (length data) + 1"
    using db_writedat_append [OF d fl dl, of data p key] r dl
    by (auto simp: irep_def frame_def new_slot_def)
  have lf: "locks_free (self db1) HDR_SZ 0 (f_locks (idxfd db1))"
    using lk f1 h by (simp add: in_chain_def frame_def locks_free_def ranges_meet_def)
  obtain db2 where w2: "db_writeidx key 0 SEEK_END (int p) db1 = Inr ((), db2)" and f2: "frame db1 db2"
    and r2: "irep db2 ?L1" and d2: "datfd db2 = datfd db1" and v2: "idxoff db2 = int (ioff ?ss ?n)"
    using db_writeidx_append [OF r1 sok _ _ lf] v1 r1 ok1 by (auto simp: irep_def frame_def)
  have f: "frame db db2" using frame_trans [OF f1 f2] .
  then have co: "chainoff db2 = int (cell_off ?L1 (CHash h))" using lk by (simp add: in_chain_def frame_def)
  note w3 = db_writeptr_cell [OF r2 hl pi]
  let ?db3 = "db2\<lparr>idxfd := (idxfd db2)\<lparr>f_bytes := idx_img ?L2, f_pos := cell_off ?L1 (CHash h) + 7\<rparr>\<rparr>"
  have run: "db_append_rec key data (int p) db = Inr ((), ?db3)"
    unfolding db_append_rec_def using w1 w2 w3 co v2 by (simp add: io_simps app_layout_def)
  have "frame db ?db3" using f by (simp add: frame_def)
  moreover have "irep ?db3 ?L2" using r2 ok2 by (simp add: irep_def)
  moreover have "drep ?db3 (L_slots ?L2)" using d1 d2 by (simp add: drep_def app_layout_def)
  ultimately show ?thesis using run by blast
qed

lemma grows_app:
  assumes ok: "layout_ok L" and s: "slot_ok (length (dat_img (L_slots L))) s"
    and po: "ptr_ok (length (idx_img L))" and h: "h < NHASH_DEF"
  shows "grows L (app_layout L h s)"
proof -
  let ?L1 = "L\<lparr>L_slots := L_slots L @ [s]\<rparr>"
  have ok1: "layout_ok ?L1" using ok s by (simp add: layout_ok_def slots_ok_append)
  have c: "cell_ok ?L1 (CHash h)" using ok h by (simp add: layout_ok_def)
  have "idx_img ?L1 = idx_img L @ enc_slot (length (dat_img (L_slots L))) s"
    by (simp add: idx_img_def hdr_img_def enc_slots_append)
  moreover have "length (idx_img (app_layout L h s)) = length (idx_img ?L1)"
    unfolding app_layout_def using po ioff_length [OF ok] by (intro length_idx_img_cell_set [OF ok1 c]) simp
  moreover have "dat_img (L_slots (app_layout L h s)) = dat_img (L_slots L) @ s_data s @ [NEWLINE]"
    by (simp add: app_layout_def dat_img_append)
  ultimately show ?thesis using s by (simp add: grows_def slot_ok_def data_ok_def)
qed

lemma db_append_ok:
  assumes r: "irep db L" and d: "drep db (L_slots L)" and inv: "db_inv L ch fr" and lk: "in_chain h F_WRLCK db"
    and h: "h = hash137 key" and new: "db_map (L_slots L) ch key = None"
    and s: "slot_ok (length (dat_img (L_slots L))) (new_slot (L_hash L ! h) key data)"
    and po: "ptr_ok (length (idx_img L))"
  shows "\<exists>db' L' ch' fr'. db_append_rec key data (int (L_hash L ! h)) db = Inr ((), db') \<and> frame db db' \<and>
     irep db' L' \<and> drep db' (L_slots L') \<and> db_inv L' ch' fr' \<and> grows L L' \<and>
     db_map (L_slots L') ch' = (db_map (L_slots L) ch)(key \<mapsto> data)"
proof -
  let ?ss = "L_slots L" let ?n = "length ?ss" let ?s = "new_slot (L_hash L ! h) key data"
  let ?L' = "app_layout L h ?s" let ?ch' = "ch(h := ?n # ch h)"
  have h137: "h < NHASH_DEF" using h by simp
  have ok: "layout_ok L" using inv by (rule db_invx_layout)
  obtain db' where run: "db_append_rec key data (int (L_hash L ! h)) db = Inr ((), db')" "frame db db'"
    "irep db' ?L'" "drep db' (L_slots ?L')"
    using db_append_run [OF r d lk h137 s po] by blast
  have absent: "\<forall>j \<in> set (ch h). s_key (?ss ! j) \<noteq> s_key ?s" using new h by (simp add: db_map_None)
  have inv': "db_inv ?L' ?ch' fr"
    unfolding app_layout_def
    by (rule append_hash [OF inv]) (use h s absent po ok in \<open>auto simp: doff_length ioff_length\<close>)
  have sl: "L_slots ?L' = ?ss @ [?s]" by (simp add: app_layout_def)
  have "db_map (L_slots ?L') ?ch' = (db_map ?ss ch)(key \<mapsto> data)"
  proof (rule db_map_push [OF inv' h _ _ _ new, of "\<lambda>h. L_hash L ! h"])
    show "chain_ok ?ss h' (L_hash L ! h') (ch h')" if "h' < NHASH_DEF" for h'
      using db_invx_chain [OF inv that] .
    show "s_key (L_slots ?L' ! j) = s_key (?ss ! j) \<and> s_data (L_slots ?L' ! j) = s_data (?ss ! j)"
      if "h' < NHASH_DEF" "j \<in> set (ch h')" for h' j
      using chain_ok_bound [OF db_invx_chain [OF inv that(1)] that(2)] sl by (simp add: nth_append)
  qed (simp_all add: sl)
  moreover have "grows L ?L'" using grows_app [OF ok s po h137] .
  ultimately show ?thesis using run inv' by blast
qed

section \<open>A record in the place of a free one\<close>

definition reuse_layout :: "layout \<Rightarrow> nat \<Rightarrow> nat \<Rightarrow> slot \<Rightarrow> layout" where
  "reuse_layout L h i s = cell_set (slot_set L i s) (CHash h) (ioff (L_slots L) i)"

lemma db_reuse_run:
  assumes r: "irep db L" and d: "drep db (L_slots L)" and lk: "in_chain h F_WRLCK db" and h: "h < NHASH_DEF"
    and i: "i < length (L_slots L)" and sh: "same_shape (new_slot p key data) (L_slots L ! i)"
    and s: "slot_ok (doff (L_slots L) i) (new_slot p key data)" and po: "ptr_ok (ioff (L_slots L) i)"
    and v: "idxoff db = int (ioff (L_slots L) i)" "datoff db = int (doff (L_slots L) i)"
  shows "\<exists>db'. db_reuse_rec key data (int p) db = Inr ((), db') \<and> frame db db' \<and>
     irep db' (reuse_layout L h i (new_slot p key data)) \<and>
     drep db' (L_slots (reuse_layout L h i (new_slot p key data)))"
proof -
  let ?ss = "L_slots L" let ?s = "new_slot p key data"
  let ?L1 = "slot_set L i ?s" let ?L2 = "reuse_layout L h i ?s"
  have ok: "layout_ok L" and fl: "faults db = []" using r by (auto simp: irep_def)
  have ok1: "layout_ok ?L1" using slot_set_ok [OF ok i sh] s by (simp add: slot_ok_def)
  have hl: "cell_ok ?L1 (CHash h)" using ok h by (simp add: layout_ok_def)
  have ok2: "layout_ok ?L2" unfolding reuse_layout_def using cell_set_ok [OF ok1 hl po] .
  have len: "length data = length (s_data (?ss ! i))" using sh by (simp add: same_shape_def)
  obtain db1 where w1: "db_writedat data (int (doff ?ss i)) SEEK_SET db = Inr ((), db1)" and f1: "frame db db1"
    and r1: "irep db1 L" and d1: "f_bytes (datfd db1) = dat_img (?ss[i := ?s])"
    and v1: "datoff db1 = int (doff ?ss i)" "datlen db1 = int (length data) + 1" "idxoff db1 = idxoff db"
    using db_writedat_over [OF d i fl len] r dat_img_slot_data [OF i, of ?s data] by (auto simp: irep_def frame_def)
  obtain db2 where w2: "db_writeidx key (int (ioff ?ss i)) SEEK_SET (int p) db1 = Inr ((), db2)"
    and f2: "frame db1 db2" and r2: "irep db2 ?L1" and d2: "datfd db2 = datfd db1"
    and v2: "idxoff db2 = int (ioff ?ss i)"
    using db_writeidx_over [OF r1 i sh s] v1 r1 ok1 by (auto simp: irep_def frame_def slot_set_def)
  have f: "frame db db2" using frame_trans [OF f1 f2] .
  then have co: "chainoff db2 = int (cell_off ?L1 (CHash h))" using lk by (simp add: in_chain_def frame_def)
  note w3 = db_writeptr_cell [OF r2 hl po]
  let ?db3 = "db2\<lparr>idxfd := (idxfd db2)\<lparr>f_bytes := idx_img ?L2, f_pos := cell_off ?L1 (CHash h) + 7\<rparr>\<rparr>"
  have run: "db_reuse_rec key data (int p) db = Inr ((), ?db3)"
    unfolding db_reuse_rec_def using w1 w2 w3 co v v1 v2 by (simp add: io_simps reuse_layout_def)
  have "frame db ?db3" using f by (simp add: frame_def)
  moreover have "irep ?db3 ?L2" using r2 ok2 by (simp add: irep_def)
  moreover have "drep ?db3 (L_slots ?L2)" using d1 d2 by (simp add: drep_def reuse_layout_def)
  ultimately show ?thesis using run by blast
qed

lemma grows_cell_set:
  "layout_ok L \<Longrightarrow> cell_ok L c \<Longrightarrow> ptr_ok p \<Longrightarrow> grows (cell_set L c p) L' = grows L L'"
  by (simp add: grows_def length_idx_img_cell_set)

text \<open>A free slot holds blanks and is on no chain, so the map does not see it being taken off.\<close>

lemma db_map_cell_set:
  assumes "\<And>h'. h' < NHASH_DEF \<Longrightarrow> chain_ok (L_slots L) h' (p h') (ch h')"
  shows "db_map (L_slots (cell_set L c q)) ch = db_map (L_slots L) ch"
proof
  fix k
  have b: "j < length (L_slots L)" if "j \<in> set (ch (hash137 k))" for j
    using chain_ok_bound [OF assms [OF hash137_less] that] .
  have "find (\<lambda>i. s_key (L_slots (cell_set L c q) ! i) = k) (ch (hash137 k)) =
      find (\<lambda>i. s_key (L_slots L ! i) = k) (ch (hash137 k))"
    by (rule find_cong) (simp_all add: b)
  moreover have "s_data (L_slots (cell_set L c q) ! i) = s_data (L_slots L ! i)"
    if "find (\<lambda>i. s_key (L_slots L ! i) = k) (ch (hash137 k)) = Some i" for i
    using that b by (auto simp: find_Some_iff)
  ultimately show "db_map (L_slots (cell_set L c q)) ch k = db_map (L_slots L) ch k"
    by (cases "find (\<lambda>i. s_key (L_slots L ! i) = k) (ch (hash137 k))") (simp_all add: db_map_def)
qed

lemma length_slot_set:
  assumes ok: "layout_ok L" and i: "i < length (L_slots L)" and sh: "same_shape s (L_slots L ! i)"
    and s: "slot_ok (doff (L_slots L) i) s"
  shows "length (idx_img (slot_set L i s)) = length (idx_img L)"
    "length (dat_img (L_slots (slot_set L i s))) = length (dat_img (L_slots L))"
proof -
  have ok1: "layout_ok (slot_set L i s)" using slot_set_ok [OF ok i sh] s by (simp add: slot_ok_def)
  show "length (idx_img (slot_set L i s)) = length (idx_img L)"
    using ioff_update [OF sh, of "length (L_slots L)"] ok s ioff_length [OF ok1] ioff_length [OF ok]
    by (simp add: layout_ok_def slot_ok_def)
  show "length (dat_img (L_slots (slot_set L i s))) = length (dat_img (L_slots L))"
    using dat_img_update [of s "L_slots L" i "length (L_slots L)"] sh by (simp add: same_shape_def)
qed

lemma grows_reuse:
  assumes ok: "layout_ok L" and i: "i < length (L_slots L)" and sh: "same_shape s (L_slots L ! i)"
    and s: "slot_ok (doff (L_slots L) i) s" and po: "ptr_ok (ioff (L_slots L) i)" and h: "h < NHASH_DEF"
  shows "grows L (reuse_layout L h i s)"
proof -
  have ok1: "layout_ok (slot_set L i s)" using slot_set_ok [OF ok i sh] s by (simp add: slot_ok_def)
  have c: "cell_ok (slot_set L i s) (CHash h)" using ok h by (simp add: layout_ok_def)
  show ?thesis
    using length_idx_img_cell_set [OF ok1 c po] length_slot_set [OF ok i sh s]
    by (simp add: grows_def reuse_layout_def)
qed

lemma db_reuse_ok:
  assumes r: "irep db L" and d: "drep db (L_slots L)" and inv: "db_invx {i} L ch fr" and lk: "in_chain h F_WRLCK db"
    and h: "h = hash137 key" and new: "db_map (L_slots L) ch key = None"
    and sh: "length key = length (s_key (L_slots L ! i))" "length data = length (s_data (L_slots L ! i))"
    and kd: "key_ok key" "data_ok data" and po: "ptr_ok (ioff (L_slots L) i)"
    and v: "idxoff db = int (ioff (L_slots L) i)" "datoff db = int (doff (L_slots L) i)"
  shows "\<exists>db' L' ch' fr'. db_reuse_rec key data (int (L_hash L ! h)) db = Inr ((), db') \<and> frame db db' \<and>
     irep db' L' \<and> drep db' (L_slots L') \<and> db_inv L' ch' fr' \<and> grows L L' \<and>
     db_map (L_slots L') ch' = (db_map (L_slots L) ch)(key \<mapsto> data)"
proof -
  let ?ss = "L_slots L" let ?s = "new_slot (L_hash L ! h) key data"
  let ?L' = "reuse_layout L h i ?s" let ?ch' = "ch(h := i # ch h)"
  have h137: "h < NHASH_DEF" using h by simp
  have ok: "layout_ok L" using inv by (rule db_invx_layout)
  have i: "i < length ?ss" using inv by (auto simp: db_invx_def)
  have ss: "same_shape ?s (?ss ! i)" using sh by (simp add: same_shape_def)
  have ph: "ptr_ok (L_hash L ! h)"
    using ptr_ok_cell [OF ok, of "CHash h"] h137 db_invx_hash_len [OF inv] by simp
  have sok: "slot_ok (doff ?ss i) ?s"
    using layout_ok_nth [OF ok i] same_shape_rec [OF ss] kd ph by (simp add: slot_ok_def)
  obtain db' where run: "db_reuse_rec key data (int (L_hash L ! h)) db = Inr ((), db')" "frame db db'"
    "irep db' ?L'" "drep db' (L_slots ?L')"
    using db_reuse_run [OF r d lk h137 i ss sok po v] by blast
  have absent: "\<forall>j \<in> set (ch h). s_key (?ss ! j) \<noteq> s_key ?s" using new h by (simp add: db_map_None)
  have inv': "db_inv ?L' ?ch' fr"
    unfolding reuse_layout_def by (rule push_hash [OF inv]) (use h ss kd absent po in auto)
  have sl: "L_slots ?L' = ?ss[i := ?s]" by (simp add: reuse_layout_def)
  have "db_map (L_slots ?L') ?ch' = (db_map ?ss ch)(key \<mapsto> data)"
  proof (rule db_map_push [OF inv' h _ _ _ new, of "\<lambda>h. L_hash L ! h"])
    show "chain_ok ?ss h' (L_hash L ! h') (ch h')" if "h' < NHASH_DEF" for h'
      using db_invx_chain [OF inv that] .
    show "s_key (L_slots ?L' ! j) = s_key (?ss ! j) \<and> s_data (L_slots ?L' ! j) = s_data (?ss ! j)"
      if "h' < NHASH_DEF" "j \<in> set (ch h')" for h' j
    proof -
      have "j \<noteq> i" using db_invx_out [OF inv that(1)] that(2) by auto
      then show ?thesis by (simp add: sl)
    qed
  qed (simp_all add: sl i)
  moreover have "grows L ?L'" using grows_reuse [OF ok i ss sok po h137] .
  ultimately show ?thesis using run inv' by blast
qed

section \<open>The two halves of \<open>db_store\<close>\<close>

text \<open>
  There is room for a record: the index file is not longer than a chain pointer can say, and
  the index record has a legal length.
\<close>

definition room_for :: "nat \<Rightarrow> nat \<Rightarrow> string \<Rightarrow> string \<Rightarrow> bool" where
  "room_for idxsize datsize key data \<longleftrightarrow>
     idxsize \<le> 9999999 \<and>
     (let n = length key + length (dec datsize) + length (dec (length data + 1)) + 3 in 6 \<le> n \<and> n \<le> 1024)"

lemma room_slot_ok:
  "room_for i d key data \<Longrightarrow> key_ok key \<Longrightarrow> data_ok data \<Longrightarrow> ptr_ok p \<Longrightarrow> slot_ok d (new_slot p key data)"
  by (simp add: room_for_def slot_ok_def slot_rec_def Let_def)

lemma room_ptr_ok: "room_for i d key data \<Longrightarrow> ptr_ok i"
  by (simp add: room_for_def ptr_ok_def)

lemma db_readptr_chain:
  assumes "irep db L" "in_chain h ty db" "h < NHASH_DEF"
  shows "db_readptr (chainoff db) db = Inr (int (L_hash L ! h), db\<lparr>idxfd := (idxfd db)\<lparr>f_pos := 14 + 7 * h\<rparr>\<rparr>)"
    "ptr_ok (L_hash L ! h)"
proof -
  have ok: "layout_ok L" using assms(1) by (simp add: irep_def)
  have c: "cell_ok L (CHash h)" using ok assms(3) by (simp add: layout_ok_def)
  show "ptr_ok (L_hash L ! h)" using ptr_ok_cell [OF ok c] by simp
  with db_readptr_cell [OF assms(1) c] assms(2)
  show "db_readptr (chainoff db) db = Inr (int (L_hash L ! h), db\<lparr>idxfd := (idxfd db)\<lparr>f_pos := 14 + 7 * h\<rparr>\<rparr>)"
    by (simp add: in_chain_def)
qed

text \<open>The counters a store may change are the only difference between \<open>db'\<close> and a framed state.\<close>

lemma db_store_new_ok:
  assumes r: "irep db L" and d: "drep db (L_slots L)" and inv: "db_inv L ch fr" and lk: "in_chain h F_WRLCK db"
    and h: "h = hash137 key" and new: "db_map (L_slots L) ch key = None"
    and kd: "key_ok key" "data_ok data" and room: "room_for (length (idx_img L)) (length (dat_img (L_slots L))) key data"
  shows "\<exists>db' db'' L' ch' fr' f. db_store_new key data (int (length data) + 1) db = Inr ((), db'') \<and>
     db'' = (if f then db'\<lparr>cnt_stor1 := cnt_stor1 db' + 1\<rparr> else db'\<lparr>cnt_stor2 := cnt_stor2 db' + 1\<rparr>) \<and>
     frame db db' \<and> irep db' L' \<and> drep db' (L_slots L') \<and> db_inv L' ch' fr' \<and> grows L L' \<and>
     db_map (L_slots L') ch' = (db_map (L_slots L) ch)(key \<mapsto> data)"
proof -
  let ?ss = "L_slots L" let ?dl = "int (length data) + 1"
  have h137: "h < NHASH_DEF" using h by simp
  note rp = db_readptr_chain [OF r lk h137]
  let ?db1 = "db\<lparr>idxfd := (idxfd db)\<lparr>f_pos := 14 + 7 * h\<rparr>\<rparr>"
  have r1: "irep ?db1 L" and d1: "drep ?db1 ?ss" and lk1: "in_chain h F_WRLCK ?db1" and f1: "frame db ?db1"
    using r d lk by (simp_all add: irep_def drep_def in_chain_def frame_def)
  obtain db2 where f2: "frame ?db1 db2" and d2: "datfd db2 = datfd ?db1"
    and res: "case find (fits ?ss (length key) ?dl) fr of
       None \<Rightarrow> db_findfree (length key) ?dl ?db1 = Inr (-1, db2) \<and> irep db2 L
     | Some i \<Rightarrow> db_findfree (length key) ?dl ?db1 = Inr (0, db2) \<and> idxoff db2 = int (ioff ?ss i) \<and>
         datoff db2 = int (doff ?ss i) \<and> fits ?ss (length key) ?dl i \<and>
         (\<exists>pre post. fr = pre @ i # post \<and> irep db2 (cell_set L (pred_cell CFree pre) (s_ptr (?ss ! i))))"
    using db_findfree_ok [OF r1 inv lk1] by blast
  have f: "frame db db2" using frame_trans [OF f1 f2] .
  have lk2: "in_chain h F_WRLCK db2" using in_chain_frame [OF lk f] .
  have dr2: "drep db2 ?ss" using d1 d2 by (simp add: drep_def)
  show ?thesis
  proof (cases "find (fits ?ss (length key) ?dl) fr")
    case None
    then have r2: "irep db2 L" and ff: "db_findfree (length key) ?dl ?db1 = Inr (-1, db2)" using res by auto
    obtain db3 L' ch' fr' where a: "db_append_rec key data (int (L_hash L ! h)) db2 = Inr ((), db3)"
      and f3: "frame db2 db3" and rest: "irep db3 L'" "drep db3 (L_slots L')" "db_inv L' ch' fr'" "grows L L'"
      "db_map (L_slots L') ch' = (db_map ?ss ch)(key \<mapsto> data)"
      using db_append_ok [OF r2 dr2 inv lk2 h new room_slot_ok [OF room kd rp(2)] room_ptr_ok [OF room]] by blast
    have "db_store_new key data ?dl db = Inr ((), db3\<lparr>cnt_stor1 := cnt_stor1 db3 + 1\<rparr>)"
      unfolding db_store_new_def using rp(1) ff a by (simp add: io_simps)
    with rest frame_trans [OF f f3] show ?thesis by (intro exI [of _ db3] exI) auto
  next
    case (Some i)
    with res obtain pre post where ff: "db_findfree (length key) ?dl ?db1 = Inr (0, db2)"
      and v: "idxoff db2 = int (ioff ?ss i)" "datoff db2 = int (doff ?ss i)"
      and ft: "fits ?ss (length key) ?dl i" and fr: "fr = pre @ i # post"
      and r2: "irep db2 (cell_set L (pred_cell CFree pre) (s_ptr (?ss ! i)))" by auto
    let ?L1 = "cell_set L (pred_cell CFree pre) (s_ptr (?ss ! i))"
    have inv1: "db_invx {i} ?L1 ch (pre @ post)" using take_free [OF inv fr] .
    have ok: "layout_ok L" using r by (simp add: irep_def)
    have fo: "free_ok ?ss (L_free L) (pre @ i # post)" using inv fr by (simp add: db_invx_def)
    then have c: "chain ?ss (L_free L) (pre @ i # post)" by (simp add: free_ok_def)
    have i: "i < length ?ss" using free_ok_bound [OF fo, of i] by simp
    have pq: "ptr_ok (s_ptr (?ss ! i))" using layout_ok_nth [OF ok i] by (simp add: slot_ok_def)
    have pc: "cell_ok L (pred_cell CFree pre)" using pred_cell_ok [of L CFree] c by (auto simp: seg_append)
    have io: "ioff (L_slots ?L1) i = ioff ?ss i" using cell_off_set [OF ok pc pq, of "CSlot i"] by simp
    have do: "doff (L_slots ?L1) i = doff ?ss i"
      by (cases "pred_cell CFree pre") (simp_all add: doff_update)
    have hs: "L_hash ?L1 = L_hash L" by (simp add: pred_cell_def)
    have mp: "db_map (L_slots ?L1) ch = db_map ?ss ch"
      by (rule db_map_cell_set) (rule db_invx_chain [OF inv])
    have po: "ptr_ok (ioff ?ss i)" using chain_ptr_ok [OF ok c] ok by (simp add: layout_ok_def)
    have "\<exists>db3 L' ch' fr'. db_reuse_rec key data (int (L_hash ?L1 ! h)) db2 = Inr ((), db3) \<and> frame db2 db3 \<and>
       irep db3 L' \<and> drep db3 (L_slots L') \<and> db_inv L' ch' fr' \<and> grows ?L1 L' \<and>
       db_map (L_slots L') ch' = (db_map (L_slots ?L1) ch)(key \<mapsto> data)"
      by (rule db_reuse_ok [OF r2 _ inv1 lk2 h])
        (use dr2 new mp ft kd po io do v i in \<open>auto simp: fits_def drep_def\<close>)
    then obtain db3 L' ch' fr' where a: "db_reuse_rec key data (int (L_hash L ! h)) db2 = Inr ((), db3)"
      and f3: "frame db2 db3" and rest: "irep db3 L'" "drep db3 (L_slots L')" "db_inv L' ch' fr'" "grows L L'"
      "db_map (L_slots L') ch' = (db_map ?ss ch)(key \<mapsto> data)" unfolding hs mp grows_cell_set [OF ok pc pq] by blast
    have "db_store_new key data ?dl db = Inr ((), db3\<lparr>cnt_stor2 := cnt_stor2 db3 + 1\<rparr>)"
      unfolding db_store_new_def using rp(1) ff a by (simp add: io_simps)
    with rest frame_trans [OF f f3] show ?thesis by (intro exI [of _ db3] exI exI [of _ False]) auto
  qed
qed

text \<open>New data of the same length leave the index file and the invariant as they are.\<close>

lemma enc_slots_map: "map (\<lambda>s. (s_ptr s, s_key s, length (s_data s))) ss' = map (\<lambda>s. (s_ptr s, s_key s, length (s_data s))) ss \<Longrightarrow>
   enc_slots d ss' = enc_slots d ss"
proof (induction ss arbitrary: d ss')
  case (Cons s ss)
  from Cons.prems obtain t ts where ss': "ss' = t # ts"
    and t: "s_ptr t = s_ptr s" "s_key t = s_key s" "length (s_data t) = length (s_data s)"
    and ts: "map (\<lambda>s. (s_ptr s, s_key s, length (s_data s))) ts = map (\<lambda>s. (s_ptr s, s_key s, length (s_data s))) ss"
    by (cases ss') simp_all
  have "enc_slot d t = enc_slot d s" by (simp add: enc_slot_def slot_rec_def t)
  with Cons.IH [OF ts] show ?case by (simp add: ss' t)
qed simp

lemma idx_img_data:
  assumes "i < length (L_slots L)" "length x = length (s_data (L_slots L ! i))"
  shows "idx_img (L\<lparr>L_slots := (L_slots L)[i := (L_slots L ! i)\<lparr>s_data := x\<rparr>]\<rparr>) = idx_img L"
proof -
  have "map (\<lambda>s. (s_ptr s, s_key s, length (s_data s))) ((L_slots L)[i := (L_slots L ! i)\<lparr>s_data := x\<rparr>]) =
      map (\<lambda>s. (s_ptr s, s_key s, length (s_data s))) (L_slots L)"
    using assms by (intro nth_equalityI) (auto simp: nth_list_update)
  from enc_slots_map [OF this] show ?thesis by (simp add: idx_img_def hdr_img_def)
qed

lemma seg_data:
  assumes "slots_ok 0 ss" "i < length ss" "length x = length (s_data (ss ! i))"
  shows "seg (ss[i := (ss ! i)\<lparr>s_data := x\<rparr>]) p is q = seg ss p is q"
proof (induction "is" arbitrary: p)
  case (Cons j js)
  have "ptr_ok (s_ptr (ss ! i))" using slots_ok_nth [OF assms(1,2)] by (simp add: slot_ok_def)
  then have "ioff (ss[i := (ss ! i)\<lparr>s_data := x\<rparr>]) j = ioff ss j"
    by (intro ioff_update) (use assms in \<open>auto simp: same_shape_def\<close>)
  moreover have "s_ptr (ss[i := (ss ! i)\<lparr>s_data := x\<rparr>] ! j) = s_ptr (ss ! j)"
    using assms(2) by (cases "j = i") auto
  ultimately show ?case using Cons by simp
qed simp

lemma overwrite_inv:
  assumes inv: "db_inv L ch fr" and h: "h < NHASH_DEF" and i: "i \<in> set (ch h)"
    and x: "data_ok x" "length x = length (s_data (L_slots L ! i))"
  shows "db_inv (slot_set L i ((L_slots L ! i)\<lparr>s_data := x\<rparr>)) ch fr"
proof -
  let ?ss = "L_slots L" let ?s = "(?ss ! i)\<lparr>s_data := x\<rparr>"
  have ok: "layout_ok L" using inv by (rule db_invx_layout)
  have il: "i < length ?ss" using chain_ok_bound [OF db_invx_chain [OF inv h] i] .
  have tok: "slot_ok (doff ?ss i) (?ss ! i)" using layout_ok_nth [OF ok il] .
  have sh: "same_shape ?s (?ss ! i)" using x by (simp add: same_shape_def)
  have ok': "layout_ok (slot_set L i ?s)" using slot_set_ok [OF ok il sh] tok x by (simp add: slot_ok_def)
  have sg: "seg (?ss[i := ?s]) p is q = seg ?ss p is q" for p q "is"
    using ok seg_data [OF _ il x(2)] by (simp add: layout_ok_def)
  have key: "s_key (?ss[i := ?s] ! j) = s_key (?ss ! j)" for j using il by (cases "j = i") auto
  have chs: "chain_ok (?ss[i := ?s]) h' p is = chain_ok ?ss h' p is" for h' p "is"
    by (rule chain_ok_cong) (simp_all add: sg key)
  have nfr: "i \<notin> set fr" using db_invx_free [OF inv h] i by auto
  then have dat: "s_data (?ss[i := ?s] ! j) = s_data (?ss ! j)" if "j \<in> set fr" for j
    using that by (cases "j = i") auto
  have fr: "free_ok (?ss[i := ?s]) (L_free L) fr = free_ok ?ss (L_free L) fr"
    by (rule free_ok_cong) (simp_all add: sg key dat)
  show ?thesis using inv ok' by (simp add: db_invx_def chs fr)
qed

lemma db_store_over_ok:
  assumes r: "irep db L" and d: "drep db (L_slots L)" and inv: "db_inv L ch fr" and lk: "in_chain h F_WRLCK db"
    and h: "h = hash137 key" and ch: "ch h = pre @ i # post" and k: "s_key (L_slots L ! i) = key"
    and ld: "loaded (L_slots L) i db" and po: "ptroff db = int (cell_off L (pred_cell (CHash h) pre))"
    and kd: "key_ok key" "data_ok data" and room: "room_for (length (idx_img L)) (length (dat_img (L_slots L))) key data"
  shows "\<exists>db' db'' L' ch' fr' f. db_store_over key data (int (length data) + 1) db = Inr ((), db'') \<and>
     db'' = (if f then db'\<lparr>cnt_stor3 := cnt_stor3 db' + 1\<rparr> else db'\<lparr>cnt_stor4 := cnt_stor4 db' + 1\<rparr>) \<and>
     frame db db' \<and> irep db' L' \<and> drep db' (L_slots L') \<and> db_inv L' ch' fr' \<and> grows L L' \<and>
     db_map (L_slots L') ch' = (db_map (L_slots L) ch)(key \<mapsto> data)"
proof -
  let ?ss = "L_slots L" let ?dl = "int (length data) + 1"
  have h137: "h < NHASH_DEF" using h by simp
  have ok: "layout_ok L" and fl: "faults db = []" using r by (auto simp: irep_def)
  have i: "i < length ?ss" using pred_cell_chain_ok(3) [of L ch fr h, OF inv h137 ch] .
  show ?thesis
  proof (cases "?dl = datlen db")
    case True
    then have len: "length data = length (s_data (?ss ! i))" using ld by (simp add: loaded_def)
    let ?s = "(?ss ! i)\<lparr>s_data := data\<rparr>" let ?L' = "slot_set L i ?s"
    have inv': "db_inv ?L' ch fr"
      by (rule overwrite_inv [of L ch fr h, OF inv h137]) (use ch kd len in auto)
    obtain db' where w: "db_writedat data (int (doff ?ss i)) SEEK_SET db = Inr ((), db')" and f: "frame db db'"
      and b: "f_bytes (datfd db') = dat_img (?ss[i := ?s])" and ib: "idxfd db' = idxfd db"
      using db_writedat_over [OF d i fl len] by (auto simp: frame_def)
    have img: "idx_img ?L' = idx_img L" using idx_img_data [OF i len] by (simp add: slot_set_def)
    have "irep db' ?L'" using irep_frame [OF r f db_invx_layout [OF inv']] ib img r by (simp add: irep_def)
    moreover have "drep db' (L_slots ?L')" using b by (simp add: drep_def)
    moreover have "grows L ?L'" using img dat_img_update [of ?s ?ss i "length ?ss"] len by (simp add: grows_def)
    moreover have "db_map (L_slots ?L') ch = (db_map ?ss ch)(key \<mapsto> data)"
      using db_map_overwrite [OF inv h _ k] ch by simp
    moreover have "db_store_over key data ?dl db = Inr ((), db'\<lparr>cnt_stor4 := cnt_stor4 db' + 1\<rparr>)"
      unfolding db_store_over_def using True w ld by (simp add: io_simps loaded_def)
    ultimately show ?thesis using f inv' by (intro exI [of _ db'] exI exI [of _ False]) auto
  next
    case False
    obtain db1 L1 ch1 fr1 where del: "db_dodelete db = Inr ((), db1)" and f1: "frame db db1"
      and r1: "irep db1 L1" and d1: "drep db1 (L_slots L1)" and inv1: "db_inv L1 ch1 fr1"
      and m1: "db_map (L_slots L1) ch1 = (db_map ?ss ch)(key := None)"
      and len: "length (idx_img L1) = length (idx_img L)" "length (dat_img (L_slots L1)) = length (dat_img ?ss)"
      using db_dodelete_ok [OF r d inv h ch k ld lk po] by blast
    have lk1: "in_chain h F_WRLCK db1" using in_chain_frame [OF lk f1] .
    note rp = db_readptr_chain [OF r1 lk1 h137]
    let ?db2 = "db1\<lparr>idxfd := (idxfd db1)\<lparr>f_pos := 14 + 7 * h\<rparr>\<rparr>"
    have r2: "irep ?db2 L1" and d2: "drep ?db2 (L_slots L1)" and lk2: "in_chain h F_WRLCK ?db2"
      and f2: "frame db1 ?db2"
      using r1 d1 lk1 by (simp_all add: irep_def drep_def in_chain_def frame_def)
    note room1 = room [folded len]
    have new: "db_map (L_slots L1) ch1 key = None" using m1 by simp
    obtain db3 L' ch' fr' where a: "db_append_rec key data (int (L_hash L1 ! h)) ?db2 = Inr ((), db3)"
      and f3: "frame ?db2 db3" and rest: "irep db3 L'" "drep db3 (L_slots L')" "db_inv L' ch' fr'" "grows L1 L'"
      "db_map (L_slots L') ch' = (db_map (L_slots L1) ch1)(key \<mapsto> data)"
      using db_append_ok [OF r2 d2 inv1 lk2 h new room_slot_ok [OF room1 kd rp(2)] room_ptr_ok [OF room1]] by blast
    have "db_store_over key data ?dl db = Inr ((), db3\<lparr>cnt_stor3 := cnt_stor3 db3 + 1\<rparr>)"
      unfolding db_store_over_def using False del rp(1) a by (simp add: io_simps)
    moreover have "grows L L'" using rest(4) len by (simp add: grows_def)
    ultimately show ?thesis using rest m1 frame_trans [OF f1 frame_trans [OF f2 f3]]
      by (intro exI [of _ db3] exI exI [of _ True]) auto
  qed
qed

end
