(* ===== verification/Db_Correct.thy ===== *)
theory Db_Correct
  imports Db_Store
begin

text \<open>
  The public operations of the database against the abstract specification, a map from keys
  to data: \<open>db_fetch\<close> looks up, \<open>db_store\<close> updates, \<open>db_delete\<close> removes, and each leaves a
  database that represents the resulting map, with no lock held.
\<close>

section \<open>Representation\<close>

definition db_rep :: "DB \<Rightarrow> (string \<rightharpoonup> string) \<Rightarrow> bool" where
  "db_rep db m \<longleftrightarrow>
     (\<exists>L ch fr. irep db L \<and> drep db (L_slots L) \<and> db_inv L ch fr \<and> no_locks db \<and>
        m = db_map (L_slots L) ch)"

lemma db_repE:
  assumes "db_rep db m"
  obtains L ch fr where "irep db L" "drep db (L_slots L)" "db_inv L ch fr" "no_locks db"
    "m = db_map (L_slots L) ch"
  using assms by (auto simp: db_rep_def)

text \<open>Leaving the chain after the work of an operation is done.\<close>

lemma leave_chain:
  assumes "in_chain h ty db" "irep db L" "drep db (L_slots L)" "db_inv L ch fr"
  shows "unlock_chain msg db = Inr ((), db\<lparr>idxfd := (idxfd db)\<lparr>f_locks := []\<rparr>\<rparr>)"
    "db_rep (db\<lparr>idxfd := (idxfd db)\<lparr>f_locks := []\<rparr>\<rparr>) (db_map (L_slots L) ch)"
proof -
  show "unlock_chain msg db = Inr ((), db\<lparr>idxfd := (idxfd db)\<lparr>f_locks := []\<rparr>\<rparr>)"
    using unlock_chain_ok assms(1,2) by (simp add: irep_def)
  have "irep (db\<lparr>idxfd := (idxfd db)\<lparr>f_locks := []\<rparr>\<rparr>) L" "drep (db\<lparr>idxfd := (idxfd db)\<lparr>f_locks := []\<rparr>\<rparr>) (L_slots L)"
    "no_locks (db\<lparr>idxfd := (idxfd db)\<lparr>f_locks := []\<rparr>\<rparr>)"
    using assms(1-3) by (simp_all add: irep_def drep_def no_locks_def in_chain_def)
  with assms(4) show "db_rep (db\<lparr>idxfd := (idxfd db)\<lparr>f_locks := []\<rparr>\<rparr>) (db_map (L_slots L) ch)"
    unfolding db_rep_def by blast
qed

text \<open>The counters of the structure, in the order of its fields.\<close>

definition counters :: "DB \<Rightarrow> 64 word list" where
  "counters db = [cnt_delok db, cnt_delerr db, cnt_fetchok db, cnt_fetcherr db, cnt_nextrec db,
     cnt_stor1 db, cnt_stor2 db, cnt_stor3 db, cnt_stor4 db, cnt_storerr db]"

lemma frame_counters: "frame db db' \<Longrightarrow> counters db' = counters db"
  by (simp add: frame_def counters_def)

lemma counters_enter [simp]: "counters (enter_chain h ty db) = counters db"
  by (simp add: counters_def enter_chain_def Let_def add_lock_def)

lemma counters_idxfd [simp]: "counters (db\<lparr>idxfd := f\<rparr>) = counters db"
  by (simp add: counters_def)

section \<open>Fetch\<close>

lemma db_fetch_refines:
  assumes "db_rep db m"
  shows "\<exists>db'. db_fetch key db = Inr (m key, db') \<and> db_rep db' m \<and>
     f_bytes (idxfd db') = f_bytes (idxfd db) \<and> f_bytes (datfd db') = f_bytes (datfd db) \<and>
     counters db' = (if m key = None then (counters db)[3 := counters db ! 3 + 1]
                     else (counters db)[2 := counters db ! 2 + 1])"
proof -
  obtain L ch fr where r: "irep db L" and d: "drep db (L_slots L)" and inv: "db_inv L ch fr"
    and nl: "no_locks db" and m: "m = db_map (L_slots L) ch" using assms by (rule db_repE)
  let ?ss = "L_slots L" let ?h = "hash137 key"
  obtain db1 where fl: "db_find_and_lock key False db = Inr (if m key = None then -1 else 0, db1)"
    and f1: "frame (enter_chain ?h F_RDLCK db) db1" and r1: "irep db1 L" and d1: "datfd db1 = datfd db"
    and lk: "in_chain ?h F_RDLCK db1"
    and found: "m key \<noteq> None \<longrightarrow> (\<exists>pre i post. ch ?h = pre @ i # post \<and> s_key (?ss ! i) = key \<and>
          m key = Some (s_data (?ss ! i)) \<and> loaded ?ss i db1)"
    using db_find_and_lock_ok [OF r nl inv refl, of key False] m by auto
  have dr1: "drep db1 ?ss" using d d1 by (simp add: drep_def)
  have cn: "counters db1 = counters db" using frame_counters [OF f1] by simp
  have bi: "f_bytes (idxfd db1) = f_bytes (idxfd db)" using r r1 by (simp add: irep_def)
  show ?thesis
  proof (cases "m key")
    case None
    let ?db2 = "db1\<lparr>cnt_fetcherr := cnt_fetcherr db1 + 1\<rparr>"
    have st: "in_chain ?h F_RDLCK ?db2" "irep ?db2 L" "drep ?db2 ?ss"
      using lk r1 dr1 by (simp_all add: in_chain_def irep_def drep_def)
    note lv = leave_chain [OF st inv]
    have "db_fetch key db = Inr (None, ?db2\<lparr>idxfd := (idxfd ?db2)\<lparr>f_locks := []\<rparr>\<rparr>)"
      unfolding db_fetch_def using fl None lv(1) by (simp add: io_simps)
    with None lv(2) [folded m] cn bi d1 show ?thesis by (simp add: counters_def)
  next
    case (Some x)
    with found obtain pre i post where i: "ch ?h = pre @ i # post" "x = s_data (?ss ! i)" "loaded ?ss i db1" by auto
    have il: "i < length ?ss" using pred_cell_chain_ok(3) [of L ch fr ?h, OF inv _ i(1)] by simp
    have dk: "data_ok (s_data (?ss ! i))" using layout_ok_nth [OF db_invx_layout [OF inv] il] by (simp add: slot_ok_def)
    have fa: "faults db1 = []" using r1 by (simp add: irep_def)
    let ?db2 = "db1\<lparr>datfd := (datfd db1)\<lparr>f_pos := doff ?ss i + length (s_data (?ss ! i)) + 1\<rparr>,
            datbuf := s_data (?ss ! i) @ [NUL]\<rparr>"
    have rd: "db_readdat db1 = Inr (x, ?db2)"
      using db_readdat_slot [OF dr1 il fa dk] i(2,3) by (simp add: loaded_def)
    let ?db3 = "?db2\<lparr>cnt_fetchok := cnt_fetchok ?db2 + 1\<rparr>"
    have st: "in_chain ?h F_RDLCK ?db3" "irep ?db3 L" "drep ?db3 ?ss"
      using lk r1 dr1 by (simp_all add: in_chain_def irep_def drep_def)
    note lv = leave_chain [OF st inv]
    have "db_fetch key db = Inr (Some x, ?db3\<lparr>idxfd := (idxfd ?db3)\<lparr>f_locks := []\<rparr>\<rparr>)"
      unfolding db_fetch_def using fl Some rd lv(1) by (simp add: io_simps)
    with Some lv(2) [folded m] cn bi d1 show ?thesis by (simp add: counters_def)
  qed
qed

section \<open>Delete\<close>

lemma db_delete_refines:
  assumes "db_rep db m"
  shows "\<exists>db'. db_delete key db = Inr (if m key = None then -1 else 0, db') \<and> db_rep db' (m(key := None)) \<and>
     length (f_bytes (idxfd db')) = length (f_bytes (idxfd db)) \<and>
     length (f_bytes (datfd db')) = length (f_bytes (datfd db)) \<and>
     counters db' = (if m key = None then (counters db)[1 := counters db ! 1 + 1]
                     else (counters db)[0 := counters db ! 0 + 1])"
proof -
  obtain L ch fr where r: "irep db L" and d: "drep db (L_slots L)" and inv: "db_inv L ch fr"
    and nl: "no_locks db" and m: "m = db_map (L_slots L) ch" using assms by (rule db_repE)
  let ?ss = "L_slots L" let ?h = "hash137 key"
  obtain db1 where fl: "db_find_and_lock key True db = Inr (if m key = None then -1 else 0, db1)"
    and f1: "frame (enter_chain ?h F_WRLCK db) db1" and r1: "irep db1 L" and d1: "datfd db1 = datfd db"
    and lk: "in_chain ?h F_WRLCK db1"
    and found: "m key \<noteq> None \<longrightarrow> (\<exists>pre i post. ch ?h = pre @ i # post \<and> s_key (?ss ! i) = key \<and>
          m key = Some (s_data (?ss ! i)) \<and> loaded ?ss i db1 \<and>
          ptroff db1 = int (cell_off L (pred_cell (CHash ?h) pre)))"
    using db_find_and_lock_ok [OF r nl inv refl, of key True] m by auto
  have dr1: "drep db1 ?ss" using d d1 by (simp add: drep_def)
  have cn: "counters db1 = counters db" using frame_counters [OF f1] by simp
  have bi: "f_bytes (idxfd db1) = f_bytes (idxfd db)" using r r1 by (simp add: irep_def)
  show ?thesis
  proof (cases "m key")
    case None
    let ?db2 = "db1\<lparr>cnt_delerr := cnt_delerr db1 + 1\<rparr>"
    have st: "in_chain ?h F_WRLCK ?db2" "irep ?db2 L" "drep ?db2 ?ss"
      using lk r1 dr1 by (simp_all add: in_chain_def irep_def drep_def)
    note lv = leave_chain [OF st inv]
    have "db_delete key db = Inr (-1, ?db2\<lparr>idxfd := (idxfd ?db2)\<lparr>f_locks := []\<rparr>\<rparr>)"
      unfolding db_delete_def using fl None lv(1) by (simp add: io_simps)
    moreover have "m(key := None) = m" using None by auto
    ultimately show ?thesis using None lv(2) [folded m] cn bi d1 by (simp add: counters_def)
  next
    case (Some x)
    with found obtain pre i post where i: "ch ?h = pre @ i # post" "s_key (?ss ! i) = key"
      "loaded ?ss i db1" "ptroff db1 = int (cell_off L (pred_cell (CHash ?h) pre))" by auto
    obtain db2 L' ch' fr' where del: "db_dodelete db1 = Inr ((), db2)" and f2: "frame db1 db2"
      and st2: "irep db2 L'" "drep db2 (L_slots L')" and inv': "db_inv L' ch' fr'"
      and m': "db_map (L_slots L') ch' = (db_map ?ss ch)(key := None)"
      and len: "length (idx_img L') = length (idx_img L)" "length (dat_img (L_slots L')) = length (dat_img ?ss)"
      using db_dodelete_ok [OF r1 dr1 inv refl i(1,2,3) lk i(4)] by blast
    let ?db3 = "db2\<lparr>cnt_delok := cnt_delok db2 + 1\<rparr>"
    have st: "in_chain ?h F_WRLCK ?db3" "irep ?db3 L'" "drep ?db3 (L_slots L')"
      using in_chain_frame [OF lk f2] st2 by (simp_all add: in_chain_def irep_def drep_def)
    note lv = leave_chain [OF st inv']
    have "db_delete key db = Inr (0, ?db3\<lparr>idxfd := (idxfd ?db3)\<lparr>f_locks := []\<rparr>\<rparr>)"
      unfolding db_delete_def using fl Some del lv(1) by (simp add: io_simps)
    with Some lv(2) [unfolded m', folded m] cn frame_counters [OF f2] st2 len r d show ?thesis
      by (simp add: counters_def irep_def drep_def)
  qed
qed

section \<open>Store\<close>

text \<open>What \<open>db_store\<close> should return and do, on the map.\<close>

definition store_spec :: "int \<Rightarrow> string \<Rightarrow> string \<Rightarrow> (string \<rightharpoonup> string) \<Rightarrow> int \<times> (string \<rightharpoonup> string)" where
  "store_spec flag key data m =
     (if m key = None
      then if flag = DB_REPLACE then (-1, m) else (0, m(key \<mapsto> data))
      else if flag = DB_INSERT then (1, m) else (0, m(key \<mapsto> data)))"

lemma frame_errno: "frame (enter_chain h ty db) db' \<Longrightarrow> errno db' = errno db"
  by (simp add: frame_def enter_chain_def Let_def add_lock_def)

text \<open>
  The postcondition of a store that found the file sizes \<open>si\<close> and \<open>sd\<close>, the error number
  \<open>e\<close> and the counters \<open>cs\<close>.
\<close>

definition store_post ::
  "nat \<Rightarrow> nat \<Rightarrow> int \<Rightarrow> 64 word list \<Rightarrow> (string \<rightharpoonup> string) \<Rightarrow> int \<Rightarrow> string \<Rightarrow> string \<Rightarrow> DB \<Rightarrow> bool" where
  "store_post si sd e cs m flag key data db' \<longleftrightarrow>
     db_rep db' (snd (store_spec flag key data m)) \<and>
     length (f_bytes (idxfd db')) \<le> si + 1035 \<and> length (f_bytes (datfd db')) \<le> sd + 1024 \<and>
     errno db' = (if fst (store_spec flag key data m) = -1 then ENOENT else e) \<and>
     (\<exists>i \<in> (if fst (store_spec flag key data m) \<noteq> 0 then {9} else if m key = None then {5, 6} else {7, 8}).
        counters db' = cs[i := cs ! i + 1])"

text \<open>
  The work between the lock and the unlock ends in a state \<open>db3\<close> that differs from a framed
  state \<open>db2\<close> in the counters alone.
\<close>

definition but_counters :: "DB \<Rightarrow> DB \<Rightarrow> bool" where
  "but_counters db2 db3 \<longleftrightarrow>
     idxfd db3 = idxfd db2 \<and> datfd db3 = datfd db2 \<and> chainoff db3 = chainoff db2 \<and> self db3 = self db2 \<and>
     faults db3 = faults db2 \<and> nhash db3 = nhash db2 \<and> hashoff db3 = hashoff db2"

lemma store_leave:
  assumes lk: "in_chain h F_WRLCK db1" and f2: "frame db1 db2" and st: "irep db2 L'" "drep db2 (L_slots L')"
    and inv': "db_inv L' ch' fr'" and b: "but_counters db2 db3" and g: "grows L L'"
    and v: "fst (store_spec flag key data m) = v" "snd (store_spec flag key data m) = db_map (L_slots L') ch'"
    and e: "errno db3 = (if v = -1 then ENOENT else e)"
    and c: "\<exists>i \<in> (if v \<noteq> 0 then {9} else if m key = None then {5, 6} else {7, 8}). counters db3 = cs[i := cs ! i + 1]"
  shows "\<exists>db'. seq_io (unlock_chain ''db_store: un_lock error'') (ret_io v) db3 = Inr (v, db') \<and>
     store_post (length (idx_img L)) (length (dat_img (L_slots L))) e cs m flag key data db'"
proof -
  have "in_chain h F_WRLCK db3" "irep db3 L'" "drep db3 (L_slots L')"
    using in_chain_frame [OF lk f2] st b by (simp_all add: but_counters_def in_chain_def irep_def drep_def)
  note lv = leave_chain [OF this inv']
  have "f_bytes (idxfd db3) = idx_img L'" "f_bytes (datfd db3) = dat_img (L_slots L')"
    using st b by (simp_all add: but_counters_def irep_def drep_def)
  with lv g v e c show ?thesis by (simp add: io_simps store_post_def grows_def)
qed

lemma grows_refl [simp]: "grows L L"
  by (simp add: grows_def)

definition store_body :: "string \<Rightarrow> string \<Rightarrow> int \<Rightarrow> int \<Rightarrow> (DB, int) io" where
  "store_body key data flag found =
     bind_io (if found < 0
              then if flag = DB_REPLACE
                   then seq_io (modify_io (\<lambda>db. db\<lparr>cnt_storerr := cnt_storerr db + 1, errno := ENOENT\<rparr>)) (ret_io (-1))
                   else seq_io (db_store_new key data (int (length data) + 1)) (ret_io 0)
              else if flag = DB_INSERT
                   then seq_io (modify_io (\<lambda>db. db\<lparr>cnt_storerr := cnt_storerr db + 1\<rparr>)) (ret_io 1)
                   else seq_io (db_store_over key data (int (length data) + 1)) (ret_io 0))
     (\<lambda>rc. seq_io (unlock_chain ''db_store: un_lock error'') (ret_io rc))"

lemma store_body_missing:
  assumes r: "irep db L" and d: "drep db (L_slots L)" and inv: "db_inv L ch fr" and lk: "in_chain (hash137 key) F_WRLCK db"
    and new: "db_map (L_slots L) ch key = None" and kd: "key_ok key" "data_ok data"
    and flag: "flag = DB_INSERT \<or> flag = DB_REPLACE \<or> flag = DB_STORE"
    and room: "room_for (length (idx_img L)) (length (dat_img (L_slots L))) key data"
  shows "\<exists>db'. store_body key data flag (-1) db = Inr (fst (store_spec flag key data (db_map (L_slots L) ch)), db') \<and>
     store_post (length (idx_img L)) (length (dat_img (L_slots L))) (errno db) (counters db)
       (db_map (L_slots L) ch) flag key data db'"
proof (cases "flag = DB_REPLACE")
  case True
  let ?db2 = "db\<lparr>cnt_storerr := cnt_storerr db + 1, errno := ENOENT\<rparr>"
  have "\<exists>db'. seq_io (unlock_chain ''db_store: un_lock error'') (ret_io (-1)) ?db2 = Inr (-1 :: int, db') \<and>
     store_post (length (idx_img L)) (length (dat_img (L_slots L))) (errno db) (counters db)
       (db_map (L_slots L) ch) flag key data db'"
    by (rule store_leave [OF lk frame_refl r d inv]) (use True new in \<open>simp_all add: store_spec_def but_counters_def counters_def\<close>)
  with True new show ?thesis by (simp add: store_body_def io_simps store_spec_def)
next
  case False
  obtain db2 db3 L' ch' fr' f where run: "db_store_new key data (int (length data) + 1) db = Inr ((), db3)"
    and db3: "db3 = (if f then db2\<lparr>cnt_stor1 := cnt_stor1 db2 + 1\<rparr> else db2\<lparr>cnt_stor2 := cnt_stor2 db2 + 1\<rparr>)"
    and f2: "frame db db2" and st: "irep db2 L'" "drep db2 (L_slots L')" and inv': "db_inv L' ch' fr'"
    and g: "grows L L'" and m': "db_map (L_slots L') ch' = (db_map (L_slots L) ch)(key \<mapsto> data)"
    using db_store_new_ok [OF r d inv lk refl new kd room] by blast
  have cn: "counters db3 = (counters db)[(if f then 5 else 6) := counters db ! (if f then 5 else 6) + 1]"
    using frame_counters [OF f2] by (cases f) (simp_all add: db3 counters_def)
  have en: "errno db3 = errno db" using f2 by (simp add: db3 frame_def)
  have "\<exists>db'. seq_io (unlock_chain ''db_store: un_lock error'') (ret_io 0) db3 = Inr (0 :: int, db') \<and>
     store_post (length (idx_img L)) (length (dat_img (L_slots L))) (errno db) (counters db)
       (db_map (L_slots L) ch) flag key data db'"
    by (rule store_leave [OF lk f2 st inv' _ g])
      (use False new m' cn en in \<open>auto simp: store_spec_def but_counters_def db3\<close>)
  with False new run show ?thesis by (simp add: store_body_def io_simps store_spec_def)
qed

lemma store_body_found:
  assumes r: "irep db L" and d: "drep db (L_slots L)" and inv: "db_inv L ch fr" and lk: "in_chain (hash137 key) F_WRLCK db"
    and ch: "ch (hash137 key) = pre @ i # post" and k: "s_key (L_slots L ! i) = key" and ld: "loaded (L_slots L) i db"
    and po: "ptroff db = int (cell_off L (pred_cell (CHash (hash137 key)) pre))"
    and old: "db_map (L_slots L) ch key \<noteq> None" and kd: "key_ok key" "data_ok data"
    and room: "room_for (length (idx_img L)) (length (dat_img (L_slots L))) key data"
  shows "\<exists>db'. store_body key data flag 0 db = Inr (fst (store_spec flag key data (db_map (L_slots L) ch)), db') \<and>
     store_post (length (idx_img L)) (length (dat_img (L_slots L))) (errno db) (counters db)
       (db_map (L_slots L) ch) flag key data db'"
proof (cases "flag = DB_INSERT")
  case True
  let ?db2 = "db\<lparr>cnt_storerr := cnt_storerr db + 1\<rparr>"
  have "\<exists>db'. seq_io (unlock_chain ''db_store: un_lock error'') (ret_io 1) ?db2 = Inr (1 :: int, db') \<and>
     store_post (length (idx_img L)) (length (dat_img (L_slots L))) (errno db) (counters db)
       (db_map (L_slots L) ch) flag key data db'"
    by (rule store_leave [OF lk frame_refl r d inv]) (use True old in \<open>auto simp: store_spec_def but_counters_def counters_def\<close>)
  with True old show ?thesis by (auto simp: store_body_def io_simps store_spec_def)
next
  case False
  obtain db2 db3 L' ch' fr' f where run: "db_store_over key data (int (length data) + 1) db = Inr ((), db3)"
    and db3: "db3 = (if f then db2\<lparr>cnt_stor3 := cnt_stor3 db2 + 1\<rparr> else db2\<lparr>cnt_stor4 := cnt_stor4 db2 + 1\<rparr>)"
    and f2: "frame db db2" and st: "irep db2 L'" "drep db2 (L_slots L')" and inv': "db_inv L' ch' fr'"
    and g: "grows L L'" and m': "db_map (L_slots L') ch' = (db_map (L_slots L) ch)(key \<mapsto> data)"
    using db_store_over_ok [OF r d inv lk refl ch k ld po kd room] by blast
  have cn: "counters db3 = (counters db)[(if f then 7 else 8) := counters db ! (if f then 7 else 8) + 1]"
    using frame_counters [OF f2] by (cases f) (simp_all add: db3 counters_def)
  have en: "errno db3 = errno db" using f2 by (simp add: db3 frame_def)
  have "\<exists>db'. seq_io (unlock_chain ''db_store: un_lock error'') (ret_io 0) db3 = Inr (0 :: int, db') \<and>
     store_post (length (idx_img L)) (length (dat_img (L_slots L))) (errno db) (counters db)
       (db_map (L_slots L) ch) flag key data db'"
    by (rule store_leave [OF lk f2 st inv' _ g])
      (use False old m' cn en in \<open>auto simp: store_spec_def but_counters_def db3\<close>)
  with False old run show ?thesis by (auto simp: store_body_def io_simps store_spec_def)
qed

lemma db_store_refines:
  assumes rep: "db_rep db m" and flag: "flag = DB_INSERT \<or> flag = DB_REPLACE \<or> flag = DB_STORE"
    and kd: "key_ok key" "data_ok data"
    and room: "room_for (length (f_bytes (idxfd db))) (length (f_bytes (datfd db))) key data"
  shows "\<exists>db'. db_store key data flag db = Inr (fst (store_spec flag key data m), db') \<and>
     store_post (length (f_bytes (idxfd db))) (length (f_bytes (datfd db))) (errno db) (counters db) m flag key data db'"
proof -
  obtain L ch fr where r: "irep db L" and d: "drep db (L_slots L)" and inv: "db_inv L ch fr"
    and nl: "no_locks db" and m: "m = db_map (L_slots L) ch" using rep by (rule db_repE)
  let ?ss = "L_slots L" let ?h = "hash137 key"
  obtain db1 where fl: "db_find_and_lock key True db = Inr (if m key = None then -1 else 0, db1)"
    and f1: "frame (enter_chain ?h F_WRLCK db) db1" and r1: "irep db1 L" and d1: "datfd db1 = datfd db"
    and lk: "in_chain ?h F_WRLCK db1"
    and found: "m key \<noteq> None \<longrightarrow> (\<exists>pre i post. ch ?h = pre @ i # post \<and> s_key (?ss ! i) = key \<and>
          loaded ?ss i db1 \<and> ptroff db1 = int (cell_off L (pred_cell (CHash ?h) pre)))"
    using db_find_and_lock_ok [OF r nl inv refl, of key True] m by auto
  have dr1: "drep db1 ?ss" using d d1 by (simp add: drep_def)
  have sz: "f_bytes (idxfd db) = idx_img L" "f_bytes (datfd db) = dat_img ?ss" using r d by (simp_all add: irep_def drep_def)
  have same: "counters db1 = counters db" "errno db1 = errno db" using frame_counters [OF f1] frame_errno [OF f1] by simp_all
  have dl: "data \<noteq> []" "length data \<le> 1023" using kd(2) by (cases data; simp add: data_ok_def)+
  have run: "db_store key data flag db = store_body key data flag (if m key = None then -1 else 0) db1"
    using flag dl fl by (auto simp: db_store_def store_body_def Let_def bind_io_apply)
  show ?thesis
  proof (cases "m key = None")
    case True
    with store_body_missing [OF r1 dr1 inv lk _ kd flag] room run m sz same show ?thesis by simp
  next
    case False
    with found store_body_found [OF r1 dr1 inv lk _ _ _ _ _ kd, of _ _ _ flag] room run m sz same show ?thesis by auto
  qed
qed

end
