(* ===== verification/Db_Interface.thy ===== *)
theory Db_Interface
  imports Db_Correct
begin

text \<open>
  The database as a key-value store: the interface as a locale with the laws its clients rely
  on, sequences of commands proved once from the laws, and the interpretation on \<open>db.c\<close>;
  opening a new and an existing database; the client \<open>db/t4.c\<close>.
\<close>

section \<open>The interface\<close>

datatype cmd = Fetch string | Store string string int | Delete string

datatype reply = RData "string option" | RInt int

fun cmd_ok :: "cmd \<Rightarrow> bool" where
  "cmd_ok (Store key data flag) =
     (flag \<in> {DB_INSERT, DB_REPLACE, DB_STORE} \<and> key_ok key \<and> 1 \<le> length key \<and> length key \<le> 900 \<and> data_ok data)"
| "cmd_ok _ = True"

text \<open>The commands on the abstract map.\<close>

fun map_cmd :: "cmd \<Rightarrow> (string \<rightharpoonup> string) \<Rightarrow> reply \<times> (string \<rightharpoonup> string)" where
  "map_cmd (Fetch k) m = (RData (m k), m)"
| "map_cmd (Store k x f) m = (RInt (fst (store_spec f k x m)), snd (store_spec f k x m))"
| "map_cmd (Delete k) m = (RInt (if m k = None then -1 else 0), m(k := None))"

fun map_run :: "cmd list \<Rightarrow> (string \<rightharpoonup> string) \<Rightarrow> reply list \<times> (string \<rightharpoonup> string)" where
  "map_run [] m = ([], m)"
| "map_run (c # cs) m =
     (case map_cmd c m of (r, m1) \<Rightarrow> case map_run cs m1 of (rs, m2) \<Rightarrow> (r # rs, m2))"

text \<open>The commands on an implementation.\<close>

fun run_cmd ::
  "(string \<Rightarrow> ('s, string option) io) \<Rightarrow> (string \<Rightarrow> string \<Rightarrow> int \<Rightarrow> ('s, int) io) \<Rightarrow> (string \<Rightarrow> ('s, int) io)
     \<Rightarrow> cmd \<Rightarrow> ('s, reply) io" where
  "run_cmd fetch store delete (Fetch k) = bind_io (fetch k) (\<lambda>v. ret_io (RData v))"
| "run_cmd fetch store delete (Store k x f) = bind_io (store k x f) (\<lambda>v. ret_io (RInt v))"
| "run_cmd fetch store delete (Delete k) = bind_io (delete k) (\<lambda>v. ret_io (RInt v))"

fun run_cmds ::
  "(string \<Rightarrow> ('s, string option) io) \<Rightarrow> (string \<Rightarrow> string \<Rightarrow> int \<Rightarrow> ('s, int) io) \<Rightarrow> (string \<Rightarrow> ('s, int) io)
     \<Rightarrow> cmd list \<Rightarrow> ('s, reply list) io" where
  "run_cmds fetch store delete [] = ret_io []"
| "run_cmds fetch store delete (c # cs) =
     bind_io (run_cmd fetch store delete c) (\<lambda>r.
     bind_io (run_cmds fetch store delete cs) (\<lambda>rs. ret_io (r # rs)))"

locale kv_store =
  fixes rep :: "'s \<Rightarrow> (string \<rightharpoonup> string) \<Rightarrow> bool"
    and room :: "'s \<Rightarrow> nat \<Rightarrow> bool"
    and fetch :: "string \<Rightarrow> ('s, string option) io"
    and store :: "string \<Rightarrow> string \<Rightarrow> int \<Rightarrow> ('s, int) io"
    and delete :: "string \<Rightarrow> ('s, int) io"
  assumes fetch_law: "rep s m \<Longrightarrow> room s n \<Longrightarrow> \<exists>s'. fetch k s = Inr (m k, s') \<and> rep s' m \<and> room s' n"
    and store_law: "rep s m \<Longrightarrow> room s (Suc n) \<Longrightarrow> cmd_ok (Store k x f) \<Longrightarrow>
      \<exists>s'. store k x f s = Inr (fst (store_spec f k x m), s') \<and> rep s' (snd (store_spec f k x m)) \<and> room s' n"
    and delete_law: "rep s m \<Longrightarrow> room s n \<Longrightarrow>
      \<exists>s'. delete k s = Inr (if m k = None then -1 else 0, s') \<and> rep s' (m(k := None)) \<and> room s' n"
    and room_mono: "room s (Suc n) \<Longrightarrow> room s n"
begin

lemma run_cmd_refines:
  assumes "rep s m" "room s (Suc n)" "cmd_ok c"
  shows "\<exists>s'. run_cmd fetch store delete c s = Inr (fst (map_cmd c m), s') \<and> rep s' (snd (map_cmd c m)) \<and> room s' n"
proof (cases c)
  case (Fetch k)
  with fetch_law [OF assms(1) room_mono [OF assms(2)], of k] show ?thesis by (auto simp: io_simps)
next
  case (Store k x f)
  with store_law [OF assms(1,2), of k x f] assms(3) show ?thesis by (auto simp: io_simps)
next
  case (Delete k)
  with delete_law [OF assms(1) room_mono [OF assms(2)], of k] show ?thesis by (auto simp: io_simps)
qed

lemma run_refines:
  assumes "rep s m" "room s (length cs + n)" "list_all cmd_ok cs"
  shows "\<exists>s'. run_cmds fetch store delete cs s = Inr (fst (map_run cs m), s') \<and> rep s' (snd (map_run cs m)) \<and> room s' n"
  using assms
proof (induction cs arbitrary: s m)
  case (Cons c cs)
  then obtain s1 where s1: "run_cmd fetch store delete c s = Inr (fst (map_cmd c m), s1)"
    "rep s1 (snd (map_cmd c m))" "room s1 (length cs + n)"
    using run_cmd_refines [of s m "length cs + n" c] by auto
  with Cons show ?case by (fastforce simp: io_simps split: prod.splits)
qed (simp add: io_simps)

lemma fetch_after_store:
  assumes "rep s m" "room s (Suc n)" "cmd_ok (Store k x DB_STORE)"
  shows "\<exists>s' s''. store k x DB_STORE s = Inr (0, s') \<and> fetch k s' = Inr (Some x, s'')"
proof -
  obtain s' where "store k x DB_STORE s = Inr (0, s')" "rep s' (m(k \<mapsto> x))" "room s' n"
    using store_law [OF assms] by (auto simp: store_spec_def split: if_splits)
  with fetch_law [of s' "m(k \<mapsto> x)" n k] show ?thesis by auto
qed

lemma fetch_after_delete:
  assumes "rep s m" "room s n"
  shows "\<exists>v s' s''. delete k s = Inr (v, s') \<and> fetch k s' = Inr (None, s'')"
proof -
  obtain v s' where "delete k s = Inr (v, s')" "rep s' (m(k := None))" "room s' n"
    using delete_law [OF assms] by blast
  with fetch_law [of s' "m(k := None)" n k] show ?thesis by auto
qed

end

section \<open>The interpretation on db.c\<close>

text \<open>Room for \<open>n\<close> more records, whatever their contents.\<close>

definition db_room :: "DB \<Rightarrow> nat \<Rightarrow> bool" where
  "db_room db n \<longleftrightarrow>
     length (f_bytes (idxfd db)) + 1035 * n \<le> 9999999 \<and> length (f_bytes (datfd db)) + 1024 * n \<le> 999999999"

lemma room_for_room:
  assumes "db_room db (Suc n)" "1 \<le> length key" "length key \<le> 900" "data_ok data"
  shows "room_for (length (f_bytes (idxfd db))) (length (f_bytes (datfd db))) key data"
proof -
  let ?a = "dec (length (f_bytes (datfd db)))" let ?b = "dec (length data + 1)"
  have "length ?a \<le> 9" "length ?b \<le> 4"
    using assms length_dec_le [of "length (f_bytes (datfd db))" 9] length_dec_le [of "length data + 1" 4]
    by (simp_all add: db_room_def data_ok_def)
  moreover have "1 \<le> length ?a" "1 \<le> length ?b" by (simp_all add: Suc_le_eq)
  ultimately show ?thesis using assms by (simp add: room_for_def db_room_def)
qed

interpretation apue_db: kv_store db_rep db_room db_fetch db_store db_delete
proof (unfold_locales, goal_cases)
  case (1 s m n k)
  from db_fetch_refines [OF 1(1), of k] 1(2) show ?case by (auto simp: db_room_def)
next
  case (2 s m n k x f)
  then have "room_for (length (f_bytes (idxfd s))) (length (f_bytes (datfd s))) k x"
    by (intro room_for_room) auto
  with db_store_refines [OF 2(1), of f k x] 2(2,3) show ?case by (force simp: store_post_def db_room_def)
next
  case (3 s m n k)
  from db_delete_refines [OF 3(1), of k] 3(2) show ?case by (auto simp: db_room_def)
next
  case (4 s n)
  then show ?case by (simp add: db_room_def)
qed

section \<open>Opening and closing\<close>

definition empty_layout :: layout where
  "empty_layout = \<lparr>L_free = 0, L_hash = replicate NHASH_DEF 0, L_slots = []\<rparr>"

lemma empty_layout_inv: "db_inv empty_layout (\<lambda>_. []) []"
  by (simp add: db_invx_def empty_layout_def layout_ok_def ptr_ok_def chain_ok_def free_ok_def list_all_length)

lemma empty_layout_img: "idx_img empty_layout = db_init_image" "dat_img (L_slots empty_layout) = []"
proof -
  have "concat (map ptr7 (replicate n 0)) = concat (replicate n (ptr7 0))" for n
    by (simp add: map_replicate_const)
  moreover have "concat (replicate 138 x) = x @ concat (replicate 137 x)" for x :: string
    using replicate_Suc [of 137 x] by simp
  ultimately show "idx_img empty_layout = db_init_image"
    by (simp add: idx_img_def hdr_img_def empty_layout_def db_init_image_def ptr7_def)
  show "dat_img (L_slots empty_layout) = []" by (simp add: empty_layout_def)
qed

lemma length_db_init_image: "length db_init_image = HDR_SZ"
  using length_hdr_img [OF db_invx_layout [OF empty_layout_inv]] empty_layout_img(1)
  by (simp add: idx_img_def empty_layout_def)

text \<open>The states \<open>db_open\<close> passes through when nothing fails.\<close>

definition opened :: "nat \<Rightarrow> string \<Rightarrow> string \<Rightarrow> string \<Rightarrow> DB" where
  "opened pid nm i d = (db_zero pid nm [])\<lparr>nhash := NHASH_DEF, hashoff := HASH_OFF,
     idxfd := \<lparr>f_bytes = i, f_pos = HDR_SZ, f_locks = []\<rparr>,
     datfd := \<lparr>f_bytes = d, f_pos = 0, f_locks = []\<rparr>, idxoff := int HDR_SZ\<rparr>"

lemma db_alloc_ok: "faults db = [] \<Longrightarrow> db_alloc db = Inr ((), db)"
  by (simp add: db_alloc_def malloc_io_def io_simps)

lemma db_zero_faults [simp]: "faults (db_zero pid nm fl) = fl" "self (db_zero pid nm fl) = pid"
  by (simp_all add: db_zero_def Let_def)

lemma db_rewind_ok:
  assumes "faults db = []" "nhash db = NHASH_DEF"
  shows "db_rewind db = Inr ((), db\<lparr>idxfd := (idxfd db)\<lparr>f_pos := HDR_SZ\<rparr>, idxoff := int HDR_SZ\<rparr>)"
  using assms by (simp add: db_rewind_def io_simps)

lemma db_init_ok:
  assumes "faults db = []" "idxfd db = \<lparr>f_bytes = [], f_pos = 0, f_locks = []\<rparr>"
  shows "db_init_io db = Inr ((), db\<lparr>idxfd := \<lparr>f_bytes = db_init_image, f_pos = HDR_SZ, f_locks = []\<rparr>\<rparr>)"
proof -
  have lk: "or_dump (lock_io writew_lock IDX 0 0) ''db_open: writew_lock error'' db = Inr ((), add_lock IDX (own_lock db F_WRLCK 0 0) db)"
    using writew_lock_ok [of db 0 0 IDX] assms by (simp add: locks_free_def)
  note ul = un_lock_ok [where fd = IDX and ty = F_WRLCK and st = 0 and len = 0 and ls = "[]", simplified]
  show ?thesis
    using assms lk
    by (simp add: db_init_io_def io_simps add_lock_def own_lock_def write_io_end ul locks_free_def length_db_init_image)
qed

lemma db_rep_opened:
  assumes "idx_img L = i" "dat_img (L_slots L) = d" "db_inv L ch fr"
  shows "db_rep (opened pid nm i d) (db_map (L_slots L) ch)"
  unfolding db_rep_def opened_def
  using assms by (intro exI [of _ L] exI [of _ ch] exI [of _ fr])
    (auto simp: irep_def drep_def no_locks_def db_invx_layout)

lemma db_open_new:
  assumes "O_CREAT fl" "O_TRUNC fl" "O_EXCL fl \<longrightarrow> fs (path @ ''.idx'') = None \<and> fs (path @ ''.dat'') = None"
  shows "db_open pid fs path fl [] =
    Inr (Some (opened pid (path @ ''.dat'') db_init_image []), fs(path @ ''.idx'' \<mapsto> [], path @ ''.dat'' \<mapsto> []))"
proof -
  have o: "sys_open fs' p fl = Some (\<lparr>f_bytes = [], f_pos = 0, f_locks = []\<rparr>, fs'(p \<mapsto> []))"
    if "O_EXCL fl \<longrightarrow> fs' p = None" for fs' p
    using that assms(1,2) by (auto simp: sys_open_def split: option.splits)
  have ne: "path @ ''.dat'' \<noteq> path @ ''.idx''" by simp
  show ?thesis
    using assms ne
    by (simp add: db_open_def db_open_io_def db_alloc_ok io_simps open_io_def o db_init_ok db_rewind_ok opened_def)
qed

lemma db_open_old:
  assumes "\<not> (O_CREAT fl \<and> O_EXCL fl)" "\<not> O_TRUNC fl" "fs (path @ ''.idx'') = Some i" "fs (path @ ''.dat'') = Some d"
  shows "db_open pid fs path fl [] = Inr (Some (opened pid (path @ ''.dat'') i d), fs)"
proof -
  have ne: "path @ ''.dat'' \<noteq> path @ ''.idx''" by simp
  have o: "sys_open fs' p fl = Some (\<lparr>f_bytes = b, f_pos = 0, f_locks = []\<rparr>, fs')" if "fs' p = Some b" for fs' p b
    using that assms(1,2) by (auto simp: sys_open_def)
  show ?thesis
    using assms ne
    by (simp add: db_open_def db_open_io_def db_alloc_ok io_simps open_io_def o db_rewind_ok opened_def)
qed

text \<open>\<open>db_open\<close> in general: a file that cannot be opened, and the state otherwise.\<close>

lemma sys_open_cases:
  "sys_open fs p fl =
     (if (if fs p = None then \<not> O_CREAT fl else O_CREAT fl \<and> O_EXCL fl) then None
      else let bs = (if fs p = None \<or> O_TRUNC fl then [] else the (fs p)) in
           Some (\<lparr>f_bytes = bs, f_pos = 0, f_locks = []\<rparr>, fs(p \<mapsto> bs)))"
  by (cases "fs p") (simp_all add: sys_open_def Let_def)

lemma db_open_refused:
  assumes "(if fs (path @ ''.idx'') = None then \<not> O_CREAT fl else O_CREAT fl \<and> O_EXCL fl) \<or>
     (if fs (path @ ''.dat'') = None then \<not> O_CREAT fl else O_CREAT fl \<and> O_EXCL fl)"
  shows "\<exists>fs'. db_open pid fs path fl [] = Inr (None, fs')"
proof -
  let ?z = "db_zero pid (path @ ''.dat'') []"
  have z: "db_alloc ?z = Inr ((), ?z)" by (simp add: db_alloc_ok)
  show ?thesis
    using assms z
    by (auto simp: db_open_def db_open_io_def io_simps open_io_def sys_open_cases Let_def split: if_splits)
qed

lemma db_open_opens:
  assumes "\<not> ((if fs (path @ ''.idx'') = None then \<not> O_CREAT fl else O_CREAT fl \<and> O_EXCL fl) \<or>
     (if fs (path @ ''.dat'') = None then \<not> O_CREAT fl else O_CREAT fl \<and> O_EXCL fl))"
  shows "db_open pid fs path fl [] =
    (let new = (\<lambda>file. if file = None \<or> O_TRUNC fl then [] else the file);
         i = new (fs (path @ ''.idx'')); d = new (fs (path @ ''.dat'')) in
     Inr (Some (opened pid (path @ ''.dat'') (if O_CREAT fl \<and> O_TRUNC fl then db_init_image else i) d),
          fs(path @ ''.idx'' \<mapsto> i, path @ ''.dat'' \<mapsto> d)))"
proof -
  let ?z = "db_zero pid (path @ ''.dat'') []"
  have z: "db_alloc ?z = Inr ((), ?z)" by (simp add: db_alloc_ok)
  have o: "sys_open fs (path @ ''.idx'') fl =
      Some (\<lparr>f_bytes = if fs (path @ ''.idx'') = None \<or> O_TRUNC fl then [] else the (fs (path @ ''.idx'')), f_pos = 0, f_locks = []\<rparr>,
        fs(path @ ''.idx'' \<mapsto> if fs (path @ ''.idx'') = None \<or> O_TRUNC fl then [] else the (fs (path @ ''.idx''))))"
    "sys_open (fs(path @ ''.idx'' \<mapsto> b)) (path @ ''.dat'') fl =
      Some (\<lparr>f_bytes = if fs (path @ ''.dat'') = None \<or> O_TRUNC fl then [] else the (fs (path @ ''.dat'')), f_pos = 0, f_locks = []\<rparr>,
        fs(path @ ''.idx'' \<mapsto> b, path @ ''.dat'' \<mapsto> if fs (path @ ''.dat'') = None \<or> O_TRUNC fl then [] else the (fs (path @ ''.dat''))))" for b
    using assms by (auto simp: sys_open_cases Let_def)
  show ?thesis
    by (cases "O_CREAT fl \<and> O_TRUNC fl")
      (simp_all add: db_open_def db_open_io_def z io_simps open_io_def o db_init_ok db_rewind_ok opened_def Let_def)
qed

section \<open>The client t4.c\<close>

definition t4_insert :: "string \<Rightarrow> string \<Rightarrow> string \<Rightarrow> (DB, unit) io" where
  "t4_insert key data who = bind_io (db_store key data DB_INSERT) (\<lambda>r.
     when_io (r \<noteq> 0) (fail_io (QuitExit (''db_store error for '' @ who))))"

definition t4_main :: "nat \<Rightarrow> fsys \<Rightarrow> bool list \<Rightarrow> exit_reason + fsys" where
  "t4_main pid fs flts =
     (case db_open pid fs ''db4'' \<lparr>O_CREAT = True, O_TRUNC = True, O_EXCL = False\<rparr> flts of
        Inl e \<Rightarrow> Inl e
      | Inr (None, fs1) \<Rightarrow> Inl (SysExit ''db_open error'')
      | Inr (Some db, fs1) \<Rightarrow>
          (case seq_io (t4_insert ''Alpha'' ''data1'' ''alpha'')
                 (seq_io (t4_insert ''beta'' ''Data for beta'' ''beta'')
                   (t4_insert ''gamma'' ''record3'' ''gamma'')) db of
             Inl e \<Rightarrow> Inl e
           | Inr (_, db') \<Rightarrow> Inr (as_named ''db4'' (db_close db') fs1)))"

end
