(* ===== verification/Db_Scan.thy ===== *)
theory Db_Scan
  imports Db_Interface
begin

text \<open>
  Sequential access (\<open>db_rewind\<close>, \<open>db_nextrec\<close>): the loop that skips blank records ends, each
  call returns the next record of the index file with a nonblank key, and a full scan returns
  every entry of the map with a nonblank key exactly once.
\<close>

lemma blank_cstr: "list_all (\<lambda>c. c = SPACE) s = blank s"
  by (simp add: blank_def)

lemma slots_le_idx: "layout_ok L \<Longrightarrow> length (L_slots L) \<le> length (idx_img L)"
proof -
  assume "layout_ok L"
  moreover have "slots_ok d ss \<Longrightarrow> length ss \<le> length (enc_slots d ss)" for d ss
    by (induction ss arbitrary: d) (auto intro: le_trans [OF _ le_add2])
  ultimately show ?thesis by (simp add: layout_ok_def idx_img_def trans_le_add2)
qed

lemma db_readidx_eof:
  assumes r: "irep db L" and p: "f_pos (idxfd db) = length (idx_img L)"
  shows "db_readidx 0 db = Inr (-1, db\<lparr>idxoff := int (length (idx_img L))\<rparr>)"
  using assms by (simp add: db_readidx_def io_simps irep_def read_io_def read_file_def)

lemma f_pos_load_slot:
  "layout_ok L \<Longrightarrow> i < length (L_slots L) \<Longrightarrow> f_pos (idxfd (load_slot (L_slots L) i db)) = ioff (L_slots L) (Suc i)"
  by (simp add: load_slot_def Let_def ioff_Suc)

definition next_slot :: "slot list \<Rightarrow> nat \<Rightarrow> nat option" where
  "next_slot ss i = find (\<lambda>j. \<not> blank (s_key (ss ! j))) [i..<length ss]"

lemma db_next_loop_ok:
  assumes "irep db L" "i \<le> length (L_slots L)" "f_pos (idxfd db) = ioff (L_slots L) i" "length (L_slots L) - i < fuel"
  shows "\<exists>db'. frame db db' \<and> irep db' L \<and> datfd db' = datfd db \<and>
    (case next_slot (L_slots L) i of
       None \<Rightarrow> db_next_loop fuel db = Inr (False, db') \<and> f_pos (idxfd db') = ioff (L_slots L) (length (L_slots L))
     | Some j \<Rightarrow> db_next_loop fuel db = Inr (True, db') \<and> loaded (L_slots L) j db' \<and> j < length (L_slots L) \<and>
         f_pos (idxfd db') = ioff (L_slots L) (Suc j))"
  using assms
proof (induction fuel arbitrary: db i)
  case (Suc n)
  let ?ss = "L_slots L"
  have ok: "layout_ok L" using Suc.prems(1) by (simp add: irep_def)
  show ?case
  proof (cases "i = length ?ss")
    case True
    with Suc.prems ioff_length [OF ok] have "db_readidx 0 db = Inr (-1, db\<lparr>idxoff := int (length (idx_img L))\<rparr>)"
      by (intro db_readidx_eof) auto
    then have "db_next_loop (Suc n) db = Inr (False, db\<lparr>idxoff := int (length (idx_img L))\<rparr>)"
      by (subst db_next_loop.simps) (simp add: io_simps)
    moreover have "next_slot ?ss i = None" using True by (simp add: next_slot_def)
    ultimately show ?thesis using Suc.prems True
      by (intro exI [of _ "db\<lparr>idxoff := int (length (idx_img L))\<rparr>"]) (simp add: frame_def irep_def)
  next
    case False
    then have i: "i < length ?ss" using Suc.prems(2) by simp
    let ?db1 = "load_slot ?ss i db"
    have rd: "db_readidx 0 db = Inr (int (s_ptr (?ss ! i)), ?db1)"
      using db_readidx_at [OF Suc.prems(1) i, of 0] Suc.prems(3) by simp
    have ld: "loaded ?ss i ?db1" using i ok by (intro loaded_load_slot key_ok_slot)
    then have bl: "list_all (\<lambda>c. c = SPACE) (cstr (idxbuf ?db1)) = blank (s_key (?ss ! i))"
      by (simp add: loaded_def blank_def)
    have fp: "f_pos (idxfd ?db1) = ioff ?ss (Suc i)" using f_pos_load_slot [OF ok i] .
    have up: "[i..<length ?ss] = i # [Suc i..<length ?ss]" using i by (simp add: upt_conv_Cons)
    have step: "db_next_loop (Suc n) db = (if blank (s_key (?ss ! i)) then db_next_loop n ?db1 else Inr (True, ?db1))"
      by (subst db_next_loop.simps) (simp add: io_simps rd bl)
    show ?thesis
    proof (cases "blank (s_key (?ss ! i))")
      case True
      have nx: "next_slot ?ss i = next_slot ?ss (Suc i)" using True up by (simp add: next_slot_def)
      have r1: "irep ?db1 L" using Suc.prems(1) by simp
      have fu: "length ?ss - Suc i < n" using i Suc.prems(4) by simp
      obtain db' where "frame ?db1 db'" "irep db' L" "datfd db' = datfd ?db1"
        and res: "case next_slot ?ss (Suc i) of
           None \<Rightarrow> db_next_loop n ?db1 = Inr (False, db') \<and> f_pos (idxfd db') = ioff ?ss (length ?ss)
         | Some j \<Rightarrow> db_next_loop n ?db1 = Inr (True, db') \<and> loaded ?ss j db' \<and> j < length ?ss \<and>
             f_pos (idxfd db') = ioff ?ss (Suc j)"
        using Suc.IH [OF r1 Suc_leI [OF i] fp fu] by blast
      with True step nx frame_trans [OF frame_load_slot] show ?thesis
        by (intro exI [of _ db']) (auto split: option.splits)
    next
      case False
      then have "next_slot ?ss i = Some i" using up by (simp add: next_slot_def)
      with False step ld fp i Suc.prems(1) show ?thesis by (intro exI [of _ ?db1]) simp
    qed
  qed
qed simp

lemma db_nextrec_ok:
  assumes r: "irep db L" and d: "drep db (L_slots L)" and nl: "no_locks db"
    and i: "i \<le> length (L_slots L)" and p: "f_pos (idxfd db) = ioff (L_slots L) i"
  shows "\<exists>db'. irep db' L \<and> drep db' (L_slots L) \<and> no_locks db' \<and>
    (case next_slot (L_slots L) i of
       None \<Rightarrow> db_nextrec db = Inr (None, db') \<and> f_pos (idxfd db') = ioff (L_slots L) (length (L_slots L))
     | Some j \<Rightarrow> db_nextrec db = Inr (Some (s_key (L_slots L ! j), s_data (L_slots L ! j)), db') \<and>
         j < length (L_slots L) \<and> f_pos (idxfd db') = ioff (L_slots L) (Suc j))"
proof -
  let ?ss = "L_slots L" let ?l = "own_lock db F_RDLCK 0 1"
  have ok: "layout_ok L" and fl: "faults db = []" using r by (auto simp: irep_def)
  let ?db1 = "add_lock IDX ?l db"
  have lk: "or_dump (lock_io readw_lock IDX 0 1) ''db_nextrec: readw_lock error'' db = Inr ((), ?db1)"
    using readw_lock_ok [of db 0 1 IDX] nl fl by (simp add: no_locks_def locks_free_def)
  have r1: "irep ?db1 L" "f_pos (idxfd ?db1) = ioff ?ss i" "datfd ?db1 = datfd db"
    using r p by (simp_all add: irep_def add_lock_def)
  have fu: "length ?ss - i < idx_fuel ?db1"
    using r1(1) slots_le_idx [OF ok] by (simp add: idx_fuel_def irep_def)
  obtain db2 where db2: "frame ?db1 db2" "irep db2 L" "datfd db2 = datfd ?db1"
    and res: "case next_slot ?ss i of
       None \<Rightarrow> db_next_loop (idx_fuel ?db1) ?db1 = Inr (False, db2) \<and> f_pos (idxfd db2) = ioff ?ss (length ?ss)
     | Some j \<Rightarrow> db_next_loop (idx_fuel ?db1) ?db1 = Inr (True, db2) \<and> loaded ?ss j db2 \<and> j < length ?ss \<and>
         f_pos (idxfd db2) = ioff ?ss (Suc j)"
    using db_next_loop_ok [OF r1(1) i r1(2) fu] by blast
  have lks: "f_locks (idxfd db2) = [\<lparr>l_pid = self db2, l_type = F_RDLCK, l_start = 0, l_len = 1\<rparr>]"
    "f_locks (datfd db2) = []" "faults db2 = []"
    using db2(1) nl fl by (simp_all add: frame_def add_lock_def own_lock_def no_locks_def)
  have ul: "or_dump (lock_io un_lock IDX 0 1) ''db_nextrec: un_lock error'' x =
      Inr ((), x\<lparr>idxfd := (idxfd x)\<lparr>f_locks := []\<rparr>\<rparr>)"
    if "f_locks (idxfd x) = [\<lparr>l_pid = self x, l_type = F_RDLCK, l_start = 0, l_len = 1\<rparr>]" "faults x = []" for x
    using un_lock_ok [of x IDX F_RDLCK 0 1 "[]"] that by (simp add: locks_free_def)
  show ?thesis
  proof (cases "next_slot ?ss i")
    case None
    let ?db3 = "db2\<lparr>idxfd := (idxfd db2)\<lparr>f_locks := []\<rparr>\<rparr>"
    have "db_nextrec db = Inr (None, ?db3)"
      unfolding db_nextrec_def using lk res None ul [of db2] lks by (simp add: io_simps)
    with None res db2 r1(3) lks d show ?thesis
      by (intro exI [of _ ?db3]) (simp add: irep_def drep_def no_locks_def)
  next
    case (Some j)
    then have j: "j < length ?ss" and ld: "loaded ?ss j db2" using res by auto
    have dk: "data_ok (s_data (?ss ! j))" using layout_ok_nth [OF ok j] by (simp add: slot_ok_def)
    have dr: "drep db2 ?ss" using d db2(3) r1(3) by (simp add: drep_def)
    let ?db3 = "db2\<lparr>datfd := (datfd db2)\<lparr>f_pos := doff ?ss j + length (s_data (?ss ! j)) + 1\<rparr>,
            datbuf := s_data (?ss ! j) @ [NUL]\<rparr>"
    have rd: "db_readdat db2 = Inr (s_data (?ss ! j), ?db3)"
      using db_readdat_slot [OF dr j lks(3) dk] ld by (simp add: loaded_def)
    let ?db4 = "?db3\<lparr>cnt_nextrec := cnt_nextrec ?db3 + 1\<rparr>"
    let ?db5 = "?db4\<lparr>idxfd := (idxfd ?db4)\<lparr>f_locks := []\<rparr>\<rparr>"
    have "db_nextrec db = Inr (Some (s_key (?ss ! j), s_data (?ss ! j)), ?db5)"
      unfolding db_nextrec_def using lk res Some rd ul [of ?db4] lks ld by (simp add: io_simps loaded_def)
    with Some res j db2 dr lks show ?thesis
      by (intro exI [of _ ?db5]) (simp add: irep_def drep_def no_locks_def)
  qed
qed

section \<open>A full scan\<close>

text \<open>The loop \<open>while (db_nextrec(db, key) != NULL)\<close> of a client.\<close>

fun db_scan :: "nat \<Rightarrow> (DB, (string \<times> string) list) io" where
  "db_scan 0 = fail_io Diverges"
| "db_scan (Suc n) = bind_io db_nextrec (\<lambda>r.
     case r of None \<Rightarrow> ret_io []
     | Some kv \<Rightarrow> bind_io (db_scan n) (\<lambda>rest. ret_io (kv # rest)))"

definition entries :: "slot list \<Rightarrow> (string \<times> string) list" where
  "entries ss = map (\<lambda>s. (s_key s, s_data s)) (filter (\<lambda>s. \<not> blank (s_key s)) ss)"

lemma next_slot_None: "next_slot ss i = None \<Longrightarrow> entries (drop i ss) = []"
  by (force simp: next_slot_def find_None_iff entries_def filter_empty_conv in_set_conv_nth)

lemma next_slot_Some:
  assumes "next_slot ss i = Some j"
  shows "i \<le> j \<and> j < length ss \<and> entries (drop i ss) = (s_key (ss ! j), s_data (ss ! j)) # entries (drop (Suc j) ss)"
proof -
  obtain pre post where u: "[i..<length ss] = pre @ j # post" "\<not> blank (s_key (ss ! j))"
    "\<forall>l \<in> set pre. blank (s_key (ss ! l))"
    using find_split [OF assms [unfolded next_slot_def]] by auto
  have j: "i \<le> j" "j < length ss" using arg_cong [OF u(1), of set] by auto
  have "take (length pre) [i..<length ss] = pre" "[i..<length ss] ! length pre = j" using u(1) by simp_all
  moreover have "length pre < length [i..<length ss]" using u(1) by simp
  ultimately have len: "j = i + length pre" by (simp only: nth_upt length_upt less_diff_conv add.commute)
  have bl: "blank (s_key (ss ! l))" if "i \<le> l" "l < j" for l
  proof -
    have lt: "l - i < length pre" using that len by linarith
    have "l = [i..<length ss] ! (l - i)" using that j by simp
    also have "\<dots> = pre ! (l - i)" unfolding u(1) using lt by (simp add: nth_append)
    finally have "l \<in> set pre" using lt by (metis nth_mem)
    with u(3) show ?thesis by blast
  qed
  have "filter (\<lambda>s. \<not> blank (s_key s)) (take (j - i) (drop i ss)) = []"
    using bl j by (auto simp: filter_empty_conv in_set_conv_nth)
  moreover have "drop i ss = take (j - i) (drop i ss) @ ss ! j # drop (Suc j) ss"
    using j by (metis Cons_nth_drop_Suc append_take_drop_id drop_drop le_add_diff_inverse2)
  ultimately show ?thesis using j u(2) by (simp add: entries_def) (metis (no_types, lifting) append_Nil filter.simps(2) filter_append list.map(2))
qed

lemma db_scan_ok:
  assumes "irep db L" "drep db (L_slots L)" "no_locks db" "i \<le> length (L_slots L)"
    "f_pos (idxfd db) = ioff (L_slots L) i" "length (L_slots L) - i < fuel"
  shows "\<exists>db'. db_scan fuel db = Inr (entries (drop i (L_slots L)), db') \<and> irep db' L \<and> drep db' (L_slots L) \<and> no_locks db'"
  using assms
proof (induction fuel arbitrary: db i)
  case (Suc n)
  let ?ss = "L_slots L"
  obtain db1 where st: "irep db1 L" "drep db1 ?ss" "no_locks db1"
    and res: "case next_slot ?ss i of
       None \<Rightarrow> db_nextrec db = Inr (None, db1) \<and> f_pos (idxfd db1) = ioff ?ss (length ?ss)
     | Some j \<Rightarrow> db_nextrec db = Inr (Some (s_key (?ss ! j), s_data (?ss ! j)), db1) \<and>
         j < length ?ss \<and> f_pos (idxfd db1) = ioff ?ss (Suc j)"
    using db_nextrec_ok [OF Suc.prems(1-5)] by blast
  show ?case
  proof (cases "next_slot ?ss i")
    case None
    with res st next_slot_None show ?thesis by (simp add: io_simps)
  next
    case (Some j)
    note ns = next_slot_Some [OF Some]
    have fu: "length ?ss - Suc j < n" using ns Suc.prems(6) by linarith
    obtain db2 where "db_scan n db1 = Inr (entries (drop (Suc j) ?ss), db2)" "irep db2 L" "drep db2 ?ss" "no_locks db2"
      using Suc.IH [OF st, of "Suc j"] res Some ns fu by auto
    with res Some ns show ?thesis by (simp add: io_simps)
  qed
qed simp

lemma distinct_filter_key:
  assumes "\<And>i j. i < length xs \<Longrightarrow> j < length xs \<Longrightarrow> P (f (xs ! i)) \<Longrightarrow> f (xs ! i) = f (xs ! j) \<Longrightarrow> i = j"
  shows "distinct (map f (filter (\<lambda>s. P (f s)) xs))"
  using assms
proof (induction xs)
  case (Cons a xs)
  have "distinct (map f (filter (\<lambda>s. P (f s)) xs))"
    by (rule Cons.IH) (use Cons.prems [of "Suc i" "Suc j" for i j] in auto)
  moreover have "f a \<notin> f ` set xs" if "P (f a)"
  proof
    assume "f a \<in> f ` set xs"
    then obtain j where "j < length xs" "f a = f (xs ! j)" by (auto simp: in_set_conv_nth)
    with Cons.prems [of 0 "Suc j"] that show False by simp
  qed
  ultimately show ?case by auto
qed simp

lemma entries_map:
  assumes inv: "db_inv L ch fr"
  shows "(k, x) \<in> set (entries (L_slots L)) \<longleftrightarrow> db_map (L_slots L) ch k = Some x \<and> \<not> blank k"
    and "distinct (map fst (entries (L_slots L)))"
proof -
  let ?ss = "L_slots L"
  have free: "blank (s_key (?ss ! i))" if "i \<in> set fr" for i
    using inv that by (auto simp: db_invx_def free_ok_def)
  have locate: "i \<in> set (ch (hash137 (s_key (?ss ! i))))" if i: "i < length ?ss" "\<not> blank (s_key (?ss ! i))" for i
  proof -
    have "i \<in> set fr \<union> (\<Union>h < NHASH_DEF. set (ch h))" using inv i(1) by (auto simp: db_invx_def)
    with free i(2) obtain h where h: "h < NHASH_DEF" "i \<in> set (ch h)" by auto
    with db_invx_chain [OF inv h(1)] have "hash137 (s_key (?ss ! i)) = h" by (auto simp: chain_ok_def)
    with h show ?thesis by simp
  qed
  have bound: "i < length ?ss" if "i \<in> set (ch (hash137 k))" for i k
    using chain_ok_bound [OF db_invx_chain [OF inv hash137_less] that] .
  have "(k, x) \<in> set (entries ?ss) \<longleftrightarrow> (\<exists>i < length ?ss. s_key (?ss ! i) = k \<and> s_data (?ss ! i) = x \<and> \<not> blank k)"
    by (auto simp: entries_def image_iff in_set_conv_nth)
  also have "\<dots> \<longleftrightarrow> db_map ?ss ch k = Some x \<and> \<not> blank k"
    unfolding db_inv_map_Some [OF inv] using locate bound by blast
  finally show "(k, x) \<in> set (entries ?ss) \<longleftrightarrow> db_map ?ss ch k = Some x \<and> \<not> blank k" .
  have "i = j" if "i < length ?ss" "j < length ?ss" "\<not> blank (s_key (?ss ! i))" "s_key (?ss ! i) = s_key (?ss ! j)" for i j
    using db_inv_key_unique [OF inv hash137_less locate [OF that(1,3)]] locate [of j] that by auto
  then have "distinct (map s_key (filter (\<lambda>s. \<not> blank (s_key s)) ?ss))" by (rule distinct_filter_key)
  then show "distinct (map fst (entries ?ss))" by (simp add: entries_def o_def)
qed

end
