(* ===== verification/Db_Faults.thy ===== *)
theory Db_Faults
  imports Db_Interface
begin

text \<open>
  Failing system calls: an operation that returns has met no failing call and returns what it
  returns without failures; one that meets a failing call dumps core at that call. So a
  failure never becomes a wrong answer, an endless loop or another kind of exit.
\<close>

abbreviation nofault :: "DB \<Rightarrow> DB" where
  "nofault db \<equiv> db\<lparr>faults := []\<rparr>"

text \<open>
  An operation is clean when a run that returns has met no failing call and is the run
  without failures, and a run that does not return either dumped core or ends as the run
  without failures does.
\<close>

definition clean :: "(DB, 'a) io \<Rightarrow> bool" where
  "clean m \<longleftrightarrow> (\<forall>db. case m db of
      Inr (x, db') \<Rightarrow> m (nofault db) = Inr (x, nofault db') \<and> (\<exists>pre. faults db = pre @ faults db' \<and> True \<notin> set pre)
    | Inl e \<Rightarrow> (\<exists>msg. e = Dump msg) \<or> m (nofault db) = Inl e)"

lemma cleanI:
  assumes "\<And>db x db'. m db = Inr (x, db') \<Longrightarrow>
      m (nofault db) = Inr (x, nofault db') \<and> (\<exists>pre. faults db = pre @ faults db' \<and> True \<notin> set pre)"
    and "\<And>db e. m db = Inl e \<Longrightarrow> (\<exists>msg. e = Dump msg) \<or> m (nofault db) = Inl e"
  shows "clean m"
  using assms by (fastforce simp: clean_def split: sum.splits prod.splits)

lemma cleanD:
  assumes "clean m" "m db = Inr (x, db')"
  shows "m (nofault db) = Inr (x, nofault db')" "\<exists>pre. faults db = pre @ faults db' \<and> True \<notin> set pre"
  using assms by (auto simp: clean_def split: sum.splits prod.splits)

lemma clean_InlD: "clean m \<Longrightarrow> m db = Inl e \<Longrightarrow> (\<exists>msg. e = Dump msg) \<or> m (nofault db) = Inl e"
  by (auto simp: clean_def split: sum.splits)

lemma clean_ret: "clean (ret_io x)"
  by (simp add: clean_def io_simps)

lemma clean_fail: "clean (fail_io e)"
  by (simp add: clean_def io_simps)

lemma clean_gets: "(\<And>db. f (nofault db) = f db) \<Longrightarrow> clean (gets_io f)"
  by (simp add: clean_def io_simps)

lemma clean_modify: "(\<And>db. f (nofault db) = nofault (f db) \<and> faults (f db) = faults db) \<Longrightarrow> clean (modify_io f)"
  by (simp add: clean_def io_simps)

lemma pre_trans:
  "\<exists>pre. a = pre @ b \<and> True \<notin> set pre \<Longrightarrow> \<exists>pre. b = pre @ c \<and> True \<notin> set pre \<Longrightarrow>
    \<exists>pre. a = pre @ c \<and> True \<notin> set pre"
  by (metis append.assoc Un_iff set_append)

lemma clean_bind:
  assumes "clean m" "\<And>x. clean (k x)"
  shows "clean (bind_io m k)"
proof (rule cleanI)
  fix db x db'
  assume "bind_io m k db = Inr (x, db')"
  then obtain y db1 where y: "m db = Inr (y, db1)" "k y db1 = Inr (x, db')" by (rule bind_io_InrD)
  note 1 = cleanD [OF assms(1) y(1)] and 2 = cleanD [OF assms(2) y(2)]
  from 1(1) 2(1) pre_trans [OF 1(2) 2(2)]
  show "bind_io m k (nofault db) = Inr (x, nofault db') \<and> (\<exists>pre. faults db = pre @ faults db' \<and> True \<notin> set pre)"
    by (simp add: bind_io_apply)
next
  fix db e
  assume e: "bind_io m k db = Inl e"
  show "(\<exists>msg. e = Dump msg) \<or> bind_io m k (nofault db) = Inl e"
  proof (cases "m db")
    case (Inl a)
    with e clean_InlD [OF assms(1) Inl] show ?thesis by (auto simp: bind_io_apply)
  next
    case (Inr b)
    obtain y db1 where b: "b = (y, db1)" by (cases b)
    with e Inr have "k y db1 = Inl e" by (simp add: bind_io_apply)
    with cleanD(1) [OF assms(1)] clean_InlD [OF assms(2)] Inr b show ?thesis by (fastforce simp: bind_io_apply)
  qed
qed

lemma clean_seq: "clean m \<Longrightarrow> clean k \<Longrightarrow> clean (seq_io m k)"
  unfolding seq_io_def by (rule clean_bind)

lemma clean_when: "(b \<Longrightarrow> clean m) \<Longrightarrow> clean (when_io b m)"
  by (cases b) (simp_all add: when_io_def clean_ret)

lemma clean_if: "(b \<Longrightarrow> clean m) \<Longrightarrow> (\<not> b \<Longrightarrow> clean k) \<Longrightarrow> clean (if b then m else k)"
  by simp

lemma clean_case_option:
  "clean n \<Longrightarrow> (\<And>x. clean (s x)) \<Longrightarrow> clean (case v of None \<Rightarrow> n | Some x \<Rightarrow> s x)"
  by (cases v) auto

lemma clean_case_sum:
  "(\<And>x. clean (f x)) \<Longrightarrow> (\<And>x. clean (g x)) \<Longrightarrow> clean (case v of Inl x \<Rightarrow> f x | Inr x \<Rightarrow> g x)"
  by (cases v) auto

lemma clean_case_prod: "(\<And>x y. clean (f x y)) \<Longrightarrow> clean (case p of (x, y) \<Rightarrow> f x y)"
  by (cases p) auto

lemma fd_put_nofault [simp]: "fd_put fd f (nofault db) = nofault (fd_put fd f db)"
  and fd_get_nofault [simp]: "fd_get fd (nofault db) = fd_get fd db"
  and fd_get_faults [simp]: "fd_get fd (db\<lparr>faults := bs\<rparr>) = fd_get fd db"
  and fd_put_faults [simp]: "nofault (fd_put fd f (db\<lparr>faults := bs\<rparr>)) = fd_put fd f (nofault db)"
  by (cases fd; simp)+

text \<open>
  A system call whose result is looked at: the continuation dumps core on the error value.
\<close>

lemma clean_call:
  assumes call: "\<And>db. (\<exists>bs. call db = Inr (bad, db\<lparr>faults := bs\<rparr>)) \<or>
      (\<exists>y db1. call db = Inr (y, db1) \<and> call (nofault db) = Inr (y, nofault db1) \<and>
         (\<exists>pre. faults db = pre @ faults db1 \<and> True \<notin> set pre)) \<or>
      (\<exists>e. call db = Inl e \<and> call (nofault db) = Inl e)"
    and bad: "\<And>db. \<exists>msg. k bad db = Inl (Dump msg)" and k: "\<And>x. clean (k x)"
  shows "clean (bind_io call k)"
proof (rule cleanI)
  fix db x db'
  assume "bind_io call k db = Inr (x, db')"
  then obtain y db1 where y: "call db = Inr (y, db1)" "k y db1 = Inr (x, db')" by (rule bind_io_InrD)
  with bad [of db1] call [of db] have c: "call (nofault db) = Inr (y, nofault db1)"
    "\<exists>pre. faults db = pre @ faults db1 \<and> True \<notin> set pre" by auto
  note 2 = cleanD [OF k y(2)]
  from c(1) 2(1) pre_trans [OF c(2) 2(2)]
  show "bind_io call k (nofault db) = Inr (x, nofault db') \<and> (\<exists>pre. faults db = pre @ faults db' \<and> True \<notin> set pre)"
    by (simp add: bind_io_apply)
next
  fix db e
  assume e: "bind_io call k db = Inl e"
  consider bs where "call db = Inr (bad, db\<lparr>faults := bs\<rparr>)"
    | y db1 where "call db = Inr (y, db1)" "call (nofault db) = Inr (y, nofault db1)"
    | e' where "call db = Inl e'" "call (nofault db) = Inl e'" using call [of db] by blast
  then show "(\<exists>msg. e = Dump msg) \<or> bind_io call k (nofault db) = Inl e"
  proof cases
    case 1
    with bad [of "db\<lparr>faults := bs\<rparr>"] e show ?thesis by (auto simp: bind_io_apply)
  next
    case 2
    with e clean_InlD [OF k, of y db1 e] show ?thesis by (simp add: bind_io_apply)
  next
    case 3
    with e show ?thesis by (simp add: bind_io_apply)
  qed
qed

lemma fault_cases:
  obtains "faults db = []" | bs where "faults db = True # bs" | bs where "faults db = False # bs"
proof (cases "faults db")
  case (Cons b bs)
  with that(2,3) show ?thesis by (cases b) auto
qed (use that in auto)

lemma fd_put_keeps [simp]: "faults (fd_put fd f db) = faults db"
  by (cases fd) simp_all

lemma clean_lseek:
  assumes "\<And>db. \<exists>msg. k (-1) db = Inl (Dump msg)" "\<And>x. clean (k x)"
  shows "clean (bind_io (lseek_io fd off w) k)"
proof (rule clean_call [where bad = "-1" and k = k])
  fix db
  show "(\<exists>bs. lseek_io fd off w db = Inr (-1, db\<lparr>faults := bs\<rparr>)) \<or>
      (\<exists>y db1. lseek_io fd off w db = Inr (y, db1) \<and> lseek_io fd off w (nofault db) = Inr (y, nofault db1) \<and>
         (\<exists>pre. faults db = pre @ faults db1 \<and> True \<notin> set pre)) \<or>
      (\<exists>e. lseek_io fd off w db = Inl e \<and> lseek_io fd off w (nofault db) = Inl e)"
    by (cases db rule: fault_cases)
      (auto simp: lseek_io_def fault_io_def io_simps split: prod.splits)
qed (rule assms)+

lemma clean_read:
  assumes "\<And>db. \<exists>msg. k None db = Inl (Dump msg)" "\<And>x. clean (k x)"
  shows "clean (bind_io (read_io fd n) k)"
proof (rule clean_call [where bad = None and k = k])
  fix db
  show "(\<exists>bs. read_io fd n db = Inr (None, db\<lparr>faults := bs\<rparr>)) \<or>
      (\<exists>y db1. read_io fd n db = Inr (y, db1) \<and> read_io fd n (nofault db) = Inr (y, nofault db1) \<and>
         (\<exists>pre. faults db = pre @ faults db1 \<and> True \<notin> set pre)) \<or>
      (\<exists>e. read_io fd n db = Inl e \<and> read_io fd n (nofault db) = Inl e)"
    by (cases db rule: fault_cases)
      (auto simp: read_io_def fault_io_def io_simps read_file_def Let_def)
qed (rule assms)+

lemma clean_write:
  assumes "\<And>db. \<exists>msg. k (-1) db = Inl (Dump msg)" "\<And>x. clean (k x)"
  shows "clean (bind_io (write_io fd bs) k)"
proof (rule clean_call [where bad = "-1" and k = k])
  fix db
  show "(\<exists>fs. write_io fd bs db = Inr (-1, db\<lparr>faults := fs\<rparr>)) \<or>
      (\<exists>y db1. write_io fd bs db = Inr (y, db1) \<and> write_io fd bs (nofault db) = Inr (y, nofault db1) \<and>
         (\<exists>pre. faults db = pre @ faults db1 \<and> True \<notin> set pre)) \<or>
      (\<exists>e. write_io fd bs db = Inl e \<and> write_io fd bs (nofault db) = Inl e)"
    by (cases db rule: fault_cases)
      (auto simp: write_io_def fault_io_def io_simps split: prod.splits)
qed (rule assms)+

lemma clean_lock: "clean (or_dump (lock_io call fd off len) msg)"
  unfolding or_dump_def
proof (rule clean_call [where bad = "-1"])
  fix db
  show "(\<exists>bs. lock_io call fd off len db = Inr (-1, db\<lparr>faults := bs\<rparr>)) \<or>
      (\<exists>y db1. lock_io call fd off len db = Inr (y, db1) \<and> lock_io call fd off len (nofault db) = Inr (y, nofault db1) \<and>
         (\<exists>pre. faults db = pre @ faults db1 \<and> True \<notin> set pre)) \<or>
      (\<exists>e. lock_io call fd off len db = Inl e \<and> lock_io call fd off len (nofault db) = Inl e)"
    by (cases db rule: fault_cases)
      (auto simp: lock_io_def fault_io_def io_simps split: prod.splits sum.splits)
qed (simp_all add: io_simps clean_def)

text \<open>The rules in the order in which they are tried.\<close>

lemmas clean_rules = clean_lseek clean_read clean_write clean_lock clean_ret clean_fail clean_gets clean_modify
  clean_when clean_if clean_case_option clean_case_sum clean_case_prod clean_seq clean_bind

lemma clean_readptr: "clean (db_readptr off)"
  unfolding db_readptr_def by (rule clean_rules | simp add: io_simps)+

lemma clean_parseidx: "clean (db_parseidx bs)"
  unfolding db_parseidx_def
  by (rule clean_rules | simp)+

lemma clean_readidx: "clean (db_readidx off)"
  unfolding db_readidx_def Let_def by (rule clean_parseidx clean_rules | simp add: io_simps)+

lemma clean_readdat: "clean db_readdat"
  unfolding db_readdat_def by (rule clean_rules | simp add: io_simps)+

lemma clean_writeptr: "clean (db_writeptr off pv)"
  unfolding db_writeptr_def by (rule clean_rules | simp add: io_simps)+

lemma clean_writedat: "clean (db_writedat x off w)"
  unfolding db_writedat_def by (rule clean_rules | simp add: io_simps)+

lemma clean_writeidx: "clean (db_writeidx k off w pv)"
  unfolding db_writeidx_def Let_def by (rule clean_rules | simp add: io_simps)+

lemmas clean_files = clean_readptr clean_readidx clean_readdat clean_writeptr clean_writedat clean_writeidx

lemma clean_find_loop: "clean (db_find_loop fuel key off)"
proof (induction fuel arbitrary: off)
  case 0
  show ?case by (subst db_find_loop.simps) (rule clean_rules | simp)+
next
  case (Suc n)
  show ?case by (subst db_find_loop.simps) (unfold nat.case, (rule clean_files Suc.IH clean_rules | simp)+)
qed

lemma clean_free_loop: "clean (db_free_loop fuel k d s off)"
proof (induction fuel arbitrary: s off)
  case 0
  show ?case by (subst db_free_loop.simps) (rule clean_rules | simp)+
next
  case (Suc n)
  show ?case by (subst db_free_loop.simps) (unfold nat.case, (rule clean_files Suc.IH clean_rules | simp)+)
qed

lemma clean_next_loop: "clean (db_next_loop fuel)"
proof (induction fuel)
  case 0
  show ?case by (subst db_next_loop.simps) (rule clean_rules | simp)+
next
  case (Suc n)
  show ?case by (subst db_next_loop.simps) (unfold nat.case, (rule clean_files Suc.IH clean_rules | simp)+)
qed

lemma clean_find_and_lock: "clean (db_find_and_lock key w)"
  unfolding db_find_and_lock_def
  by (rule clean_files clean_find_loop clean_rules | simp add: db_hash_def idx_fuel_def Let_def)+

lemma clean_unlock: "clean (unlock_chain msg)"
  unfolding unlock_chain_def by (rule clean_rules | simp)+

lemma clean_fetch: "clean (db_fetch key)"
  unfolding db_fetch_def by (rule clean_files clean_find_and_lock clean_unlock clean_rules | simp)+

lemma clean_dodelete: "clean db_dodelete"
  unfolding db_dodelete_def by (rule clean_files clean_rules | simp)+

lemma clean_delete: "clean (db_delete key)"
  unfolding db_delete_def by (rule clean_files clean_find_and_lock clean_dodelete clean_unlock clean_rules | simp)+

lemma clean_findfree: "clean (db_findfree k d)"
  unfolding db_findfree_def
  by (rule clean_files clean_free_loop clean_rules | simp add: idx_fuel_def)+

lemma clean_append: "clean (db_append_rec key data pv)"
  unfolding db_append_rec_def by (rule clean_files clean_rules | simp)+

lemma clean_reuse: "clean (db_reuse_rec key data pv)"
  unfolding db_reuse_rec_def by (rule clean_files clean_rules | simp)+

lemma clean_store: "clean (db_store key data flag)"
  unfolding db_store_def db_store_new_def db_store_over_def Let_def
  by (rule clean_files clean_find_and_lock clean_dodelete clean_findfree clean_append clean_reuse clean_unlock clean_rules | simp)+

lemma clean_nextrec: "clean db_nextrec"
  unfolding db_nextrec_def by (rule clean_files clean_next_loop clean_rules | simp add: idx_fuel_def)+

end
