(* ===== verification/Db_Properties.thy ===== *)
theory Db_Properties
  imports Db_Scan Db_Faults
begin

text \<open>
  What \<open>db.c\<close> guarantees its callers, stated on the model of \<open>Db_Model\<close>: it implements a map,
  sequence of calls by sequence of calls; failures of system calls never turn into wrong
  answers; a scan sees every record with a nonblank key once; opening gives the database that
  the two files hold.
\<close>

text \<open>The database just created, and the map it represents.\<close>

abbreviation new_db :: DB where
  "new_db \<equiv> opened 1 ''t.dat'' db_init_image []"

lemma new_db_rep: "db_rep (opened pid nm db_init_image []) Map.empty" "db_room (opened pid nm db_init_image []) 9000"
proof -
  have "db_map (L_slots empty_layout) (\<lambda>_. []) = Map.empty" by (simp add: db_map_def fun_eq_iff)
  with db_rep_opened [OF empty_layout_img empty_layout_inv, of pid nm]
  show "db_rep (opened pid nm db_init_image []) Map.empty" by simp
  show "db_room (opened pid nm db_init_image []) 9000"
    by (simp add: db_room_def opened_def length_db_init_image)
qed

lemma one_record:
  obtains db where "db_store ''Alpha'' ''data1'' DB_INSERT new_db = Inr (0, db)" "db_rep db [''Alpha'' \<mapsto> ''data1'']"
proof -
  have "db_room new_db (Suc 0)" using new_db_rep(2) [of 1 "''t.dat''"] by (simp add: db_room_def)
  moreover have "cmd_ok (Store ''Alpha'' ''data1'' DB_INSERT)" by (simp add: key_ok_def data_ok_def)
  ultimately show thesis
    using apue_db.store_law [OF new_db_rep(1) [of 1 "''t.dat''"], of 0 "''Alpha''" "''data1''" DB_INSERT] that
    by (auto simp: store_spec_def)
qed

section \<open>The map\<close>

text \<open>C1: \<open>db.c\<close> implements a map from keys to data. On a database that represents the map
  \<open>m\<close> and has room for as many records as there are commands, any sequence of fetches, stores
  and deletes returns, reply by reply, what the same sequence returns on \<open>m\<close>, terminates
  without a fatal error, and leaves a database (well formed, no lock held) that represents
  the final map.\<close>

theorem db_run_refines_map:
  assumes "db_rep db m" "db_room db (length cs)" "list_all cmd_ok cs"
  shows "\<exists>db'. run_cmds db_fetch db_store db_delete cs db = Inr (fst (map_run cs m), db') \<and>
     db_rep db' (snd (map_run cs m))"
  using apue_db.run_refines [of db m cs 0] assms by auto

theorem db_run_refines_map_witness:
  "\<exists>db'. run_cmds db_fetch db_store db_delete
       [Store ''k'' ''one'' DB_INSERT, Fetch ''k'', Store ''k'' ''three'' DB_REPLACE, Fetch ''k'', Delete ''k'', Fetch ''k'']
       new_db = Inr ([RInt 0, RData (Some ''one''), RInt 0, RData (Some ''three''), RInt 0, RData None], db')"
proof -
  let ?cs = "[Store ''k'' ''one'' DB_INSERT, Fetch ''k'', Store ''k'' ''three'' DB_REPLACE, Fetch ''k'', Delete ''k'', Fetch ''k'']"
  have "db_room new_db (length ?cs)" using new_db_rep(2) [of 1 "''t.dat''"] by (simp add: db_room_def)
  moreover have "list_all cmd_ok ?cs" by (simp add: key_ok_def data_ok_def)
  ultimately obtain db' where "run_cmds db_fetch db_store db_delete ?cs new_db = Inr (fst (map_run ?cs Map.empty), db')"
    using db_run_refines_map [OF new_db_rep(1) [of 1 "''t.dat''"]] by blast
  then show ?thesis by (simp add: store_spec_def del: run_cmds.simps) 
qed

text \<open>C2: \<open>db_store\<close> on every branch. With a legal flag, key and data and room in the files it
  inserts, replaces or does nothing as the flag and the presence of the key demand, returns
  0, 1 (\<open>DB_INSERT\<close> of a present key) or -1 with \<open>errno\<close> set to \<open>ENOENT\<close> (\<open>DB_REPLACE\<close> of an
  absent key), increments exactly one counter, that of the case taken, and lengthens the
  files by at most one record.\<close>

theorem db_store_correct:
  assumes "db_rep db m" "flag = DB_INSERT \<or> flag = DB_REPLACE \<or> flag = DB_STORE" "key_ok key" "data_ok data"
    and "room_for (length (f_bytes (idxfd db))) (length (f_bytes (datfd db))) key data"
  shows "\<exists>db' v m'. db_store key data flag db = Inr (v, db') \<and> (v, m') = store_spec flag key data m \<and>
     db_rep db' m' \<and> errno db' = (if v = -1 then ENOENT else errno db) \<and>
     length (f_bytes (idxfd db')) \<le> length (f_bytes (idxfd db)) + 1035 \<and>
     length (f_bytes (datfd db')) \<le> length (f_bytes (datfd db)) + 1024 \<and>
     (\<exists>i \<in> (if v \<noteq> 0 then {9} else if m key = None then {5, 6} else {7, 8}).
        counters db' = (counters db)[i := counters db ! i + 1])"
proof -
  obtain db' where "db_store key data flag db = Inr (fst (store_spec flag key data m), db')"
    "store_post (length (f_bytes (idxfd db))) (length (f_bytes (datfd db))) (errno db) (counters db) m flag key data db'"
    using db_store_refines [OF assms] by blast
  then show ?thesis
    by (intro exI [of _ db'] exI [of _ "fst (store_spec flag key data m)"] exI [of _ "snd (store_spec flag key data m)"])
      (auto simp: store_post_def)
qed

theorem db_store_correct_witness:
  "\<exists>db'. db_store ''Alpha'' ''data1'' DB_INSERT new_db = Inr (0, db') \<and> db_rep db' [''Alpha'' \<mapsto> ''data1'']"
proof -
  have room: "room_for (length (f_bytes (idxfd new_db))) (length (f_bytes (datfd new_db))) ''Alpha'' ''data1''"
    using room_for_room [of new_db 0 "''Alpha''" "''data1''"] new_db_rep(2) [of 1 "''t.dat''"]
    by (simp add: db_room_def data_ok_def)
  have "key_ok ''Alpha''" "data_ok ''data1''" by (simp_all add: key_ok_def data_ok_def)
  from db_store_correct [OF new_db_rep(1) [of 1 "''t.dat''"] _ this room, of DB_INSERT]
  show ?thesis by (auto simp: store_spec_def)
qed

text \<open>C3: \<open>db_delete\<close> removes exactly the given key: it returns 0 and counts a success when the
  key was present, -1 and counts an error otherwise; no other entry of the map changes, and
  neither file changes its length (the record becomes a free record).\<close>

theorem db_delete_correct:
  assumes "db_rep db m"
  shows "\<exists>db'. db_delete key db = Inr (if m key = None then -1 else 0, db') \<and> db_rep db' (m(key := None)) \<and>
     length (f_bytes (idxfd db')) = length (f_bytes (idxfd db)) \<and>
     length (f_bytes (datfd db')) = length (f_bytes (datfd db)) \<and>
     counters db' = (if m key = None then (counters db)[1 := counters db ! 1 + 1]
                     else (counters db)[0 := counters db ! 0 + 1])"
  using assms by (rule db_delete_refines)

theorem db_delete_correct_witness:
  "\<exists>db db'. db_store ''Alpha'' ''data1'' DB_INSERT new_db = Inr (0, db) \<and>
     db_delete ''Alpha'' db = Inr (0, db') \<and> db_rep db' Map.empty"
proof -
  obtain db where db: "db_store ''Alpha'' ''data1'' DB_INSERT new_db = Inr (0, db)" "db_rep db [''Alpha'' \<mapsto> ''data1'']"
    by (rule one_record)
  from db_delete_correct [OF db(2), of "''Alpha''"] db(1) show ?thesis by auto
qed

text \<open>C4: \<open>db_fetch\<close> returns the data of the key, or null when there is none, changes neither
  file, and increments one of its two counters.\<close>

theorem db_fetch_correct:
  assumes "db_rep db m"
  shows "\<exists>db'. db_fetch key db = Inr (m key, db') \<and> db_rep db' m \<and>
     f_bytes (idxfd db') = f_bytes (idxfd db) \<and> f_bytes (datfd db') = f_bytes (datfd db) \<and>
     counters db' = (if m key = None then (counters db)[3 := counters db ! 3 + 1]
                     else (counters db)[2 := counters db ! 2 + 1])"
  using assms by (rule db_fetch_refines)

theorem db_fetch_correct_witness:
  "\<exists>db db'. db_store ''Alpha'' ''data1'' DB_INSERT new_db = Inr (0, db) \<and>
     db_fetch ''Alpha'' db = Inr (Some ''data1'', db') \<and> db_rep db' [''Alpha'' \<mapsto> ''data1'']"
proof -
  obtain db where db: "db_store ''Alpha'' ''data1'' DB_INSERT new_db = Inr (0, db)" "db_rep db [''Alpha'' \<mapsto> ''data1'']"
    by (rule one_record)
  from db_fetch_correct [OF db(2), of "''Alpha''"] db(1) show ?thesis by auto
qed

section \<open>Errors\<close>

lemma clean_run_cmds: "clean (run_cmds db_fetch db_store db_delete cs)"
proof (induction cs)
  case Nil
  show ?case by (simp add: clean_ret)
next
  case (Cons c cs)
  have "clean (run_cmd db_fetch db_store db_delete c)"
    by (cases c) (auto intro!: clean_bind clean_ret clean_fetch clean_store clean_delete)
  with Cons show ?case by (auto intro!: clean_bind clean_ret)
qed

text \<open>C7: failing system calls never give a wrong answer. Let calls of \<open>lseek\<close>, \<open>read\<close>,
  \<open>readv\<close>, \<open>write\<close>, \<open>writev\<close> and \<open>fcntl\<close> return -1 according to any schedule. A sequence of
  commands either returns the replies of the map and leaves the final map, in which case
  every call it made succeeded; or it ends in \<open>err_dump\<close>. There is no third outcome: no
  endless loop, no other exit.\<close>

theorem db_faults_no_wrong_answer:
  assumes "db_rep (db\<lparr>faults := []\<rparr>) m" "db_room db (length cs)" "list_all cmd_ok cs"
  shows "case run_cmds db_fetch db_store db_delete cs db of
      Inr (rs, db') \<Rightarrow> rs = fst (map_run cs m) \<and> db_rep (db'\<lparr>faults := []\<rparr>) (snd (map_run cs m)) \<and>
        (\<exists>made. faults db = made @ faults db' \<and> True \<notin> set made)
    | Inl e \<Rightarrow> (\<exists>msg. e = Dump msg)"
proof -
  let ?run = "run_cmds db_fetch db_store db_delete cs"
  obtain db1 where c: "?run (nofault db) = Inr (fst (map_run cs m), db1)" "db_rep db1 (snd (map_run cs m))"
    using apue_db.run_refines [of "nofault db" m cs 0] assms by (auto simp: db_room_def)
  show ?thesis
  proof (cases "?run db")
    case (Inl e)
    with clean_InlD [OF clean_run_cmds Inl] c(1) show ?thesis by auto
  next
    case (Inr r)
    obtain rs db' where r: "r = (rs, db')" by (cases r)
    with Inr have "?run db = Inr (rs, db')" by simp
    note cl = cleanD [OF clean_run_cmds this]
    with c Inr r show ?thesis by simp
  qed
qed

text \<open>Two schedules: in the first the record lock is granted and the \<open>lseek\<close> that follows
  fails, in the second the one entry is a success.\<close>

lemma db_fetch_lseek_fails:
  "db_fetch key ((opened pid nm i d)\<lparr>faults := [False, True]\<rparr>) = Inl (Dump ''_db_readptr: lseek error to ptr field'')"
  by (simp add: db_fetch_def db_find_and_lock_def db_readptr_def io_simps or_dump_def lock_io_def lseek_io_def
      fault_io_def Let_def lock_macros fcntl_lock_def lock_range_def seek_base_def opened_def db_zero_def)

lemma db_fetch_false: "db_fetch key (db\<lparr>faults := [False]\<rparr>) = db_fetch key (nofault db)"
proof -
  have c: "nofault (db\<lparr>chainoff := a, ptroff := b\<rparr>) = (nofault db)\<lparr>chainoff := a, ptroff := b\<rparr>" for a b by simp
  have l: "or_dump (lock_io call fd off len) msg x = or_dump (lock_io call fd off len) msg (nofault x)"
    if "faults x = [False]" for call fd off len msg x
    using that by (simp add: or_dump_def lock_io_def fault_io_def io_simps)
  show ?thesis
    by (simp add: db_fetch_def db_find_and_lock_def io_simps db_hash_def Let_def l c)
qed

theorem db_faults_no_wrong_answer_witness:
  "(\<exists>msg. run_cmds db_fetch db_store db_delete [Fetch ''k''] (new_db\<lparr>faults := [False, True]\<rparr>) = Inl (Dump msg)) \<and>
   (\<exists>db'. run_cmds db_fetch db_store db_delete [Fetch ''k''] (new_db\<lparr>faults := [False]\<rparr>) = Inr ([RData None], db') \<and>
     db_rep (db'\<lparr>faults := []\<rparr>) Map.empty)"
proof
  have nf: "nofault (new_db\<lparr>faults := bs\<rparr>) = new_db" for bs by (simp add: opened_def db_zero_def Let_def)
  then have rep: "db_rep (nofault (new_db\<lparr>faults := bs\<rparr>)) Map.empty" for bs using new_db_rep(1) by simp
  have room: "db_room (new_db\<lparr>faults := bs\<rparr>) (length [Fetch ''k''])" for bs
    using new_db_rep(2) [of 1 "''t.dat''"] by (simp add: db_room_def)
  have ok: "list_all cmd_ok [Fetch ''k'']" by simp
  have "run_cmds db_fetch db_store db_delete [Fetch ''k''] (new_db\<lparr>faults := [False, True]\<rparr>) \<noteq> Inr r" for r
    by (simp add: db_fetch_lseek_fails io_simps)
  with db_faults_no_wrong_answer [OF rep room ok, of "[False, True]"]
  show "\<exists>msg. run_cmds db_fetch db_store db_delete [Fetch ''k''] (new_db\<lparr>faults := [False, True]\<rparr>) = Inl (Dump msg)"
    by (cases "run_cmds db_fetch db_store db_delete [Fetch ''k''] (new_db\<lparr>faults := [False, True]\<rparr>)") (simp_all del: run_cmds.simps)
  obtain db' where "db_fetch ''k'' (nofault new_db) = Inr (None, db')"
    using db_fetch_refines [OF new_db_rep(1) [of 1 "''t.dat''"], of "''k''"] nf [of "[]"] by auto
  then have "db_fetch ''k'' (new_db\<lparr>faults := [False]\<rparr>) = Inr (None, db')" by (simp only: db_fetch_false)
  then have run: "run_cmds db_fetch db_store db_delete [Fetch ''k''] (new_db\<lparr>faults := [False]\<rparr>) = Inr ([RData None], db')"
    by (simp add: bind_io_apply ret_io_apply)
  with db_faults_no_wrong_answer [OF rep room ok, of "[False]"]
  show "\<exists>db'. run_cmds db_fetch db_store db_delete [Fetch ''k''] (new_db\<lparr>faults := [False]\<rparr>) = Inr ([RData None], db') \<and>
     db_rep (db'\<lparr>faults := []\<rparr>) Map.empty"
    by (simp del: run_cmds.simps)
qed

text \<open>The argument checks of \<open>db_store\<close> come before any effect: an illegal flag returns -1
  with \<open>errno\<close> \<open>EINVAL\<close> and leaves everything else as it was; illegal data (empty, or longer
  than 1023 bytes) end the process in \<open>err_dump\<close>, whatever the key.\<close>

theorem db_store_rejects:
  "(flag \<notin> {DB_INSERT, DB_REPLACE, DB_STORE} \<longrightarrow>
      db_store key data flag db = Inr (-1, db\<lparr>errno := EINVAL\<rparr>)) \<and>
   (flag \<in> {DB_INSERT, DB_REPLACE, DB_STORE} \<and> \<not> (1 \<le> length data \<and> length data \<le> 1023) \<longrightarrow>
      db_store key data flag db = Inl (Dump ''db_store: invalid data length''))"
  by (auto simp: db_store_def io_simps Let_def not_le)

theorem db_store_rejects_witness:
  "db_store ''k'' ''x'' 7 new_db = Inr (-1, new_db\<lparr>errno := EINVAL\<rparr>) \<and>
   db_store ''k'' [] DB_STORE new_db = Inl (Dump ''db_store: invalid data length'')"
  using db_store_rejects [of 7 "''k''" "''x''" new_db] db_store_rejects [of DB_STORE "''k''" "[]" new_db] by simp

section \<open>Sequential access\<close>

text \<open>C8: a scan (\<open>db_rewind\<close>, then \<open>db_nextrec\<close> until it returns null) ends, returns every
  entry of the map whose key has a byte other than a space, returns it once, returns nothing
  else, and leaves the database as it was. An entry whose key is empty or consists of spaces
  is taken for a deleted record and not returned, although \<open>db_fetch\<close> finds it.\<close>

theorem db_scan_complete:
  assumes "db_rep db m" "length (f_bytes (idxfd db)) < fuel"
  shows "\<exists>kvs db'. seq_io db_rewind (db_scan fuel) db = Inr (kvs, db') \<and> distinct (map fst kvs) \<and>
     (\<forall>k x. (k, x) \<in> set kvs \<longleftrightarrow> m k = Some x \<and> \<not> blank k) \<and> db_rep db' m"
proof -
  obtain L ch fr where r: "irep db L" and d: "drep db (L_slots L)" and inv: "db_inv L ch fr"
    and nl: "no_locks db" and m: "m = db_map (L_slots L) ch" using assms(1) by (rule db_repE)
  let ?db1 = "db\<lparr>idxfd := (idxfd db)\<lparr>f_pos := HDR_SZ\<rparr>, idxoff := int HDR_SZ\<rparr>"
  have rw: "db_rewind db = Inr ((), ?db1)" using r by (intro db_rewind_ok) (auto simp: irep_def)
  have st: "irep ?db1 L" "drep ?db1 (L_slots L)" "no_locks ?db1" "f_pos (idxfd ?db1) = ioff (L_slots L) 0"
    using r d nl by (simp_all add: irep_def drep_def no_locks_def ioff_def)
  have "length (L_slots L) - 0 < fuel"
    using slots_le_idx [OF db_invx_layout [OF inv]] assms(2) r by (simp add: irep_def)
  from db_scan_ok [OF st(1-3) _ st(4) this] obtain db' where
    "db_scan fuel ?db1 = Inr (entries (L_slots L), db')" "irep db' L" "drep db' (L_slots L)" "no_locks db'" by auto
  then have "seq_io db_rewind (db_scan fuel) db = Inr (entries (L_slots L), db')" "db_rep db' m"
    using rw inv m by (auto simp: io_simps db_rep_def)
  with entries_map [OF inv] m show ?thesis by blast
qed

theorem db_scan_complete_witness:
  "\<exists>db kvs db'. run_cmds db_fetch db_store db_delete
       [Store ''k'' ''one'' DB_INSERT, Store ''  '' ''two'' DB_INSERT] new_db = Inr ([RInt 0, RInt 0], db) \<and>
     (let fuel = Suc (length (f_bytes (idxfd db))) in seq_io db_rewind (db_scan fuel) db = Inr (kvs, db')) \<and>
     (\<forall>k x. (k, x) \<in> set kvs \<longleftrightarrow> k = ''k'' \<and> x = ''one'') \<and> db_rep db' [''k'' \<mapsto> ''one'', ''  '' \<mapsto> ''two'']"
proof -
  let ?cs = "[Store ''k'' ''one'' DB_INSERT, Store ''  '' ''two'' DB_INSERT]"
  have "db_room new_db (length ?cs + 0)" using new_db_rep(2) [of 1 "''t.dat''"] by (simp add: db_room_def)
  moreover have "list_all cmd_ok ?cs" by (simp add: key_ok_def data_ok_def)
  ultimately obtain db where "run_cmds db_fetch db_store db_delete ?cs new_db = Inr (fst (map_run ?cs Map.empty), db)"
    "db_rep db (snd (map_run ?cs Map.empty))"
    using apue_db.run_refines [OF new_db_rep(1) [of 1 "''t.dat''"], of ?cs 0] by blast
  then have db: "run_cmds db_fetch db_store db_delete ?cs new_db = Inr ([RInt 0, RInt 0], db)"
    "db_rep db [''k'' \<mapsto> ''one'', ''  '' \<mapsto> ''two'']"
    by (simp_all add: store_spec_def del: run_cmds.simps)
  have "(k, x) = (''k'', ''one'') \<longleftrightarrow> [''k'' \<mapsto> ''one'', ''  '' \<mapsto> ''two''] k = Some x \<and> \<not> blank k" for k x
    by (auto simp: blank_def split: if_splits)
  with db db_scan_complete [OF db(2), of "Suc (length (f_bytes (idxfd db)))"] show ?thesis
    by (simp del: run_cmds.simps fun_upd_apply) blast
qed

section \<open>Opening and closing\<close>

text \<open>An index file without a hash table: the first pointer that is read ends in \<open>err_dump\<close>.\<close>

lemma db_fetch_uninitialised:
  "db_fetch key (opened pid nm [] d) = Inl (Dump ''_db_readptr: read error of ptr field'')"
  by (simp add: db_fetch_def db_find_and_lock_def db_readptr_def io_simps or_dump_def lock_io_def lseek_io_def
      fault_io_def Let_def lock_macros fcntl_lock_def lock_range_def seek_base_def opened_def db_zero_def
      lseek_def read_io_def read_file_def)

text \<open>C9: \<open>db_open\<close> on every combination of flags and files, when no system call fails for
  another reason. It returns null exactly when one of the two files cannot be opened (it is
  missing and \<open>O_CREAT\<close> is not given, or it exists and \<open>O_CREAT\<close> and \<open>O_EXCL\<close> are). Otherwise:
  with \<open>O_CREAT\<close> and \<open>O_TRUNC\<close> the handle is an empty database; without \<open>O_TRUNC\<close>, on files
  with the bytes of a database, it is that database, positioned at its first record, and no
  file changes; and when the index file is new or truncated but only one of the two flags is
  given, the handle is returned although the index has no hash table, and every fetch on it
  dumps core.\<close>

theorem db_open_correct:
  "(let I = fs (path @ ''.idx''); D = fs (path @ ''.dat'');
        refused = (\<lambda>file. if file = None then \<not> O_CREAT fl else O_CREAT fl \<and> O_EXCL fl) in
    ((\<exists>fs'. db_open pid fs path fl [] = Inr (None, fs')) \<longleftrightarrow> refused I \<or> refused D) \<and>
    (\<not> refused I \<and> \<not> refused D \<longrightarrow> (\<exists>db fs'. db_open pid fs path fl [] = Inr (Some db, fs') \<and>
       (O_CREAT fl \<and> O_TRUNC fl \<longrightarrow> db_rep db Map.empty) \<and>
       (\<forall>db0 m. \<not> O_TRUNC fl \<and> I = Some (f_bytes (idxfd db0)) \<and> D = Some (f_bytes (datfd db0)) \<and> db_rep db0 m \<longrightarrow>
          db_rep db m \<and> fs' = fs \<and> f_pos (idxfd db) = (NHASH_DEF + 1) * PTR_SZ + 1) \<and>
       (O_CREAT fl \<noteq> O_TRUNC fl \<and> (I = None \<or> O_TRUNC fl) \<longrightarrow>
          (\<forall>key. db_fetch key db = Inl (Dump ''_db_readptr: read error of ptr field''))))))"
proof -
  let ?i = "path @ ''.idx''" let ?d = "path @ ''.dat''"
  let ?ref = "\<lambda>file :: string option. if file = None then \<not> O_CREAT fl else O_CREAT fl \<and> O_EXCL fl"
  let ?I = "fs ?i" let ?D = "fs ?d"
  show ?thesis
  proof (cases "?ref ?I \<or> ?ref ?D")
    case True
    with db_open_refused [OF True] show ?thesis unfolding Let_def by auto
  next
    case False
    note op = db_open_opens [of fs path fl pid, OF False]
    let ?new = "\<lambda>file. if file = None \<or> O_TRUNC fl then [] else the file"
    let ?db = "opened pid ?d (if O_CREAT fl \<and> O_TRUNC fl then db_init_image else ?new ?I) (?new ?D)"
    have trunc: "db_rep ?db Map.empty" if "O_CREAT fl" "O_TRUNC fl"
      using that new_db_rep(1) [of pid ?d] by simp
    have old: "db_rep ?db m \<and> fs(?i \<mapsto> ?new ?I, ?d \<mapsto> ?new ?D) = fs \<and> f_pos (idxfd ?db) = (NHASH_DEF + 1) * PTR_SZ + 1"
      if "\<not> O_TRUNC fl" "?I = Some (f_bytes (idxfd db0))" "?D = Some (f_bytes (datfd db0))" "db_rep db0 m" for db0 m
    proof -
      obtain L ch fr where "irep db0 L" "drep db0 (L_slots L)" "db_inv L ch fr" "m = db_map (L_slots L) ch"
        using \<open>db_rep db0 m\<close> by (rule db_repE)
      with that db_rep_opened [OF refl refl, of L ch fr pid ?d] show ?thesis
        by (simp add: irep_def drep_def fun_upd_idem opened_def)
    qed
    have un: "db_fetch key ?db = Inl (Dump ''_db_readptr: read error of ptr field'')"
      if "O_CREAT fl \<noteq> O_TRUNC fl" "?I = None \<or> O_TRUNC fl" for key
      using that db_fetch_uninitialised [of key pid ?d] by auto
    from False op trunc old un show ?thesis unfolding Let_def by auto
  qed
qed

theorem db_open_correct_witness:
  "(\<exists>fs'. db_open 1 Map.empty ''t'' \<lparr>O_CREAT = False, O_TRUNC = False, O_EXCL = False\<rparr> [] = Inr (None, fs')) \<and>
   (\<exists>db fs'. db_open 1 Map.empty ''t'' \<lparr>O_CREAT = True, O_TRUNC = True, O_EXCL = True\<rparr> [] = Inr (Some db, fs') \<and>
      db_rep db Map.empty) \<and>
   (\<exists>db fs'. db_open 1 [''t.idx'' \<mapsto> db_init_image, ''t.dat'' \<mapsto> []] ''t''
        \<lparr>O_CREAT = True, O_TRUNC = False, O_EXCL = False\<rparr> [] = Inr (Some db, fs') \<and> db_rep db Map.empty) \<and>
   (\<exists>db fs'. db_open 1 Map.empty ''t'' \<lparr>O_CREAT = True, O_TRUNC = False, O_EXCL = False\<rparr> [] = Inr (Some db, fs') \<and>
      db_fetch ''k'' db = Inl (Dump ''_db_readptr: read error of ptr field''))"
proof (intro conjI)
  show "\<exists>fs'. db_open 1 Map.empty ''t'' \<lparr>O_CREAT = False, O_TRUNC = False, O_EXCL = False\<rparr> [] = Inr (None, fs')"
    using db_open_correct [of Map.empty "''t''" "\<lparr>O_CREAT = False, O_TRUNC = False, O_EXCL = False\<rparr>" 1] by simp
  show "\<exists>db fs'. db_open 1 Map.empty ''t'' \<lparr>O_CREAT = True, O_TRUNC = True, O_EXCL = True\<rparr> [] = Inr (Some db, fs') \<and>
      db_rep db Map.empty"
    using db_open_correct [of Map.empty "''t''" "\<lparr>O_CREAT = True, O_TRUNC = True, O_EXCL = True\<rparr>" 1] by auto
  show "\<exists>db fs'. db_open 1 Map.empty ''t'' \<lparr>O_CREAT = True, O_TRUNC = False, O_EXCL = False\<rparr> [] = Inr (Some db, fs') \<and>
      db_fetch ''k'' db = Inl (Dump ''_db_readptr: read error of ptr field'')"
    using db_open_correct [of Map.empty "''t''" "\<lparr>O_CREAT = True, O_TRUNC = False, O_EXCL = False\<rparr>" 1] by auto
  have f: "f_bytes (idxfd new_db) = db_init_image" "f_bytes (datfd new_db) = []" by (simp_all add: opened_def)
  have rep: "db_rep new_db Map.empty" by (rule new_db_rep)
  let ?fs = "[''t.idx'' \<mapsto> db_init_image, ''t.dat'' \<mapsto> []]"
  let ?fl = "\<lparr>O_CREAT = True, O_TRUNC = False, O_EXCL = False\<rparr>"
  have fs: "?fs (''t'' @ ''.idx'') = Some (f_bytes (idxfd new_db))" "?fs (''t'' @ ''.dat'') = Some (f_bytes (datfd new_db))"
    using f by simp_all
  obtain db fs' where "db_open 1 ?fs ''t'' ?fl [] = Inr (Some db, fs')"
    "\<forall>db0 m. \<not> O_TRUNC ?fl \<and> ?fs (''t'' @ ''.idx'') = Some (f_bytes (idxfd db0)) \<and> ?fs (''t'' @ ''.dat'') = Some (f_bytes (datfd db0)) \<and>
       db_rep db0 m \<longrightarrow> db_rep db m \<and> fs' = ?fs \<and> f_pos (idxfd db) = (NHASH_DEF + 1) * PTR_SZ + 1"
    using db_open_correct [of ?fs "''t''" ?fl 1] unfolding Let_def fs by auto
  with fs rep show "\<exists>db fs'. db_open 1 ?fs ''t'' ?fl [] = Inr (Some db, fs') \<and> db_rep db Map.empty"
    by (metis oflags.select_convs(2))
qed

text \<open>The program \<open>t4.c\<close> does what it says, on any file system: it exits normally, and the
  database \<open>db4\<close> it leaves holds exactly its three records when it is opened again.\<close>

theorem t4_main_stores_three:
  "\<exists>fs'. t4_main pid fs [] = Inr fs' \<and>
     (\<exists>db fs''. db_open pid fs' ''db4'' \<lparr>O_CREAT = False, O_TRUNC = False, O_EXCL = False\<rparr> [] = Inr (Some db, fs'') \<and>
        db_rep db [''Alpha'' \<mapsto> ''data1'', ''beta'' \<mapsto> ''Data for beta'', ''gamma'' \<mapsto> ''record3''])"
proof -
  let ?fl = "\<lparr>O_CREAT = True, O_TRUNC = True, O_EXCL = False\<rparr>"
  let ?db0 = "opened pid (''db4'' @ ''.dat'') db_init_image []"
  let ?fs1 = "fs(''db4'' @ ''.idx'' \<mapsto> [], ''db4'' @ ''.dat'' \<mapsto> [])"
  have op: "db_open pid fs ''db4'' ?fl [] = Inr (Some ?db0, ?fs1)" by (rule db_open_new) simp_all
  have ins: "\<exists>db'. t4_insert k x w db = Inr ((), db') \<and> db_rep db' (m(k \<mapsto> x)) \<and> db_room db' n"
    if "db_rep db m" "db_room db (Suc n)" "cmd_ok (Store k x DB_INSERT)" "m k = None" for db m n k x w
    using apue_db.store_law [OF that(1-3)] that(4) by (auto simp: t4_insert_def io_simps store_spec_def)
  have room: "db_room ?db0 (Suc (Suc (Suc 0)))" using new_db_rep(2) [of pid "''db4'' @ ''.dat''"] by (simp add: db_room_def)
  obtain db1 where 1: "t4_insert ''Alpha'' ''data1'' ''alpha'' ?db0 = Inr ((), db1)"
    "db_rep db1 [''Alpha'' \<mapsto> ''data1'']" "db_room db1 (Suc (Suc 0))"
    using ins [OF new_db_rep(1) room, of "''Alpha''" "''data1''"] by (auto simp: key_ok_def data_ok_def)
  obtain db2 where 2: "t4_insert ''beta'' ''Data for beta'' ''beta'' db1 = Inr ((), db2)"
    "db_rep db2 [''Alpha'' \<mapsto> ''data1'', ''beta'' \<mapsto> ''Data for beta'']" "db_room db2 (Suc 0)"
    using ins [OF 1(2,3), of "''beta''" "''Data for beta''"] by (auto simp: key_ok_def data_ok_def)
  obtain db3 where 3: "t4_insert ''gamma'' ''record3'' ''gamma'' db2 = Inr ((), db3)"
    "db_rep db3 [''Alpha'' \<mapsto> ''data1'', ''beta'' \<mapsto> ''Data for beta'', ''gamma'' \<mapsto> ''record3'']"
    using ins [OF 2(2,3), of "''gamma''" "''record3''"] by (auto simp: key_ok_def data_ok_def)
  have "t4_main pid fs [] = Inr (as_named ''db4'' (db_close db3) ?fs1)"
    unfolding t4_main_def op using 1(1) 2(1) 3(1) by (simp add: io_simps)
  moreover obtain L ch fr where L: "irep db3 L" "drep db3 (L_slots L)" "db_inv L ch fr"
    "[''Alpha'' \<mapsto> ''data1'', ''beta'' \<mapsto> ''Data for beta'', ''gamma'' \<mapsto> ''record3''] = db_map (L_slots L) ch"
    using 3(2) by (rule db_repE)
  have "db_open pid (as_named ''db4'' (db_close db3) ?fs1) ''db4'' \<lparr>O_CREAT = False, O_TRUNC = False, O_EXCL = False\<rparr> [] =
      Inr (Some (opened pid (''db4'' @ ''.dat'') (idx_img L) (dat_img (L_slots L))), as_named ''db4'' (db_close db3) ?fs1)"
    by (rule db_open_old) (use L in \<open>simp_all add: db_close_def db_free_def sys_close_def as_named_def irep_def drep_def\<close>)
  ultimately show ?thesis using db_rep_opened [OF refl refl L(3)] L(4) by metis
qed

end
