(* ===== verification/Stream_Io.thy ===== *)
theory Stream_Io
  imports Apue_Prelude
begin

text \<open>
  Sockets and pipes as the code sees them, and the loops that make reads and writes complete
  on them: \<open>readn\<close> and \<open>writen\<close> (\<open>lib/readn.c\<close>, \<open>lib/writen.c\<close>, also \<open>advio/\<close>), \<open>tread\<close> and
  \<open>treadn\<close> (\<open>printer/util.c\<close>). A channel holds what its peer and the kernel will do: the
  events a reader meets, one after the other, and how much each write accepts. The two
  reading loops are clients of one interface, the locale \<open>reader\<close>.
\<close>

section \<open>Channels\<close>

datatype rd_event =
    Data string      \<comment> \<open>bytes that arrive together\<close>
  | Quiet            \<comment> \<open>nothing arrives before a time-out expires\<close>
  | RErr int         \<comment> \<open>the call fails with this \<open>errno\<close>\<close>
  | SelErr int       \<comment> \<open>\<open>select\<close> fails with this \<open>errno\<close>\<close>

datatype wr_event =
    Accept nat       \<comment> \<open>the write takes at most this many bytes\<close>
  | WErr int         \<comment> \<open>the write fails\<close>

record chan =
  c_in :: "rd_event list"
  c_wr :: "wr_event list"
  c_out :: string
  c_errno :: int

abbreviation EIO :: int where "EIO \<equiv> 5"
abbreviation ETIME :: int where "ETIME \<equiv> 62"

text \<open>
  \<open>read\<close> of a positive number of bytes: \<open>None\<close> for -1, the empty string at the end of the
  input. It waits as long as it takes.
\<close>

fun rd_next :: "nat \<Rightarrow> rd_event list \<Rightarrow> (int + string) \<times> rd_event list" where
  "rd_next n [] = (Inr [], [])"
| "rd_next n (Data bs # es) =
     (if bs = [] then rd_next n es
      else if n < length bs then (Inr (take n bs), Data (drop n bs) # es)
      else (Inr bs, es))"
| "rd_next n (Quiet # es) = rd_next n es"
| "rd_next n (SelErr e # es) = rd_next n es"
| "rd_next n (RErr e # es) = (Inl e, es)"

definition sys_read :: "nat \<Rightarrow> chan \<Rightarrow> string option \<times> chan" where
  "sys_read n c =
     (if n = 0 then (Some [], c)
      else case rd_next n (c_in c) of
        (Inl e, es) \<Rightarrow> (None, c\<lparr>c_in := es, c_errno := e\<rparr>)
      | (Inr bs, es) \<Rightarrow> (Some bs, c\<lparr>c_in := es\<rparr>))"

text \<open>\<open>write\<close>: the number of bytes taken, -1 on an error; an empty schedule takes everything.\<close>

definition sys_write :: "string \<Rightarrow> chan \<Rightarrow> int \<times> chan" where
  "sys_write bs c =
     (case c_wr c of
        [] \<Rightarrow> (int (length bs), c\<lparr>c_out := c_out c @ bs\<rparr>)
      | Accept k # ws \<Rightarrow> (int (min k (length bs)), c\<lparr>c_out := c_out c @ take k bs, c_wr := ws\<rparr>)
      | WErr e # ws \<Rightarrow> (-1, c\<lparr>c_wr := ws, c_errno := e\<rparr>))"

text \<open>
  \<open>select\<close> on one descriptor: 1 when a read would not block, 0 when the time is over, -1.
\<close>

fun skip_empty :: "rd_event list \<Rightarrow> rd_event list" where
  "skip_empty (Data bs # es) = (if bs = [] then skip_empty es else Data bs # es)"
| "skip_empty es = es"

definition sys_select :: "chan \<Rightarrow> int \<times> chan" where
  "sys_select c =
     (case skip_empty (c_in c) of
        Quiet # es \<Rightarrow> (0, c\<lparr>c_in := es\<rparr>)
      | SelErr e # es \<Rightarrow> (-1, c\<lparr>c_in := es, c_errno := e\<rparr>)
      | es \<Rightarrow> (1, c\<lparr>c_in := es\<rparr>))"

definition tread :: "nat \<Rightarrow> chan \<Rightarrow> string option \<times> chan" where
  "tread nbytes c =
     (case sys_select c of
        (nfds, c1) \<Rightarrow>
          if nfds \<le> 0
          then (None, if nfds = 0 then c1\<lparr>c_errno := ETIME\<rparr> else c1)
          else sys_read nbytes c1)"

section \<open>The loops\<close>

text \<open>
  The loop of \<open>readn\<close> and \<open>treadn\<close> over the reading call \<open>rd\<close>: \<open>n\<close> bytes are wanted,
  \<open>nleft\<close> of them are missing, \<open>acc\<close> holds what is in the buffer. \<open>None\<close> is -1.
\<close>

function read_loop ::
  "(nat \<Rightarrow> chan \<Rightarrow> string option \<times> chan) \<Rightarrow> nat \<Rightarrow> nat \<Rightarrow> string \<Rightarrow> chan \<Rightarrow> string option \<times> chan" where
  "read_loop rd n nleft acc c =
     (if nleft = 0 then (Some acc, c)
      else case rd nleft c of
        (None, c1) \<Rightarrow> (if nleft = n then None else Some acc, c1)
      | (Some bs, c1) \<Rightarrow>
          if bs = [] then (Some acc, c1)
          else read_loop rd n (nleft - length bs) (acc @ bs) c1)"
  by pat_completeness auto
termination
  by (relation "measure (\<lambda>(rd, n, nleft, acc, c). nleft)") auto

declare read_loop.simps [simp del]

definition readn :: "nat \<Rightarrow> chan \<Rightarrow> string option \<times> chan" where
  "readn n c = read_loop sys_read n n [] c"

definition treadn :: "nat \<Rightarrow> chan \<Rightarrow> string option \<times> chan" where
  "treadn nbytes c = read_loop tread nbytes nbytes [] c"

text \<open>The loop of \<open>writen\<close>: \<open>bs\<close> is what is left to write.\<close>

function write_loop :: "nat \<Rightarrow> string \<Rightarrow> chan \<Rightarrow> int \<times> chan" where
  "write_loop n bs c =
     (if bs = [] then (int n, c)
      else case sys_write bs c of
        (nw, c1) \<Rightarrow>
          if nw < 0 then (if length bs = n then -1 else int (n - length bs), c1)
          else if nw = 0 then (int (n - length bs), c1)
          else write_loop n (drop (nat nw) bs) c1)"
  by pat_completeness auto
termination
  by (relation "measure (\<lambda>(n, bs, c). length bs)") auto

declare write_loop.simps [simp del]

definition writen :: "string \<Rightarrow> chan \<Rightarrow> int \<times> chan" where
  "writen bs c = write_loop (length bs) bs c"

section \<open>Reading: the interface and its two instances\<close>

text \<open>
  \<open>pend c\<close> are the bytes the calls will still deliver, up to the end of the input or the
  first failure, and \<open>broken c\<close> says that what follows them is a failure.
\<close>

locale reader =
  fixes rd :: "nat \<Rightarrow> chan \<Rightarrow> string option \<times> chan"
    and pend :: "chan \<Rightarrow> string"
    and broken :: "chan \<Rightarrow> bool"
  assumes rd_some: "0 < n \<Longrightarrow> rd n c = (Some bs, c') \<Longrightarrow>
      length bs \<le> n \<and> pend c = bs @ pend c' \<and> broken c' = broken c"
    and rd_empty: "0 < n \<Longrightarrow> rd n c = (Some [], c') \<Longrightarrow> pend c = [] \<and> \<not> broken c"
    and rd_none: "0 < n \<Longrightarrow> rd n c = (None, c') \<Longrightarrow> pend c = [] \<and> broken c"
begin

text \<open>
  However the bytes arrive, the loop returns the first \<open>nleft\<close> of the pending ones after
  what it has, all of them when there are fewer; it returns -1 only when it has nothing.
\<close>

lemma loop_returns:
  assumes "nleft \<le> n" "length acc = n - nleft"
  shows "\<exists>c'. read_loop rd n nleft acc c =
     (if pend c = [] \<and> broken c \<and> nleft = n \<and> 0 < n then None else Some (acc @ take nleft (pend c)), c') \<and>
     (nleft \<le> length (pend c) \<longrightarrow> pend c' = drop nleft (pend c) \<and> broken c' = broken c)"
  using assms
proof (induction nleft arbitrary: acc c rule: less_induct)
  case (less nleft)
  show ?case
  proof (cases "nleft = 0")
    case True
    then show ?thesis by (subst read_loop.simps) auto
  next
    case False
    obtain v c1 where rd: "rd nleft c = (v, c1)" by fastforce
    show ?thesis
    proof (cases v)
      case None
      with rd_none [of nleft c c1] rd False less.prems show ?thesis by (subst read_loop.simps) auto
    next
      case (Some bs)
      have s: "length bs \<le> nleft" "pend c = bs @ pend c1" "broken c1 = broken c"
        using rd_some [of nleft c bs c1] rd Some False by auto
      show ?thesis
      proof (cases "bs = []")
        case True
        with rd_empty [of nleft c c1] rd Some False show ?thesis by (subst read_loop.simps) auto
      next
        case False
        let ?m = "nleft - length bs"
        have step: "read_loop rd n nleft acc c = read_loop rd n ?m (acc @ bs) c1"
          using rd Some False \<open>nleft \<noteq> 0\<close> by (subst read_loop.simps) simp
        have m: "?m < nleft" using False \<open>nleft \<noteq> 0\<close> by (cases bs) auto
        then have mn: "?m \<noteq> n" and mle: "?m \<le> n" using less.prems(1) by linarith+
        obtain c' where "read_loop rd n ?m (acc @ bs) c1 = (Some ((acc @ bs) @ take ?m (pend c1)), c')"
          "?m \<le> length (pend c1) \<longrightarrow> pend c' = drop ?m (pend c1) \<and> broken c' = broken c1"
          using less.IH [OF m mle, of "acc @ bs" c1] less.prems s(1) mn by auto
        with step s False show ?thesis by auto
      qed
    qed
  qed
qed

lemma fill_returns:
  "\<exists>c'. read_loop rd n n [] c =
     (if pend c = [] \<and> broken c \<and> 0 < n then None else Some (take n (pend c)), c') \<and>
     (n \<le> length (pend c) \<longrightarrow> pend c' = drop n (pend c) \<and> broken c' = broken c)"
  using loop_returns [of n n "[]" c] by auto

end

text \<open>What \<open>read\<close> delivers: the bytes up to a failure; it sleeps through silence.\<close>

fun rd_bytes :: "rd_event list \<Rightarrow> string" where
  "rd_bytes [] = []"
| "rd_bytes (Data bs # es) = bs @ rd_bytes es"
| "rd_bytes (Quiet # es) = rd_bytes es"
| "rd_bytes (SelErr e # es) = rd_bytes es"
| "rd_bytes (RErr e # es) = []"

fun rd_fails :: "rd_event list \<Rightarrow> bool" where
  "rd_fails [] = False"
| "rd_fails (RErr e # es) = True"
| "rd_fails (_ # es) = rd_fails es"

text \<open>What \<open>tread\<close> delivers: a silence or a failing \<open>select\<close> is a failure too.\<close>

fun trd_bytes :: "rd_event list \<Rightarrow> string" where
  "trd_bytes (Data bs # es) = bs @ trd_bytes es"
| "trd_bytes _ = []"

fun trd_fails :: "rd_event list \<Rightarrow> bool" where
  "trd_fails [] = False"
| "trd_fails (Data bs # es) = trd_fails es"
| "trd_fails _ = True"

lemma rd_next_some:
  "0 < n \<Longrightarrow> rd_next n es = (Inr bs, es') \<Longrightarrow>
   length bs \<le> n \<and> rd_bytes es = bs @ rd_bytes es' \<and> rd_fails es' = rd_fails es \<and>
   (bs = [] \<longrightarrow> rd_bytes es = [] \<and> \<not> rd_fails es)"
  by (induction n es rule: rd_next.induct) (auto split: if_splits)

lemma rd_next_none: "rd_next n es = (Inl e, es') \<Longrightarrow> rd_bytes es = [] \<and> rd_fails es"
  by (induction n es rule: rd_next.induct) (auto split: if_splits)

interpretation plain: reader sys_read "\<lambda>c. rd_bytes (c_in c)" "\<lambda>c. rd_fails (c_in c)"
proof (unfold_locales, goal_cases)
  case (1 n c bs c')
  then show ?case using rd_next_some [of n "c_in c"] by (auto simp: sys_read_def split: prod.splits sum.splits if_splits)
next
  case (2 n c c')
  then show ?case using rd_next_some [of n "c_in c" "[]"] by (auto simp: sys_read_def split: prod.splits sum.splits if_splits)
next
  case (3 n c c')
  then show ?case using rd_next_none [of n "c_in c"] by (auto simp: sys_read_def split: prod.splits sum.splits if_splits)
qed

lemma tread_cases:
  assumes "0 < n"
  obtains (quiet) c1 where "tread n c = (None, c1)" "trd_bytes (c_in c) = []" "trd_fails (c_in c)"
  | (eof) c1 where "tread n c = (Some [], c1)" "c_in c1 = []" "trd_bytes (c_in c) = []" "\<not> trd_fails (c_in c)"
  | (data) bs c1 where "tread n c = (Some bs, c1)" "bs \<noteq> []" "length bs \<le> n"
      "trd_bytes (c_in c) = bs @ trd_bytes (c_in c1)" "trd_fails (c_in c1) = trd_fails (c_in c)"
proof -
  have b: "trd_bytes (skip_empty es) = trd_bytes es" "trd_fails (skip_empty es) = trd_fails es" for es
    by (induction es rule: skip_empty.induct) auto
  have ne: "bs \<noteq> []" if "skip_empty es = Data bs # es'" for es bs es'
    using that by (induction es rule: skip_empty.induct) (auto split: if_splits)
  show ?thesis
  proof (cases "skip_empty (c_in c)")
    case Nil
    with b [of "c_in c"] assms show ?thesis by (intro eof) (auto simp: tread_def sys_select_def sys_read_def)
  next
    case (Cons e es)
    show ?thesis
    proof (cases e)
      case (Data bs)
      with Cons ne have "bs \<noteq> []" by simp
      then show ?thesis using Cons Data b [of "c_in c"] assms
        by (intro data [of "take n bs" "c\<lparr>c_in := (if n < length bs then Data (drop n bs) # es else es)\<rparr>"])
          (auto simp: tread_def sys_select_def sys_read_def append_assoc [symmetric] simp del: append_assoc)
    qed (use Cons b [of "c_in c"] assms in \<open>intro quiet; auto simp: tread_def sys_select_def sys_read_def\<close>)+
  qed
qed

interpretation timed: reader tread "\<lambda>c. trd_bytes (c_in c)" "\<lambda>c. trd_fails (c_in c)"
proof (unfold_locales, goal_cases)
  case (1 n c bs c')
  then show ?case by (cases rule: tread_cases [of n c]) auto
next
  case (2 n c c')
  then show ?case by (cases rule: tread_cases [of n c]) auto
next
  case (3 n c c')
  then show ?case by (cases rule: tread_cases [of n c]) auto
qed

section \<open>Writing\<close>

text \<open>What one write leaves: the bytes counted are appended, the rest is still to write.\<close>

lemma sys_write_appends:
  "sys_write bs c = (nw, c') \<Longrightarrow>
   (0 \<le> nw \<longrightarrow> nat nw \<le> length bs \<and> c_out c' = c_out c @ take (nat nw) bs) \<and> (nw < 0 \<longrightarrow> c_out c' = c_out c)"
  by (auto simp: sys_write_def min_def split: list.splits wr_event.splits)

lemma write_loop_counts:
  assumes "length bs \<le> n" "write_loop n bs c = (r, c')"
  shows "\<exists>k \<le> length bs. c_out c' = c_out c @ take k bs \<and>
     (r = int (n - length bs + k) \<or> (r = -1 \<and> k = 0 \<and> length bs = n))"
  using assms
proof (induction n bs c rule: write_loop.induct)
  case (1 n bs c)
  show ?case
  proof (cases "bs = []")
    case True
    with "1.prems" show ?thesis by (simp add: write_loop.simps [of n "[]"])
  next
    case False
    obtain nw c1 where w: "sys_write bs c = (nw, c1)" by fastforce
    note a = sys_write_appends [OF w]
    show ?thesis
    proof (cases "nw \<le> 0")
      case True
      with False w "1.prems" a show ?thesis
        by (intro exI [of _ 0]) (auto simp: write_loop.simps [of n bs c] split: if_splits)
    next
      case pos: False
      let ?k = "nat nw"
      have "write_loop n (drop ?k bs) c1 = (r, c')"
        using "1.prems"(2) False w pos by (simp add: write_loop.simps [of n bs c])
      moreover have "length (drop ?k bs) \<le> n" "length (drop ?k bs) \<noteq> n"
        using "1.prems"(1) pos False by (cases bs; simp)+
      ultimately obtain k where k: "k \<le> length bs - ?k" "c_out c' = c_out c1 @ take k (drop ?k bs)"
        "r = int (n - (length bs - ?k) + k)"
        using "1.IH" [OF False w [symmetric]] pos by auto
      have "c_out c' = c_out c @ take (?k + k) bs" using k(2) a pos by (simp add: take_add)
      moreover have "r = int (n - length bs + (?k + k))" using k(1,3) a pos "1.prems"(1) by auto
      ultimately show ?thesis using k(1) a pos by (intro exI [of _ "?k + k"]) auto
    qed
  qed
qed

text \<open>Every write takes at least one byte and none fails.\<close>

definition steady :: "chan \<Rightarrow> bool" where
  "steady c \<longleftrightarrow> list_all (\<lambda>w. case w of Accept k \<Rightarrow> 0 < k | WErr _ \<Rightarrow> False) (c_wr c)"

lemma steady_write:
  assumes "steady c" "bs \<noteq> []"
  obtains k c' where "sys_write bs c = (int k, c')" "0 < k" "k \<le> length bs" "steady c'"
    "c_out c' = c_out c @ take k bs" "c_in c' = c_in c"
proof (cases "c_wr c")
  case Nil
  then show ?thesis using assms
    by (intro that [of "length bs" "c\<lparr>c_out := c_out c @ bs\<rparr>"]) (auto simp: sys_write_def steady_def)
next
  case (Cons w ws)
  with assms obtain k where "w = Accept k" "0 < k" by (cases w) (auto simp: steady_def)
  with Cons assms show ?thesis
    by (intro that [of "min k (length bs)" "c\<lparr>c_out := c_out c @ take k bs, c_wr := ws\<rparr>"])
      (auto simp: sys_write_def steady_def min_def)
qed

lemma write_loop_all:
  assumes "steady c" "length bs \<le> n"
  shows "\<exists>c'. write_loop n bs c = (int n, c') \<and> c_out c' = c_out c @ bs \<and> steady c' \<and> c_in c' = c_in c"
  using assms
proof (induction "length bs" arbitrary: bs c rule: less_induct)
  case less
  show ?case
  proof (cases "bs = []")
    case True
    with less.prems show ?thesis by (simp add: write_loop.simps [of n "[]"])
  next
    case False
    obtain k c1 where k: "sys_write bs c = (int k, c1)" "0 < k" "k \<le> length bs" "steady c1"
      "c_out c1 = c_out c @ take k bs" "c_in c1 = c_in c"
      using steady_write [OF less.prems(1) False] by blast
    have "length (drop k bs) < length bs" using k(2) False by (cases bs) auto
    moreover have "length (drop k bs) \<le> n" using less.prems(2) by simp
    ultimately obtain c' where
      "write_loop n (drop k bs) c1 = (int n, c')" "c_out c' = c_out c1 @ drop k bs" "steady c'" "c_in c' = c_in c1"
      using less.hyps k(4) by blast
    with k False show ?thesis by (subst write_loop.simps) auto
  qed
qed

section \<open>Properties\<close>

text \<open>\<open>readn\<close> is complete. However the peer's bytes are split into segments and however
  long it is silent, \<open>readn\<close> returns exactly the first \<open>n\<close> bytes of the stream when \<open>n\<close>
  arrive before the end or a failure, leaving the rest for the next call; it returns all
  that arrived when fewer do, and -1 only when a failure came before the first byte.\<close>

theorem readn_complete:
  "\<exists>c'. readn n c =
     (if rd_bytes (c_in c) = [] \<and> rd_fails (c_in c) \<and> 0 < n then None else Some (take n (rd_bytes (c_in c))), c') \<and>
     (n \<le> length (rd_bytes (c_in c)) \<longrightarrow> rd_bytes (c_in c') = drop n (rd_bytes (c_in c)))"
  unfolding readn_def using plain.fill_returns [of n c] by auto

theorem readn_complete_witness:
  "fst (readn 4 \<lparr>c_in = [Data ''ab'', Quiet, Data ''cde'', RErr 5], c_wr = [], c_out = [], c_errno = 0\<rparr>) = Some ''abcd''"
  using readn_complete [of 4 "\<lparr>c_in = [Data ''ab'', Quiet, Data ''cde'', RErr 5], c_wr = [], c_out = [], c_errno = 0\<rparr>"]
  by auto

text \<open>\<open>treadn\<close> gives up when the peer is silent: it returns the first \<open>nbytes\<close> bytes when
  they arrive without a silence of the time-out's length, what arrived before the silence
  otherwise, and -1 when nothing did.\<close>

theorem treadn_complete:
  "\<exists>c'. treadn nbytes c =
     (if trd_bytes (c_in c) = [] \<and> trd_fails (c_in c) \<and> 0 < nbytes then None else Some (take nbytes (trd_bytes (c_in c))), c') \<and>
     (nbytes \<le> length (trd_bytes (c_in c)) \<longrightarrow> trd_bytes (c_in c') = drop nbytes (trd_bytes (c_in c)))"
  unfolding treadn_def using timed.fill_returns [of nbytes c] by auto

theorem treadn_complete_witness:
  "fst (treadn 4 \<lparr>c_in = [Data ''ab'', Quiet, Data ''cde''], c_wr = [], c_out = [], c_errno = 0\<rparr>) = Some ''ab''"
  using treadn_complete [of 4 "\<lparr>c_in = [Data ''ab'', Quiet, Data ''cde''], c_wr = [], c_out = [], c_errno = 0\<rparr>"]
  by auto

text \<open>\<open>writen\<close> never loses or repeats a byte: what it appends to the channel is a prefix
  of the buffer, its return value is the length of that prefix (or -1 when the first write
  failed and nothing was written), and when every write takes at least one byte the prefix
  is the whole buffer.\<close>

theorem writen_complete:
  "\<exists>k c' r. writen bs c = (r, c') \<and> k \<le> length bs \<and> c_out c' = c_out c @ take k bs \<and>
     (r = int k \<or> r = -1 \<and> k = 0) \<and> (steady c \<longrightarrow> k = length bs \<and> r = int (length bs))"
proof -
  obtain r c' where w: "writen bs c = (r, c')" by fastforce
  obtain k where k: "k \<le> length bs" "c_out c' = c_out c @ take k bs" "r = int k \<or> (r = -1 \<and> k = 0)"
    using write_loop_counts [of bs "length bs" c r c'] w by (auto simp: writen_def)
  moreover have "k = length bs \<and> r = int (length bs)" if st: "steady c"
  proof -
    have "c_out c' = c_out c @ bs \<and> r = int (length bs)"
      using write_loop_all [OF st, of bs "length bs"] w by (auto simp: writen_def)
    then show ?thesis using k(1,2) by (metis append_same_eq append_eq_append_conv length_take min.absorb2)
  qed
  ultimately show ?thesis using w by blast
qed

theorem writen_complete_witness:
  "\<exists>c'. writen ''hello'' \<lparr>c_in = [], c_wr = [Accept 2, Accept 1], c_out = ''>'', c_errno = 0\<rparr> = (5, c') \<and>
     c_out c' = ''>hello''"
proof -
  let ?c = "\<lparr>c_in = [], c_wr = [Accept 2, Accept 1], c_out = ''>'', c_errno = 0\<rparr>"
  have "steady ?c" by (simp add: steady_def)
  with writen_complete [of "''hello''" ?c] show ?thesis by auto
qed

end
