(* ===== verification/Dl_List.thy ===== *)
theory Dl_List
  imports Apue_Prelude
begin

text \<open>
  Doubly linked lists on a heap: the representation of the job queue and the worker list of
  the print daemon (\<open>printer/printd.c\<close>) and of the job queue of \<open>threads/rwlock.c\<close>. The
  state is the heap with the two ends of the list; a pointer is an address or null, and
  following a null or dangling pointer is undefined behaviour. The lemmas describe the
  pointer surgery once, for all three lists.
\<close>

section \<open>Nodes and states\<close>

type_synonym addr = nat

record 'a node =
  n_next :: "addr option"
  n_prev :: "addr option"
  n_val :: 'a

record 'a dlist =
  dl_heap :: "addr \<rightharpoonup> 'a node"
  dl_head :: "addr option"
  dl_tail :: "addr option"
  dl_brk :: nat            \<comment> \<open>every allocated address is below\<close>
  dl_oom :: "bool list"    \<comment> \<open>which of the coming calls of \<open>malloc\<close> fail\<close>

text \<open>Field updates in the order of the fields.\<close>

lemma dlist_order:
  "(s :: ('a, 'z) dlist_scheme)\<lparr>dl_head := x1, dl_heap := y0\<rparr> = s\<lparr>dl_heap := y0, dl_head := x1\<rparr>"
  "(s :: ('a, 'z) dlist_scheme)\<lparr>dl_tail := x2, dl_heap := y0\<rparr> = s\<lparr>dl_heap := y0, dl_tail := x2\<rparr>"
  "(s :: ('a, 'z) dlist_scheme)\<lparr>dl_brk := x3, dl_heap := y0\<rparr> = s\<lparr>dl_heap := y0, dl_brk := x3\<rparr>"
  "(s :: ('a, 'z) dlist_scheme)\<lparr>dl_oom := x4, dl_heap := y0\<rparr> = s\<lparr>dl_heap := y0, dl_oom := x4\<rparr>"
  "(s :: ('a, 'z) dlist_scheme)\<lparr>dl_tail := x2, dl_head := y1\<rparr> = s\<lparr>dl_head := y1, dl_tail := x2\<rparr>"
  "(s :: ('a, 'z) dlist_scheme)\<lparr>dl_brk := x3, dl_head := y1\<rparr> = s\<lparr>dl_head := y1, dl_brk := x3\<rparr>"
  "(s :: ('a, 'z) dlist_scheme)\<lparr>dl_oom := x4, dl_head := y1\<rparr> = s\<lparr>dl_head := y1, dl_oom := x4\<rparr>"
  "(s :: ('a, 'z) dlist_scheme)\<lparr>dl_brk := x3, dl_tail := y2\<rparr> = s\<lparr>dl_tail := y2, dl_brk := x3\<rparr>"
  "(s :: ('a, 'z) dlist_scheme)\<lparr>dl_oom := x4, dl_tail := y2\<rparr> = s\<lparr>dl_tail := y2, dl_oom := x4\<rparr>"
  "(s :: ('a, 'z) dlist_scheme)\<lparr>dl_oom := x4, dl_brk := y3\<rparr> = s\<lparr>dl_brk := y3, dl_oom := x4\<rparr>"
  by (cases s; simp)+

definition at_node :: "addr option \<Rightarrow> ('a node \<Rightarrow> 'b) \<Rightarrow> (('a, 'z) dlist_scheme, 'b) io" where
  "at_node p f s =
     (case p of
        None \<Rightarrow> Inl (Undefined ''null pointer'')
      | Some a \<Rightarrow> (case dl_heap s a of
                     None \<Rightarrow> Inl (Undefined ''dangling pointer'')
                   | Some n \<Rightarrow> Inr (f n, s)))"

definition set_node :: "addr option \<Rightarrow> ('a node \<Rightarrow> 'a node) \<Rightarrow> (('a, 'z) dlist_scheme, unit) io" where
  "set_node p f s =
     (case p of
        None \<Rightarrow> Inl (Undefined ''null pointer'')
      | Some a \<Rightarrow> (case dl_heap s a of
                     None \<Rightarrow> Inl (Undefined ''dangling pointer'')
                   | Some n \<Rightarrow> Inr ((), s\<lparr>dl_heap := (dl_heap s)(a \<mapsto> f n)\<rparr>)))"

definition set_next :: "addr option \<Rightarrow> addr option \<Rightarrow> (('a, 'z) dlist_scheme, unit) io" where
  "set_next p v = set_node p (\<lambda>n. n\<lparr>n_next := v\<rparr>)"

definition set_prev :: "addr option \<Rightarrow> addr option \<Rightarrow> (('a, 'z) dlist_scheme, unit) io" where
  "set_prev p v = set_node p (\<lambda>n. n\<lparr>n_prev := v\<rparr>)"

text \<open>\<open>malloc\<close> of a node, with the given contents stored; \<open>None\<close> when memory is exhausted.\<close>

definition new_node :: "'a \<Rightarrow> (('a, 'z) dlist_scheme, addr option) io" where
  "new_node v s =
     (case dl_oom s of
        True # os \<Rightarrow> Inr (None, s\<lparr>dl_oom := os\<rparr>)
      | os \<Rightarrow> Inr (Some (dl_brk s),
               s\<lparr>dl_heap := (dl_heap s)(dl_brk s \<mapsto> \<lparr>n_next = None, n_prev = None, n_val = v\<rparr>),
                 dl_brk := Suc (dl_brk s), dl_oom := tl os\<rparr>))"

definition free_node :: "addr option \<Rightarrow> (('a, 'z) dlist_scheme, unit) io" where
  "free_node p s =
     (case p of
        None \<Rightarrow> Inr ((), s)
      | Some a \<Rightarrow> (case dl_heap s a of
                     None \<Rightarrow> Inl (Undefined ''free of a dangling pointer'')
                   | Some n \<Rightarrow> Inr ((), s\<lparr>dl_heap := (dl_heap s)(a := None)\<rparr>)))"

lemma at_node_Some [simp]: "dl_heap s a = Some n \<Longrightarrow> at_node (Some a) f s = Inr (f n, s)"
  by (simp add: at_node_def)

lemma set_next_Some [simp]:
  "dl_heap s a = Some n \<Longrightarrow> set_next (Some a) v s = Inr ((), s\<lparr>dl_heap := (dl_heap s)(a \<mapsto> n\<lparr>n_next := v\<rparr>)\<rparr>)"
  by (simp add: set_next_def set_node_def)

lemma set_prev_Some [simp]:
  "dl_heap s a = Some n \<Longrightarrow> set_prev (Some a) v s = Inr ((), s\<lparr>dl_heap := (dl_heap s)(a \<mapsto> n\<lparr>n_prev := v\<rparr>)\<rparr>)"
  by (simp add: set_prev_def set_node_def)

section \<open>List segments\<close>

text \<open>
  \<open>dseg h pv p as lv q\<close>: from the pointer \<open>p\<close>, whose target should point back to \<open>pv\<close>, the
  nodes \<open>as\<close> lead to the pointer \<open>q\<close>; \<open>lv\<close> is the last node (\<open>pv\<close> when there is none).
\<close>

fun dseg :: "(addr \<rightharpoonup> 'a node) \<Rightarrow> addr option \<Rightarrow> addr option \<Rightarrow> addr list \<Rightarrow> addr option \<Rightarrow> addr option \<Rightarrow> bool" where
  "dseg h pv p [] lv q = (p = q \<and> lv = pv)"
| "dseg h pv p (a # as) lv q =
     (p = Some a \<and> (case h a of None \<Rightarrow> False | Some n \<Rightarrow> n_prev n = pv \<and> dseg h (Some a) (n_next n) as lv q))"

lemma dseg_append:
  "dseg h pv p (xs @ ys) lv q \<longleftrightarrow> (\<exists>mv r. dseg h pv p xs mv r \<and> dseg h mv r ys lv q)"
  by (induction xs arbitrary: pv p) (auto split: option.splits)

lemma dseg_alloc: "dseg h pv p as lv q \<Longrightarrow> a \<in> set as \<Longrightarrow> \<exists>n. h a = Some n"
  by (induction as arbitrary: pv p) (auto split: option.splits)

lemma dseg_cong: "(\<And>a. a \<in> set as \<Longrightarrow> h' a = h a) \<Longrightarrow> dseg h' pv p as lv q = dseg h pv p as lv q"
  by (induction as arbitrary: pv p) (auto split: option.splits)

lemma dseg_upd [simp]: "a \<notin> set as \<Longrightarrow> dseg (h(a := n)) pv p as lv q = dseg h pv p as lv q"
  by (rule dseg_cong) auto

lemma dseg_snoc:
  "dseg h pv p (as @ [a]) lv q \<longleftrightarrow>
     (\<exists>mv n. dseg h pv p as mv (Some a) \<and> h a = Some n \<and> n_prev n = mv \<and> n_next n = q \<and> lv = Some a)"
  by (auto simp: dseg_append split: option.splits)

text \<open>The last node gets another successor; the first one another predecessor.\<close>

lemma dseg_set_last:
  assumes "dseg h pv p (as @ [a]) lv q" "distinct (as @ [a])" "h a = Some n"
  shows "dseg (h(a \<mapsto> n\<lparr>n_next := q'\<rparr>)) pv p (as @ [a]) lv q'"
  using assms by (auto simp: dseg_snoc)

lemma dseg_set_first:
  assumes "dseg h pv p (a # as) lv q" "distinct (a # as)" "h a = Some n"
  shows "dseg (h(a \<mapsto> n\<lparr>n_prev := pv'\<rparr>)) pv' p (a # as) lv q"
  using assms by auto

section \<open>Whole lists\<close>

definition dl_ok :: "('a, 'z) dlist_scheme \<Rightarrow> addr list \<Rightarrow> bool" where
  "dl_ok s as \<longleftrightarrow>
     distinct as \<and> dseg (dl_heap s) None (dl_head s) as (dl_tail s) None \<and> (\<forall>a \<in> dom (dl_heap s). a < dl_brk s)"

definition dl_vals :: "('a, 'z) dlist_scheme \<Rightarrow> addr list \<Rightarrow> 'a list" where
  "dl_vals s as = map (\<lambda>a. n_val (the (dl_heap s a))) as"

lemma dl_ok_alloc: "dl_ok s as \<Longrightarrow> a \<in> set as \<Longrightarrow> \<exists>n. dl_heap s a = Some n"
  by (auto simp: dl_ok_def dest: dseg_alloc)

lemma dl_ok_fresh: "dl_ok s as \<Longrightarrow> dl_heap s (dl_brk s) = None"
  by (auto simp: dl_ok_def dom_def)

lemma dl_ok_fresh_notin: "dl_ok s as \<Longrightarrow> dl_brk s \<notin> set as"
  using dl_ok_alloc dl_ok_fresh by fastforce

lemma dl_ok_Nil: "dl_ok s [] \<longleftrightarrow> dl_head s = None \<and> dl_tail s = None \<and> (\<forall>a \<in> dom (dl_heap s). a < dl_brk s)"
  by (auto simp: dl_ok_def)

lemma dl_ok_head: "dl_ok s as \<Longrightarrow> dl_head s = (case as of [] \<Rightarrow> None | a # _ \<Rightarrow> Some a)"
  by (cases as) (auto simp: dl_ok_def)

lemma dl_ok_tail: "dl_ok s as \<Longrightarrow> dl_tail s = (if as = [] then None else Some (last as))"
  by (cases as rule: rev_cases) (auto simp: dl_ok_def dseg_snoc)

text \<open>A node linked in behind the last one.\<close>

lemma dl_append:
  assumes ok: "dl_ok s as" and a: "a \<notin> set as" "a < brk" "dl_brk s \<le> brk"
    and h: "h' = (case dl_tail s of
        None \<Rightarrow> dl_heap s
      | Some t \<Rightarrow> (dl_heap s)(t \<mapsto> (the (dl_heap s t))\<lparr>n_next := Some a\<rparr>))"
    and n: "n_next n = None" "n_prev n = dl_tail s"
  shows "distinct (as @ [a]) \<and>
     dseg (h'(a \<mapsto> n)) None (if dl_tail s = None then Some a else dl_head s) (as @ [a]) (Some a) None \<and>
     (\<forall>b \<in> dom (h'(a \<mapsto> n)). b < brk) \<and> (\<forall>b. b \<noteq> a \<longrightarrow> map_option n_val (h' b) = map_option n_val (dl_heap s b))"
proof (cases as rule: rev_cases)
  case Nil
  then have e: "dl_head s = None" "dl_tail s = None" "\<forall>b \<in> dom (dl_heap s). b < dl_brk s"
    using ok by (simp_all add: dl_ok_Nil)
  then have "\<forall>b \<in> dom ((dl_heap s)(a \<mapsto> n)). b < brk" using a by (auto intro: less_le_trans)
  with e Nil h n show ?thesis by simp
next
  case (snoc xs t)
  have d: "distinct (xs @ [t])" "dseg (dl_heap s) None (dl_head s) (xs @ [t]) (Some t) None" "dl_tail s = Some t"
    using ok snoc dl_ok_tail [OF ok] by (auto simp: dl_ok_def)
  obtain nt where nt: "dl_heap s t = Some nt" using dl_ok_alloc [OF ok, of t] snoc by auto
  have h': "h' = (dl_heap s)(t \<mapsto> nt\<lparr>n_next := Some a\<rparr>)" using h d(3) nt by simp
  have "dseg h' None (dl_head s) (xs @ [t]) (Some t) (Some a)"
    unfolding h' by (rule dseg_set_last [OF d(2,1) nt])
  then have "dseg (h'(a \<mapsto> n)) None (dl_head s) (xs @ [t]) (Some t) (Some a)" using a snoc by simp
  then have "dseg (h'(a \<mapsto> n)) None (dl_head s) ((xs @ [t]) @ [a]) (Some a) None"
    using n d(3) by (subst dseg_append) auto
  moreover have "\<forall>b \<in> dom (h'(a \<mapsto> n)). b < brk"
    using ok a nt unfolding h' dl_ok_def by (auto simp: dom_def split: if_splits)
  moreover have "map_option n_val (h' b) = map_option n_val (dl_heap s b)" for b
    using nt by (simp add: h')
  ultimately show ?thesis using d a snoc by auto
qed

text \<open>A node linked in before the first one.\<close>

lemma dl_push:
  assumes ok: "dl_ok s as" and a: "a \<notin> set as" "a < brk" "dl_brk s \<le> brk"
    and h: "h' = (case dl_head s of
        None \<Rightarrow> dl_heap s
      | Some t \<Rightarrow> (dl_heap s)(t \<mapsto> (the (dl_heap s t))\<lparr>n_prev := Some a\<rparr>))"
    and n: "n_prev n = None" "n_next n = dl_head s"
  shows "distinct (a # as) \<and>
     dseg (h'(a \<mapsto> n)) None (Some a) (a # as) (if dl_head s = None then Some a else dl_tail s) None \<and>
     (\<forall>b \<in> dom (h'(a \<mapsto> n)). b < brk) \<and> (\<forall>b. b \<noteq> a \<longrightarrow> map_option n_val (h' b) = map_option n_val (dl_heap s b))"
proof (cases as)
  case Nil
  then have e: "dl_head s = None" "dl_tail s = None" "\<forall>b \<in> dom (dl_heap s). b < dl_brk s"
    using ok by (simp_all add: dl_ok_Nil)
  then have "\<forall>b \<in> dom ((dl_heap s)(a \<mapsto> n)). b < brk" using a by (auto intro: less_le_trans)
  with e Nil h n show ?thesis by simp
next
  case (Cons t xs)
  have d: "distinct (t # xs)" "dseg (dl_heap s) None (dl_head s) (t # xs) (dl_tail s) None" "dl_head s = Some t"
    using ok Cons by (auto simp: dl_ok_def)
  obtain nt where nt: "dl_heap s t = Some nt" using dl_ok_alloc [OF ok, of t] Cons by auto
  have h': "h' = (dl_heap s)(t \<mapsto> nt\<lparr>n_prev := Some a\<rparr>)" using h d(3) nt by simp
  have "dseg h' (Some a) (Some t) (t # xs) (dl_tail s) None"
    using dseg_set_first [OF d(2,1) nt, of "Some a"] d(3) by (simp add: h')
  then have "dseg (h'(a \<mapsto> n)) (Some a) (Some t) (t # xs) (dl_tail s) None"
    using a(1) unfolding Cons by (subst dseg_upd) auto
  then have "dseg (h'(a \<mapsto> n)) None (Some a) (a # t # xs) (dl_tail s) None"
    using n d(3) by simp
  moreover have "\<forall>b \<in> dom (h'(a \<mapsto> n)). b < brk"
    using ok a nt unfolding h' dl_ok_def by (auto simp: dom_def split: if_splits)
  moreover have "map_option n_val (h' b) = map_option n_val (dl_heap s b)" for b
    using nt by (simp add: h')
  ultimately show ?thesis using d a Cons by auto
qed

text \<open>A node taken out: its neighbours, or the ends of the list, are joined.\<close>

definition unlink :: "('a, 'z) dlist_scheme \<Rightarrow> addr \<Rightarrow> 'a node \<Rightarrow> ('a, 'z) dlist_scheme" where
  "unlink s a n =
     (let h1 = (case n_next n of None \<Rightarrow> dl_heap s
                | Some b \<Rightarrow> (dl_heap s)(b \<mapsto> (the (dl_heap s b))\<lparr>n_prev := n_prev n\<rparr>));
          h2 = (case n_prev n of None \<Rightarrow> h1
                | Some b \<Rightarrow> h1(b \<mapsto> (the (h1 b))\<lparr>n_next := n_next n\<rparr>))
      in s\<lparr>dl_heap := h2,
           dl_tail := (if n_next n = None then n_prev n else dl_tail s),
           dl_head := (if n_prev n = None then n_next n else dl_head s)\<rparr>)"

lemma dl_unlink:
  assumes ok: "dl_ok s (xs @ a # ys)" and n: "dl_heap s a = Some n"
  shows "dl_ok (unlink s a n) (xs @ ys)"
    and "dl_heap (unlink s a n) a = Some n"
    and "map_option n_val (dl_heap (unlink s a n) b) = map_option n_val (dl_heap s b)"
    and "n_next n = (if ys = [] then None else Some (hd ys))" "n_prev n = (if xs = [] then None else Some (last xs))"
proof -
  let ?h = "dl_heap s"
  have d: "distinct (xs @ a # ys)" and brk: "\<forall>b \<in> dom ?h. b < dl_brk s" using ok by (auto simp: dl_ok_def)
  obtain mv where seg1: "dseg ?h None (dl_head s) xs mv (Some a)" and pv: "n_prev n = mv"
    and seg2: "dseg ?h (Some a) (n_next n) ys (dl_tail s) None"
    using ok n by (auto simp: dl_ok_def dseg_append)
  show nx: "n_next n = (if ys = [] then None else Some (hd ys))" using seg2 by (cases ys) auto
  show px: "n_prev n = (if xs = [] then None else Some (last xs))"
    using seg1 pv by (cases xs rule: rev_cases) (auto simp: dseg_snoc)
  define h1 where "h1 = (case n_next n of None \<Rightarrow> ?h | Some b \<Rightarrow> ?h(b \<mapsto> (the (?h b))\<lparr>n_prev := n_prev n\<rparr>))"
  define h2 where "h2 = (case n_prev n of None \<Rightarrow> h1 | Some b \<Rightarrow> h1(b \<mapsto> (the (h1 b))\<lparr>n_next := n_next n\<rparr>))"
  have un: "unlink s a n = s\<lparr>dl_heap := h2, dl_tail := (if n_next n = None then n_prev n else dl_tail s),
      dl_head := (if n_prev n = None then n_next n else dl_head s)\<rparr>"
    unfolding unlink_def h1_def h2_def Let_def by (rule refl)
  have alloc: "\<exists>n. ?h b = Some n" if "b \<in> set (xs @ a # ys)" for b using dl_ok_alloc [OF ok that] .
  have s2: "dseg h1 mv (n_next n) ys (if ys = [] then mv else dl_tail s) None"
  proof (cases ys)
    case Nil
    with nx seg2 show ?thesis by simp
  next
    case (Cons b zs)
    then obtain nb where nb: "?h b = Some nb" using alloc [of b] by auto
    then have "h1 = ?h(b \<mapsto> nb\<lparr>n_prev := mv\<rparr>)" using nx Cons pv by (simp add: h1_def)
    with dseg_set_first [OF seg2 [unfolded Cons] _ nb, of mv] d Cons show ?thesis by simp
  qed
  have s1: "dseg h1 None (dl_head s) xs mv (Some a)" using seg1 nx d by (cases ys) (auto simp: h1_def)
  have a1: "\<exists>n. h1 b = Some n" if "b \<in> set (xs @ a # ys)" for b
    using alloc [OF that] by (auto simp: h1_def split: option.splits)
  have join: "dseg h2 None (if xs = [] then n_next n else dl_head s) (xs @ ys) (if ys = [] then mv else dl_tail s) None"
  proof (cases xs rule: rev_cases)
    case Nil
    with s2 seg1 pv show ?thesis by (simp add: h2_def)
  next
    case (snoc zs b)
    then obtain nb where nb: "h1 b = Some nb" using a1 [of b] by auto
    have mv: "mv = Some b" using px pv snoc by simp
    then have h2: "h2 = h1(b \<mapsto> nb\<lparr>n_next := n_next n\<rparr>)" using pv nb by (simp add: h2_def)
    have "dseg h2 None (dl_head s) xs mv (n_next n)"
      using dseg_set_last [OF s1 [unfolded snoc] _ nb, of "n_next n"] d snoc h2 by simp
    moreover have "dseg h2 mv (n_next n) ys (if ys = [] then mv else dl_tail s) None"
      using s2 d snoc h2 by simp
    ultimately have "dseg h2 None (dl_head s) (xs @ ys) (if ys = [] then mv else dl_tail s) None"
      using dseg_append by blast
    with snoc show ?thesis by simp
  qed
  have dom1: "dom h1 = dom ?h" using nx alloc [of "hd ys"] by (cases ys) (auto simp: h1_def)
  have "dom h2 = dom h1" using px a1 [of "last xs"] by (cases "xs = []") (auto simp: h2_def)
  then have brk2: "\<forall>b \<in> dom h2. b < dl_brk s" using dom1 brk by simp
  have tl: "(if ys = [] then mv else dl_tail s) = (if n_next n = None then n_prev n else dl_tail s)"
    and hd: "(if xs = [] then n_next n else dl_head s) = (if n_prev n = None then n_next n else dl_head s)"
    using nx px pv by auto
  show "dl_ok (unlink s a n) (xs @ ys)"
    using join [unfolded tl hd] d brk2 by (simp add: dl_ok_def un)
  have nb1: "n_next n \<noteq> Some a" "n_prev n \<noteq> Some a" using nx px d by (auto split: if_splits)
  then show "dl_heap (unlink s a n) a = Some n"
    using n by (auto simp: un h1_def h2_def split: option.splits)
  have "map_option n_val (h1 b) = map_option n_val (?h b)"
    using nx alloc [of "hd ys"] by (cases "ys = []") (auto simp: h1_def)
  moreover have "map_option n_val (h2 b) = map_option n_val (h1 b)"
    using px a1 [of "last xs"] by (cases "xs = []") (auto simp: h2_def)
  ultimately show "map_option n_val (dl_heap (unlink s a n) b) = map_option n_val (dl_heap s b)" by (simp add: un)
qed

end
