(* ===== verification/Printd_Queue.thy ===== *)
theory Printd_Queue
  imports Dl_List Posix_File
begin

text \<open>
  The shared state of the print daemon \<open>printer/printd.c\<close> and the functions that keep it: the
  queue of pending jobs, the job numbers and their file, the list of worker threads. The job
  queue is a first-in first-out queue with a way back to the front for a job the printer did
  not take; the interface is the locale \<open>pending\<close>.
\<close>

section \<open>State\<close>

record printreq =
  r_size :: "32 word"
  r_flags :: "32 word"
  r_usernm :: string      \<comment> \<open>\<open>char usernm[USERNM_MAX]\<close>, all its bytes\<close>
  r_jobnm :: string       \<comment> \<open>\<open>char jobnm[JOBNM_MAX]\<close>, all its bytes\<close>

record job =
  jobid :: "32 word"
  req :: printreq

record worker =
  w_tid :: nat
  w_sockfd :: int

text \<open>
  The globals of \<open>printd.c\<close>. The job list is the list part of the record (\<open>dl_head\<close> is
  \<open>jobhead\<close>, \<open>dl_tail\<close> is \<open>jobtail\<close>); \<open>workers\<close> is a list of its own whose tail is not used.
  \<open>pd_faults\<close> says which of the coming system calls on the job file fail. A mutex is held or not; \<open>jobwait\<close> counts the signals sent to the condition variable;
  \<open>cancelled\<close> and \<open>closed\<close> are the threads cancelled and the descriptors closed so far.
\<close>

record printd = "job dlist" +
  joblock :: bool
  configlock :: bool
  workerlock :: bool
  jobwait :: nat
  nextjob :: "32 word"
  jobfd :: ofile
  reread :: bool
  printer :: "string option"
  workers :: "worker dlist"
  cancelled :: "nat list"
  closed :: "int list"
  pd_faults :: "bool list"

definition lock_joblock :: "(printd, unit) io" where
  "lock_joblock s = (if joblock s then Inl Blocked else Inr ((), s\<lparr>joblock := True\<rparr>))"

definition unlock_joblock :: "(printd, unit) io" where
  "unlock_joblock = modify_io (\<lambda>s. s\<lparr>joblock := False\<rparr>)"

definition lock_workerlock :: "(printd, unit) io" where
  "lock_workerlock s = (if workerlock s then Inl Blocked else Inr ((), s\<lparr>workerlock := True\<rparr>))"

definition unlock_workerlock :: "(printd, unit) io" where
  "unlock_workerlock = modify_io (\<lambda>s. s\<lparr>workerlock := False\<rparr>)"

section \<open>Job numbers\<close>

text \<open>
  The \<open>int32_t\<close> counter wraps, as the test after the increment expects. (The C standard leaves the
  overflow of a signed integer undefined; the model has the behaviour that the test relies on.)
\<close>

definition get_newjobno :: "(printd, 32 word) io" where
  "get_newjobno =
     seq_io lock_joblock
     (bind_io (gets_io nextjob) (\<lambda>jobid.
      seq_io (modify_io (\<lambda>s. s\<lparr>nextjob := nextjob s + 1\<rparr>))
     (seq_io (modify_io (\<lambda>s. if sint (nextjob s) \<le> 0 then s\<lparr>nextjob := 1\<rparr> else s))
     (seq_io unlock_joblock (ret_io jobid)))))"

definition pd_fault :: "(printd, bool) io" where
  "pd_fault s = (case pd_faults s of [] \<Rightarrow> Inr (False, s) | b # bs \<Rightarrow> Inr (b, s\<lparr>pd_faults := bs\<rparr>))"

text \<open>
  \<open>init_request\<close>: the lock on the whole file keeps a second daemon out (\<open>write_lock\<close> returns
  -1, also when \<open>open\<close> failed); an empty file starts the numbers at 1. The buffer the number
  is read into still holds the file name, which ends the digits.
\<close>

abbreviation JOBPATH :: string where "JOBPATH \<equiv> ''/var/spool/printer/jobno''"

definition init_request :: "nat \<Rightarrow> (printd, unit) io" where
  "init_request pid =
     bind_io pd_fault (\<lambda>nofile.
     bind_io (\<lambda>s. if nofile then Inr (-1, s)
                else case write_lock pid (jobfd s) 0 SEEK_SET 0 of
                  Inl e \<Rightarrow> Inl e
                | Inr (v, f) \<Rightarrow> Inr (v, s\<lparr>jobfd := f\<rparr>)) (\<lambda>v.
     if v < 0 then fail_io (QuitExit ''daemon already running'')
     else bind_io pd_fault (\<lambda>bad.
       if bad then fail_io (SysExit ''can't read job file'')
       else bind_io (\<lambda>s. case read_file (jobfd s) 64 of (bs, f) \<Rightarrow> Inr (bs, s\<lparr>jobfd := f\<rparr>)) (\<lambda>bs.
         modify_io (\<lambda>s. s\<lparr>nextjob :=
           (if bs = [] then 1 else word_of_int (atol (bs @ drop (length bs) (JOBPATH @ [NUL]))))\<rparr>)))))"

definition update_jobno :: "(printd, unit) io" where
  "update_jobno =
     bind_io pd_fault (\<lambda>bad.
     if bad then fail_io (SysExit ''can't seek in job file'')
     else seq_io (modify_io (\<lambda>s. s\<lparr>jobfd := snd (lseek (jobfd s) 0 SEEK_SET)\<rparr>))
       (bind_io pd_fault (\<lambda>bad2.
        if bad2 then fail_io (SysExit ''can't update job file'')
        else modify_io (\<lambda>s. s\<lparr>jobfd := write_file (jobfd s) (dec_int (sint (nextjob s)))\<rparr>))))"

section \<open>The job queue\<close>

definition add_job :: "printreq \<Rightarrow> 32 word \<Rightarrow> (printd, unit) io" where
  "add_job reqp jid =
     bind_io (new_node \<lparr>jobid = jid, req = reqp\<rparr>) (\<lambda>jp.
     if jp = None then fail_io (SysExit ''malloc failed'')
     else
       seq_io (set_next jp None)
      (seq_io lock_joblock
      (bind_io (gets_io dl_tail) (\<lambda>jobtail.
       seq_io (set_prev jp jobtail)
      (seq_io (if jobtail = None then modify_io (\<lambda>s. s\<lparr>dl_head := jp\<rparr>) else set_next jobtail jp)
      (seq_io (modify_io (\<lambda>s. s\<lparr>dl_tail := jp\<rparr>))
      (seq_io unlock_joblock
      (modify_io (\<lambda>s. s\<lparr>jobwait := Suc (jobwait s)\<rparr>)))))))))"

definition replace_job :: "addr option \<Rightarrow> (printd, unit) io" where
  "replace_job jp =
     seq_io lock_joblock
     (seq_io (set_prev jp None)
     (bind_io (gets_io dl_head) (\<lambda>jobhead.
      seq_io (set_next jp jobhead)
     (seq_io (if jobhead = None then modify_io (\<lambda>s. s\<lparr>dl_tail := jp\<rparr>) else set_prev jobhead jp)
     (seq_io (modify_io (\<lambda>s. s\<lparr>dl_head := jp\<rparr>))
      unlock_joblock)))))"

text \<open>\<open>remove_job\<close>; its caller holds \<open>joblock\<close>.\<close>

definition remove_job :: "addr option \<Rightarrow> (printd, unit) io" where
  "remove_job target =
     bind_io (at_node target n_next) (\<lambda>nx.
     bind_io (at_node target n_prev) (\<lambda>pv.
     seq_io (if nx \<noteq> None then set_prev nx pv else modify_io (\<lambda>s. s\<lparr>dl_tail := pv\<rparr>))
     (if pv \<noteq> None then set_next pv nx else modify_io (\<lambda>s. s\<lparr>dl_head := nx\<rparr>))))"

text \<open>
  The beginning of the printer thread's loop: with \<open>joblock\<close> held, take the head of the list
  off; \<open>pthread_cond_wait\<close> blocks while the list is empty.
\<close>

definition pick_job :: "(printd, addr option) io" where
  "pick_job =
     seq_io lock_joblock
     (bind_io (gets_io dl_head) (\<lambda>jp.
      if jp = None then fail_io Blocked
      else seq_io (remove_job jp) (seq_io unlock_joblock (ret_io jp))))"

section \<open>Workers\<close>

text \<open>An operation on the worker list inside the daemon.\<close>

definition on_workers :: "(worker dlist, 'a) io \<Rightarrow> (printd, 'a) io" where
  "on_workers m s = (case m (workers s) of Inl e \<Rightarrow> Inl e | Inr (x, w) \<Rightarrow> Inr (x, s\<lparr>workers := w\<rparr>))"

text \<open>\<open>add_worker\<close>; when memory is exhausted (\<open>False\<close>) the calling thread ends with status 1.\<close>

definition add_worker :: "nat \<Rightarrow> int \<Rightarrow> (printd, bool) io" where
  "add_worker tid sockfd =
     bind_io (on_workers (new_node \<lparr>w_tid = tid, w_sockfd = sockfd\<rparr>)) (\<lambda>wtp.
     if wtp = None then ret_io False
     else
       seq_io lock_workerlock
      (seq_io (on_workers (set_prev wtp None))
      (bind_io (gets_io (\<lambda>s. dl_head (workers s))) (\<lambda>wkhead.
       seq_io (on_workers (set_next wtp wkhead))
      (seq_io (if wkhead = None
               then on_workers (modify_io (\<lambda>w. w\<lparr>dl_head := wtp\<rparr>))
               else on_workers (set_prev wkhead wtp))
      (seq_io unlock_workerlock (ret_io True)))))))"

text \<open>The walk along the worker list; the number of allocated nodes bounds it.\<close>

fun worker_walk :: "nat \<Rightarrow> addr option \<Rightarrow> worker dlist \<Rightarrow> exit_reason + addr list" where
  "worker_walk fuel None w = Inr []"
| "worker_walk 0 (Some a) w = Inl Diverges"
| "worker_walk (Suc n) (Some a) w =
     (case dl_heap w a of
        None \<Rightarrow> Inl (Undefined ''dangling pointer'')
      | Some nd \<Rightarrow> (case worker_walk n (n_next nd) w of Inl e \<Rightarrow> Inl e | Inr as \<Rightarrow> Inr (a # as)))"

definition worker_list :: "(printd, addr list) io" where
  "worker_list s =
     (case worker_walk (dl_brk (workers s)) (dl_head (workers s)) (workers s) of
        Inl e \<Rightarrow> Inl e
      | Inr as \<Rightarrow> Inr (as, s))"

definition kill_workers :: "(printd, unit) io" where
  "kill_workers =
     seq_io lock_workerlock
     (bind_io worker_list (\<lambda>as.
      seq_io (modify_io (\<lambda>s. s\<lparr>cancelled := cancelled s @ map (\<lambda>a. w_tid (n_val (the (dl_heap (workers s) a)))) as\<rparr>))
        unlock_workerlock))"

text \<open>\<open>client_cleanup\<close>: the first worker with the thread's identifier leaves the list.\<close>

definition client_cleanup :: "nat \<Rightarrow> (printd, unit) io" where
  "client_cleanup tid =
     seq_io lock_workerlock
     (bind_io worker_list (\<lambda>as.
      bind_io (gets_io (\<lambda>s. find (\<lambda>a. w_tid (n_val (the (dl_heap (workers s) a))) = tid) as)) (\<lambda>wtp.
      seq_io (case wtp of
          None \<Rightarrow> ret_io ()
        | Some a \<Rightarrow>
            bind_io (on_workers (at_node wtp n_next)) (\<lambda>nx.
            bind_io (on_workers (at_node wtp n_prev)) (\<lambda>pv.
            seq_io (when_io (nx \<noteq> None) (on_workers (set_prev nx pv)))
              (if pv \<noteq> None then on_workers (set_next pv nx)
               else on_workers (modify_io (\<lambda>w. w\<lparr>dl_head := nx\<rparr>))))))
     (seq_io unlock_workerlock
      (when_io (wtp \<noteq> None)
        (bind_io (on_workers (at_node wtp (\<lambda>n. w_sockfd (n_val n)))) (\<lambda>fd.
         seq_io (modify_io (\<lambda>s. s\<lparr>closed := closed s @ [fd]\<rparr>))
           (on_workers (free_node wtp)))))))))"

text \<open>One signal handled by the signal thread.\<close>

datatype signal = SIGHUP | SIGTERM | SIGOTHER nat

definition signal_step :: "(int + signal) \<Rightarrow> (printd, unit) io" where
  "signal_step sg =
     (case sg of
        Inl err \<Rightarrow> fail_io (QuitExit ''sigwait failed'')
      | Inr SIGHUP \<Rightarrow>
          seq_io (\<lambda>s. if configlock s then Inl Blocked else Inr ((), s\<lparr>configlock := True\<rparr>))
            (seq_io (modify_io (\<lambda>s. s\<lparr>reread := True\<rparr>)) (modify_io (\<lambda>s. s\<lparr>configlock := False\<rparr>)))
      | Inr SIGTERM \<Rightarrow> seq_io kill_workers (fail_io (Exit 0))
      | Inr (SIGOTHER n) \<Rightarrow> seq_io kill_workers (fail_io (QuitExit ''unexpected signal'')))"

section \<open>What the queue operations do\<close>

text \<open>
  The daemon's queue holds the jobs \<open>q\<close>, in this order; \<open>held\<close> is the job the printer thread
  has taken off and not yet disposed of. The mutex is free and memory is available.
\<close>

definition pq_rep :: "printd \<Rightarrow> job list \<Rightarrow> (addr \<times> job) option \<Rightarrow> bool" where
  "pq_rep s q held \<longleftrightarrow>
     (\<exists>js. dl_ok s js \<and> dl_vals s js = q \<and> \<not> joblock s \<and> dl_oom s = [] \<and>
        (case held of None \<Rightarrow> True
         | Some (a, v) \<Rightarrow> a \<notin> set js \<and> map_option n_val (dl_heap s a) = Some v))"

lemma dl_vals_cong:
  "(\<And>a. a \<in> set as \<Longrightarrow> map_option n_val (dl_heap s' a) = map_option n_val (dl_heap s a)) \<Longrightarrow>
   (\<And>a. a \<in> set as \<Longrightarrow> dl_heap s a \<noteq> None) \<Longrightarrow> dl_vals s' as = dl_vals s as"
  unfolding dl_vals_def by (rule map_cong [OF refl]) (force simp: map_option_case split: option.splits)

lemma add_job_run:
  assumes ok: "dl_ok s js" and nl: "\<not> joblock s" and oom: "dl_oom s = []"
  defines "a \<equiv> dl_brk s"
  shows "\<exists>s'. add_job r i s = Inr ((), s') \<and> dl_ok s' (js @ [a]) \<and>
     dl_vals s' (js @ [a]) = dl_vals s js @ [\<lparr>jobid = i, req = r\<rparr>] \<and> \<not> joblock s' \<and> dl_oom s' = [] \<and>
     jobwait s' = Suc (jobwait s) \<and> nextjob s' = nextjob s \<and>
     (\<forall>b. b \<notin> set js \<longrightarrow> b \<noteq> a \<longrightarrow> dl_heap s' b = dl_heap s b)"
proof -
  let ?v = "\<lparr>jobid = i, req = r\<rparr>"
  let ?n = "\<lparr>n_next = None, n_prev = dl_tail s, n_val = ?v\<rparr>"
  define h' where "h' = (case dl_tail s of None \<Rightarrow> dl_heap s
      | Some t \<Rightarrow> (dl_heap s)(t \<mapsto> (the (dl_heap s t))\<lparr>n_next := Some a\<rparr>))"
  have an: "a \<notin> set js" using dl_ok_fresh_notin [OF ok] by (simp add: a_def)
  have "distinct (js @ [a]) \<and>
     dseg (h'(a \<mapsto> ?n)) None (if dl_tail s = None then Some a else dl_head s) (js @ [a]) (Some a) None \<and>
     (\<forall>b \<in> dom (h'(a \<mapsto> ?n)). b < Suc a) \<and> (\<forall>b. b \<noteq> a \<longrightarrow> map_option n_val (h' b) = map_option n_val (dl_heap s b))"
    by (rule dl_append [OF ok an _ _ h'_def]) (simp_all add: a_def)
  then have d: "distinct (js @ [a])"
    and seg: "dseg (h'(a \<mapsto> ?n)) None (if dl_tail s = None then Some a else dl_head s) (js @ [a]) (Some a) None"
    and dom: "\<forall>b \<in> dom (h'(a \<mapsto> ?n)). b < Suc a"
    and vals: "\<And>b. b \<noteq> a \<Longrightarrow> map_option n_val (h' b) = map_option n_val (dl_heap s b)" by blast+
  let ?s' = "s\<lparr>dl_heap := h'(a \<mapsto> ?n), dl_brk := Suc a, dl_head := (if dl_tail s = None then Some a else dl_head s),
      dl_tail := Some a, dl_oom := [], joblock := False, jobwait := Suc (jobwait s)\<rparr>"
  have tail: "\<exists>nt. dl_heap s t = Some nt" "t \<noteq> a" if "dl_tail s = Some t" for t
    using that dl_ok_tail [OF ok] dl_ok_alloc [OF ok, of t] an by (auto split: if_splits)
  have run: "add_job r i s = Inr ((), ?s')"
  proof (cases "dl_tail s")
    case None
    then show ?thesis using nl oom
      by (simp add: add_job_def io_simps new_node_def lock_joblock_def unlock_joblock_def a_def h'_def dlist_order)
  next
    case (Some t)
    obtain nt where "dl_heap s t = Some nt" "t \<noteq> dl_brk s" using tail [OF Some] by (auto simp: a_def)
    then show ?thesis using nl oom Some
      by (simp add: add_job_def io_simps new_node_def lock_joblock_def unlock_joblock_def a_def h'_def fun_upd_twist dlist_order)
  qed
  have "dl_ok ?s' (js @ [a])" using d seg dom by (simp add: dl_ok_def)
  moreover have "dl_vals ?s' js = dl_vals s js"
    by (rule dl_vals_cong) (use vals an dl_ok_alloc [OF ok] in auto)
  then have "dl_vals ?s' (js @ [a]) = dl_vals s js @ [?v]" by (simp add: dl_vals_def)
  moreover have "dl_heap ?s' b = dl_heap s b" if "b \<notin> set js" "b \<noteq> a" for b
    using that dl_ok_tail [OF ok] by (auto simp: h'_def split: option.splits if_splits)
  ultimately show ?thesis using run nl oom by (intro exI [of _ ?s']) auto
qed

lemma remove_job_run:
  assumes ok: "dl_ok s (xs @ a # ys)" and n: "dl_heap s a = Some n"
  shows "remove_job (Some a) s = Inr ((), unlink s a n)"
proof -
  note u = dl_unlink(4,5) [OF ok n]
  have nx: "\<exists>m. dl_heap s b = Some m" if "n_next n = Some b" for b
    using that u(1) dl_ok_alloc [OF ok, of b] by (cases ys) auto
  have pv: "\<exists>m. dl_heap s b = Some m" if "n_prev n = Some b" for b
    using that u(2) dl_ok_alloc [OF ok, of b] by (auto split: if_splits)
  note rd = remove_job_def io_simps unlink_def Let_def dlist_order
  show ?thesis
  proof (cases "n_next n")
    case None
    with n pv show ?thesis by (cases "n_prev n") (auto simp: rd)
  next
    case (Some b)
    then obtain m where m: "dl_heap s b = Some m" using nx by blast
    show ?thesis
    proof (cases "n_prev n")
      case None
      with Some n m show ?thesis by (simp add: rd)
    next
      case (Some c)
      then obtain m' where "dl_heap s c = Some m'" using pv by blast
      with Some \<open>n_next n = Some b\<close> n m show ?thesis by (cases "c = b") (simp_all add: rd)
    qed
  qed
qed

lemma unlink_scheme [simp]:
  "joblock (unlink s a n) = joblock s" "dl_oom (unlink s a n) = dl_oom s" "dl_brk (unlink s a n) = dl_brk s"
  "nextjob (unlink s a n) = nextjob s"
  by (simp_all add: unlink_def Let_def)

lemma dl_ok_ext: "dl_heap s' = dl_heap s \<Longrightarrow> dl_head s' = dl_head s \<Longrightarrow> dl_tail s' = dl_tail s \<Longrightarrow>
  dl_brk s' = dl_brk s \<Longrightarrow> dl_ok s' as = dl_ok s as"
  by (simp add: dl_ok_def)

lemma pick_job_rep:
  assumes "pq_rep s (v # q) None"
  shows "\<exists>a s'. pick_job s = Inr (Some a, s') \<and> pq_rep s' q (Some (a, v))"
proof -
  obtain js where ok: "dl_ok s js" and vs: "dl_vals s js = v # q" and nl: "\<not> joblock s" "dl_oom s = []"
    using assms by (auto simp: pq_rep_def)
  obtain a ys where js: "js = a # ys" and vv: "n_val (the (dl_heap s a)) = v" "dl_vals s ys = q"
    using vs by (cases js) (auto simp: dl_vals_def)
  obtain n where n: "dl_heap s a = Some n" using dl_ok_alloc [OF ok] js by auto
  let ?s1 = "s\<lparr>joblock := True\<rparr>"
  have ok1: "dl_ok ?s1 ([] @ a # ys)" using ok js by (simp add: dl_ok_def)
  have n1: "dl_heap ?s1 a = Some n" using n by simp
  note u = dl_unlink [OF ok1 n1]
  let ?s2 = "(unlink ?s1 a n)\<lparr>joblock := False\<rparr>"
  have run: "pick_job s = Inr (Some a, ?s2)"
    using nl dl_ok_head [OF ok] js remove_job_run [OF ok1 n1]
    by (simp add: pick_job_def io_simps lock_joblock_def unlock_joblock_def)
  have "dl_ok ?s2 ys" using u(1) by (simp add: dl_ok_def)
  moreover have "dl_vals ?s2 ys = q"
    using vv(2) dl_vals_cong [of ys ?s2 s] u(3) dl_ok_alloc [OF ok] js by auto
  moreover have "a \<notin> set ys" using ok js by (auto simp: dl_ok_def)
  moreover have "map_option n_val (dl_heap ?s2 a) = Some v" using u(2) n vv(1) by simp
  ultimately have "pq_rep ?s2 q (Some (a, v))" using nl unfolding pq_rep_def by auto
  with run show ?thesis by blast
qed

lemma replace_job_rep:
  assumes "pq_rep s q (Some (a, v))"
  shows "\<exists>s'. replace_job (Some a) s = Inr ((), s') \<and> pq_rep s' (v # q) None"
proof -
  obtain js where ok: "dl_ok s js" and vs: "dl_vals s js = q" and nl: "\<not> joblock s" "dl_oom s = []"
    and a: "a \<notin> set js" "map_option n_val (dl_heap s a) = Some v"
    using assms by (auto simp: pq_rep_def)
  obtain n where n: "dl_heap s a = Some n" "n_val n = v" using a(2) by auto
  let ?n = "n\<lparr>n_prev := None, n_next := dl_head s\<rparr>"
  define h' where "h' = (case dl_head s of None \<Rightarrow> dl_heap s
      | Some t \<Rightarrow> (dl_heap s)(t \<mapsto> (the (dl_heap s t))\<lparr>n_prev := Some a\<rparr>))"
  have ab: "a < dl_brk s" using ok n by (auto simp: dl_ok_def)
  have "distinct (a # js) \<and>
     dseg (h'(a \<mapsto> ?n)) None (Some a) (a # js) (if dl_head s = None then Some a else dl_tail s) None \<and>
     (\<forall>b \<in> dom (h'(a \<mapsto> ?n)). b < dl_brk s) \<and> (\<forall>b. b \<noteq> a \<longrightarrow> map_option n_val (h' b) = map_option n_val (dl_heap s b))"
    by (rule dl_push [OF ok a(1) ab _ h'_def]) simp_all
  then have d: "distinct (a # js)"
    and seg: "dseg (h'(a \<mapsto> ?n)) None (Some a) (a # js) (if dl_head s = None then Some a else dl_tail s) None"
    and dom: "\<forall>b \<in> dom (h'(a \<mapsto> ?n)). b < dl_brk s"
    and vals: "\<And>b. b \<noteq> a \<Longrightarrow> map_option n_val (h' b) = map_option n_val (dl_heap s b)" by blast+
  let ?s' = "s\<lparr>dl_heap := h'(a \<mapsto> ?n), dl_head := Some a,
      dl_tail := (if dl_head s = None then Some a else dl_tail s), joblock := False\<rparr>"
  have run: "replace_job (Some a) s = Inr ((), ?s')"
  proof (cases "dl_head s")
    case None
    then show ?thesis using nl n
      by (simp add: replace_job_def io_simps lock_joblock_def unlock_joblock_def h'_def dlist_order)
  next
    case (Some t)
    then obtain nt where "dl_heap s t = Some nt" "t \<noteq> a"
      using dl_ok_head [OF ok] dl_ok_alloc [OF ok, of t] a(1) by (auto split: list.splits)
    then show ?thesis using nl n Some
      by (simp add: replace_job_def io_simps lock_joblock_def unlock_joblock_def h'_def dlist_order fun_upd_twist)
  qed
  have "dl_ok ?s' (a # js)" using d seg dom by (simp add: dl_ok_def)
  moreover have "dl_vals ?s' js = q"
    unfolding vs [symmetric] by (rule dl_vals_cong) (use vals a(1) dl_ok_alloc [OF ok] in auto)
  then have "dl_vals ?s' (a # js) = v # q" using n by (simp add: dl_vals_def)
  ultimately have "pq_rep ?s' (v # q) None" using nl unfolding pq_rep_def by auto
  with run show ?thesis by blast
qed

lemma free_job_rep:
  assumes "pq_rep s q (Some (a, v))"
  shows "\<exists>s'. free_node (Some a) s = Inr ((), s') \<and> pq_rep s' q None"
proof -
  obtain js where ok: "dl_ok s js" and vs: "dl_vals s js = q" and nl: "\<not> joblock s" "dl_oom s = []"
    and a: "a \<notin> set js" "map_option n_val (dl_heap s a) = Some v"
    using assms by (auto simp: pq_rep_def)
  obtain n where n: "dl_heap s a = Some n" using a(2) by auto
  let ?s' = "s\<lparr>dl_heap := (dl_heap s)(a := None)\<rparr>"
  have "dl_ok ?s' js" using ok a by (auto simp: dl_ok_def)
  moreover have "dl_vals ?s' js = q"
    unfolding vs [symmetric] by (rule dl_vals_cong) (use a(1) dl_ok_alloc [OF ok] in auto)
  ultimately have "pq_rep ?s' q None" using nl unfolding pq_rep_def by auto
  with n show ?thesis by (simp add: free_node_def)
qed

lemma add_job_rep:
  assumes "pq_rep s q held"
  shows "\<exists>s'. add_job r i s = Inr ((), s') \<and> pq_rep s' (q @ [\<lparr>jobid = i, req = r\<rparr>]) held"
proof -
  obtain js where ok: "dl_ok s js" and vs: "dl_vals s js = q" and nl: "\<not> joblock s" "dl_oom s = []"
    and h: "case held of None \<Rightarrow> True | Some (a, v) \<Rightarrow> a \<notin> set js \<and> map_option n_val (dl_heap s a) = Some v"
    using assms by (auto simp: pq_rep_def)
  obtain s' where s': "add_job r i s = Inr ((), s')" "dl_ok s' (js @ [dl_brk s])"
    "dl_vals s' (js @ [dl_brk s]) = q @ [\<lparr>jobid = i, req = r\<rparr>]" "\<not> joblock s'" "dl_oom s' = []"
    "\<forall>b. b \<notin> set js \<longrightarrow> b \<noteq> dl_brk s \<longrightarrow> dl_heap s' b = dl_heap s b"
    using add_job_run [OF ok nl] vs by metis
  have "case held of None \<Rightarrow> True
     | Some (a, v) \<Rightarrow> a \<notin> set (js @ [dl_brk s]) \<and> map_option n_val (dl_heap s' a) = Some v"
    using h s'(6) dl_ok_fresh [OF ok] by (fastforce split: option.splits)
  with s' show ?thesis unfolding pq_rep_def by blast
qed

section \<open>The interface of the queue\<close>

text \<open>
  What the threads of the daemon rely on: jobs are added behind the others, taken off in
  front, and a job in hand is put back in front or disposed of.
\<close>

text \<open>
  The steps of the threads, one critical section of \<open>joblock\<close> each: what the functions do
  outside it (allocating a job, freeing it, signalling) touches no job of another thread.
  Between the step in which the printer thread takes a job off the list and the one in which
  it disposes of it or puts it back, clients may queue any number of jobs.
\<close>

datatype qev =
    Add printreq "32 word"    \<comment> \<open>a client's job is queued\<close>
  | Pick                      \<comment> \<open>the printer thread takes the first job off the list\<close>
  | Printed                   \<comment> \<open>the printer thread disposes of the job in hand\<close>
  | Deferred                  \<comment> \<open>the printer thread puts the job in hand back\<close>

text \<open>The steps on the list of jobs and the job in hand, with the jobs disposed of.\<close>

fun qev_spec :: "qev \<Rightarrow> job list \<times> job option \<Rightarrow> job list \<times> job list \<times> job option" where
  "qev_spec (Add r i) (q, h) = ([], q @ [\<lparr>jobid = i, req = r\<rparr>], h)"
| "qev_spec Pick (q, h) = ([], tl q, Some (hd q))"
| "qev_spec Printed (q, h) = ([the h], q, None)"
| "qev_spec Deferred (q, h) = ([], the h # q, None)"

fun qrun_spec :: "qev list \<Rightarrow> job list \<times> job option \<Rightarrow> job list \<times> job list \<times> job option" where
  "qrun_spec [] st = ([], st)"
| "qrun_spec (e # es) st =
     (case qev_spec e st of (d, st1) \<Rightarrow> case qrun_spec es st1 of (ds, st2) \<Rightarrow> (d @ ds, st2))"

text \<open>The steps on an implementation; \<open>jp\<close> is the printer thread's pointer to the job in hand.\<close>

fun qev_run ::
  "(printreq \<Rightarrow> 32 word \<Rightarrow> ('s, unit) io) \<Rightarrow> ('s, addr option) io \<Rightarrow> (addr option \<Rightarrow> ('s, unit) io)
    \<Rightarrow> (addr option \<Rightarrow> ('s, unit) io) \<Rightarrow> (addr option \<Rightarrow> ('s, job) io) \<Rightarrow> qev \<Rightarrow> addr option
    \<Rightarrow> ('s, job list \<times> addr option) io" where
  "qev_run add pick putback dispose look (Add r i) jp = seq_io (add r i) (ret_io ([], jp))"
| "qev_run add pick putback dispose look Pick jp = bind_io pick (\<lambda>jp'. ret_io ([], jp'))"
| "qev_run add pick putback dispose look Printed jp =
     bind_io (look jp) (\<lambda>v. seq_io (dispose jp) (ret_io ([v], None)))"
| "qev_run add pick putback dispose look Deferred jp = seq_io (putback jp) (ret_io ([], None))"

fun qrun ::
  "(printreq \<Rightarrow> 32 word \<Rightarrow> ('s, unit) io) \<Rightarrow> ('s, addr option) io \<Rightarrow> (addr option \<Rightarrow> ('s, unit) io)
    \<Rightarrow> (addr option \<Rightarrow> ('s, unit) io) \<Rightarrow> (addr option \<Rightarrow> ('s, job) io) \<Rightarrow> qev list \<Rightarrow> addr option
    \<Rightarrow> ('s, job list \<times> addr option) io" where
  "qrun add pick putback dispose look [] jp = ret_io ([], jp)"
| "qrun add pick putback dispose look (e # es) jp =
     bind_io (qev_run add pick putback dispose look e jp) (\<lambda>(d, jp1).
     bind_io (qrun add pick putback dispose look es jp1) (\<lambda>(ds, jp2). ret_io (d @ ds, jp2)))"

text \<open>
  The sequences of steps the threads can make from a list of \<open>n\<close> jobs, with or without a job
  in hand: the printer thread waits while the list is empty, and has one job in hand at most.
\<close>

fun qsched :: "nat \<Rightarrow> bool \<Rightarrow> qev list \<Rightarrow> bool" where
  "qsched n hand [] = True"
| "qsched n hand (Add r i # es) = qsched (Suc n) hand es"
| "qsched n hand (Pick # es) = (\<not> hand \<and> 0 < n \<and> qsched (n - 1) True es)"
| "qsched n hand (Printed # es) = (hand \<and> qsched n False es)"
| "qsched n hand (Deferred # es) = (hand \<and> qsched (Suc n) False es)"

text \<open>The implementation's job in hand is that of the list.\<close>

definition in_hand :: "('s \<Rightarrow> job list \<Rightarrow> (addr \<times> job) option \<Rightarrow> bool) \<Rightarrow> 's \<Rightarrow> addr option \<Rightarrow> job list \<times> job option \<Rightarrow> bool" where
  "in_hand rep s jp st \<longleftrightarrow>
     (case st of (q, None) \<Rightarrow> jp = None \<and> rep s q None | (q, Some v) \<Rightarrow> (\<exists>a. jp = Some a \<and> rep s q (Some (a, v))))"

locale pending =
  fixes rep :: "'s \<Rightarrow> job list \<Rightarrow> (addr \<times> job) option \<Rightarrow> bool"
    and add :: "printreq \<Rightarrow> 32 word \<Rightarrow> ('s, unit) io"
    and pick :: "('s, addr option) io"
    and putback :: "addr option \<Rightarrow> ('s, unit) io"
    and dispose :: "addr option \<Rightarrow> ('s, unit) io"
    and look :: "addr option \<Rightarrow> ('s, job) io"
  assumes add_law: "rep s q h \<Longrightarrow> \<exists>s'. add r i s = Inr ((), s') \<and> rep s' (q @ [\<lparr>jobid = i, req = r\<rparr>]) h"
    and pick_law: "rep s (v # q) None \<Longrightarrow> \<exists>a s'. pick s = Inr (Some a, s') \<and> rep s' q (Some (a, v))"
    and putback_law: "rep s q (Some (a, v)) \<Longrightarrow> \<exists>s'. putback (Some a) s = Inr ((), s') \<and> rep s' (v # q) None"
    and dispose_law: "rep s q (Some (a, v)) \<Longrightarrow> \<exists>s'. dispose (Some a) s = Inr ((), s') \<and> rep s' q None"
    and look_law: "rep s q (Some (a, v)) \<Longrightarrow> look (Some a) s = Inr (v, s)"
begin

lemma qev_refines:
  assumes "in_hand rep s jp st" "qsched (length (fst st)) (snd st \<noteq> None) [e]"
  shows "\<exists>jp' s'. qev_run add pick putback dispose look e jp s = Inr ((fst (qev_spec e st), jp'), s') \<and>
     in_hand rep s' jp' (snd (qev_spec e st))"
proof -
  obtain q h where st: "st = (q, h)" by (cases st)
  show ?thesis
  proof (cases e)
    case (Add r i)
    show ?thesis
    proof (cases h)
      case None
      with assms st have "jp = None" "rep s q None" by (auto simp: in_hand_def)
      with Add None st add_law [of s q None r i] show ?thesis by (auto simp: io_simps in_hand_def)
    next
      case (Some v)
      with assms st obtain a where "jp = Some a" "rep s q (Some (a, v))" by (auto simp: in_hand_def)
      with Add Some st add_law [of s q "Some (a, v)" r i] show ?thesis by (auto simp: io_simps in_hand_def)
    qed
  next
    case Pick
    with assms st have h: "h = None" "rep s q None" by (auto simp: in_hand_def)
    from Pick assms st obtain v q' where q: "q = v # q'" by (cases q) auto
    with h pick_law [of s v q'] Pick st show ?thesis by (auto simp: io_simps in_hand_def)
  next
    case Printed
    with assms st obtain v a where v: "h = Some v" "jp = Some a" "rep s q (Some (a, v))" by (cases h) (auto simp: in_hand_def)
    with dispose_law [OF v(3)] look_law [OF v(3)] Printed st show ?thesis by (auto simp: io_simps in_hand_def)
  next
    case Deferred
    with assms st obtain v a where v: "h = Some v" "jp = Some a" "rep s q (Some (a, v))" by (cases h) (auto simp: in_hand_def)
    with putback_law [OF v(3)] Deferred st show ?thesis by (auto simp: io_simps in_hand_def)
  qed
qed

lemma qsched_split:
  "qsched (length (fst st)) (snd st \<noteq> None) (e # es) \<Longrightarrow> qsched (length (fst st)) (snd st \<noteq> None) [e] \<and>
     qsched (length (fst (snd (qev_spec e st)))) (snd (snd (qev_spec e st)) \<noteq> None) es"
  by (cases st; cases e) auto

lemma qrun_refines:
  assumes "in_hand rep s jp st" "qsched (length (fst st)) (snd st \<noteq> None) es"
  shows "\<exists>jp' s'. qrun add pick putback dispose look es jp s = Inr ((fst (qrun_spec es st), jp'), s') \<and>
     in_hand rep s' jp' (snd (qrun_spec es st))"
  using assms
proof (induction es arbitrary: s jp st)
  case (Cons e es)
  note sp = qsched_split [OF Cons.prems(2)]
  obtain jp1 s1 where s1: "qev_run add pick putback dispose look e jp s = Inr ((fst (qev_spec e st), jp1), s1)"
    "in_hand rep s1 jp1 (snd (qev_spec e st))"
    using qev_refines [OF Cons.prems(1)] sp by blast
  obtain jp2 s2 where "qrun add pick putback dispose look es jp1 s1 = Inr ((fst (qrun_spec es (snd (qev_spec e st))), jp2), s2)"
    "in_hand rep s2 jp2 (snd (qrun_spec es (snd (qev_spec e st))))"
    using Cons.IH [OF s1(2)] sp by blast
  with s1 show ?case by (auto simp: io_simps split: prod.splits)
qed (auto simp: io_simps)

end

interpretation printd: pending pq_rep add_job pick_job replace_job free_node "\<lambda>jp. at_node jp n_val"
proof (unfold_locales, goal_cases)
  case (1 s q h r i)
  then show ?case by (rule add_job_rep)
next
  case (2 s v q)
  then show ?case by (rule pick_job_rep)
next
  case (3 s q a v)
  then show ?case by (rule replace_job_rep)
next
  case (4 s q a v)
  then show ?case by (rule free_job_rep)
next
  case (5 s q a v)
  then show ?case by (auto simp: pq_rep_def)
qed

section \<open>Properties of the queue and of the job numbers\<close>

lemma qspec_accounts:
  "qsched (length (fst st)) (snd st \<noteq> None) es \<Longrightarrow>
   (case qrun_spec es st of (ds, q', h') \<Rightarrow>
      ds @ (case h' of None \<Rightarrow> [] | Some v \<Rightarrow> [v]) @ q' =
      (case snd st of None \<Rightarrow> [] | Some v \<Rightarrow> [v]) @ fst st @
        concat (map (\<lambda>e. case e of Add r i \<Rightarrow> [\<lparr>jobid = i, req = r\<rparr>] | _ \<Rightarrow> []) es))"
proof (induction es arbitrary: st)
  case (Cons e es)
  obtain q h where st: "st = (q, h)" by (cases st)
  from Cons.prems st have "qsched (length (fst (snd (qev_spec e st)))) (snd (snd (qev_spec e st)) \<noteq> None) es"
    by (cases e) auto
  from Cons.IH [OF this] Cons.prems st show ?case
    by (cases e; cases q; cases h) (auto split: prod.splits)
qed (auto split: prod.splits)

text \<open>C6: the print queue is first in, first out, under any interleaving of the threads. Clients
  queue jobs at any time, also while the printer thread has a job in hand, that is between
  the step in which it takes the first job off the list and the step in which it disposes of
  the job (printed, or cancelled) or puts it back in front. As long as there is memory for the
  jobs (the daemon exits when there is none), every such sequence of steps runs without following a wrong pointer and leaves the mutex free; the jobs disposed of, then the
  job in hand, then the list are together the jobs of the beginning, the one in hand first,
  followed by the jobs queued since, in this order: jobs are disposed of in the order in
  which they were queued, a deferred one keeps its place at the front although others were
  queued meanwhile, and none is lost or disposed of twice.\<close>

theorem printd_queue_fifo:
  assumes "in_hand pq_rep s jp (q, h)" "qsched (length q) (h \<noteq> None) es"
  shows "\<exists>ds jp' q' h' s'. qrun add_job pick_job replace_job free_node (\<lambda>jp. at_node jp n_val) es jp s = Inr ((ds, jp'), s') \<and>
     in_hand pq_rep s' jp' (q', h') \<and> qrun_spec es (q, h) = (ds, q', h') \<and>
     ds @ (case h' of None \<Rightarrow> [] | Some v \<Rightarrow> [v]) @ q' =
       (case h of None \<Rightarrow> [] | Some v \<Rightarrow> [v]) @ q @
       concat (map (\<lambda>e. case e of Add r i \<Rightarrow> [\<lparr>jobid = i, req = r\<rparr>] | _ \<Rightarrow> []) es)"
proof -
  obtain ds q' h' where sp: "qrun_spec es (q, h) = (ds, q', h')" by (metis prod_cases3)
  have "\<exists>jp' s'. qrun add_job pick_job replace_job free_node (\<lambda>jp. at_node jp n_val) es jp s = Inr ((ds, jp'), s') \<and>
     in_hand pq_rep s' jp' (q', h')"
    using printd.qrun_refines [OF assms(1), of es] assms(2) sp by simp
  with qspec_accounts [of "(q, h)" es] assms(2) sp show ?thesis by auto
qed

text \<open>The daemon as it starts: no jobs, no workers.\<close>

definition printd_start :: printd where
  "printd_start =
     \<lparr>dl_heap = Map.empty, dl_head = None, dl_tail = None, dl_brk = 0, dl_oom = [],
      joblock = False, configlock = False, workerlock = False, jobwait = 0, nextjob = 1,
      jobfd = \<lparr>f_bytes = [], f_pos = 0, f_locks = []\<rparr>, reread = False, printer = None,
      workers = \<lparr>dl_heap = Map.empty, dl_head = None, dl_tail = None, dl_brk = 0, dl_oom = []\<rparr>,
      cancelled = [], closed = [], pd_faults = []\<rparr>"

lemma printd_start_rep: "pq_rep printd_start [] None"
  unfolding pq_rep_def by (rule exI [of _ "[]"]) (simp add: printd_start_def dl_ok_def dl_vals_def)

theorem printd_queue_fifo_witness:
  "\<exists>s' r. qrun add_job pick_job replace_job free_node (\<lambda>jp. at_node jp n_val)
      [Add r 1, Pick, Add r 2, Deferred, Pick, Printed, Pick, Add r 3, Printed, Pick] None printd_start =
    Inr (([\<lparr>jobid = 1, req = r\<rparr>, \<lparr>jobid = 2, req = r\<rparr>], Some 2), s') \<and> pq_rep s' [] (Some (2, \<lparr>jobid = 3, req = r\<rparr>))"
proof -
  let ?r = "\<lparr>r_size = 0, r_flags = 0, r_usernm = [], r_jobnm = []\<rparr>"
  let ?es = "[Add ?r 1, Pick, Add ?r 2, Deferred, Pick, Printed, Pick, Add ?r 3, Printed, Pick]"
  have "in_hand pq_rep printd_start None ([], None)" using printd_start_rep by (simp add: in_hand_def)
  from printd_queue_fifo [OF this, of ?es] obtain jp' s' where run:
    "qrun add_job pick_job replace_job free_node (\<lambda>jp. at_node jp n_val) ?es None printd_start =
       Inr (([\<lparr>jobid = 1, req = ?r\<rparr>, \<lparr>jobid = 2, req = ?r\<rparr>], jp'), s')"
    "in_hand pq_rep s' jp' ([], Some \<lparr>jobid = 3, req = ?r\<rparr>)"
    by (auto simp del: qrun.simps)
  from run(2) obtain a where a: "jp' = Some a" "pq_rep s' [] (Some (a, \<lparr>jobid = 3, req = ?r\<rparr>))" by (auto simp: in_hand_def)
  have "a = 2"
    using run(1) a(1)
    by (simp add: io_simps add_job_def new_node_def pick_job_def remove_job_def replace_job_def lock_joblock_def
        unlock_joblock_def printd_start_def free_node_def)
  with run(1) a show ?thesis by blast
qed

text \<open>Job numbers stay positive and change with every call. From a positive counter,
  \<open>get_newjobno\<close> returns the counter, leaves the next number positive (1 after the largest
  \<open>int32_t\<close>), different from the one returned, and releases the mutex; when the mutex is held
  by another thread the call blocks.\<close>

theorem get_newjobno_positive:
  assumes "0 < sint (nextjob s)"
  shows "(joblock s \<longrightarrow> get_newjobno s = Inl Blocked) \<and>
     (\<not> joblock s \<longrightarrow>
       (\<exists>s'. get_newjobno s = Inr (nextjob s, s') \<and> \<not> joblock s' \<and> 0 < sint (nextjob s') \<and>
          nextjob s' \<noteq> nextjob s \<and>
          sint (nextjob s') = (if sint (nextjob s) = 2 ^ 31 - 1 then 1 else sint (nextjob s) + 1)))"
proof -
  have r: "sint (nextjob s) < 2 ^ 31" using sint_less [of "nextjob s"] by simp
  have plus: "sint (nextjob s + 1) = (if sint (nextjob s) = 2 ^ 31 - 1 then - (2 ^ 31) else sint (nextjob s) + 1)"
  proof (cases "sint (nextjob s) = 2 ^ 31 - 1")
    case True
    have "sint (nextjob s + 1) = signed_take_bit 31 (sint (nextjob s) + 1)"
      by (simp add: sint_word_ariths)
    with True show ?thesis by (simp add: signed_take_bit_def not_eq_complement mask_eq_exp_minus_1)
  next
    case False
    with r assms have "- (2 ^ 31) \<le> sint (nextjob s) + 1 \<and> sint (nextjob s) + 1 < 2 ^ 31" by simp
    then have "signed_take_bit 31 (sint (nextjob s) + 1) = sint (nextjob s) + 1"
      by (simp add: signed_take_bit_int_eq_self)
    with False show ?thesis by (simp add: sint_word_ariths)
  qed
  have ne: "nextjob s + 1 \<noteq> nextjob s" by simp
  have "nextjob s \<noteq> 1" if "sint (nextjob s) = 2 ^ 31 - 1" using that by auto
  then show ?thesis
    using assms plus ne r by (auto simp: get_newjobno_def io_simps lock_joblock_def unlock_joblock_def)
qed

theorem get_newjobno_positive_witness:
  "\<exists>s'. get_newjobno (printd_start\<lparr>nextjob := 0x7FFFFFFF\<rparr>) = Inr (0x7FFFFFFF, s') \<and> sint (nextjob s') = 1"
proof -
  let ?s = "printd_start\<lparr>nextjob := 0x7FFFFFFF\<rparr>"
  have "sint (nextjob ?s) = 2 ^ 31 - 1" by simp
  moreover have "\<not> joblock ?s" "nextjob ?s = 0x7FFFFFFF" by (simp_all add: printd_start_def)
  ultimately show ?thesis using get_newjobno_positive [of ?s] by auto
qed

section \<open>Properties of the worker list\<close>

lemma worker_walk_cong:
  assumes "worker_walk n p w = Inr as" "n \<le> n'"
    "\<And>a. a \<in> set as \<Longrightarrow> map_option n_next (dl_heap w' a) = map_option n_next (dl_heap w a)"
  shows "worker_walk n' p w' = Inr as"
  using assms
proof (induction n p w arbitrary: n' as rule: worker_walk.induct)
  case (3 n a w)
  obtain nd bs where w: "dl_heap w a = Some nd" "worker_walk n (n_next nd) w = Inr bs" "as = a # bs"
    using "3.prems"(1) by (auto split: option.splits sum.splits)
  obtain m where m: "n' = Suc m" "n \<le> m" using "3.prems"(2) by (cases n') auto
  obtain nd' where "dl_heap w' a = Some nd'" "n_next nd' = n_next nd"
    using "3.prems"(3) [of a] w by auto
  moreover have "worker_walk m (n_next nd) w' = Inr bs"
    by (rule "3.IH" [OF w(1,2) m(2)]) (use "3.prems"(3) w(3) in auto)
  ultimately show ?case using m(1) w(3) by simp
qed auto

lemma worker_walk_alloc: "worker_walk n p w = Inr as \<Longrightarrow> a \<in> set as \<Longrightarrow> dl_heap w a \<noteq> None"
  by (induction n p w arbitrary: as rule: worker_walk.induct) (auto split: option.splits sum.splits)

definition workers_fit :: "printd \<Rightarrow> bool" where
  "workers_fit s \<longleftrightarrow> \<not> workerlock s \<and> take 1 (dl_oom (workers s)) \<noteq> [True] \<and>
     (\<forall>a \<in> dom (dl_heap (workers s)). a < dl_brk (workers s))"

lemma new_node_fits:
  "take 1 (dl_oom s) \<noteq> [True] \<Longrightarrow> new_node v s = Inr (Some (dl_brk s),
     s\<lparr>dl_heap := (dl_heap s)(dl_brk s \<mapsto> \<lparr>n_next = None, n_prev = None, n_val = v\<rparr>),
       dl_brk := Suc (dl_brk s), dl_oom := tl (dl_oom s)\<rparr>)"
  by (cases "dl_oom s") (auto simp: new_node_def split: bool.splits)

lemma add_worker_second:
  assumes wl: "worker_list s = Inr (as, s)" and ne: "as \<noteq> []" and fit: "workers_fit s"
  shows "\<exists>s'. add_worker tid fd s = Inr (True, s') \<and> worker_list s' = Inr (as, s') \<and> \<not> workerlock s' \<and>
     (\<exists>w. s' = s\<lparr>workers := w, workerlock := False\<rparr>) \<and> cancelled s' = cancelled s \<and> closed s' = closed s \<and>
     (\<forall>a \<in> set as. map_option n_val (dl_heap (workers s') a) = map_option n_val (dl_heap (workers s) a))"
proof -
  let ?w = "workers s" let ?b = "dl_brk ?w"
  have walk: "worker_walk ?b (dl_head ?w) ?w = Inr as" using wl by (auto simp: worker_list_def split: sum.splits)
  then obtain h where h: "dl_head ?w = Some h" "h \<in> set as"
    using ne by (cases "dl_head ?w"; cases ?b) (auto split: option.splits sum.splits)
  obtain nh where nh: "dl_heap ?w h = Some nh" using worker_walk_alloc [OF walk h(2)] by auto
  have fresh: "dl_heap ?w ?b = None" using fit by (auto simp: workers_fit_def dom_def)
  have hb: "h \<noteq> ?b" using nh fresh by auto
  let ?n = "\<lparr>n_next = Some h, n_prev = None, n_val = \<lparr>w_tid = tid, w_sockfd = fd\<rparr>\<rparr>"
  let ?w' = "?w\<lparr>dl_heap := (dl_heap ?w)(?b \<mapsto> ?n, h \<mapsto> nh\<lparr>n_prev := Some ?b\<rparr>), dl_brk := Suc ?b, dl_oom := tl (dl_oom ?w)\<rparr>"
  let ?s' = "s\<lparr>workers := ?w', workerlock := False\<rparr>"
  have run: "add_worker tid fd s = Inr (True, ?s')"
    using fit h(1) nh hb
    by (simp add: add_worker_def io_simps on_workers_def new_node_fits lock_workerlock_def unlock_workerlock_def
        workers_fit_def dlist_order fun_upd_twist)
  have keep: "map_option n_next (dl_heap ?w' a) = map_option n_next (dl_heap ?w a)"
      "map_option n_val (dl_heap ?w' a) = map_option n_val (dl_heap ?w a)" if "a \<in> set as" for a
    using worker_walk_alloc [OF walk that] fresh nh by (auto simp: fun_upd_def)
  have "worker_walk (Suc ?b) (dl_head ?w) ?w' = Inr as"
    by (rule worker_walk_cong [OF walk]) (use keep in auto)
  then have "worker_list ?s' = Inr (as, ?s')" by (simp add: worker_list_def)
  moreover have "\<exists>w. ?s' = s\<lparr>workers := w, workerlock := False\<rparr>" by blast
  ultimately show ?thesis using run keep by (intro exI [of _ ?s']) simp
qed

text \<open>A worker that is added while another one is on the list is lost. \<open>add_worker\<close> links
  the new structure in front of the list but does not move \<open>workers\<close> to it, so the list is
  what it was: \<open>kill_workers\<close> does not cancel the new thread, and its own \<open>client_cleanup\<close>
  does not find it and leaves its socket open.\<close>

theorem add_worker_lost:
  assumes "worker_list s = Inr (as, s)" "as \<noteq> []" "workers_fit s"
    and new: "\<forall>a \<in> set as. map_option (\<lambda>n. w_tid (n_val n)) (dl_heap (workers s) a) \<noteq> Some tid"
  shows "\<exists>s' s1 s2. add_worker tid fd s = Inr (True, s') \<and> worker_list s' = Inr (as, s') \<and>
     kill_workers s' = Inr ((), s1) \<and> (\<exists>ts. cancelled s1 = cancelled s @ ts \<and> tid \<notin> set ts) \<and>
     client_cleanup tid s' = Inr ((), s2) \<and> closed s2 = closed s"
proof -
  obtain s' where s': "add_worker tid fd s = Inr (True, s')" "worker_list s' = Inr (as, s')" "\<not> workerlock s'"
    "cancelled s' = cancelled s" "closed s' = closed s"
    and v: "\<forall>a \<in> set as. map_option n_val (dl_heap (workers s') a) = map_option n_val (dl_heap (workers s) a)"
    using add_worker_second [OF assms(1-3)] by blast
  let ?l = "s'\<lparr>workerlock := True\<rparr>"
  have wl: "worker_list ?l = Inr (as, ?l)" using s'(2) by (auto simp: worker_list_def split: sum.splits)
  have walk: "worker_walk (dl_brk (workers s')) (dl_head (workers s')) (workers s') = Inr as"
    using s'(2) by (auto simp: worker_list_def split: sum.splits)
  have tids: "w_tid (n_val (the (dl_heap (workers s') a))) \<noteq> tid" if a: "a \<in> set as" for a
  proof -
    obtain n where n: "dl_heap (workers s') a = Some n" using worker_walk_alloc [OF walk a] by auto
    then have "map_option n_val (dl_heap (workers s) a) = Some (n_val n)" using v a by (metis option.simps(9))
    then obtain m where "dl_heap (workers s) a = Some m" "n_val m = n_val n" by auto
    with new a n show ?thesis by auto
  qed
  let ?ts = "map (\<lambda>a. w_tid (n_val (the (dl_heap (workers s') a)))) as"
  have "kill_workers s' = Inr ((), s'\<lparr>cancelled := cancelled s' @ ?ts, workerlock := False\<rparr>)"
    using s'(3) wl by (simp add: kill_workers_def io_simps lock_workerlock_def unlock_workerlock_def)
  moreover have "find (\<lambda>a. w_tid (n_val (the (dl_heap (workers s') a))) = tid) as = None"
    using tids by (simp add: find_None_iff)
  then have "client_cleanup tid s' = Inr ((), s'\<lparr>workerlock := False\<rparr>)"
    using s'(3) wl by (simp add: client_cleanup_def io_simps lock_workerlock_def unlock_workerlock_def)
  moreover have "tid \<notin> set ?ts" using tids by auto
  ultimately show ?thesis using s' by auto
qed

theorem add_worker_lost_witness:
  "\<exists>s1 s2 s3. add_worker 7 4 printd_start = Inr (True, s1) \<and> add_worker 8 5 s1 = Inr (True, s2) \<and>
     client_cleanup 8 s2 = Inr ((), s3) \<and> closed s3 = []"
proof -
  let ?n = "\<lparr>n_next = None, n_prev = None, n_val = \<lparr>w_tid = 7, w_sockfd = 4\<rparr>\<rparr>"
  let ?s1 = "printd_start\<lparr>workerlock := False,
     workers := \<lparr>dl_heap = [0 \<mapsto> ?n], dl_head = Some 0, dl_tail = None, dl_brk = 1, dl_oom = []\<rparr>\<rparr>"
  have 1: "add_worker 7 4 printd_start = Inr (True, ?s1)"
    by (simp add: add_worker_def io_simps on_workers_def new_node_def lock_workerlock_def unlock_workerlock_def
        printd_start_def)
  have wl: "worker_list ?s1 = Inr ([0], ?s1)" by (simp add: worker_list_def)
  have fit: "workers_fit ?s1" by (simp add: workers_fit_def)
  have "\<forall>a \<in> set [0]. map_option (\<lambda>n. w_tid (n_val n)) (dl_heap (workers ?s1) a) \<noteq> Some 8" by simp
  from add_worker_lost [OF wl _ fit this, of 5] 1 show ?thesis by (auto simp: printd_start_def)
qed

end
