(* ===== verification/Printd_Wire.thy ===== *)
theory Printd_Wire
  imports Printd_Queue Stream_Io
begin

text \<open>
  What the printing programs put on the wire and read from the configuration file: byte
  order, the request and response structures of \<open>printer/print.h\<close>, the IPP and HTTP headers
  that \<open>printer_thread\<close> builds with \<open>add_option\<close>, and the scan of \<open>/etc/printer.conf\<close>
  (\<open>printer/util.c\<close>). Hosts are little endian, as the x86 targets of the makefiles are.
\<close>

section \<open>Byte order\<close>

definition byte_of :: "nat \<Rightarrow> char" where
  "byte_of n = char_of (n mod 256)"

definition le32 :: "32 word \<Rightarrow> string" where
  "le32 w = (let n = unat w in
     [byte_of n, byte_of (n div 256), byte_of (n div 65536), byte_of (n div 16777216)])"

definition of_le32 :: "string \<Rightarrow> 32 word" where
  "of_le32 bs = word_of_nat (foldr (\<lambda>c v. of_char c + 256 * v) (take 4 bs) 0)"

definition htonl :: "32 word \<Rightarrow> 32 word" where
  "htonl w = of_le32 (rev (le32 w))"

definition ntohl :: "32 word \<Rightarrow> 32 word" where
  "ntohl w = of_le32 (rev (le32 w))"

text \<open>The two bytes of \<open>htons(n)\<close> in memory.\<close>

definition be16 :: "nat \<Rightarrow> string" where
  "be16 n = [byte_of (n div 256), byte_of n]"

lemma of_char_byte_of [simp]: "(of_char (byte_of n) :: nat) = n mod 256"
  by (simp add: byte_of_def)

lemma byte_of_char [simp]: "byte_of (of_char c) = c"
  by (simp add: byte_of_def)

lemma length_le32 [simp]: "length (le32 w) = 4"
  by (simp add: le32_def Let_def)

lemma div_steps: "n div 65536 = n div 256 div 256" "n div 16777216 = n div 256 div 256 div 256" for n :: nat
  by (simp_all add: div_mult2_eq [symmetric])

lemma digits256:
  fixes n :: nat
  assumes "n < 4294967296"
  shows "n mod 256 + 256 * (n div 256 mod 256 + 256 * (n div 65536 mod 256 + 256 * (n div 16777216 mod 256))) = n"
proof -
  have step: "m mod 256 + 256 * (m div 256) = m" for m :: nat by simp
  have "n div 256 div 256 div 256 < 256" using assms by (simp add: div_steps(2) [symmetric])
  then have "n div 256 div 256 div 256 mod 256 = n div 256 div 256 div 256" by simp
  then show ?thesis unfolding div_steps by (simp only: step)
qed

lemma of_le32_le32 [simp]: "of_le32 (le32 w) = w"
proof -
  have "unat w < 4294967296" using unsigned_less [of w, where 'a = nat] by simp
  then have "of_le32 (le32 w) = word_of_nat (unat w)"
    using digits256 [of "unat w"] by (simp only: of_le32_def le32_def Let_def) simp
  then show ?thesis by simp
qed

lemma bytes256:
  fixes a b c d :: nat
  assumes "a < 256" "b < 256" "c < 256" "d < 256"
  defines "n \<equiv> a + 256 * (b + 256 * (c + 256 * d))"
  shows "n < 4294967296" "n mod 256 = a" "n div 256 mod 256 = b" "n div 65536 mod 256 = c" "n div 16777216 mod 256 = d"
proof -
  have s: "(x + 256 * y) div 256 = y" "(x + 256 * y) mod 256 = x" if "x < 256" for x y :: nat
    using that by simp_all
  show "n < 4294967296" using assms by simp
  show "n mod 256 = a" "n div 256 mod 256 = b" "n div 65536 mod 256 = c" "n div 16777216 mod 256 = d"
    unfolding div_steps n_def using assms(1-4) by (simp_all only: s) simp
qed

lemma of_char_256: "(of_char c :: nat) < 256"
  by simp

lemma le32_of_le32: "length bs = 4 \<Longrightarrow> le32 (of_le32 bs) = bs"
proof -
  assume "length bs = 4"
  then obtain a b c d where bs: "bs = [a, b, c, d]" by (auto simp: length_Suc_conv numeral_eq_Suc)
  let ?n = "of_char a + 256 * (of_char b + 256 * (of_char c + 256 * (of_char d :: nat)))"
  note b = bytes256 [OF of_char_256 [of a] of_char_256 [of b] of_char_256 [of c] of_char_256 [of d]]
  have "of_le32 bs = word_of_nat ?n" by (simp only: bs of_le32_def) simp
  then have u: "unat (of_le32 bs) = ?n"
    using b(1) by (simp only: unat_of_nat) simp
  have bm: "byte_of m = char_of (m mod 256)" for m by (simp add: byte_of_def)
  show ?thesis
    unfolding le32_def Let_def u bm b(2-5) by (simp add: bs)
qed

lemma ntohl_htonl [simp]: "ntohl (htonl w) = w"
  by (simp add: ntohl_def htonl_def le32_of_le32)

text \<open>Network order on the wire: the bytes of \<open>htonl(w)\<close> in memory are the bytes of \<open>w\<close>
  with the most significant one first.\<close>

lemma wire_htonl: "le32 (htonl w) = rev (le32 w)"
  by (simp add: htonl_def le32_of_le32)

section \<open>Requests and responses\<close>

abbreviation USERNM_MAX :: nat where "USERNM_MAX \<equiv> 64"
abbreviation JOBNM_MAX :: nat where "JOBNM_MAX \<equiv> 256"
abbreviation MSGLEN_MAX :: nat where "MSGLEN_MAX \<equiv> 512"
abbreviation PRINTREQ_SZ :: nat where "PRINTREQ_SZ \<equiv> 328"
abbreviation IOBUFSZ :: nat where "IOBUFSZ \<equiv> 8192"
abbreviation IBUFSZ :: nat where "IBUFSZ \<equiv> 512"
abbreviation HBUFSZ :: nat where "HBUFSZ \<equiv> 512"
abbreviation PR_TEXT :: "32 word" where "PR_TEXT \<equiv> 1"

text \<open>The bytes of \<open>struct printreq\<close> in memory, and back.\<close>

definition printreq_bytes :: "printreq \<Rightarrow> string" where
  "printreq_bytes r = le32 (r_size r) @ le32 (r_flags r) @ r_usernm r @ r_jobnm r"

definition printreq_of :: "string \<Rightarrow> printreq" where
  "printreq_of bs =
     \<lparr>r_size = of_le32 (take 4 bs), r_flags = of_le32 (take 4 (drop 4 bs)),
      r_usernm = take USERNM_MAX (drop 8 bs), r_jobnm = take JOBNM_MAX (drop 72 bs)\<rparr>"

definition printreq_ok :: "printreq \<Rightarrow> bool" where
  "printreq_ok r \<longleftrightarrow> length (r_usernm r) = USERNM_MAX \<and> length (r_jobnm r) = JOBNM_MAX"

lemma length_printreq_bytes [simp]: "printreq_ok r \<Longrightarrow> length (printreq_bytes r) = PRINTREQ_SZ"
  by (simp add: printreq_ok_def printreq_bytes_def)

lemma printreq_of_bytes [simp]: "printreq_ok r \<Longrightarrow> printreq_of (printreq_bytes r) = r"
  by (simp add: printreq_ok_def printreq_bytes_def printreq_of_def)

lemma printreq_ok_of: "length bs = PRINTREQ_SZ \<Longrightarrow> printreq_ok (printreq_of bs)"
  by (simp add: printreq_ok_def printreq_of_def)

lemma printreq_bytes_of:
  assumes "length bs = PRINTREQ_SZ"
  shows "printreq_bytes (printreq_of bs) = bs"
proof -
  have e: "le32 (of_le32 (take 4 bs)) = take 4 bs" "le32 (of_le32 (take 4 (drop 4 bs))) = take 4 (drop 4 bs)"
    using assms by (simp_all add: le32_of_le32)
  have "bs = take 4 bs @ drop 4 bs" "drop 4 bs = take 4 (drop 4 bs) @ drop 8 bs" "drop 8 bs = take 64 (drop 8 bs) @ drop 72 bs"
    using append_take_drop_id [of 4 "drop 4 bs"] append_take_drop_id [of 64 "drop 8 bs"] by simp_all
  then have "bs = take 4 bs @ take 4 (drop 4 bs) @ take 64 (drop 8 bs) @ drop 72 bs" by metis
  moreover have "take 256 (drop 72 bs) = drop 72 bs" using assms by simp
  ultimately show ?thesis by (simp add: printreq_bytes_def printreq_of_def e)
qed

text \<open>\<open>strncpy(dst, s, n)\<close> into an array of \<open>n\<close> bytes; \<open>strcpy\<close> into one that held \<open>old\<close>.\<close>

definition strncpy :: "nat \<Rightarrow> string \<Rightarrow> string" where
  "strncpy n s = take n (cstr s @ replicate n NUL)"

definition strcpy_into :: "string \<Rightarrow> string \<Rightarrow> string" where
  "strcpy_into s old = cstr s @ [NUL] @ drop (length (cstr s) + 1) old"

text \<open>The bytes of \<open>struct printresp\<close>, the codes given in host order.\<close>

definition printresp_bytes :: "32 word \<Rightarrow> 32 word \<Rightarrow> string \<Rightarrow> string" where
  "printresp_bytes retcode jid msg = le32 retcode @ le32 jid @ msg"

section \<open>The headers of a print job\<close>

abbreviation TAG_OPERATION_ATTR :: nat where "TAG_OPERATION_ATTR \<equiv> 1"
abbreviation TAG_END_OF_ATTR :: nat where "TAG_END_OF_ATTR \<equiv> 3"
abbreviation TAG_NAMEWOLANG :: nat where "TAG_NAMEWOLANG \<equiv> 0x42"
abbreviation TAG_URI :: nat where "TAG_URI \<equiv> 0x45"
abbreviation TAG_CHARSET :: nat where "TAG_CHARSET \<equiv> 0x47"
abbreviation TAG_NATULANG :: nat where "TAG_NATULANG \<equiv> 0x48"
abbreviation TAG_MIMETYPE :: nat where "TAG_MIMETYPE \<equiv> 0x49"
abbreviation OP_PRINT_JOB :: nat where "OP_PRINT_JOB \<equiv> 2"

text \<open>
  The headers are built in arrays on the stack of \<open>printer_thread\<close>; a store beyond the end of
  one is undefined behaviour. \<open>then_do\<close> goes on after a step that stayed inside.
\<close>

definition then_do :: "exit_reason + 'a \<Rightarrow> ('a \<Rightarrow> exit_reason + 'b) \<Rightarrow> exit_reason + 'b" where
  "then_do r k = (case r of Inl e \<Rightarrow> Inl e | Inr x \<Rightarrow> k x)"

definition fits_array :: "string \<Rightarrow> nat \<Rightarrow> string \<Rightarrow> exit_reason + string" where
  "fits_array what sz bs = (if length bs > sz then Inl (Undefined what) else Inr bs)"

text \<open>
  \<open>add_option\<close> at the end of the header \<open>cp\<close> built so far in an array of \<open>sz\<close> bytes: a tag, and
  name and value with their lengths as 16-bit numbers in network order. Both \<open>strcpy\<close> calls
  leave a null byte behind, which has to fit too; what follows overwrites it.
\<close>

definition add_option :: "nat \<Rightarrow> string \<Rightarrow> nat \<Rightarrow> string \<Rightarrow> string \<Rightarrow> exit_reason + string" where
  "add_option sz cp tag optname optval =
     then_do (fits_array ''add_option'' sz (cp @ [byte_of tag] @ be16 (length (cstr optname)) @ cstr optname @ [NUL])) (\<lambda>with_name.
     then_do (fits_array ''add_option'' sz (butlast with_name @ be16 (length (cstr optval)) @ cstr optval @ [NUL])) (\<lambda>with_value.
     Inr (butlast with_value)))"

definition is_text :: "printreq \<Rightarrow> bool" where
  "is_text r \<longleftrightarrow> and (r_flags r) PR_TEXT \<noteq> 0"

text \<open>
  The IPP header of a job, in \<open>ibuf\<close>, with the printer's URI formatted into \<open>str\<close>. The user name
  is the string that begins at the field \<open>usernm\<close>: without a null byte in the field it runs on
  into \<open>jobnm\<close>. A job name without a null byte is read beyond the end of the structure.
\<close>

definition ipp_header :: "string \<Rightarrow> job \<Rightarrow> exit_reason + string" where
  "ipp_header printer_name jp =
     (let icp = [byte_of 1, byte_of 1] @ be16 OP_PRINT_JOB @ rev (le32 (jobid jp)) @ [byte_of TAG_OPERATION_ATTR] in
      then_do (add_option IBUFSZ icp TAG_CHARSET ''attributes-charset'' ''utf-8'') (\<lambda>icp.
      then_do (add_option IBUFSZ icp TAG_NATULANG ''attributes-natural-language'' ''en-us'') (\<lambda>icp.
      then_do (fits_array ''str'' 64 (''http://'' @ cstr printer_name @ ''/ipp'' @ [NUL])) (\<lambda>str.
      then_do (add_option IBUFSZ icp TAG_URI ''printer-uri'' str) (\<lambda>icp.
      if NUL \<notin> set (r_jobnm (req jp)) then Inl (Undefined ''jobnm'')
      else
      then_do (add_option IBUFSZ icp TAG_NAMEWOLANG ''requesting-user-name'' (r_usernm (req jp) @ r_jobnm (req jp))) (\<lambda>icp.
      then_do (add_option IBUFSZ icp TAG_NAMEWOLANG ''job-name'' (r_jobnm (req jp))) (\<lambda>icp.
      then_do (add_option IBUFSZ icp TAG_MIMETYPE ''document-format''
                 (if is_text (req jp) then ''text/plain'' else ''application/postscript'')) (\<lambda>icp.
      fits_array ''ibuf'' IBUFSZ (icp @ [byte_of TAG_END_OF_ATTR])))))))))"

definition crlf :: string where
  "crlf = [CHR 0x0D, CHR 0x0A]"

definition http_bytes :: "string \<Rightarrow> nat \<Rightarrow> string" where
  "http_bytes printer_name len =
     ''POST /ipp HTTP/1.1'' @ crlf @ ''Content-Length: '' @ dec len @ crlf @
     ''Content-Type: application/ipp'' @ crlf @ ''Host: '' @ cstr printer_name @ '':631'' @ crlf @ crlf"

text \<open>
  The HTTP header in \<open>hbuf\<close>: the null bytes of \<open>sprintf\<close> and \<open>strcpy\<close> are overwritten, the last
  of them by the final line end.
\<close>

definition http_header :: "string \<Rightarrow> nat \<Rightarrow> exit_reason + string" where
  "http_header printer_name len = fits_array ''hbuf'' HBUFSZ (http_bytes printer_name len)"

text \<open>Reading the attributes of an IPP header back, as the printer does.\<close>

function ipp_attrs :: "string \<Rightarrow> (nat \<times> string \<times> string) list option" where
  "ipp_attrs bs =
     (case bs of
        [] \<Rightarrow> None
      | t # r \<Rightarrow>
          if (of_char t :: nat) = TAG_END_OF_ATTR then Some []
          else if length r < 2 then None
          else let n = 256 * of_char (r ! 0) + of_char (r ! 1); r1 = drop 2 r in
          if length r1 < n + 2 then None
          else let m = 256 * of_char (r1 ! n) + of_char (r1 ! Suc n); r2 = drop (n + 2) r1 in
          if length r2 < m then None
          else map_option (\<lambda>as. (of_char t, take n r1, take m r2) # as) (ipp_attrs (drop m r2)))"
  by pat_completeness auto
termination
  by (relation "measure length") auto

declare ipp_attrs.simps [simp del]

lemma length_be16 [simp]: "length (be16 n) = 2"
  by (simp add: be16_def)

lemma be16_val: "n < 65536 \<Longrightarrow> 256 * of_char (be16 n ! 0) + of_char (be16 n ! 1) = n"
  by (simp add: be16_def)

lemma ipp_attrs_option:
  assumes "tag \<noteq> TAG_END_OF_ATTR" "tag < 256" "length n < 65536" "length v < 65536"
  shows "ipp_attrs ([byte_of tag] @ be16 (length n) @ n @ be16 (length v) @ v @ rest) =
     map_option (\<lambda>as. (tag, n, v) # as) (ipp_attrs rest)"
proof -
  have 1: "256 * (length n div 256 mod 256) + length n mod 256 = length n"
    "256 * (length v div 256 mod 256) + length v mod 256 = length v"
    using assms by (simp_all add: div_less_iff_less_mult)
  have "(n @ byte_of (length v div 256) # byte_of (length v) # v @ rest) ! length n = byte_of (length v div 256)"
    "(n @ byte_of (length v div 256) # byte_of (length v) # v @ rest) ! Suc (length n) = byte_of (length v)"
    by (simp_all add: nth_append)
  with 1 assms show ?thesis by (subst ipp_attrs.simps) (simp add: be16_def Let_def)
qed

text \<open>A list of attributes as the header carries it.\<close>

fun attr_bytes :: "(nat \<times> string \<times> string) list \<Rightarrow> string" where
  "attr_bytes [] = [byte_of TAG_END_OF_ATTR]"
| "attr_bytes ((tag, n, v) # as) = [byte_of tag] @ be16 (length n) @ n @ be16 (length v) @ v @ attr_bytes as"

lemma ipp_attrs_bytes:
  "list_all (\<lambda>(tag, n, v). tag \<noteq> TAG_END_OF_ATTR \<and> tag < 256 \<and> length n < 65536 \<and> length v < 65536) as \<Longrightarrow>
   ipp_attrs (attr_bytes as) = Some as"
proof (induction as)
  case Nil
  show ?case by (subst ipp_attrs.simps) simp
next
  case (Cons a as)
  obtain tag n v where a: "a = (tag, n, v)" by (cases a)
  with Cons show ?case by (simp only: attr_bytes.simps list.pred_inject prod.case) (simp add: ipp_attrs_option del: append_Cons append.simps)
qed

definition job_attrs :: "string \<Rightarrow> job \<Rightarrow> (nat \<times> string \<times> string) list" where
  "job_attrs printer_name jp =
     [(TAG_CHARSET, ''attributes-charset'', ''utf-8''),
      (TAG_NATULANG, ''attributes-natural-language'', ''en-us''),
      (TAG_URI, ''printer-uri'', ''http://'' @ printer_name @ ''/ipp''),
      (TAG_NAMEWOLANG, ''requesting-user-name'', cstr (r_usernm (req jp) @ r_jobnm (req jp))),
      (TAG_NAMEWOLANG, ''job-name'', cstr (r_jobnm (req jp))),
      (TAG_MIMETYPE, ''document-format'', if is_text (req jp) then ''text/plain'' else ''application/postscript'')]"

text \<open>The bytes of the header, and the steps that build them.\<close>

definition ipp_bytes :: "string \<Rightarrow> job \<Rightarrow> string" where
  "ipp_bytes printer_name jp =
     ([byte_of 1, byte_of 1, byte_of 0, byte_of 2] @ rev (le32 (jobid jp)) @ [byte_of 1]) @ attr_bytes (job_attrs printer_name jp)"

lemma then_do_Inr [simp]: "then_do (Inr x) k = k x"
  and then_do_Inl [simp]: "then_do (Inl e) k = Inl e"
  by (simp_all add: then_do_def)

definition opt_bytes :: "nat \<Rightarrow> string \<Rightarrow> string \<Rightarrow> string" where
  "opt_bytes tag n v = [byte_of tag] @ be16 (length (cstr n)) @ cstr n @ be16 (length (cstr v)) @ cstr v"

lemma add_option_eq:
  "add_option sz cp tag n v =
     (if length (cp @ opt_bytes tag n v) < sz then Inr (cp @ opt_bytes tag n v) else Inl (Undefined ''add_option''))"
  by (auto simp: add_option_def fits_array_def Let_def butlast_append opt_bytes_def)

text \<open>Six options, a formatted value for the third, and a last byte: whichever step leaves the array
  or fails first, together they succeed exactly when the whole fits.\<close>

lemma six_options:
  fixes icp t1 n1 v1 t2 n2 v2 t3 n3 v3 t4 n4 v4 t5 n5 v5 t6 n6 v6 e
  defines "out \<equiv> icp @ opt_bytes t1 n1 v1 @ opt_bytes t2 n2 v2 @ opt_bytes t3 n3 v3 @ opt_bytes t4 n4 v4 @
    opt_bytes t5 n5 v5 @ opt_bytes t6 n6 v6 @ [e]"
  assumes "prog =
     then_do (add_option sz icp t1 n1 v1) (\<lambda>icp. then_do (add_option sz icp t2 n2 v2) (\<lambda>icp.
     then_do (if c then Inr v3 else Inl (Undefined w)) (\<lambda>str. then_do (add_option sz icp t3 n3 str) (\<lambda>icp.
     if d then Inl (Undefined w2)
     else then_do (add_option sz icp t4 n4 v4) (\<lambda>icp. then_do (add_option sz icp t5 n5 v5) (\<lambda>icp.
       then_do (add_option sz icp t6 n6 v6) (\<lambda>icp. fits_array w3 sz (icp @ [e]))))))))"
  shows "if c \<and> \<not> d \<and> length out \<le> sz then prog = Inr out else \<exists>what. prog = Inl (Undefined what)"
  unfolding assms out_def by (auto simp: add_option_eq fits_array_def)

lemma length_cstr_le: "length (cstr s) \<le> length s"
  by (simp add: cstr_def length_takeWhile_le)

lemma length_attr_bytes:
  "length (attr_bytes as) = 1 + sum_list (map (\<lambda>(t, n, v). 5 + length n + length v) as)"
  by (induction as) (auto simp: be16_def)

lemma length_ipp_bytes:
  "length (ipp_bytes printer_name jp) =
     length printer_name + length (cstr (r_usernm (req jp) @ r_jobnm (req jp))) + length (cstr (r_jobnm (req jp))) +
       (if is_text (req jp) then 170 else 182)"
  by (simp add: ipp_bytes_def length_attr_bytes job_attrs_def)

definition ipp_fits :: "string \<Rightarrow> job \<Rightarrow> bool" where
  "ipp_fits printer_name jp \<longleftrightarrow> NUL \<in> set (r_jobnm (req jp)) \<and> length printer_name \<le> 52 \<and>
     length (ipp_bytes printer_name jp) \<le> IBUFSZ"

lemma ipp_header_eq:
  assumes "NUL \<notin> set printer_name"
  shows "if ipp_fits printer_name jp then ipp_header printer_name jp = Inr (ipp_bytes printer_name jp)
    else \<exists>what. ipp_header printer_name jp = Inl (Undefined what)"
proof -
  let ?doc = "if is_text (req jp) then ''text/plain'' else ''application/postscript''"
  let ?uri = "''http://'' @ printer_name @ ''/ipp'' @ [NUL]"
  let ?u = "r_usernm (req jp) @ r_jobnm (req jp)" let ?j = "r_jobnm (req jp)"
  let ?icp = "[byte_of 1, byte_of 1] @ be16 OP_PRINT_JOB @ rev (le32 (jobid jp)) @ [byte_of TAG_OPERATION_ATTR]"
  have uri: "cstr ?uri = ''http://'' @ printer_name @ ''/ipp''"
    using cstr_append_nul [of "''http://'' @ printer_name @ ''/ipp''" "[]"] assms by simp
  have doc: "cstr ?doc = ?doc" by simp
  have str: "fits_array ''str'' 64 (''http://'' @ cstr printer_name @ ''/ipp'' @ [NUL]) =
      (if length printer_name \<le> 52 then Inr ?uri else Inl (Undefined ''str''))"
    using assms by (simp add: fits_array_def)
  have lit: "cstr ''attributes-charset'' = ''attributes-charset''" "cstr ''utf-8'' = ''utf-8''"
    "cstr ''attributes-natural-language'' = ''attributes-natural-language''" "cstr ''en-us'' = ''en-us''"
    "cstr ''printer-uri'' = ''printer-uri''" "cstr ''requesting-user-name'' = ''requesting-user-name''"
    "cstr ''job-name'' = ''job-name''" "cstr ''document-format'' = ''document-format''" by simp_all
  have out: "?icp @ opt_bytes TAG_CHARSET ''attributes-charset'' ''utf-8'' @
      opt_bytes TAG_NATULANG ''attributes-natural-language'' ''en-us'' @ opt_bytes TAG_URI ''printer-uri'' ?uri @
      opt_bytes TAG_NAMEWOLANG ''requesting-user-name'' ?u @ opt_bytes TAG_NAMEWOLANG ''job-name'' ?j @
      opt_bytes TAG_MIMETYPE ''document-format'' ?doc @ [byte_of TAG_END_OF_ATTR] = ipp_bytes printer_name jp"
    unfolding opt_bytes_def uri doc lit ipp_bytes_def job_attrs_def attr_bytes.simps by (simp add: be16_def)
  have "ipp_header printer_name jp =
     then_do (add_option IBUFSZ ?icp TAG_CHARSET ''attributes-charset'' ''utf-8'') (\<lambda>icp.
     then_do (add_option IBUFSZ icp TAG_NATULANG ''attributes-natural-language'' ''en-us'') (\<lambda>icp.
     then_do (if length printer_name \<le> 52 then Inr ?uri else Inl (Undefined ''str'')) (\<lambda>str.
     then_do (add_option IBUFSZ icp TAG_URI ''printer-uri'' str) (\<lambda>icp.
     if NUL \<notin> set ?j then Inl (Undefined ''jobnm'')
     else then_do (add_option IBUFSZ icp TAG_NAMEWOLANG ''requesting-user-name'' ?u) (\<lambda>icp.
       then_do (add_option IBUFSZ icp TAG_NAMEWOLANG ''job-name'' ?j) (\<lambda>icp.
       then_do (add_option IBUFSZ icp TAG_MIMETYPE ''document-format'' ?doc) (\<lambda>icp.
       fits_array ''ibuf'' IBUFSZ (icp @ [byte_of TAG_END_OF_ATTR]))))))))"
    unfolding ipp_header_def Let_def str by (rule refl)
  from six_options [OF this, unfolded out] show ?thesis by (auto simp: ipp_fits_def split: if_splits)
qed

text \<open>C10: the IPP header, its buffers included. \<open>printer_thread\<close> builds the header without a store
  outside \<open>str[64]\<close> and \<open>ibuf[512]\<close> exactly when the job name ends inside its field, the printer
  name has at most 52 bytes, and printer name, user name and job name together leave room for
  the 170 (plain text) or 182 (PostScript) other bytes; otherwise the behaviour is undefined.
  A printer that parses the header finds the job: after the fixed eight bytes (version 1.1,
  operation 2, the job number) and the operation tag come exactly the six attributes of the
  job, then the end tag. The user and job name are the strings the client sent, whatever
  follows their null bytes.\<close>

theorem ipp_header_roundtrip:
  assumes "NUL \<notin> set printer_name"
  shows "((\<exists>h. ipp_header printer_name jp = Inr h) \<longleftrightarrow>
       NUL \<in> set (r_jobnm (req jp)) \<and> length printer_name \<le> 52 \<and>
       length printer_name + length (cstr (r_usernm (req jp) @ r_jobnm (req jp))) + length (cstr (r_jobnm (req jp))) +
         (if is_text (req jp) then 170 else 182) \<le> IBUFSZ) \<and>
     (case ipp_header printer_name jp of
        Inl e \<Rightarrow> \<exists>what. e = Undefined what
      | Inr h \<Rightarrow> take 9 h = [byte_of 1, byte_of 1, byte_of 0, byte_of 2] @ rev (le32 (jobid jp)) @ [byte_of 1] \<and>
          ipp_attrs (drop 9 h) = Some (job_attrs printer_name jp))"
proof (cases "ipp_fits printer_name jp")
  case True
  let ?h = "[byte_of 1, byte_of 1, byte_of 0, byte_of 2] @ rev (le32 (jobid jp)) @ [byte_of 1]"
  have "length ?h = 9" by simp
  then have split9: "take 9 (ipp_bytes printer_name jp) = ?h" "drop 9 (ipp_bytes printer_name jp) = attr_bytes (job_attrs printer_name jp)"
    unfolding ipp_bytes_def by (metis append_eq_conv_conj)+
  have sum: "length printer_name + length (cstr (r_usernm (req jp) @ r_jobnm (req jp))) + length (cstr (r_jobnm (req jp))) +
      (if is_text (req jp) then 170 else 182) \<le> IBUFSZ"
    using True unfolding ipp_fits_def length_ipp_bytes by blast
  then have "length (cstr (r_usernm (req jp) @ r_jobnm (req jp))) < 65536" "length (cstr (r_jobnm (req jp))) < 65536"
    "length printer_name < 65000" by auto
  then have "ipp_attrs (attr_bytes (job_attrs printer_name jp)) = Some (job_attrs printer_name jp)"
    by (intro ipp_attrs_bytes) (simp add: job_attrs_def)
  with ipp_header_eq [OF assms, of jp] True split9 sum show ?thesis by (simp add: ipp_fits_def)
next
  case False
  with ipp_header_eq [OF assms, of jp] show ?thesis by (auto simp: ipp_fits_def length_ipp_bytes)
qed

text \<open>A request whose names fill their fields up to the terminating null byte.\<close>

definition long_req :: printreq where
  "long_req = \<lparr>r_size = 0, r_flags = 1, r_usernm = replicate 63 CHR ''u'' @ [NUL],
     r_jobnm = replicate 255 CHR ''j'' @ [NUL]\<rparr>"

lemma long_req_ok: "printreq_ok long_req"
  by (simp add: long_req_def printreq_ok_def)

lemma long_req_names:
  "cstr (r_usernm long_req @ r_jobnm long_req) = replicate 63 CHR ''u''" "cstr (r_jobnm long_req) = replicate 255 CHR ''j''"
  by (simp_all add: long_req_def)

text \<open>With these names the header of a printer with a short name fits; with a name of 30 bytes
  it does not.\<close>

theorem ipp_header_roundtrip_witness:
  "(\<exists>h. ipp_header ''lp1'' \<lparr>jobid = 17, req = long_req\<rparr> = Inr h \<and>
      ipp_attrs (drop 9 h) = Some (job_attrs ''lp1'' \<lparr>jobid = 17, req = long_req\<rparr>)) \<and>
   (\<exists>what. ipp_header ''hp-laserjet.floor3.example.com'' \<lparr>jobid = 17, req = long_req\<rparr> = Inl (Undefined what))"
proof -
  have t: "is_text long_req" "NUL \<in> set (r_jobnm long_req)" by (simp_all add: is_text_def long_req_def)
  have "\<exists>h. ipp_header ''lp1'' \<lparr>jobid = 17, req = long_req\<rparr> = Inr h"
    using ipp_header_roundtrip [of "''lp1''" "\<lparr>jobid = 17, req = long_req\<rparr>"] t long_req_names by simp
  moreover have "\<not> (\<exists>h. ipp_header ''hp-laserjet.floor3.example.com'' \<lparr>jobid = 17, req = long_req\<rparr> = Inr h)"
    using ipp_header_roundtrip [of "''hp-laserjet.floor3.example.com''" "\<lparr>jobid = 17, req = long_req\<rparr>"] t long_req_names by simp
  ultimately show ?thesis
    using ipp_header_roundtrip [of "''lp1''" "\<lparr>jobid = 17, req = long_req\<rparr>"]
      ipp_header_roundtrip [of "''hp-laserjet.floor3.example.com''" "\<lparr>jobid = 17, req = long_req\<rparr>"]
    by (cases "ipp_header ''hp-laserjet.floor3.example.com'' \<lparr>jobid = 17, req = long_req\<rparr>") auto
qed

end
