(* ===== verification/Printd_Config.thy ===== *)
theory Printd_Config
  imports Printd_Queue
begin

text \<open>
  The configuration file of the printing programs (\<open>printer/util.c\<close>): \<open>scan_configfile\<close> and
  the functions on top of it, with \<open>getaddrinfo\<close> of the C library's resolver as a parameter,
  and \<open>init_printer\<close> of the daemon.
\<close>

section \<open>Lines and words\<close>

abbreviation MAXCFGLINE :: nat where "MAXCFGLINE \<equiv> 512"
abbreviation MAXKWLEN :: nat where "MAXKWLEN \<equiv> 16"

text \<open>What \<open>fgets(line, MAXCFGLINE, fp)\<close> takes from the rest of the file.\<close>

definition fgets_line :: "string \<Rightarrow> string" where
  "fgets_line s =
     (let l = takeWhile (\<lambda>c. c \<noteq> NEWLINE) s in
      take (MAXCFGLINE - 1) (if length l < length s then l @ [NEWLINE] else l))"

lemma fgets_line_Nil [simp]: "fgets_line s = [] \<longleftrightarrow> s = []"
  by (cases s) (auto simp: fgets_line_def Let_def)

function fgets_lines :: "string \<Rightarrow> string list" where
  "fgets_lines s = (if s = [] then [] else fgets_line s # fgets_lines (drop (length (fgets_line s)) s))"
  by pat_completeness auto
termination
proof (relation "measure length")
  fix s :: string
  assume "s \<noteq> []"
  then have "0 < length (fgets_line s)" by simp
  with \<open>s \<noteq> []\<close> show "(drop (length (fgets_line s)) s, s) \<in> measure length" by (cases s) auto
qed simp

declare fgets_lines.simps [simp del]

text \<open>One \<open>%<w>s\<close> of \<open>sscanf\<close>: white space, then at most \<open>w\<close> other characters, at least one.\<close>

definition scan_word :: "nat \<Rightarrow> string \<Rightarrow> (string \<times> string) option" where
  "scan_word w s =
     (let t = dropWhile isspace s; tok = take w (takeWhile (\<lambda>c. \<not> isspace c) t) in
      if tok = [] then None else Some (tok, drop (length tok) t))"

text \<open>\<open>sscanf(line, "%15s %511s", keybuf, valbuf)\<close>, \<open>None\<close> unless both words are there.\<close>

definition scan_line :: "string \<Rightarrow> (string \<times> string) option" where
  "scan_line line =
     (case scan_word (MAXKWLEN - 1) (cstr line) of
        None \<Rightarrow> None
      | Some (k, r) \<Rightarrow> map_option (\<lambda>(v, _). (k, v)) (scan_word (MAXCFGLINE - 1) r))"

text \<open>\<open>conf\<close> is the contents of the file, \<open>None\<close> when it cannot be opened.\<close>

definition scan_configfile :: "string option \<Rightarrow> string \<Rightarrow> exit_reason + string option" where
  "scan_configfile conf keyword =
     (case conf of
        None \<Rightarrow> Inl (SysExit ''can't open /etc/printer.conf'')
      | Some text \<Rightarrow>
          Inr (map_option snd (find (\<lambda>(k, v). k = keyword) (List.map_filter scan_line (fgets_lines text)))))"

definition get_printserver :: "string option \<Rightarrow> exit_reason + string option" where
  "get_printserver conf = scan_configfile conf ''printserver''"

text \<open>The resolver: host and service to an error code or a list of canonical names.\<close>

type_synonym resolver = "string \<Rightarrow> string \<Rightarrow> int + string option list"

definition getaddrlist :: "resolver \<Rightarrow> string \<Rightarrow> string \<Rightarrow> int + string option list" where
  "getaddrlist getaddrinfo host service = getaddrinfo host service"

definition get_printaddr :: "resolver \<Rightarrow> string option \<Rightarrow> exit_reason + string option list option" where
  "get_printaddr getaddrinfo conf =
     (case scan_configfile conf ''printer'' of
        Inl e \<Rightarrow> Inl e
      | Inr None \<Rightarrow> Inr None
      | Inr (Some p) \<Rightarrow>
          (case getaddrlist getaddrinfo p ''ipp'' of
             Inl err \<Rightarrow> Inr None
           | Inr ailist \<Rightarrow> Inr (Some ailist)))"

text \<open>
  \<open>init_printer\<close>: without an address the daemon exits; the printer's name is the canonical
  name of the first address.
\<close>

definition init_printer :: "resolver \<Rightarrow> string option \<Rightarrow> (printd, unit) io" where
  "init_printer getaddrinfo conf s =
     (case get_printaddr getaddrinfo conf of
        Inl e \<Rightarrow> Inl e
      | Inr None \<Rightarrow> Inl (Exit 1)
      | Inr (Some ailist) \<Rightarrow>
          (case ailist of
             [] \<Rightarrow> Inl (Exit 1)
           | a # _ \<Rightarrow> Inr ((), s\<lparr>printer := Some (case a of None \<Rightarrow> ''printer'' | Some n \<Rightarrow> n)\<rparr>)))"

section \<open>Scanning what was written\<close>

text \<open>A configuration file: one entry per line, key and value separated by a blank.\<close>

definition conf_line :: "string \<times> string \<Rightarrow> string" where
  "conf_line kv = fst kv @ [SPACE] @ snd kv @ [NEWLINE]"

definition word_ok :: "string \<Rightarrow> bool" where
  "word_ok w \<longleftrightarrow> w \<noteq> [] \<and> list_all (\<lambda>c. \<not> isspace c \<and> c \<noteq> NUL) w"

definition entry_ok :: "string \<times> string \<Rightarrow> bool" where
  "entry_ok kv \<longleftrightarrow> word_ok (fst kv) \<and> word_ok (snd kv) \<and> length (fst kv) \<le> 15 \<and> length (fst kv) + length (snd kv) \<le> 509"

lemma word_no_newline: "word_ok w \<Longrightarrow> NEWLINE \<notin> set w \<and> NUL \<notin> set w"
proof -
  assume "word_ok w"
  then have "\<forall>c\<in>set w. \<not> isspace c \<and> c \<noteq> NUL" by (simp add: word_ok_def list_all_iff)
  moreover have "isspace NEWLINE" by (simp add: isspace_def)
  ultimately show ?thesis by blast
qed

lemma scan_word_ok:
  assumes "word_ok w" "length w \<le> n" "isspace d"
  shows "scan_word n (w @ d # r) = Some (w, d # r)"
proof -
  obtain c cs where w: "w = c # cs" "\<not> isspace c" using assms(1) by (cases w) (auto simp: word_ok_def)
  have "takeWhile (\<lambda>c. \<not> isspace c) (w @ d # r) = w"
    using assms(1,3) by (subst takeWhile_append2) (auto simp: word_ok_def list_all_iff)
  with w assms show ?thesis by (simp add: scan_word_def Let_def)
qed

lemma scan_line_entry:
  assumes "entry_ok kv"
  shows "scan_line (conf_line kv) = Some kv"
proof -
  obtain k v where kv: "kv = (k, v)" by (cases kv)
  have k: "word_ok k" "length k \<le> 15" and v: "word_ok v" "length v \<le> 511" using assms kv by (auto simp: entry_ok_def)
  have nul: "NUL \<notin> set (conf_line kv)" using word_no_newline k v kv by (auto simp: conf_line_def)
  have "dropWhile isspace (SPACE # v @ [NEWLINE]) = v @ [NEWLINE]"
    using v(1) by (cases v) (auto simp: word_ok_def)
  then have "scan_word 511 (SPACE # v @ [NEWLINE]) = scan_word 511 (v @ [NEWLINE])"
    using v(1) by (cases v) (auto simp: scan_word_def word_ok_def)
  moreover have "isspace NEWLINE" by (simp add: isspace_def)
  ultimately show ?thesis
    using scan_word_ok [OF k, of SPACE "v @ [NEWLINE]"] scan_word_ok [OF v, of NEWLINE "[]"] nul kv
    by (simp add: scan_line_def conf_line_def)
qed

lemma fgets_line_entry:
  assumes "entry_ok kv"
  shows "fgets_line (conf_line kv @ rest) = conf_line kv"
proof -
  obtain k v where kv: "kv = (k, v)" by (cases kv)
  let ?l = "k @ [SPACE] @ v"
  have nl: "NEWLINE \<notin> set ?l" using assms kv word_no_newline by (auto simp: entry_ok_def)
  have "takeWhile (\<lambda>c. c \<noteq> NEWLINE) (?l @ NEWLINE # rest) = ?l" using split_string_at(1) [OF nl] .
  then have tw: "takeWhile (\<lambda>c. c \<noteq> NEWLINE) (conf_line kv @ rest) = ?l" using kv by (simp add: conf_line_def)
  have len: "length (conf_line kv) \<le> 511" using assms kv by (simp add: conf_line_def entry_ok_def)
  have "?l @ [NEWLINE] = conf_line kv" using kv by (simp add: conf_line_def)
  moreover have "length ?l < length (conf_line kv @ rest)" using kv by (simp add: conf_line_def)
  ultimately show ?thesis using tw len by (simp add: fgets_line_def Let_def)
qed

lemma fgets_lines_entries:
  "list_all entry_ok kvs \<Longrightarrow> fgets_lines (concat (map conf_line kvs)) = map conf_line kvs"
proof (induction kvs)
  case Nil
  show ?case by (subst fgets_lines.simps) simp
next
  case (Cons kv kvs)
  have ne: "conf_line kv \<noteq> []" by (simp add: conf_line_def)
  with Cons show ?case by (subst fgets_lines.simps) (simp add: fgets_line_entry)
qed

text \<open>\<open>scan_configfile\<close> is a lookup in the configuration: for a file that lists entries one
  per line (keys of at most 15 characters, lines shorter than the buffer), it returns the
  value of the first entry with the keyword, null when there is none.\<close>

theorem scan_configfile_lookup:
  assumes "list_all entry_ok kvs"
  shows "scan_configfile (Some (concat (map conf_line kvs))) keyword = Inr (map_of kvs keyword)"
proof -
  have "List.map_filter scan_line (map conf_line kvs) = kvs"
    using assms by (induction kvs) (auto simp: List.map_filter_def scan_line_entry)
  moreover have "map_option snd (find (\<lambda>(k, v). k = keyword) kvs) = map_of kvs keyword"
    by (induction kvs) auto
  ultimately show ?thesis using fgets_lines_entries [OF assms] by (simp add: scan_configfile_def)
qed

theorem scan_configfile_lookup_witness:
  "scan_configfile (Some (concat (map conf_line [(''printserver'', ''blade''), (''printer'', ''phaser860'')]))) ''printer'' =
     Inr (Some ''phaser860'')"
  using scan_configfile_lookup [of "[(''printserver'', ''blade''), (''printer'', ''phaser860'')]" "''printer''"]
  by (simp add: entry_ok_def word_ok_def isspace_def)

end
