(* ===== verification/Printd_Client.thy ===== *)
theory Printd_Client
  imports Printd_Queue Printd_Wire Stream_Io
begin

text \<open>
  The client side of the print daemon (\<open>printer/printd.c\<close>): \<open>client_thread\<close>, which accepts a
  job over a socket, spools it in two files and queues it, and \<open>build_qonstart\<close>, which queues
  the spooled jobs again when the daemon starts. The C library's \<open>strerror\<close> is a parameter,
  and so are the bytes that uninitialised buffers hold.
\<close>

unbundle bit_operations_syntax

section \<open>State\<close>

text \<open>
  How a coming system call on a spool file ends; \<open>unlq\<close> says which of the coming \<open>unlink\<close> calls
  fail, whose results the code does not look at.
\<close>

datatype sysres =
    FOk
  | FShort nat     \<comment> \<open>at most this many bytes are transferred\<close>
  | FErr int       \<comment> \<open>failure with this \<open>errno\<close>\<close>

record spool =
  pd :: printd
  files :: "string \<rightharpoonup> string"
  sysq :: "sysres list"
  unlq :: "bool list"
  conn :: chan

definition on_pd :: "(printd, 'a) io \<Rightarrow> (spool, 'a) io" where
  "on_pd m s = (case m (pd s) of Inl e \<Rightarrow> Inl e | Inr (x, p) \<Rightarrow> Inr (x, s\<lparr>pd := p\<rparr>))"

definition on_conn :: "(chan \<Rightarrow> 'a \<times> chan) \<Rightarrow> (spool, 'a) io" where
  "on_conn f s = (case f (conn s) of (x, c) \<Rightarrow> Inr (x, s\<lparr>conn := c\<rparr>))"

definition next_sys :: "(spool, sysres) io" where
  "next_sys s = (case sysq s of [] \<Rightarrow> Inr (FOk, s) | r # rs \<Rightarrow> Inr (r, s\<lparr>sysq := rs\<rparr>))"

definition get_errno :: "(spool, int) io" where
  "get_errno = gets_io (\<lambda>s. c_errno (conn s))"

definition set_errno :: "int \<Rightarrow> (spool, unit) io" where
  "set_errno e = modify_io (\<lambda>s. s\<lparr>conn := (conn s)\<lparr>c_errno := e\<rparr>\<rparr>)"

section \<open>System calls on the spool directory\<close>

text \<open>\<open>creat\<close>: \<open>False\<close> for a negative descriptor.\<close>

definition creat_io :: "string \<Rightarrow> (spool, bool) io" where
  "creat_io name =
     bind_io next_sys (\<lambda>r.
     case r of
       FErr e \<Rightarrow> seq_io (set_errno e) (ret_io False)
     | _ \<Rightarrow> seq_io (modify_io (\<lambda>s. s\<lparr>files := (files s)(name \<mapsto> [])\<rparr>)) (ret_io True))"

text \<open>\<open>write\<close> on a descriptor of a file that only this thread writes.\<close>

definition write_spool :: "string \<Rightarrow> string \<Rightarrow> (spool, int) io" where
  "write_spool name bs =
     bind_io next_sys (\<lambda>r.
     case r of
       FErr e \<Rightarrow> seq_io (set_errno e) (ret_io (-1))
     | _ \<Rightarrow>
         let k = (case r of FShort n \<Rightarrow> min n (length bs) | _ \<Rightarrow> length bs) in
         seq_io (modify_io (\<lambda>s. s\<lparr>files := (files s)(name \<mapsto> the (files s name) @ take k bs)\<rparr>))
           (ret_io (int k)))"

definition unlink_io :: "string \<Rightarrow> (spool, unit) io" where
  "unlink_io name =
     bind_io (gets_io unlq) (\<lambda>us.
     seq_io (modify_io (\<lambda>s. s\<lparr>unlq := tl us\<rparr>))
       (when_io (take 1 us \<noteq> [True]) (modify_io (\<lambda>s. s\<lparr>files := (files s)(name := None)\<rparr>))))"

lemma unlink_run:
  "\<exists>us f. unlink_io name s = Inr ((), s\<lparr>unlq := us, files := f\<rparr>) \<and> (\<forall>p. p \<noteq> name \<longrightarrow> f p = files s p) \<and>
     (True \<notin> set (unlq s) \<longrightarrow> f = (files s)(name := None) \<and> True \<notin> set us)"
proof (cases "unlq s")
  case Nil
  then show ?thesis
    by (intro exI [of _ "[]"] exI [of _ "(files s)(name := None)"]) (simp add: unlink_io_def io_simps)
next
  case (Cons u us)
  then show ?thesis
    by (intro exI [of _ us] exI [of _ "if u then files s else (files s)(name := None)"]) (simp add: unlink_io_def io_simps)
qed

abbreviation SPOOLDIR :: string where "SPOOLDIR \<equiv> ''/var/spool/printer''"

definition data_path :: "string \<Rightarrow> string" where
  "data_path d_name = SPOOLDIR @ ''/data/'' @ d_name"

definition req_path :: "string \<Rightarrow> string" where
  "req_path d_name = SPOOLDIR @ ''/reqs/'' @ d_name"

text \<open>\<open>%d\<close> of a job number.\<close>

definition job_name :: "32 word \<Rightarrow> string" where
  "job_name j = dec_int (sint j)"

section \<open>The client thread\<close>

text \<open>
  A failure response. The text is that of the code in network byte order, as in the source.
\<close>

definition reject :: "(int \<Rightarrow> string) \<Rightarrow> int \<Rightarrow> (spool, unit) io" where
  "reject strerror e =
     (let retcode = htonl (word_of_int e) in
      seq_io (on_conn (writen (printresp_bytes retcode 0 (strncpy MSGLEN_MAX (strerror (sint retcode)))))) (ret_io ()))"

definition client_exit :: "nat \<Rightarrow> int \<Rightarrow> (spool, int) io" where
  "client_exit tid v = seq_io (on_pd (client_cleanup tid)) (ret_io v)"

text \<open>
  The loop that stores the file. \<open>buf\<close> is the whole input buffer, of which \<open>strncmp\<close> looks at
  four bytes; a time-out or an error of \<open>tread\<close> ends the loop like the end of the file.
\<close>

fun upload :: "(int \<Rightarrow> string) \<Rightarrow> nat \<Rightarrow> string \<Rightarrow> bool \<Rightarrow> string \<Rightarrow> printreq \<Rightarrow> (spool, printreq option) io" where
  "upload strerror 0 buf first name r = fail_io Diverges"
| "upload strerror (Suc fuel) buf first name r =
     bind_io (on_conn (tread IOBUFSZ)) (\<lambda>v.
     case v of
       None \<Rightarrow> ret_io (Some r)
     | Some bs \<Rightarrow>
         if bs = [] then ret_io (Some r)
         else
           let buf' = bs @ drop (length bs) buf;
               r' = (if first \<and> take 4 buf' \<noteq> ''%!PS'' then r\<lparr>r_flags := r_flags r OR PR_TEXT\<rparr> else r) in
           bind_io (write_spool name bs) (\<lambda>nw.
           if nw \<noteq> int (length bs) then
             bind_io get_errno (\<lambda>e.
             seq_io (reject strerror (if nw < 0 then e else EIO))
            (seq_io (unlink_io name) (ret_io None)))
           else upload strerror fuel buf' False name r'))"

text \<open>Every successful read takes a byte, so this many rounds are enough.\<close>

definition upload_fuel :: "spool \<Rightarrow> nat" where
  "upload_fuel s = Suc (length (trd_bytes (c_in (conn s))))"

text \<open>The control file: \<open>False\<close> when the job is refused.\<close>

definition write_control :: "(int \<Rightarrow> string) \<Rightarrow> string \<Rightarrow> printreq \<Rightarrow> (spool, bool) io" where
  "write_control strerror d_name r =
     bind_io (creat_io (req_path d_name)) (\<lambda>ok.
     if \<not> ok then
       bind_io get_errno (\<lambda>e.
       seq_io (reject strerror e) (seq_io (unlink_io (data_path d_name)) (ret_io False)))
     else
       bind_io (write_spool (req_path d_name) (printreq_bytes r)) (\<lambda>nw.
       if nw \<noteq> int PRINTREQ_SZ then
         bind_io get_errno (\<lambda>e.
         seq_io (reject strerror (if nw < 0 then e else EIO))
        (seq_io (unlink_io (req_path d_name))
        (seq_io (unlink_io (data_path d_name)) (ret_io False))))
       else ret_io True))"

definition accept_msg :: "32 word \<Rightarrow> string \<Rightarrow> string" where
  "accept_msg j old = printresp_bytes 0 (htonl j) (strcpy_into (''request ID '' @ job_name j) old)"

text \<open>
  The thread, from its start to its exit status; \<open>buf\<close> and \<open>msg\<close> are the uninitialised bytes
  of \<open>buf\<close> and \<open>res.msg\<close>.
\<close>

definition client_thread :: "(int \<Rightarrow> string) \<Rightarrow> string \<Rightarrow> string \<Rightarrow> nat \<Rightarrow> int \<Rightarrow> (spool, int) io" where
  "client_thread strerror buf msg tid sockfd =
     bind_io (on_pd (add_worker tid sockfd)) (\<lambda>added.
     if \<not> added then client_exit tid 1
     else
       bind_io (on_conn (treadn PRINTREQ_SZ)) (\<lambda>h.
       if map_option length h \<noteq> Some PRINTREQ_SZ then
         bind_io get_errno (\<lambda>e.
         seq_io (reject strerror (if h = None then e else EIO)) (client_exit tid 1))
       else
         let r0 = printreq_of (the h); r = r0\<lparr>r_size := ntohl (r_size r0), r_flags := ntohl (r_flags r0)\<rparr> in
         bind_io (on_pd get_newjobno) (\<lambda>jobid.
         bind_io (creat_io (data_path (job_name jobid))) (\<lambda>ok.
         if \<not> ok then bind_io get_errno (\<lambda>e. seq_io (reject strerror e) (client_exit tid 1))
         else
           bind_io (\<lambda>s. upload strerror (upload_fuel s) buf True (data_path (job_name jobid)) r s) (\<lambda>up.
           case up of
             None \<Rightarrow> client_exit tid 1
           | Some r' \<Rightarrow>
               bind_io (write_control strerror (job_name jobid) r') (\<lambda>ctl.
               if \<not> ctl then client_exit tid 1
               else
                 seq_io (on_conn (writen (accept_msg jobid msg)))
                (seq_io (on_pd (add_job r' jobid)) (client_exit tid 0))))))))"

section \<open>Restart\<close>

text \<open>
  \<open>build_qonstart\<close> on what \<open>readdir\<close> returns for the request directory, \<open>None\<close> when the
  directory cannot be opened.
\<close>

fun requeue :: "string list \<Rightarrow> (spool, unit) io" where
  "requeue [] = ret_io ()"
| "requeue (d_name # ents) =
     (if d_name = ''.'' \<or> d_name = ''..'' then requeue ents
      else
        bind_io next_sys (\<lambda>o_res.
        bind_io (gets_io (\<lambda>s. files s (req_path d_name))) (\<lambda>content.
        case (o_res, content) of
          (FErr e, _) \<Rightarrow> requeue ents
        | (_, None) \<Rightarrow> requeue ents
        | (_, Some bytes) \<Rightarrow>
            bind_io next_sys (\<lambda>r_res.
            let got = (case r_res of
                         FErr e \<Rightarrow> None
                       | FShort n \<Rightarrow> Some (take (min n PRINTREQ_SZ) bytes)
                       | FOk \<Rightarrow> Some (take PRINTREQ_SZ bytes)) in
            if map_option length got \<noteq> Some PRINTREQ_SZ then
              seq_io (unlink_io (req_path d_name)) (seq_io (unlink_io (data_path d_name)) (requeue ents))
            else
              seq_io (on_pd (add_job (printreq_of (the got)) (word_of_int (atol d_name)))) (requeue ents)))))"

definition build_qonstart :: "string list option \<Rightarrow> (spool, unit) io" where
  "build_qonstart ents = (case ents of None \<Rightarrow> ret_io () | Some es \<Rightarrow> requeue es)"

section \<open>What the parts do\<close>

lemma pq_rep_cong:
  assumes "dl_heap p' = dl_heap p" "dl_head p' = dl_head p" "dl_tail p' = dl_tail p" "dl_brk p' = dl_brk p"
    "dl_oom p' = dl_oom p" "joblock p' = joblock p"
  shows "pq_rep p' q h = pq_rep p q h"
  unfolding pq_rep_def dl_ok_def dl_vals_def assms by (rule refl)

lemma pq_rep_pd [simp]:
  "pq_rep (p\<lparr>workers := w\<rparr>) q h = pq_rep p q h"
  "pq_rep (p\<lparr>closed := c\<rparr>) q h = pq_rep p q h"
  "pq_rep (p\<lparr>nextjob := j\<rparr>) q h = pq_rep p q h"
  "pq_rep (p\<lparr>workerlock := b\<rparr>) q h = pq_rep p q h"
proof -
  show "pq_rep (p\<lparr>workers := w\<rparr>) q h = pq_rep p q h" by (rule pq_rep_cong) (cases p; simp)+
  show "pq_rep (p\<lparr>closed := c\<rparr>) q h = pq_rep p q h" by (rule pq_rep_cong) simp_all
  show "pq_rep (p\<lparr>nextjob := j\<rparr>) q h = pq_rep p q h" by (rule pq_rep_cong) simp_all
  show "pq_rep (p\<lparr>workerlock := b\<rparr>) q h = pq_rep p q h" by (rule pq_rep_cong) simp_all
qed

lemma pq_rep_unlocked: "pq_rep p q h \<Longrightarrow> \<not> joblock p"
  by (auto simp: pq_rep_def)

text \<open>The only worker on the list is the thread \<open>tid\<close>.\<close>

definition serving :: "nat \<Rightarrow> int \<Rightarrow> printd \<Rightarrow> bool" where
  "serving tid fd p \<longleftrightarrow> \<not> workerlock p \<and>
     (\<exists>a. dl_head (workers p) = Some a \<and> 0 < dl_brk (workers p) \<and>
        dl_heap (workers p) a = Some \<lparr>n_next = None, n_prev = None, n_val = \<lparr>w_tid = tid, w_sockfd = fd\<rparr>\<rparr>)"

text \<open>
  A list of workers \<open>as\<close> on which the thread \<open>tid\<close> is not, as it is before the thread starts. The
  thread is on the list afterwards only when the list was empty and memory was left.
\<close>

definition workers_ok :: "printd \<Rightarrow> addr list \<Rightarrow> nat \<Rightarrow> bool" where
  "workers_ok p as tid \<longleftrightarrow> \<not> workerlock p \<and> worker_list p = Inr (as, p) \<and>
     (\<forall>a \<in> dom (dl_heap (workers p)). a < dl_brk (workers p)) \<and>
     (\<forall>a \<in> set as. w_tid (n_val (the (dl_heap (workers p) a))) \<noteq> tid)"

definition worker_oom :: "printd \<Rightarrow> bool" where
  "worker_oom p \<longleftrightarrow> take 1 (dl_oom (workers p)) = [True]"

definition registered :: "nat \<Rightarrow> int \<Rightarrow> bool \<Rightarrow> addr list \<Rightarrow> printd \<Rightarrow> bool" where
  "registered tid fd listed as p \<longleftrightarrow>
     (if listed then as = [] \<and> serving tid fd p
      else \<not> workerlock p \<and> worker_list p = Inr (as, p) \<and>
        (\<forall>a \<in> set as. w_tid (n_val (the (dl_heap (workers p) a))) \<noteq> tid))"

lemma worker_list_cong: "workers p' = workers p \<Longrightarrow> worker_list p' = Inr (as, p') \<longleftrightarrow> worker_list p = Inr (as, p)"
  by (simp add: worker_list_def split: sum.splits)

lemma worker_list_head: "worker_list p = Inr (as, p) \<Longrightarrow> as = [] \<longleftrightarrow> dl_head (workers p) = None"
  by (cases "dl_head (workers p)"; cases "dl_brk (workers p)")
    (auto simp: worker_list_def split: sum.splits option.splits)

lemma worker_list_Nil: "dl_head (workers p) = None \<Longrightarrow> worker_list p = Inr ([], p)"
  by (simp add: worker_list_def)

lemma add_worker_first:
  assumes "dl_head (workers p) = None" "workers_fit p"
  shows "\<exists>w. add_worker tid fd p = Inr (True, p\<lparr>workers := w, workerlock := False\<rparr>) \<and>
    serving tid fd (p\<lparr>workers := w, workerlock := False\<rparr>)"
proof -
  let ?n = "\<lparr>n_next = None, n_prev = None, n_val = \<lparr>w_tid = tid, w_sockfd = fd\<rparr>\<rparr>"
  let ?w = "(workers p)\<lparr>dl_brk := Suc (dl_brk (workers p)), dl_oom := tl (dl_oom (workers p)),
     dl_heap := (dl_heap (workers p))(dl_brk (workers p) \<mapsto> ?n), dl_head := Some (dl_brk (workers p))\<rparr>"
  have "add_worker tid fd p = Inr (True, p\<lparr>workers := ?w, workerlock := False\<rparr>)"
    using assms
    by (simp add: add_worker_def io_simps on_workers_def new_node_fits lock_workerlock_def unlock_workerlock_def
        workers_fit_def)
  then show ?thesis by (intro exI [of _ ?w]) (simp add: serving_def)
qed

lemma add_worker_run:
  assumes "workers_ok p as tid"
  shows "\<exists>w. add_worker tid fd p = Inr (\<not> worker_oom p, p\<lparr>workers := w, workerlock := False\<rparr>) \<and>
    registered tid fd (as = [] \<and> \<not> worker_oom p) as (p\<lparr>workers := w, workerlock := False\<rparr>)"
proof (cases "worker_oom p")
  case True
  then obtain os where os: "dl_oom (workers p) = True # os" by (cases "dl_oom (workers p)") (auto simp: worker_oom_def)
  let ?w = "(workers p)\<lparr>dl_oom := os\<rparr>"
  have walk: "worker_walk n h ?w = worker_walk n h (workers p)" for n h
    by (induction n h "workers p" rule: worker_walk.induct) (auto split: option.splits)
  have "worker_list (p\<lparr>workers := ?w, workerlock := False\<rparr>) = Inr (as, p\<lparr>workers := ?w, workerlock := False\<rparr>)"
    using assms walk by (auto simp: workers_ok_def worker_list_def split: sum.splits)
  then have "registered tid fd (as = [] \<and> \<not> worker_oom p) as (p\<lparr>workers := ?w, workerlock := False\<rparr>)"
    using True assms unfolding registered_def workers_ok_def by simp
  moreover have "add_worker tid fd p = Inr (\<not> worker_oom p, p\<lparr>workers := ?w, workerlock := False\<rparr>)"
    using True os assms by (simp add: add_worker_def io_simps on_workers_def new_node_def workers_ok_def)
  ultimately show ?thesis by blast
next
  case False
  then have fit: "workers_fit p" using assms by (auto simp: workers_fit_def workers_ok_def worker_oom_def)
  show ?thesis
  proof (cases "as = []")
    case True
    then have "dl_head (workers p) = None" using assms worker_list_head by (auto simp: workers_ok_def)
    from add_worker_first [OF this fit] True False show ?thesis by (auto simp: registered_def)
  next
    case ne: False
    obtain p' w where p': "add_worker tid fd p = Inr (True, p')" "worker_list p' = Inr (as, p')"
      "p' = p\<lparr>workers := w, workerlock := False\<rparr>"
      "\<And>a. a \<in> set as \<Longrightarrow> map_option n_val (dl_heap (workers p') a) = map_option n_val (dl_heap (workers p) a)"
      using add_worker_second [of p as tid fd] assms ne fit by (auto simp: workers_ok_def)
    have "w_tid (n_val (the (dl_heap (workers p') a))) \<noteq> tid" if a: "a \<in> set as" for a
    proof -
      have "dl_heap (workers p) a \<noteq> None"
        using assms worker_walk_alloc [OF _ a] by (auto simp: workers_ok_def worker_list_def split: sum.splits)
      moreover have "w_tid (n_val (the (dl_heap (workers p) a))) \<noteq> tid" using assms a by (auto simp: workers_ok_def)
      ultimately show ?thesis using p'(4) [OF a] by auto
    qed
    with p' ne False show ?thesis by (auto simp: registered_def)
  qed
qed

lemma client_cleanup_serving:
  assumes "serving tid fd p"
  shows "\<exists>w. client_cleanup tid p = Inr ((), p\<lparr>workerlock := False, closed := closed p @ [fd], workers := w\<rparr>) \<and>
    dl_head w = None"
proof -
  obtain a where a: "dl_head (workers p) = Some a" "\<not> workerlock p" "0 < dl_brk (workers p)"
    "dl_heap (workers p) a = Some \<lparr>n_next = None, n_prev = None, n_val = \<lparr>w_tid = tid, w_sockfd = fd\<rparr>\<rparr>"
    using assms by (auto simp: serving_def)
  then obtain k where "dl_brk (workers p) = Suc k" by (cases "dl_brk (workers p)") auto
  with a have "worker_list (p\<lparr>workerlock := True\<rparr>) = Inr ([a], p\<lparr>workerlock := True\<rparr>)"
    by (simp add: worker_list_def)
  with a have "client_cleanup tid p = Inr ((), p\<lparr>workerlock := False, closed := closed p @ [fd],
      workers := (workers p)\<lparr>dl_head := None, dl_heap := (dl_heap (workers p))(a := None)\<rparr>\<rparr>)"
    by (simp add: client_cleanup_def io_simps lock_workerlock_def unlock_workerlock_def on_workers_def free_node_def)
  then show ?thesis by auto
qed

lemma client_cleanup_run:
  assumes "registered tid fd listed as p"
  shows "\<exists>w. client_cleanup tid p =
      Inr ((), p\<lparr>workerlock := False, closed := closed p @ (if listed then [fd] else []), workers := w\<rparr>) \<and>
    (\<forall>p'. workers p' = w \<longrightarrow> worker_list p' = Inr (as, p'))"
proof (cases listed)
  case True
  with assms have s: "as = []" "serving tid fd p" by (auto simp: registered_def)
  from client_cleanup_serving [OF s(2)] s(1) True show ?thesis by (auto intro!: worker_list_Nil)
next
  case False
  with assms have wl: "\<not> workerlock p" "worker_list p = Inr (as, p)"
    and t: "\<forall>a \<in> set as. w_tid (n_val (the (dl_heap (workers p) a))) \<noteq> tid" by (auto simp: registered_def)
  let ?l = "p\<lparr>workerlock := True\<rparr>"
  have "worker_list ?l = Inr (as, ?l)" using wl(2) worker_list_cong [of ?l p] by simp
  moreover have "find (\<lambda>a. w_tid (n_val (the (dl_heap (workers p) a))) = tid) as = None"
    using t by (simp add: find_None_iff)
  ultimately have "client_cleanup tid p = Inr ((), p\<lparr>workerlock := False\<rparr>)"
    using wl(1) by (simp add: client_cleanup_def io_simps lock_workerlock_def unlock_workerlock_def)
  moreover have "p\<lparr>workerlock := False, closed := closed p, workers := workers p\<rparr> = p\<lparr>workerlock := False\<rparr>" by simp
  moreover have "worker_list p' = Inr (as, p')" if "workers p' = workers p" for p'
    using wl(2) worker_list_cong [OF that] by blast
  ultimately show ?thesis using False by (intro exI [of _ "workers p"]) simp
qed

lemma get_newjobno_run:
  assumes "\<not> joblock p"
  shows "\<exists>n. get_newjobno p = Inr (nextjob p, p\<lparr>nextjob := n\<rparr>)"
proof -
  have u: "p\<lparr>nextjob := m, joblock := False\<rparr> = p\<lparr>nextjob := m\<rparr>" for m using assms by simp
  show ?thesis
    by (rule exI [of _ "if sint (nextjob p + 1) \<le> 0 then 1 else nextjob p + 1"])
      (use assms u in \<open>simp add: get_newjobno_def io_simps lock_joblock_def unlock_joblock_def\<close>)
qed

lemma registered_cong:
  "workers p' = workers p \<Longrightarrow> workerlock p' = workerlock p \<Longrightarrow> registered tid fd b as p' = registered tid fd b as p"
  using worker_list_cong [of p' p as] by (simp add: registered_def serving_def)

lemma registered_nextjob [simp]: "registered tid fd b as (p\<lparr>nextjob := n\<rparr>) = registered tid fd b as p"
  by (rule registered_cong) simp_all


text \<open>Reading does not touch the other direction.\<close>

lemma tread_out:
  "tread n c = (v, c') \<Longrightarrow> c_out c' = c_out c \<and> c_wr c' = c_wr c"
  by (auto simp: tread_def sys_select_def sys_read_def split: prod.splits list.splits rd_event.splits sum.splits if_splits)

lemma read_loop_out:
  assumes "\<And>n c v c'. rd n c = (v, c') \<Longrightarrow> c_out c' = c_out c \<and> c_wr c' = c_wr c"
    "read_loop rd n m acc c = (v, c')"
  shows "c_out c' = c_out c \<and> c_wr c' = c_wr c"
  using assms
proof (induction rd n m acc c arbitrary: v c' rule: read_loop.induct)
  case (1 rd n m acc c)
  show ?case
  proof (cases "m = 0")
    case True
    with "1.prems"(2) show ?thesis by (subst (asm) read_loop.simps) simp
  next
    case False
    obtain u c1 where u: "rd m c = (u, c1)" by fastforce
    note c1 = "1.prems"(1) [OF u]
    show ?thesis
    proof (cases "u = None \<or> u = Some []")
      case True
      with "1.prems"(2) False u c1 show ?thesis by (subst (asm) read_loop.simps) auto
    next
      case go: False
      then obtain bs where bs: "u = Some bs" "bs \<noteq> []" by auto
      then have "read_loop rd n (m - length bs) (acc @ bs) c1 = (v, c')"
        using "1.prems"(2) False u by (subst (asm) read_loop.simps) simp
      with "1.IH" [OF False u [symmetric] bs] "1.prems"(1) c1 show ?thesis by metis
    qed
  qed
qed

lemma treadn_out: "treadn n c = (v, c') \<Longrightarrow> c_out c' = c_out c \<and> c_wr c' = c_wr c"
  unfolding treadn_def by (rule read_loop_out [OF tread_out])

text \<open>A rejected job costs a response and nothing else.\<close>

lemma reject_run: "\<exists>c. reject strerror e s = Inr ((), s\<lparr>conn := c\<rparr>)"
  by (auto simp: reject_def Let_def io_simps on_conn_def split: prod.splits)

definition calm :: "spool \<Rightarrow> bool" where
  "calm s \<longleftrightarrow> list_all (\<lambda>r. r = FOk) (sysq s)"

lemma calm_conn [simp]: "calm (s\<lparr>conn := c\<rparr>) = calm s" "calm (s\<lparr>files := f\<rparr>) = calm s" "calm (s\<lparr>pd := p\<rparr>) = calm s"
  by (simp_all add: calm_def)

text \<open>The request after the upload, whose first segment is \<open>chunk\<close>.\<close>

definition mark_text :: "bool \<Rightarrow> string \<Rightarrow> string \<Rightarrow> printreq \<Rightarrow> printreq" where
  "mark_text first buf chunk r =
     (if first \<and> chunk \<noteq> [] \<and> take 4 (chunk @ drop (length chunk) buf) \<noteq> ''%!PS''
      then r\<lparr>r_flags := r_flags r OR PR_TEXT\<rparr> else r)"

lemma mark_text_later [simp]: "mark_text False buf chunk r = r"
  by (simp add: mark_text_def)

lemma write_spool_cases:
  assumes "files s name = Some acc"
  obtains (whole) q where "write_spool name bs s = Inr (int (length bs), s\<lparr>sysq := q, files := (files s)(name \<mapsto> acc @ bs)\<rparr>)"
      "calm s \<longrightarrow> list_all (\<lambda>r. r = FOk) q"
    | (part) nw s' k where "write_spool name bs s = Inr (nw, s')" "nw \<noteq> int (length bs)" "\<not> calm s" "pd s' = pd s" "unlq s' = unlq s"
      "files s' = (files s)(name \<mapsto> acc @ take k bs)"
proof (cases "sysq s")
  case Nil
  then have "write_spool name bs s = Inr (int (length bs), s\<lparr>sysq := [], files := (files s)(name \<mapsto> acc @ bs)\<rparr>)"
    using assms by (simp add: write_spool_def next_sys_def io_simps)
  then show ?thesis by (rule whole) simp
next
  case (Cons r rs)
  show ?thesis
  proof (cases r)
    case FOk
    then have "write_spool name bs s = Inr (int (length bs), s\<lparr>sysq := rs, files := (files s)(name \<mapsto> acc @ bs)\<rparr>)"
      using Cons assms by (simp add: write_spool_def next_sys_def io_simps)
    then show ?thesis by (rule whole) (simp add: calm_def Cons)
  next
    case (FShort n)
    show ?thesis
    proof (cases "length bs \<le> n")
      case True
      then have "write_spool name bs s = Inr (int (length bs), s\<lparr>sysq := rs, files := (files s)(name \<mapsto> acc @ bs)\<rparr>)"
        using Cons FShort assms by (simp add: write_spool_def next_sys_def io_simps)
      then show ?thesis by (rule whole) (simp add: calm_def Cons)
    next
      case False
      with Cons FShort assms show ?thesis
        by (intro part [of "int n" "s\<lparr>sysq := rs, files := (files s)(name \<mapsto> acc @ take n bs)\<rparr>" n]) (simp_all add: write_spool_def next_sys_def io_simps calm_def)
    qed
  next
    case (FErr e)
    with Cons assms show ?thesis
      by (intro part [of "-1" "s\<lparr>sysq := rs, conn := (conn s)\<lparr>c_errno := e\<rparr>\<rparr>" 0]) (simp_all add: write_spool_def next_sys_def io_simps calm_def set_errno_def fun_upd_idem)
  qed
qed

lemma upload_run:
  assumes "length (trd_bytes (c_in (conn s))) < fuel" "files s name = Some acc"
  shows "\<exists>up s'. upload strerror fuel buf first name r s = Inr (up, s') \<and> pd s' = pd s \<and>
     (up = None \<and> (\<forall>p. p \<noteq> name \<longrightarrow> files s' p = files s p) \<and> (True \<notin> set (unlq s) \<longrightarrow> files s' name = None) \<and> \<not> calm s \<or>
      (\<exists>k. up = Some (mark_text first buf (take k (trd_bytes (c_in (conn s)))) r) \<and> (0 < k \<or> trd_bytes (c_in (conn s)) = []) \<and>
         files s' = (files s)(name \<mapsto> acc @ trd_bytes (c_in (conn s))) \<and> (calm s \<longrightarrow> calm s') \<and> unlq s' = unlq s \<and>
         c_out (conn s') = c_out (conn s) \<and> c_wr (conn s') = c_wr (conn s)))"
  using assms
proof (induction fuel arbitrary: buf first r s acc)
  case (Suc fuel)
  let ?bytes = "trd_bytes (c_in (conn s))"
  obtain v c1 where v: "tread IOBUFSZ (conn s) = (v, c1)" by fastforce
  note out = tread_out [OF v]
  show ?case
  proof (cases "v = None \<or> v = Some []")
    case True
    then have "?bytes = []" using timed.rd_none [of IOBUFSZ "conn s" c1] timed.rd_empty [of IOBUFSZ "conn s" c1] v by auto
    with True v out Suc.prems show ?thesis
      by (auto simp: io_simps on_conn_def mark_text_def fun_upd_idem split: option.splits)
  next
    case False
    then obtain bs where bs: "v = Some bs" "bs \<noteq> []" by auto
    let ?s1 = "s\<lparr>conn := c1\<rparr>"
    have pend: "?bytes = bs @ trd_bytes (c_in c1)" using timed.rd_some [of IOBUFSZ "conn s" bs c1] v bs by auto
    have f1: "files ?s1 name = Some acc" using Suc.prems(2) by simp
    from f1 show ?thesis
    proof (cases rule: write_spool_cases [where bs = bs])
      case (whole q)
      let ?s2 = "?s1\<lparr>sysq := q, files := (files s)(name \<mapsto> acc @ bs)\<rparr>"
      let ?r = "mark_text first buf bs r"
      have step: "upload strerror (Suc fuel) buf first name r s = upload strerror fuel (bs @ drop (length bs) buf) False name ?r ?s2"
        using v bs whole by (auto simp: io_simps on_conn_def Let_def mark_text_def)
      have fuel: "length (trd_bytes (c_in (conn ?s2))) < fuel" using Suc.prems(1) pend bs(2) by (cases bs) auto
      have f2: "files ?s2 name = Some (acc @ bs)" by simp
      have "\<exists>up s'. upload strerror fuel (bs @ drop (length bs) buf) False name ?r ?s2 = Inr (up, s') \<and> pd s' = pd s \<and>
        (up = None \<and> (\<forall>p. p \<noteq> name \<longrightarrow> files s' p = files s p) \<and> (True \<notin> set (unlq s) \<longrightarrow> files s' name = None) \<and> \<not> calm ?s2 \<or>
         up = Some ?r \<and> files s' = (files s)(name \<mapsto> acc @ bs @ trd_bytes (c_in c1)) \<and> (calm ?s2 \<longrightarrow> calm s') \<and> unlq s' = unlq s \<and>
         c_out (conn s') = c_out (conn s) \<and> c_wr (conn s') = c_wr (conn s))"
        using Suc.IH [OF fuel f2, of "bs @ drop (length bs) buf" False ?r] out
        by (simp del: fun_upd_apply add: fun_upd_upd fun_upd_other) blast
      then obtain up s' where IH: "upload strerror fuel (bs @ drop (length bs) buf) False name ?r ?s2 = Inr (up, s')" "pd s' = pd s"
        "up = None \<and> (\<forall>p. p \<noteq> name \<longrightarrow> files s' p = files s p) \<and> (True \<notin> set (unlq s) \<longrightarrow> files s' name = None) \<and> \<not> calm ?s2 \<or>
         up = Some ?r \<and> files s' = (files s)(name \<mapsto> acc @ bs @ trd_bytes (c_in c1)) \<and> (calm ?s2 \<longrightarrow> calm s') \<and> unlq s' = unlq s \<and>
         c_out (conn s') = c_out (conn s) \<and> c_wr (conn s') = c_wr (conn s)"
        by blast
      have "calm s \<longrightarrow> calm ?s2" using whole(2) by (simp add: calm_def)
      with step IH pend bs(2) show ?thesis by (intro exI [of _ up] exI [of _ s']) (auto intro!: exI [of _ "length bs"])
    next
      case (part nw s' k)
      obtain c2 where c2: "reject strerror (if nw < 0 then c_errno (conn s') else EIO) s' = Inr ((), s'\<lparr>conn := c2\<rparr>)"
        using reject_run by blast
      let ?t = "s'\<lparr>conn := c2\<rparr>"
      obtain us f where un: "unlink_io name ?t = Inr ((), ?t\<lparr>unlq := us, files := f\<rparr>)"
        "\<forall>p. p \<noteq> name \<longrightarrow> f p = files ?t p" "True \<notin> set (unlq ?t) \<longrightarrow> f = (files ?t)(name := None) \<and> True \<notin> set us"
        using unlink_run [of name ?t] by blast
      have "upload strerror (Suc fuel) buf first name r s = Inr (None, ?t\<lparr>unlq := us, files := f\<rparr>)"
        using v bs part(1,2) c2 un(1) by (simp add: io_simps on_conn_def Let_def get_errno_def)
      with part un(2,3) show ?thesis by auto
    qed
  qed
qed simp


lemma creat_io_cases:
  obtains (made) q where "creat_io name s = Inr (True, s\<lparr>sysq := q, files := (files s)(name \<mapsto> [])\<rparr>)"
      "calm s \<longrightarrow> list_all (\<lambda>r. r = FOk) q"
    | (failed) q c where "creat_io name s = Inr (False, s\<lparr>sysq := q, conn := c\<rparr>)" "\<not> calm s"
proof (cases "sysq s")
  case Nil
  then have "creat_io name s = Inr (True, s\<lparr>sysq := [], files := (files s)(name \<mapsto> [])\<rparr>)"
    by (simp add: creat_io_def next_sys_def io_simps)
  then show ?thesis by (rule made) simp
next
  case (Cons r rs)
  show ?thesis
  proof (cases "\<exists>e. r = FErr e")
    case True
    then obtain e where "r = FErr e" ..
    with Cons show ?thesis
      by (intro failed [where q = rs and c = "(conn s)\<lparr>c_errno := e\<rparr>"])
        (simp_all add: creat_io_def next_sys_def io_simps set_errno_def calm_def)
  next
    case False
    then have "creat_io name s = Inr (True, s\<lparr>sysq := rs, files := (files s)(name \<mapsto> [])\<rparr>)"
      using Cons by (cases r) (simp_all add: creat_io_def next_sys_def io_simps)
    then show ?thesis by (rule made) (simp add: calm_def Cons)
  qed
qed

lemma paths_differ [simp]: "data_path d \<noteq> req_path d'" "req_path d \<noteq> data_path d'"
  by (simp_all add: data_path_def req_path_def)

lemma write_control_run:
  assumes r: "printreq_ok r" and none: "files s (req_path d) = None"
  shows "\<exists>ok s'. write_control strerror d r s = Inr (ok, s') \<and> pd s' = pd s \<and>
    (if ok then files s' = (files s)(req_path d \<mapsto> printreq_bytes r) \<and>
        c_out (conn s') = c_out (conn s) \<and> c_wr (conn s') = c_wr (conn s)
     else (\<forall>p. p \<noteq> data_path d \<and> p \<noteq> req_path d \<longrightarrow> files s' p = files s p) \<and>
        (True \<notin> set (unlq s) \<longrightarrow> files s' = (files s)(data_path d := None)) \<and> \<not> calm s)"
proof (cases rule: creat_io_cases [of "req_path d" s])
  case (failed q c)
  let ?s1 = "s\<lparr>sysq := q, conn := c\<rparr>"
  obtain c2 where c2: "reject strerror (c_errno c) ?s1 = Inr ((), ?s1\<lparr>conn := c2\<rparr>)" using reject_run by blast
  let ?t = "?s1\<lparr>conn := c2\<rparr>"
  obtain us f where "unlink_io (data_path d) ?t = Inr ((), ?t\<lparr>unlq := us, files := f\<rparr>)"
    "\<forall>p. p \<noteq> data_path d \<longrightarrow> f p = files ?t p"
    "True \<notin> set (unlq ?t) \<longrightarrow> f = (files ?t)(data_path d := None) \<and> True \<notin> set us"
    using unlink_run [of "data_path d" ?t] by blast
  with failed c2 show ?thesis
    by (intro exI [of _ False]) (simp add: write_control_def io_simps get_errno_def)
next
  case (made q)
  let ?s1 = "s\<lparr>sysq := q, files := (files s)(req_path d \<mapsto> [])\<rparr>"
  have f: "files ?s1 (req_path d) = Some []" by simp
  have len: "length (printreq_bytes r) = PRINTREQ_SZ" using r by simp
  from f show ?thesis
  proof (cases rule: write_spool_cases [where bs = "printreq_bytes r"])
    case (whole q2)
    with made len show ?thesis by (intro exI [of _ True]) (simp add: write_control_def io_simps)
  next
    case (part nw s' k)
    obtain c2 where c2: "reject strerror (if nw < 0 then c_errno (conn s') else EIO) s' = Inr ((), s'\<lparr>conn := c2\<rparr>)"
      using reject_run by blast
    let ?t = "s'\<lparr>conn := c2\<rparr>"
    obtain us f where un: "unlink_io (req_path d) ?t = Inr ((), ?t\<lparr>unlq := us, files := f\<rparr>)"
      "\<forall>p. p \<noteq> req_path d \<longrightarrow> f p = files ?t p"
      "True \<notin> set (unlq ?t) \<longrightarrow> f = (files ?t)(req_path d := None) \<and> True \<notin> set us"
      using unlink_run [of "req_path d" ?t] by blast
    let ?t2 = "?t\<lparr>unlq := us, files := f\<rparr>"
    obtain us2 f2 where un2: "unlink_io (data_path d) ?t2 = Inr ((), ?t2\<lparr>unlq := us2, files := f2\<rparr>)"
      "\<forall>p. p \<noteq> data_path d \<longrightarrow> f2 p = files ?t2 p"
      "True \<notin> set (unlq ?t2) \<longrightarrow> f2 = (files ?t2)(data_path d := None) \<and> True \<notin> set us2"
      using unlink_run [of "data_path d" ?t2] by blast
    have calm: "\<not> calm s" using part(3) made(2) by (auto simp: calm_def)
    have all: "f2 = (files s)(data_path d := None)" if "True \<notin> set (unlq s)"
      using that un(3) un2(3) part(5,6) none by (auto simp: fun_eq_iff)
    have others: "f2 p = files s p" if "p \<noteq> data_path d" "p \<noteq> req_path d" for p
      using that un(2) un2(2) part(6) by simp
    have "write_control strerror d r s = Inr (False, ?t2\<lparr>unlq := us2, files := f2\<rparr>)"
      using made part(1,2) len c2 un(1) un2(1) by (simp add: write_control_def io_simps get_errno_def)
    with calm all others part(4) show ?thesis by (intro exI [of _ False]) simp
  qed
qed

lemma client_exit_run:
  assumes "registered tid fd listed as (pd s)"
  shows "\<exists>p. client_exit tid v s = Inr (v, s\<lparr>pd := p\<rparr>) \<and> closed p = closed (pd s) @ (if listed then [fd] else []) \<and>
    worker_list p = Inr (as, p) \<and> (\<forall>q h. pq_rep p q h = pq_rep (pd s) q h)"
  using client_cleanup_run [OF assms] by (auto simp: client_exit_def io_simps on_pd_def)


section \<open>Properties of the client thread\<close>

text \<open>The request as it is spooled: the header in host byte order, marked as text or not.\<close>

definition spooled_req :: "string \<Rightarrow> string \<Rightarrow> string \<Rightarrow> printreq" where
  "spooled_req buf hdr chunk =
     (let r0 = printreq_of hdr in
      mark_text True buf chunk (r0\<lparr>r_size := ntohl (r_size r0), r_flags := ntohl (r_flags r0)\<rparr>))"

lemma spooled_req_ok: "length hdr = PRINTREQ_SZ \<Longrightarrow> printreq_ok (spooled_req buf hdr chunk)"
  using printreq_ok_of [of hdr] by (simp add: spooled_req_def mark_text_def printreq_ok_def Let_def)

text \<open>
  The outcome of a client thread that serves the socket \<open>fd\<close>: \<open>v\<close> is the exit status, \<open>s\<close> and
  \<open>s'\<close> the states before and after, \<open>q\<close> the queue before.
\<close>

definition client_outcome :: "string \<Rightarrow> string \<Rightarrow> int \<Rightarrow> addr list \<Rightarrow> job list \<Rightarrow> int \<Rightarrow> spool \<Rightarrow> spool \<Rightarrow> bool" where
  "client_outcome buf msg fd as q v s s' \<longleftrightarrow>
     (let bytes = trd_bytes (c_in (conn s)); hdr = take PRINTREQ_SZ bytes; body = drop PRINTREQ_SZ bytes;
          j = nextjob (pd s); data = data_path (job_name j); ctl = req_path (job_name j) in
      closed (pd s') = closed (pd s) @ (if as = [] \<and> \<not> worker_oom (pd s) then [fd] else []) \<and>
      worker_list (pd s') = Inr (as, pd s') \<and>
      (v = 1 \<and> pq_rep (pd s') q None \<and>
         (\<forall>p. p \<noteq> data \<and> p \<noteq> ctl \<longrightarrow> files s' p = files s p) \<and> (True \<notin> set (unlq s) \<longrightarrow> files s' = files s) \<and>
         (length bytes < PRINTREQ_SZ \<or> \<not> calm s \<or> worker_oom (pd s)) \<or>
       v = 0 \<and> PRINTREQ_SZ \<le> length bytes \<and> \<not> worker_oom (pd s) \<and>
       (\<exists>k. (0 < k \<or> body = []) \<and>
          (let r = spooled_req buf hdr (take k body) in
           files s' = (files s)(data \<mapsto> body, ctl \<mapsto> printreq_bytes r) \<and>
           pq_rep (pd s') (q @ [\<lparr>jobid = j, req = r\<rparr>]) None \<and>
           (steady (conn s) \<longrightarrow> c_out (conn s') = c_out (conn s) @ accept_msg j msg)))))"


lemma workers_dl [simp]:
  "workers (p\<lparr>dl_brk := b\<rparr>) = workers p" "workers (p\<lparr>dl_heap := h\<rparr>) = workers p" "workers (p\<lparr>dl_head := a\<rparr>) = workers p"
  "workers (p\<lparr>dl_tail := a\<rparr>) = workers p" "workers (p\<lparr>dl_oom := l\<rparr>) = workers p"
  by (cases p; simp)+

lemma add_job_frame:
  assumes "add_job r i p = Inr ((), p')"
  shows "workers p' = workers p \<and> closed p' = closed p \<and> workerlock p' = workerlock p"
  using assms
  by (auto simp: add_job_def io_simps new_node_def lock_joblock_def unlock_joblock_def set_next_def set_prev_def
      set_node_def split: sum.splits option.splits if_splits list.splits bool.splits)

text \<open>The end of an accepted job and of a refused one.\<close>

lemma client_refused:
  assumes "registered tid fd (as = [] \<and> \<not> worker_oom (pd s)) as (pd s1)" "pq_rep (pd s1) q None" "closed (pd s1) = closed (pd s)"
    "\<forall>p. p \<noteq> data_path (job_name (nextjob (pd s))) \<and> p \<noteq> req_path (job_name (nextjob (pd s))) \<longrightarrow> files s1 p = files s p"
    "True \<notin> set (unlq s) \<longrightarrow> files s1 = files s"
    "length (trd_bytes (c_in (conn s))) < PRINTREQ_SZ \<or> \<not> calm s \<or> worker_oom (pd s)"
  shows "\<exists>s'. client_exit tid 1 s1 = Inr (1, s') \<and> client_outcome buf msg fd as q 1 s s'"
proof -
  obtain p where p: "client_exit tid 1 s1 = Inr (1, s1\<lparr>pd := p\<rparr>)"
    "closed p = closed (pd s1) @ (if as = [] \<and> \<not> worker_oom (pd s) then [fd] else [])"
    "worker_list p = Inr (as, p)" "\<forall>q h. pq_rep p q h = pq_rep (pd s1) q h"
    using client_exit_run [OF assms(1), of 1] by blast
  with assms(2-6) have "client_outcome buf msg fd as q 1 s (s1\<lparr>pd := p\<rparr>)" unfolding client_outcome_def Let_def by simp
  with p(1) show ?thesis by blast
qed

lemma client_accepted:
  assumes "registered tid fd (as = [] \<and> \<not> worker_oom (pd s)) as (pd s1)" "pq_rep (pd s1) q None" "closed (pd s1) = closed (pd s)"
    and mem: "\<not> worker_oom (pd s)"
    and bytes: "trd_bytes (c_in (conn s)) = hdr @ body" "length hdr = PRINTREQ_SZ" "0 < k \<or> body = []"
    and r: "r = spooled_req buf hdr (take k body)" and j: "j = nextjob (pd s)"
    and f: "files s1 = (files s)(data_path (job_name j) \<mapsto> body, req_path (job_name j) \<mapsto> printreq_bytes r)"
    and out: "c_out (conn s1) = c_out (conn s)" "c_wr (conn s1) = c_wr (conn s)"
  shows "\<exists>s'. seq_io (on_conn (writen (accept_msg j msg))) (seq_io (on_pd (add_job r j)) (client_exit tid 0)) s1 = Inr (0, s') \<and>
     client_outcome buf msg fd as q 0 s s'"
proof -
  obtain n c2 where w: "writen (accept_msg j msg) (conn s1) = (n, c2)" by fastforce
  have sent: "c_out c2 = c_out (conn s) @ accept_msg j msg" if "steady (conn s)"
  proof -
    have "steady (conn s1)" using that out by (simp add: steady_def)
    from write_loop_all [OF this, of "accept_msg j msg" "length (accept_msg j msg)"] w out show ?thesis
      by (auto simp: writen_def)
  qed
  obtain p where p: "add_job r j (pd s1) = Inr ((), p)" "pq_rep p (q @ [\<lparr>jobid = j, req = r\<rparr>]) None"
    using add_job_rep [OF assms(2), of r j] by blast
  let ?s2 = "s1\<lparr>conn := c2, pd := p\<rparr>"
  let ?b = "as = [] \<and> \<not> worker_oom (pd s)"
  have "registered tid fd ?b as (pd ?s2)"
    using assms(1) add_job_frame [OF p(1)] registered_cong [of p "pd s1"] by simp
  then obtain p' where p': "client_exit tid 0 ?s2 = Inr (0, ?s2\<lparr>pd := p'\<rparr>)" "closed p' = closed p @ (if ?b then [fd] else [])"
    "worker_list p' = Inr (as, p')" "\<And>q h. pq_rep p' q h = pq_rep p q h"
    using client_exit_run [of tid fd ?b as ?s2 0] by auto
  have "client_outcome buf msg fd as q 0 s (?s2\<lparr>pd := p'\<rparr>)"
  proof -
    have "take PRINTREQ_SZ (trd_bytes (c_in (conn s))) = hdr" "drop PRINTREQ_SZ (trd_bytes (c_in (conn s))) = body"
      using bytes by simp_all
    moreover have "closed p' = closed (pd s) @ (if ?b then [fd] else [])" using p'(2) add_job_frame [OF p(1)] assms(3) by simp
    moreover have "PRINTREQ_SZ \<le> length (trd_bytes (c_in (conn s)))" using bytes by simp
    moreover have "pq_rep p' (q @ [\<lparr>jobid = j, req = r\<rparr>]) None" using p'(4) p(2) by simp
    ultimately show ?thesis
      unfolding client_outcome_def Let_def using p'(3) f r j sent bytes(3) mem
      by (auto intro!: exI [of _ k])
  qed
  with w p(1) p'(1) show ?thesis by (auto simp: io_simps on_conn_def on_pd_def)
qed

lemma client_thread_run:
  assumes q: "pq_rep (pd s) q None" and wk: "workers_ok (pd s) as tid"
    and new: "files s (data_path (job_name (nextjob (pd s)))) = None" "files s (req_path (job_name (nextjob (pd s)))) = None"
  shows "\<exists>v s'. client_thread strerror buf msg tid fd s = Inr (v, s') \<and> client_outcome buf msg fd as q v s s'"
proof (cases "worker_oom (pd s)")
  case True
  obtain w where w: "add_worker tid fd (pd s) = Inr (False, (pd s)\<lparr>workers := w, workerlock := False\<rparr>)"
    "registered tid fd (as = [] \<and> \<not> worker_oom (pd s)) as ((pd s)\<lparr>workers := w, workerlock := False\<rparr>)"
    using add_worker_run [OF wk, of fd] True by auto
  let ?s1 = "s\<lparr>pd := (pd s)\<lparr>workers := w, workerlock := False\<rparr>\<rparr>"
  obtain s' where "client_exit tid 1 ?s1 = Inr (1, s')" "client_outcome buf msg fd as q 1 s s'"
    using client_refused [of tid fd as s ?s1 q] w(2) q True by auto
  with w(1) show ?thesis by (auto simp: client_thread_def io_simps on_pd_def)
next
  case mem: False
  let ?j = "nextjob (pd s)" let ?d = "job_name ?j" let ?bytes = "trd_bytes (c_in (conn s))"
  let ?reg = "registered tid fd (as = [] \<and> \<not> worker_oom (pd s)) as"
  obtain w where w: "add_worker tid fd (pd s) = Inr (True, (pd s)\<lparr>workers := w, workerlock := False\<rparr>)"
    "?reg ((pd s)\<lparr>workers := w, workerlock := False\<rparr>)"
    using add_worker_run [OF wk, of fd] mem by auto
  define p1 where "p1 = (pd s)\<lparr>workers := w, workerlock := False\<rparr>"
  have p1: "?reg p1" "pq_rep p1 q None" "closed p1 = closed (pd s)" "nextjob p1 = ?j"
    using w(2) q by (simp_all add: p1_def)
  obtain h c1 where h: "treadn PRINTREQ_SZ (conn s) = (h, c1)" by fastforce
  note out1 = treadn_out [OF h]
  have hv: "h = (if ?bytes = [] \<and> trd_fails (c_in (conn s)) then None else Some (take PRINTREQ_SZ ?bytes))"
    "PRINTREQ_SZ \<le> length ?bytes \<longrightarrow> trd_bytes (c_in c1) = drop PRINTREQ_SZ ?bytes"
    using timed.fill_returns [of PRINTREQ_SZ "conn s"] h by (auto simp: treadn_def)
  let ?s1 = "s\<lparr>pd := p1, conn := c1\<rparr>"
  show ?thesis
  proof (cases "length ?bytes < PRINTREQ_SZ")
    case True
    then have ne: "map_option length h \<noteq> Some PRINTREQ_SZ" using hv(1) by auto
    obtain c2 where c2: "reject strerror (if h = None then c_errno c1 else EIO) ?s1 = Inr ((), ?s1\<lparr>conn := c2\<rparr>)"
      using reject_run by blast
    obtain s' where "client_exit tid 1 (?s1\<lparr>conn := c2\<rparr>) = Inr (1, s')" "client_outcome buf msg fd as q 1 s s'"
      using client_refused [of tid fd as s "?s1\<lparr>conn := c2\<rparr>" q] p1 True by auto
    with w(1) h ne c2 show ?thesis
      by (auto simp: client_thread_def io_simps on_pd_def on_conn_def get_errno_def p1_def [symmetric])
  next
    case False
    define hdr where "hdr = take PRINTREQ_SZ ?bytes"
    define body where "body = drop PRINTREQ_SZ ?bytes"
    have bytes: "?bytes = hdr @ body" "length hdr = PRINTREQ_SZ" using False by (auto simp: hdr_def body_def)
    have hh: "h = Some hdr" and body: "trd_bytes (c_in c1) = body" using hv False by (auto simp: hdr_def body_def)
    define r0 where "r0 = (printreq_of hdr)\<lparr>r_size := ntohl (r_size (printreq_of hdr)), r_flags := ntohl (r_flags (printreq_of hdr))\<rparr>"
    obtain n where n: "get_newjobno p1 = Inr (?j, p1\<lparr>nextjob := n\<rparr>)"
      using get_newjobno_run [OF pq_rep_unlocked [OF p1(2)]] p1(4) by auto
    let ?s2 = "s\<lparr>conn := c1, pd := p1\<lparr>nextjob := n\<rparr>\<rparr>"
    define rest where "rest = (\<lambda>ok. if \<not> ok then bind_io get_errno (\<lambda>e. seq_io (reject strerror e) (client_exit tid 1))
         else bind_io (\<lambda>s. upload strerror (upload_fuel s) buf True (data_path ?d) r0 s) (\<lambda>up.
           case up of None \<Rightarrow> client_exit tid 1
           | Some r' \<Rightarrow> bind_io (write_control strerror ?d r') (\<lambda>ctl.
               if \<not> ctl then client_exit tid 1
               else seq_io (on_conn (writen (accept_msg ?j msg))) (seq_io (on_pd (add_job r' ?j)) (client_exit tid 0)))))"
    have start: "client_thread strerror buf msg tid fd s = bind_io (creat_io (data_path ?d)) rest ?s2"
      using w(1) h hh n bytes(2)
      by (simp add: client_thread_def io_simps on_pd_def on_conn_def p1_def [symmetric] Let_def r0_def rest_def cong: if_cong)
    show ?thesis
    proof (cases rule: creat_io_cases [of "data_path ?d" ?s2])
      case (failed q2 c2)
      let ?s3 = "?s2\<lparr>sysq := q2, conn := c2\<rparr>"
      obtain c3 where c3: "reject strerror (c_errno c2) ?s3 = Inr ((), ?s3\<lparr>conn := c3\<rparr>)" using reject_run by blast
      have "\<not> calm s" using failed(2) by simp
      then obtain s' where "client_exit tid 1 (?s3\<lparr>conn := c3\<rparr>) = Inr (1, s')" "client_outcome buf msg fd as q 1 s s'"
        using client_refused [of tid fd as s "?s3\<lparr>conn := c3\<rparr>" q] p1 by auto
      with start failed c3 show ?thesis by (auto simp: rest_def io_simps get_errno_def)
    next
      case (made q2)
      let ?s3 = "?s2\<lparr>sysq := q2, files := (files s)(data_path ?d \<mapsto> [])\<rparr>"
      have st3: "client_thread strerror buf msg tid fd s = rest True ?s3" using start made(1) by (simp add: io_simps)
      have f3: "files ?s3 (data_path ?d) = Some []" "length (trd_bytes (c_in (conn ?s3))) < upload_fuel ?s3"
        by (simp_all add: upload_fuel_def)
      obtain up s4 where up: "upload strerror (upload_fuel ?s3) buf True (data_path ?d) r0 ?s3 = Inr (up, s4)" "pd s4 = p1\<lparr>nextjob := n\<rparr>"
        and alt: "up = None \<and> (\<forall>p. p \<noteq> data_path ?d \<longrightarrow> files s4 p = files s p) \<and>
            (True \<notin> set (unlq s) \<longrightarrow> files s4 (data_path ?d) = None) \<and> \<not> calm ?s3 \<or>
          (\<exists>k. up = Some (mark_text True buf (take k body) r0) \<and> (0 < k \<or> body = []) \<and>
             files s4 = (files s)(data_path ?d \<mapsto> body) \<and> (calm ?s3 \<longrightarrow> calm s4) \<and> unlq s4 = unlq s \<and>
             c_out (conn s4) = c_out (conn s) \<and> c_wr (conn s4) = c_wr (conn s))"
        using upload_run [OF f3(2) f3(1), of strerror buf True r0] body out1 by (simp del: fun_upd_apply add: fun_upd_upd fun_upd_other) blast
      have calm3: "calm s \<longrightarrow> calm ?s3" using made(2) by (simp add: calm_def)
      from alt consider (none) "up = None" "\<forall>p. p \<noteq> data_path ?d \<longrightarrow> files s4 p = files s p"
          "True \<notin> set (unlq s) \<longrightarrow> files s4 (data_path ?d) = None" "\<not> calm ?s3"
        | (some) k where "up = Some (mark_text True buf (take k body) r0)" "0 < k \<or> body = []"
          "files s4 = (files s)(data_path ?d \<mapsto> body)" "calm ?s3 \<longrightarrow> calm s4" "unlq s4 = unlq s"
          "c_out (conn s4) = c_out (conn s)" "c_wr (conn s4) = c_wr (conn s)"
        by blast
      then show ?thesis
      proof cases
        case none
        then have "files s4 = files s" if "True \<notin> set (unlq s)" using new(1) that by (metis ext)
        then obtain s' where "client_exit tid 1 s4 = Inr (1, s')" "client_outcome buf msg fd as q 1 s s'"
          using client_refused [of tid fd as s s4 q buf msg] p1 up(2) none(2,4) calm3 by auto
        with st3 up(1) none(1) show ?thesis by (auto simp: rest_def io_simps)
      next
        case (some k)
        let ?r = "spooled_req buf hdr (take k body)"
        have r: "mark_text True buf (take k body) r0 = ?r" by (simp add: spooled_req_def r0_def Let_def)
        have "files s4 (req_path ?d) = None" using some(3) new(2) by simp
        then obtain ok s5 where ctl: "write_control strerror ?d ?r s4 = Inr (ok, s5)" "pd s5 = pd s4"
          "if ok then files s5 = (files s4)(req_path ?d \<mapsto> printreq_bytes ?r) \<and>
              c_out (conn s5) = c_out (conn s4) \<and> c_wr (conn s5) = c_wr (conn s4)
           else (\<forall>p. p \<noteq> data_path ?d \<and> p \<noteq> req_path ?d \<longrightarrow> files s5 p = files s4 p) \<and>
             (True \<notin> set (unlq s4) \<longrightarrow> files s5 = (files s4)(data_path ?d := None)) \<and> \<not> calm s4"
          using write_control_run [OF spooled_req_ok [OF bytes(2), of buf "take k body"], of s4 ?d strerror] by blast
        show ?thesis
        proof (cases ok)
          case True
          then obtain s' where "seq_io (on_conn (writen (accept_msg ?j msg))) (seq_io (on_pd (add_job ?r ?j)) (client_exit tid 0)) s5 = Inr (0, s')"
            "client_outcome buf msg fd as q 0 s s'"
            using client_accepted [of tid fd as s s5 q hdr body k ?r buf ?j msg] p1 up(2) ctl some bytes mem by auto
          with st3 up(1) some(1) r ctl(1) True show ?thesis by (auto simp: rest_def io_simps)
        next
          case no: False
          then have "files s5 = files s" if "True \<notin> set (unlq s)" using ctl(3) some(3,5) new(1) that by (simp add: fun_upd_idem)
          moreover have "\<forall>p. p \<noteq> data_path ?d \<and> p \<noteq> req_path ?d \<longrightarrow> files s5 p = files s p" using no ctl(3) some(3) by auto
          moreover have "\<not> calm s" using no ctl(3) some(4) calm3 by auto
          ultimately obtain s' where "client_exit tid 1 s5 = Inr (1, s')" "client_outcome buf msg fd as q 1 s s'"
            using client_refused [of tid fd as s s5 q buf msg] p1 up(2) ctl(2) by auto
          with st3 up(1) some(1) r ctl(1) no show ?thesis by (auto simp: rest_def io_simps)
        qed
      qed
    qed
  qed
qed



definition sample_req :: printreq where
  "sample_req = \<lparr>r_size = htonl 9, r_flags = 0, r_usernm = ''sar'' @ replicate 61 NUL, r_jobnm = ''notes.ps'' @ replicate 248 NUL\<rparr>"

definition sample_spool :: spool where
  "sample_spool = \<lparr>pd = printd_start, files = Map.empty, sysq = [], unlq = [],
     conn = \<lparr>c_in = [Data (printreq_bytes sample_req), Data ''%!PS-3.0'', Data ''!''], c_wr = [], c_out = [], c_errno = 0\<rparr>\<rparr>"

lemma job_name_1: "job_name 1 = ''1''"
proof -
  have "dec 1 = ''1''" by code_simp
  then show ?thesis by (simp add: job_name_def dec_int_def)
qed

lemma sample_spool_ready:
  "pq_rep (pd sample_spool) [] None" "dl_head (workers (pd sample_spool)) = None" "workers_fit (pd sample_spool)"
  "files sample_spool = Map.empty" "nextjob (pd sample_spool) = 1" "calm sample_spool" "steady (conn sample_spool)"
  using printd_start_rep by (simp_all add: sample_spool_def printd_start_def workers_fit_def calm_def steady_def)

lemma workers_fit_ok:
  assumes "dl_head (workers p) = None" "workers_fit p"
  shows "workers_ok p [] tid" "\<not> worker_oom p"
  using assms worker_list_Nil by (auto simp: workers_ok_def workers_fit_def worker_oom_def)

lemma sample_spool_bytes: "trd_bytes (c_in (conn sample_spool)) = printreq_bytes sample_req @ ''%!PS-3.0!''"
    "length (printreq_bytes sample_req) = 328"
  by (simp add: sample_spool_def) (simp add: printreq_ok_def sample_req_def)



lemma client_thread_accepted:
  assumes "pq_rep (pd s) q None" "dl_head (workers (pd s)) = None" "workers_fit (pd s)"
    and "files s (data_path (job_name j)) = None" "files s (req_path (job_name j)) = None" and j: "j = nextjob (pd s)"
    and ok: "calm s" "steady (conn s)" and bytes: "trd_bytes (c_in (conn s)) = printreq_bytes r @ body" "printreq_ok r"
  shows "\<exists>s' fl. client_thread strerror buf msg tid fd s = Inr (0, s') \<and>
     (let r' = r\<lparr>r_size := ntohl (r_size r), r_flags := fl\<rparr> in
      files s' = (files s)(data_path (job_name j) \<mapsto> body, req_path (job_name j) \<mapsto> printreq_bytes r') \<and>
      pq_rep (pd s') (q @ [\<lparr>jobid = j, req = r'\<rparr>]) None \<and>
      (fl = ntohl (r_flags r) \<or> fl = ntohl (r_flags r) OR PR_TEXT)) \<and>
     c_out (conn s') = c_out (conn s) @ accept_msg j msg"
proof -
  note wk = workers_fit_ok [OF assms(2,3)]
  obtain v s' where run: "client_thread strerror buf msg tid fd s = Inr (v, s')" "client_outcome buf msg fd [] q v s s'"
    using client_thread_run [OF assms(1) wk(1)] assms(4-6) by blast
  have fl: "\<exists>fl. spooled_req buf (printreq_bytes r) c = r\<lparr>r_size := ntohl (r_size r), r_flags := fl\<rparr> \<and>
     (fl = ntohl (r_flags r) \<or> fl = ntohl (r_flags r) OR PR_TEXT)" for c
    using bytes(2) by (auto simp: spooled_req_def mark_text_def Let_def)
  have t: "take PRINTREQ_SZ (trd_bytes (c_in (conn s))) = printreq_bytes r" "drop PRINTREQ_SZ (trd_bytes (c_in (conn s))) = body"
      "\<not> length (trd_bytes (c_in (conn s))) < PRINTREQ_SZ" using bytes by simp_all
  have v: "v = 0" and "\<exists>k. files s' = (files s)(data_path (job_name j) \<mapsto> body,
        req_path (job_name j) \<mapsto> printreq_bytes (spooled_req buf (printreq_bytes r) (take k body))) \<and>
      pq_rep (pd s') (q @ [\<lparr>jobid = j, req = spooled_req buf (printreq_bytes r) (take k body)\<rparr>]) None \<and>
      c_out (conn s') = c_out (conn s) @ accept_msg j msg"
    using run(2) ok t(3) wk(2) unfolding client_outcome_def Let_def t(1,2) j by auto
  then obtain k where k: "files s' = (files s)(data_path (job_name j) \<mapsto> body,
        req_path (job_name j) \<mapsto> printreq_bytes (spooled_req buf (printreq_bytes r) (take k body)))"
      "pq_rep (pd s') (q @ [\<lparr>jobid = j, req = spooled_req buf (printreq_bytes r) (take k body)\<rparr>]) None"
      "c_out (conn s') = c_out (conn s) @ accept_msg j msg" by blast
  from fl [of "take k body"] obtain fl where "spooled_req buf (printreq_bytes r) (take k body) = r\<lparr>r_size := ntohl (r_size r), r_flags := fl\<rparr>"
    "fl = ntohl (r_flags r) \<or> fl = ntohl (r_flags r) OR PR_TEXT" by blast
  with k run(1) v show ?thesis unfolding Let_def by (intro exI [of _ s'] exI [of _ fl]) simp
qed

text \<open>With a spool directory that works, a client that sends a whole request and its file
  gets the job number, and the job is spooled and queued.\<close>

theorem client_thread_accepts:
  assumes "pq_rep (pd s) q None" "dl_head (workers (pd s)) = None" "workers_fit (pd s)"
    and "files s (data_path (job_name j)) = None" "files s (req_path (job_name j)) = None" and j: "j = nextjob (pd s)"
    and ok: "calm s" "steady (conn s)" and bytes: "trd_bytes (c_in (conn s)) = printreq_bytes r @ body" "printreq_ok r"
  shows "\<exists>s' fl. client_thread strerror buf msg tid fd s = Inr (0, s') \<and>
     (let r' = r\<lparr>r_size := ntohl (r_size r), r_flags := fl\<rparr> in
      files s' = (files s)(data_path (job_name j) \<mapsto> body, req_path (job_name j) \<mapsto> printreq_bytes r') \<and>
      pq_rep (pd s') (q @ [\<lparr>jobid = j, req = r'\<rparr>]) None \<and>
      (fl = ntohl (r_flags r) \<or> fl = ntohl (r_flags r) OR PR_TEXT)) \<and>
     c_out (conn s') = c_out (conn s) @ accept_msg j msg"
  by (rule client_thread_accepted [OF assms])

theorem client_thread_accepts_witness:
  "\<exists>s'. client_thread (\<lambda>e. ''error'') [] (replicate 512 NUL) 7 4 sample_spool = Inr (0, s') \<and>
     c_out (conn s') = accept_msg 1 (replicate 512 NUL)"
proof -
  have "printreq_ok sample_req" by (simp add: printreq_ok_def sample_req_def)
  moreover have "c_out (conn sample_spool) = []" by (simp add: sample_spool_def)
  ultimately show ?thesis
    using client_thread_accepts [OF sample_spool_ready(1-3) _ _ sample_spool_ready(5) [symmetric] sample_spool_ready(6,7)
        sample_spool_bytes(1), of "\<lambda>e. ''error''" "[]" "replicate 512 NUL" 7 4] sample_spool_ready(4) by auto
qed

section \<open>Restart\<close>

lemma atol_job_name: "0 \<le> sint j \<Longrightarrow> word_of_int (atol (job_name j)) = j"
  by (simp add: job_name_def nat_atol_dec_int)

lemma job_name_no_dot: "0 \<le> sint j \<Longrightarrow> job_name j \<noteq> ''.'' \<and> job_name j \<noteq> ''..''"
  using dec_digits [of _ "nat (sint j)"] by (auto simp: job_name_def nat_atol_dec_int isdigit_def)

text \<open>Entries of the request directory that hold the jobs \<open>js\<close>.\<close>

definition spooled :: "(string \<rightharpoonup> string) \<Rightarrow> job list \<Rightarrow> bool" where
  "spooled f js \<longleftrightarrow> list_all (\<lambda>j. 0 < sint (jobid j) \<and> printreq_ok (req j) \<and>
     f (req_path (job_name (jobid j))) = Some (printreq_bytes (req j))) js"

lemma next_sys_calm:
  assumes "calm s"
  shows "\<exists>q. next_sys s = Inr (FOk, s\<lparr>sysq := q\<rparr>) \<and> calm (s\<lparr>sysq := q\<rparr>)"
proof (cases "sysq s")
  case Nil
  then have "next_sys s = Inr (FOk, s\<lparr>sysq := []\<rparr>)" by (simp add: next_sys_def)
  then show ?thesis by (auto simp: calm_def)
next
  case (Cons r rs)
  with assms show ?thesis by (auto simp: next_sys_def calm_def)
qed

lemma requeue_spooled:
  assumes "spooled (files s) js" "pq_rep (pd s) q None" "calm s"
  shows "\<exists>s'. requeue (map (\<lambda>j. job_name (jobid j)) js) s = Inr ((), s') \<and> pq_rep (pd s') (q @ js) None \<and> files s' = files s"
  using assms
proof (induction js arbitrary: s q)
  case (Cons j js)
  have j: "0 < sint (jobid j)" "printreq_ok (req j)" "files s (req_path (job_name (jobid j))) = Some (printreq_bytes (req j))"
    using Cons.prems(1) by (auto simp: spooled_def)
  obtain q1 where q1: "next_sys s = Inr (FOk, s\<lparr>sysq := q1\<rparr>)" "calm (s\<lparr>sysq := q1\<rparr>)"
    using next_sys_calm [OF Cons.prems(3)] by blast
  obtain q2 where q2: "next_sys (s\<lparr>sysq := q1\<rparr>) = Inr (FOk, s\<lparr>sysq := q2\<rparr>)" "calm (s\<lparr>sysq := q2\<rparr>)"
    using next_sys_calm [OF q1(2)] by auto
  obtain p where p: "add_job (req j) (jobid j) (pd s) = Inr ((), p)" "pq_rep p (q @ [j]) None"
    using add_job_rep [OF Cons.prems(2), of "req j" "jobid j"] by (cases j) auto
  let ?s' = "s\<lparr>sysq := q2, pd := p\<rparr>"
  have "requeue (map (\<lambda>j. job_name (jobid j)) (j # js)) s = requeue (map (\<lambda>j. job_name (jobid j)) js) ?s'"
    using j q1(1) q2(1) p(1) job_name_no_dot [of "jobid j"] atol_job_name [of "jobid j"]
    by (simp add: io_simps on_pd_def)
  moreover have "spooled (files ?s') js" using Cons.prems(1) by (simp add: spooled_def)
  ultimately show ?case using Cons.IH [of ?s' "q @ [j]"] p(2) q2(2) by (auto simp: calm_def)
qed (simp add: io_simps)

text \<open>C11: a restart of the daemon brings the spooled jobs back. When the request directory
  lists the jobs \<open>js\<close> (besides the two dot entries) and their control files are what
  \<open>client_thread\<close> wrote, \<open>build_qonstart\<close> queues exactly these jobs, under their numbers and
  with their requests, in the order of the directory, and changes no file.\<close>

theorem build_qonstart_restores:
  assumes "spooled (files s) js" "pq_rep (pd s) [] None" "calm s"
  shows "\<exists>s'. build_qonstart (Some (''.'' # ''..'' # map (\<lambda>j. job_name (jobid j)) js)) s = Inr ((), s') \<and>
     pq_rep (pd s') js None \<and> files s' = files s"
  using requeue_spooled [OF assms] by (simp add: build_qonstart_def)

theorem build_qonstart_restores_witness:
  "\<exists>s'. build_qonstart (Some [''.'', ''..'', ''1''])
      (sample_spool\<lparr>files := [req_path ''1'' \<mapsto> printreq_bytes sample_req, data_path ''1'' \<mapsto> ''%!PS'']\<rparr>) = Inr ((), s') \<and>
     pq_rep (pd s') [\<lparr>jobid = 1, req = sample_req\<rparr>] None"
proof -
  let ?s = "sample_spool\<lparr>files := [req_path ''1'' \<mapsto> printreq_bytes sample_req, data_path ''1'' \<mapsto> ''%!PS'']\<rparr>"
  have n: "job_name 1 = ''1''" by (rule job_name_1)
  have "spooled (files ?s) [\<lparr>jobid = 1, req = sample_req\<rparr>]"
    by (simp add: spooled_def n) (simp add: printreq_ok_def sample_req_def)
  moreover have "pq_rep (pd ?s) [] None" "calm ?s" using sample_spool_ready(1,6) by simp_all
  ultimately show ?thesis using build_qonstart_restores [of ?s "[\<lparr>jobid = 1, req = sample_req\<rparr>]"] n by auto
qed

end
