(* ===== verification/Printd_Status.thy ===== *)
theory Printd_Status
  imports Printd_Wire
begin

text \<open>
  Reading the printer's answer (\<open>printer/printd.c\<close>): \<open>readmore\<close> and \<open>printer_status\<close> over a
  buffer of bytes. Every access outside the buffer is undefined behaviour of the model, the
  bytes that \<open>malloc\<close> and \<open>realloc\<close> return are a parameter \<open>fresh\<close>. Everywhere after the status
  line \<open>cp\<close> is \<open>&bp[i]\<close>, so the model keeps \<open>i\<close> alone.
\<close>

section \<open>The buffer\<close>

record pstat =
  ps_chan :: chan
  ps_buf :: string      \<comment> \<open>all \<open>bufsz\<close> bytes at \<open>bp\<close>\<close>

definition rd_byte :: "nat \<Rightarrow> (pstat, char) io" where
  "rd_byte i s = (if i < length (ps_buf s) then Inr (ps_buf s ! i, s) else Inl (Undefined ''read outside the buffer''))"

definition wr_byte :: "nat \<Rightarrow> char \<Rightarrow> (pstat, unit) io" where
  "wr_byte i c s =
     (if i < length (ps_buf s) then Inr ((), s\<lparr>ps_buf := (ps_buf s)[i := c]\<rparr>)
      else Inl (Undefined ''write outside the buffer''))"

text \<open>\<open>while (p(*cp)) cp++;\<close>\<close>

definition skip_while :: "(char \<Rightarrow> bool) \<Rightarrow> nat \<Rightarrow> (pstat, nat) io" where
  "skip_while p i s =
     (let t = takeWhile p (drop i (ps_buf s)) in
      if i + length t < length (ps_buf s) then Inr (i + length t, s)
      else Inl (Undefined ''read outside the buffer''))"

text \<open>A timed read into the buffer at \<open>off\<close>, at most \<open>n\<close> bytes: the number of bytes, or -1.\<close>

definition tread_at :: "nat \<Rightarrow> nat \<Rightarrow> (pstat, int) io" where
  "tread_at off n s =
     (case tread n (ps_chan s) of
        (None, c) \<Rightarrow> Inr (-1, s\<lparr>ps_chan := c\<rparr>)
      | (Some bs, c) \<Rightarrow>
          Inr (int (length bs),
               s\<lparr>ps_chan := c, ps_buf := take off (ps_buf s) @ bs @ drop (off + length bs) (ps_buf s)\<rparr>))"

text \<open>\<open>readmore\<close>: the offset of the end of the new data, or -1. The buffer grows when it is full.\<close>

definition readmore :: "(nat \<Rightarrow> char) \<Rightarrow> nat \<Rightarrow> (pstat, int) io" where
  "readmore fresh off =
     seq_io (modify_io (\<lambda>s. if length (ps_buf s) \<le> off
               then s\<lparr>ps_buf := ps_buf s @ map fresh [length (ps_buf s)..<length (ps_buf s) + IOBUFSZ]\<rparr> else s))
     (bind_io (gets_io (\<lambda>s. length (ps_buf s))) (\<lambda>bsz.
      bind_io (tread_at off (bsz - off)) (\<lambda>nr.
      ret_io (if 0 < nr then int off + nr else -1))))"

section \<open>The parts of the parser\<close>

text \<open>\<open>strncasecmp(cp, pat, strlen(pat)) == 0\<close>: it stops at the first difference.\<close>

definition to_lower :: "char \<Rightarrow> char" where
  "to_lower c = (if 65 \<le> (of_char c :: nat) \<and> (of_char c :: nat) \<le> 90 then char_of (of_char c + 32 :: nat) else c)"

fun prefix_case :: "string \<Rightarrow> nat \<Rightarrow> (pstat, bool) io" where
  "prefix_case [] i = ret_io True"
| "prefix_case (p # ps) i =
     bind_io (rd_byte i) (\<lambda>c. if to_lower c = to_lower p then prefix_case ps (Suc i) else ret_io False)"

text \<open>
  The loop that looks for \<open>Content-Length:\<close>; a round of the model is one byte that the inner loop
  skips, or one comparison. The inner loop looks at the byte before it compares \<open>i\<close>. The result is the offset after the null byte that
  replaces the end of the number, the number, and \<open>datsz\<close>; \<open>None\<close> is \<open>goto out\<close>. The value that
  \<open>readmore\<close> returns is added to \<open>datsz\<close>, although it is an offset.
\<close>

fun find_length :: "(nat \<Rightarrow> char) \<Rightarrow> nat \<Rightarrow> nat \<Rightarrow> nat \<Rightarrow> (pstat, (nat \<times> int \<times> nat) option) io" where
  "find_length fresh 0 i datsz = fail_io Diverges"
| "find_length fresh (Suc fuel) i datsz =
     bind_io (rd_byte i) (\<lambda>c.
     if c \<noteq> CHR ''C'' \<and> c \<noteq> CHR ''c'' \<and> i < datsz then find_length fresh fuel (Suc i) datsz
     else
       bind_io (if datsz \<le> i then readmore fresh i else ret_io 0) (\<lambda>nr.
       if nr < 0 then ret_io None
       else
         let datsz = datsz + nat nr in
         bind_io (prefix_case ''Content-Length:'' i) (\<lambda>m.
         if m then
           bind_io (skip_while isspace (i + 15)) (\<lambda>contentlen.
           bind_io (skip_while isdigit contentlen) (\<lambda>e.
           seq_io (wr_byte e NUL)
           (bind_io (gets_io (\<lambda>s. atoi (cstr (drop contentlen (ps_buf s))))) (\<lambda>len.
            ret_io (Some (Suc e, len, datsz))))))
         else find_length fresh fuel (Suc i) datsz)))"

fun prefix_exact :: "string \<Rightarrow> nat \<Rightarrow> (pstat, bool) io" where
  "prefix_exact [] i = ret_io True"
| "prefix_exact (p # ps) i =
     bind_io (rd_byte i) (\<lambda>c. if c = p then prefix_exact ps (Suc i) else ret_io False)"

text \<open>\<open>while (i < datsz - 2)\<close>: look for a newline, a carriage return and a newline.\<close>

fun scan_blank :: "nat \<Rightarrow> nat \<Rightarrow> nat \<Rightarrow> (pstat, bool \<times> nat) io" where
  "scan_blank 0 i datsz = fail_io Diverges"
| "scan_blank (Suc fuel) i datsz =
     (if \<not> i + 2 < datsz then ret_io (False, i)
      else
        bind_io (prefix_exact [CHR 0x0A, CHR 0x0D, CHR 0x0A] i) (\<lambda>m.
        if m then ret_io (True, i + 3) else scan_blank fuel (Suc i) datsz))"


text \<open>
  \<open>while (!found)\<close>: the end of the HTTP header. A round that neither finds it nor runs out of
  data changes nothing, and the loop goes on for ever.
\<close>

fun find_end :: "(nat \<Rightarrow> char) \<Rightarrow> nat \<Rightarrow> nat \<Rightarrow> nat \<Rightarrow> (pstat, (nat \<times> nat) option) io" where
  "find_end fresh 0 i datsz = fail_io Diverges"
| "find_end fresh (Suc fuel) i datsz =
     bind_io (scan_blank (Suc datsz) i datsz) (\<lambda>(found, i).
     bind_io (if datsz \<le> i then readmore fresh i else ret_io 0) (\<lambda>nr.
     if nr < 0 then ret_io None
     else
       let datsz = datsz + nat nr in
       if found then ret_io (Some (i, datsz)) else find_end fresh fuel i datsz))"

text \<open>The IPP header at \<open>i\<close>: its status and its request ID, in network byte order.\<close>

definition ipp_answer :: "nat \<Rightarrow> (pstat, nat \<times> 32 word) io" where
  "ipp_answer i s =
     (if i + 8 \<le> length (ps_buf s)
      then Inr ((256 * of_char (ps_buf s ! (i + 2)) + of_char (ps_buf s ! (i + 3)),
                 of_le32 (rev (take 4 (drop (i + 4) (ps_buf s))))), s)
      else Inl (Undefined ''read outside the buffer''))"

text \<open>\<open>log_msg(bp)\<close>: the buffer is the format.\<close>

definition log_buffer :: "(pstat, unit) io" where
  "log_buffer s =
     (if NUL \<in> set (ps_buf s) \<and> format_plain (cstr (ps_buf s)) then Inr ((), s)
      else Inl (Undefined ''response used as a format''))"

text \<open>What follows the search for the end of the header, whose result is \<open>r\<close>: the verdict.\<close>

definition verdict :: "(nat \<Rightarrow> char) \<Rightarrow> 32 word \<Rightarrow> int \<Rightarrow> (nat \<times> nat) option \<Rightarrow> (pstat, bool) io" where
  "verdict fresh jid len r =
     (case r of
        None \<Rightarrow> ret_io False
      | Some (i, datsz) \<Rightarrow>
          bind_io (if int datsz - int i < len then readmore fresh i else ret_io 0) (\<lambda>nr.
          if nr < 0 then ret_io False
          else bind_io (ipp_answer i) (\<lambda>(status, id). ret_io (id = jid \<and> status \<le> 0x00ff))))"

text \<open>
  Everything after a successful status line, at the offset \<open>i\<close> of its end; the result is
  \<open>success\<close>.
\<close>

definition check_answer :: "(nat \<Rightarrow> char) \<Rightarrow> nat \<Rightarrow> 32 word \<Rightarrow> nat \<Rightarrow> nat \<Rightarrow> (pstat, bool) io" where
  "check_answer fresh fuel jid i datsz =
     bind_io (find_length fresh fuel i datsz) (\<lambda>r.
     case r of
       None \<Rightarrow> ret_io False
     | Some (i, len, datsz) \<Rightarrow>
         bind_io (if datsz \<le> i then readmore fresh i else ret_io 0) (\<lambda>nr.
         if nr < 0 then ret_io False
         else bind_io (find_end fresh fuel i (datsz + nat nr)) (verdict fresh jid len)))"

text \<open>The loop over reads: answers of class 1xx and unreadable ones are skipped.\<close>

fun status_loop :: "(nat \<Rightarrow> char) \<Rightarrow> nat \<Rightarrow> nat \<Rightarrow> 32 word \<Rightarrow> (pstat, bool) io" where
  "status_loop fresh fuel 0 jid = fail_io Diverges"
| "status_loop fresh fuel (Suc n) jid =
     bind_io (tread_at 0 IOBUFSZ) (\<lambda>nr.
     if nr \<le> 0 then ret_io False
     else
       let datsz = nat nr in
       bind_io (skip_while isspace 8) (\<lambda>statcode.
       bind_io (skip_while isdigit statcode) (\<lambda>e.
       if e = statcode then seq_io log_buffer (status_loop fresh fuel n jid)
       else
         seq_io (wr_byte e NUL)
         (bind_io (skip_while (\<lambda>c. c \<noteq> CHR 0x0D \<and> c \<noteq> CHR 0x0A) (Suc e)) (\<lambda>eol.
          seq_io (wr_byte eol NUL)
          (bind_io (gets_io (\<lambda>s. atoi (cstr (drop statcode (ps_buf s))))) (\<lambda>code.
           if 100 \<le> code \<and> code \<le> 199 then status_loop fresh fuel n jid
           else if \<not> (200 \<le> code \<and> code \<le> 299) then seq_io (wr_byte datsz NUL) (ret_io False)
           else check_answer fresh fuel jid eol datsz)))))))"

text \<open>
  Fuel: every round of the outer loop takes at least one byte of the input, and so does every
  extension of the buffer, which grows by \<open>IOBUFSZ\<close>; the loops inside stay in the buffer.
\<close>

definition printer_status :: "(nat \<Rightarrow> char) \<Rightarrow> 32 word \<Rightarrow> chan \<Rightarrow> exit_reason + (bool \<times> chan)" where
  "printer_status fresh jid c =
     (let n = length (trd_bytes (c_in c)) in
      case status_loop fresh ((n + 2) * IOBUFSZ) (Suc n) jid \<lparr>ps_chan = c, ps_buf = map fresh [0..<IOBUFSZ]\<rparr> of
        Inl e \<Rightarrow> Inl e
      | Inr (success, s) \<Rightarrow> Inr (success, ps_chan s))"


section \<open>The loops on a given buffer\<close>

lemma rd_byte_at [simp]: "ps_buf s = pre @ c # post \<Longrightarrow> rd_byte (length pre) s = Inr (c, s)"
  by (simp add: rd_byte_def)

lemma wr_byte_at: "ps_buf s = pre @ d # post \<Longrightarrow> wr_byte (length pre) c s = Inr ((), s\<lparr>ps_buf := pre @ c # post\<rparr>)"
  by (simp add: wr_byte_def)

lemma skip_while_at:
  assumes "ps_buf s = pre @ x @ d # post" "\<forall>c \<in> set x. p c" "\<not> p d"
  shows "skip_while p (length pre) s = Inr (length pre + length x, s)"
proof -
  have "takeWhile p (x @ d # post) = x" using assms(2,3) by (simp add: takeWhile_append2)
  with assms(1) show ?thesis by (simp add: skip_while_def Let_def)
qed

lemma prefix_case_yes:
  assumes "ps_buf s = pre @ x @ post" "map to_lower x = map to_lower pat"
  shows "prefix_case pat (length pre) s = Inr (True, s)"
  using assms
proof (induction pat arbitrary: pre x)
  case (Cons p ps)
  then obtain c cs where x: "x = c # cs" "to_lower c = to_lower p" "map to_lower cs = map to_lower ps" by auto
  have "prefix_case ps (length (pre @ [c])) s = Inr (True, s)" by (rule Cons.IH [of _ cs]) (use Cons.prems x in auto)
  with Cons.prems x show ?case by (simp add: io_simps)
qed (simp add: io_simps)

lemma prefix_case_no:
  assumes "ps_buf s = pre @ y" "length pat \<le> length y" "map to_lower (take (length pat) y) \<noteq> map to_lower pat"
  shows "prefix_case pat (length pre) s = Inr (False, s)"
  using assms
proof (induction pat arbitrary: pre y)
  case (Cons p ps)
  then obtain c cs where y: "y = c # cs" by (cases y) auto
  show ?case
  proof (cases "to_lower c = to_lower p")
    case True
    have "prefix_case ps (length (pre @ [c])) s = Inr (False, s)"
      by (rule Cons.IH [of _ cs]) (use Cons.prems y True in auto)
    with Cons.prems y True show ?thesis by (simp add: io_simps)
  qed (use Cons.prems y in \<open>simp add: io_simps\<close>)
qed simp

lemma prefix_exact_at:
  assumes "ps_buf s = pre @ y" "length pat \<le> length y"
  shows "prefix_exact pat (length pre) s = Inr (take (length pat) y = pat, s)"
  using assms
proof (induction pat arbitrary: pre y)
  case (Cons p ps)
  then obtain c cs where y: "y = c # cs" by (cases y) auto
  have "prefix_exact ps (length (pre @ [c])) s = Inr (take (length ps) cs = ps, s)"
    by (rule Cons.IH) (use Cons.prems y in auto)
  with Cons.prems y show ?case by (simp add: io_simps)
qed (simp add: io_simps)

text \<open>No comparison with \<open>pat\<close> succeeds in \<open>y\<close>, which is followed by \<open>z\<close>.\<close>

definition absent :: "(string \<Rightarrow> string) \<Rightarrow> string \<Rightarrow> string \<Rightarrow> string \<Rightarrow> bool" where
  "absent f pat y z \<longleftrightarrow> list_all (\<lambda>k. f (take (length pat) (drop k (y @ z))) \<noteq> f pat) [0..<length y]"

lemma absent_Cons:
  "absent f pat (c # y) z \<longleftrightarrow> f (take (length pat) (c # y @ z)) \<noteq> f pat \<and> absent f pat y z"
proof -
  have "[0..<length (c # y)] = 0 # map Suc [0..<length y]" by (simp add: upt_conv_Cons map_Suc_upt del: upt_Suc)
  then show ?thesis by (simp add: absent_def list.pred_map comp_def)
qed

lemma find_length_skip:
  assumes "ps_buf s = pre @ y @ z" "absent (map to_lower) ''Content-Length:'' y z" "length pre + length y \<le> datsz" "15 \<le> length z"
  shows "find_length fresh (length y + f) (length pre) datsz s = find_length fresh f (length pre + length y) datsz s"
  using assms
proof (induction y arbitrary: pre)
  case (Cons c y)
  have IH: "find_length fresh (length y + f) (Suc (length pre)) datsz s = find_length fresh f (Suc (length pre) + length y) datsz s"
    using Cons.IH [of "pre @ [c]"] Cons.prems by (auto simp: absent_Cons)
  have "prefix_case ''Content-Length:'' (length pre) s = Inr (False, s)"
    by (rule prefix_case_no [of _ _ "c # y @ z"]) (use Cons.prems in \<open>auto simp: absent_Cons\<close>)
  with Cons.prems IH show ?case by (simp add: io_simps)
qed simp

lemma scan_blank_skip:
  assumes "ps_buf s = pre @ y @ z" "absent id [CHR 0x0A, CHR 0x0D, CHR 0x0A] y z" "length pre + length y + 2 \<le> datsz" "2 \<le> length z"
  shows "scan_blank (length y + f) (length pre) datsz s = scan_blank f (length pre + length y) datsz s"
  using assms
proof (induction y arbitrary: pre)
  case (Cons c y)
  have IH: "scan_blank (length y + f) (Suc (length pre)) datsz s = scan_blank f (Suc (length pre) + length y) datsz s"
    using Cons.IH [of "pre @ [c]"] Cons.prems by (auto simp: absent_Cons)
  have "prefix_exact [CHR 0x0A, CHR 0x0D, CHR 0x0A] (length pre) s = Inr (False, s)"
    using prefix_exact_at [of s pre "c # y @ z" "[CHR 0x0A, CHR 0x0D, CHR 0x0A]"] Cons.prems by (auto simp: absent_Cons)
  with Cons.prems IH show ?case by (simp add: io_simps)
qed simp


lemma absent_more:
  assumes "length pat \<le> Suc (length z)"
  shows "absent f pat y (z @ w) = absent f pat y z"
proof -
  have "take (length pat) (drop k (y @ z @ w)) = take (length pat) (drop k (y @ z))" if "k < length y" for k
    using that assms by (auto simp: take_append drop_append)
  then show ?thesis unfolding absent_def list_all_iff by (simp del: take_append drop_append)
qed

lemma atoi_cstr_dec:
  assumes "n < 2 ^ 31"
  shows "atoi (cstr (dec n @ NUL # r)) = int n"
proof -
  have "cstr (dec n @ NUL # r) = dec n" by (simp add: isdigit_def)
  with assms show ?thesis by (simp add: atoi_dec)
qed

section \<open>Answers\<close>

abbreviation CR :: char where "CR \<equiv> CHR 0x0D"

text \<open>The pieces of an answer that fits one read.\<close>

record answer =
  a_ver :: string       \<comment> \<open>\<open>HTTP/x.y\<close>\<close>
  a_code :: nat
  a_reason :: string
  a_hs :: string        \<comment> \<open>header lines before \<open>Content-Length\<close>\<close>
  a_len :: nat
  a_hs2 :: string       \<comment> \<open>header lines after it\<close>
  a_ipp :: string       \<comment> \<open>the body\<close>

lemma find_length_at:
  assumes "ps_buf s = pre @ ''Content-Length: '' @ dec n @ CR # z" "length pre < datsz" "n < 2 ^ 31"
  shows "find_length fresh (Suc f) (length pre) datsz s =
     Inr (Some (length pre + 16 + length (dec n) + 1, int n, datsz), s\<lparr>ps_buf := pre @ ''Content-Length: '' @ dec n @ NUL # z\<rparr>)"
proof -
  obtain d ds where d: "dec n = d # ds" by (cases "dec n") auto
  have dd: "isdigit d" "\<forall>c \<in> set (dec n). isdigit c" using dec_digits [of _ n] d by auto
  have p: "prefix_case ''Content-Length:'' (length pre) s = Inr (True, s)"
    by (rule prefix_case_yes [of _ _ "''Content-Length:''" "SPACE # dec n @ CR # z"]) (use assms in auto)
  have sk: "skip_while isspace (length (pre @ ''Content-Length:'')) s = Inr (length (pre @ ''Content-Length:'') + length [SPACE], s)"
    by (rule skip_while_at [of _ _ _ d "ds @ CR # z"]) (use assms d dd isdigit_not_space in auto)
  have nd: "\<not> isdigit CR" by (simp add: isdigit_def)
  have dg: "skip_while isdigit (length (pre @ ''Content-Length: '')) s = Inr (length (pre @ ''Content-Length: '') + length (dec n), s)"
    by (rule skip_while_at [of _ _ _ CR z, OF _ dd(2) nd]) (simp add: assms(1))
  have wr: "wr_byte (length (pre @ ''Content-Length: '' @ dec n)) NUL s = Inr ((), s\<lparr>ps_buf := (pre @ ''Content-Length: '' @ dec n) @ NUL # z\<rparr>)"
    by (rule wr_byte_at [of _ _ CR]) (use assms in auto)
  have c: "rd_byte (length pre) s = Inr (CHR ''C'', s)" using assms(1) by (simp add: rd_byte_def)
  have at: "atoi (cstr (dec n @ NUL # z)) = int n" by (rule atoi_cstr_dec [OF assms(3)])
  show ?thesis using assms(2) p sk dg wr c at by (simp add: io_simps eval_nat_numeral)
qed


abbreviation BLANK :: string where "BLANK \<equiv> [NEWLINE, CR, NEWLINE]"

lemma find_end_at:
  assumes "ps_buf s = pre @ y @ BLANK @ z" "absent id BLANK y BLANK" "length pre + length y + 3 < datsz"
  shows "find_end fresh (Suc f) (length pre) datsz s = Inr (Some (length pre + length y + 3, datsz), s)"
proof -
  have ab: "absent id BLANK y (BLANK @ z)" using assms(2) absent_more [of BLANK BLANK id y z] by simp
  have k: "Suc datsz = length y + Suc (datsz - length y)" using assms(3) by simp
  have "prefix_exact BLANK (length (pre @ y)) s = Inr (True, s)"
    using prefix_exact_at [of s "pre @ y" "BLANK @ z" BLANK] assms(1) by simp
  then have "scan_blank (Suc (datsz - length y)) (length pre + length y) datsz s = Inr ((True, length pre + length y + 3), s)"
    using assms(3) by (simp add: io_simps)
  then have "scan_blank (Suc datsz) (length pre) datsz s = Inr ((True, length pre + length y + 3), s)"
    using scan_blank_skip [OF assms(1) ab, of datsz "Suc (datsz - length y)", folded k] assms(3)
    by (simp del: scan_blank.simps)
  with assms(3) show ?thesis by (simp add: io_simps del: scan_blank.simps)
qed

text \<open>Fewer than three bytes before the end of the data: the loop never ends.\<close>

lemma find_end_stuck:
  assumes "i < datsz" "datsz \<le> i + 2"
  shows "find_end fresh fuel i datsz s = Inl Diverges"
  using assms by (induction fuel) (auto simp: io_simps)

lemma find_end_hangs:
  assumes "ps_buf s = pre @ y @ z" "absent id BLANK y []" "y \<noteq> []" "datsz = length pre + length y"
  shows "find_end fresh fuel (length pre) datsz s = Inl Diverges"
proof (cases "length y \<le> 2")
  case True
  with assms show ?thesis by (intro find_end_stuck) (cases y; simp)+
next
  case False
  let ?n = "length y - 2"
  define u where "u = take ?n y"
  define w where "w = drop ?n y"
  have uw: "y = u @ w" "length w = 2" "length u = ?n" using False by (auto simp: u_def w_def)
  have "absent id BLANK u w" using assms(2) unfolding absent_def list_all_iff uw(1) by (simp del: take_append drop_append)
  then have ab: "absent id BLANK u (w @ z)" using absent_more [of BLANK w] uw(2) by simp
  have b: "ps_buf s = pre @ u @ (w @ z)" using assms(1) uw(1) by simp
  have d: "datsz = length pre + length u + 2" using assms(4) uw(1,2) by simp
  have k: "Suc datsz = length u + Suc (length pre + 2)" using d by simp
  have "scan_blank (Suc (length pre + 2)) (length pre + length u) datsz s = Inr ((False, length pre + length u), s)"
    using d by (simp add: io_simps)
  then have sc: "scan_blank (Suc datsz) (length pre) datsz s = Inr ((False, length pre + length u), s)"
    using scan_blank_skip [OF b ab, of datsz "Suc (length pre + 2)", folded k] d uw(2)
    by (simp del: scan_blank.simps)
  show ?thesis
  proof (cases fuel)
    case (Suc f)
    have "length pre + length u < datsz" "datsz \<le> length pre + length u + 2" using d by simp_all
    with sc Suc find_end_stuck [of "length pre + length u" datsz fresh f s] show ?thesis
      by (simp add: io_simps del: scan_blank.simps)
  qed (simp add: io_simps)
qed

text \<open>The first read and the status line.\<close>

lemma tread_at_first:
  assumes "c_in (ps_chan s) = Data bs # es" "bs \<noteq> []" "length bs \<le> IOBUFSZ"
  shows "tread_at 0 IOBUFSZ s =
     Inr (int (length bs), s\<lparr>ps_chan := (ps_chan s)\<lparr>c_in := es\<rparr>, ps_buf := bs @ drop (length bs) (ps_buf s)\<rparr>)"
  using assms by (simp add: tread_at_def tread_def sys_select_def sys_read_def)

lemma status_line:
  assumes ch: "c_in (ps_chan s) = Data (ver @ [SPACE] @ dec code @ [SPACE] @ reason @ CR # rest) # es"
    and v: "length ver = 8" and code: "200 \<le> code" "code \<le> 299" and r: "CR \<notin> set reason" "NEWLINE \<notin> set reason"
    and len: "datsz = length (ver @ [SPACE] @ dec code @ [SPACE] @ reason @ CR # rest)" "datsz \<le> IOBUFSZ"
  defines "pre \<equiv> ver @ [SPACE] @ dec code @ [NUL] @ reason"
  shows "status_loop fresh fuel (Suc n) jid s = check_answer fresh fuel jid (length pre) datsz
     (s\<lparr>ps_chan := (ps_chan s)\<lparr>c_in := es\<rparr>, ps_buf := pre @ NUL # rest @ drop datsz (ps_buf s)\<rparr>)"
proof -
  let ?c = "(ps_chan s)\<lparr>c_in := es\<rparr>" let ?t = "drop datsz (ps_buf s)"
  let ?st = "\<lambda>b. s\<lparr>ps_chan := ?c, ps_buf := b\<rparr>"
  let ?b0 = "ver @ [SPACE] @ dec code @ [SPACE] @ reason @ CR # rest @ ?t"
  let ?b1 = "ver @ [SPACE] @ dec code @ [NUL] @ reason @ CR # rest @ ?t"
  let ?b2 = "pre @ NUL # rest @ ?t"
  obtain d ds where d: "dec code = d # ds" by (cases "dec code") auto
  have dd: "isdigit d" "\<forall>c \<in> set (dec code). isdigit c" using dec_digits [of _ code] d by auto
  have nd: "\<not> isdigit SPACE" by (simp add: isdigit_def)
  have 1: "tread_at 0 IOBUFSZ s = Inr (int datsz, ?st ?b0)"
    using tread_at_first [OF ch] len by simp
  have 2: "skip_while isspace 8 (?st ?b0) = Inr (9, ?st ?b0)"
    using skip_while_at [of "?st ?b0" ver "[SPACE]" d _ isspace] v d dd(1) isdigit_not_space by simp
  have 3: "skip_while isdigit 9 (?st ?b0) = Inr (9 + length (dec code), ?st ?b0)"
    using skip_while_at [of "?st ?b0" "ver @ [SPACE]" "dec code" SPACE _ isdigit, OF _ dd(2) nd] v by simp
  have 4: "wr_byte (9 + length (dec code)) NUL (?st ?b0) = Inr ((), ?st ?b1)"
    using wr_byte_at [of "?st ?b0" "ver @ [SPACE] @ dec code" SPACE] v by simp
  have r5: "\<forall>c \<in> set reason. c \<noteq> CR \<and> c \<noteq> NEWLINE" using r by auto
  have 5: "skip_while (\<lambda>c. c \<noteq> CR \<and> c \<noteq> NEWLINE) (Suc (9 + length (dec code))) (?st ?b1) = Inr (length pre, ?st ?b1)"
    using skip_while_at [of "?st ?b1" "ver @ [SPACE] @ dec code @ [NUL]" reason CR _ "\<lambda>c. c \<noteq> CR \<and> c \<noteq> NEWLINE"] v r5
    by (simp add: pre_def add.assoc)
  have 6: "wr_byte (length pre) NUL (?st ?b1) = Inr ((), ?st ?b2)"
    using wr_byte_at [of "?st ?b1" pre CR] by (simp add: pre_def)
  have 7: "atoi (cstr (drop 9 ?b2)) = int code"
    using atoi_cstr_dec [of code "reason @ NUL # rest @ ?t"] code v by (simp add: pre_def)
  have p: "0 < datsz" using len(1) by simp
  from 1 2 3 4 5 6 7 code p show ?thesis by (simp add: io_simps)
qed


lemma to_lower_ends: "to_lower NUL \<noteq> to_lower CHR ''C''" "to_lower NEWLINE \<noteq> to_lower CHR ''C''"
  by code_simp+

lemma content_length:
  assumes b: "ps_buf s = pre @ NUL # NEWLINE # hs @ ''Content-Length: '' @ dec n @ CR # z"
    and ab: "absent (map to_lower) ''Content-Length:'' hs ''Content-Length: ''"
    and n: "n < 2 ^ 31" and d: "length pre + length hs + 2 < datsz" and f: "length hs + 3 \<le> fuel"
  defines "pre' \<equiv> pre @ NUL # NEWLINE # hs @ ''Content-Length: '' @ dec n @ [NUL]"
  shows "find_length fresh fuel (length pre) datsz s =
     Inr (Some (length pre', int n, datsz), s\<lparr>ps_buf := pre' @ z\<rparr>)"
proof -
  let ?y = "NUL # NEWLINE # hs" let ?z = "''Content-Length: '' @ dec n @ CR # z"
  have "absent (map to_lower) ''Content-Length:'' hs ?z"
    using ab absent_more [of "''Content-Length:''" "''Content-Length: ''" "map to_lower" hs "dec n @ CR # z"] by simp
  then have ab': "absent (map to_lower) ''Content-Length:'' ?y ?z"
    using to_lower_ends by (simp add: absent_Cons)
  define g where "g = fuel - (length hs + 3)"
  have g: "fuel = length ?y + Suc g" using f by (simp add: g_def)
  have "find_length fresh fuel (length pre) datsz s = find_length fresh (Suc g) (length (pre @ ?y)) datsz s"
    unfolding g using find_length_skip [of s pre ?y ?z datsz fresh "Suc g"] b ab' d by (simp del: find_length.simps)
  also have "\<dots> = Inr (Some (length (pre @ ?y) + 16 + length (dec n) + 1, int n, datsz),
      s\<lparr>ps_buf := (pre @ ?y) @ ''Content-Length: '' @ dec n @ NUL # z\<rparr>)"
    by (rule find_length_at) (use b d n in auto)
  finally show ?thesis by (simp add: pre'_def)
qed

text \<open>The bytes of an answer up to the end of the \<open>Content-Length\<close> line.\<close>

definition answer_head :: "answer \<Rightarrow> string" where
  "answer_head a =
     a_ver a @ [SPACE] @ dec (a_code a) @ [SPACE] @ a_reason a @ [CR, NEWLINE] @ a_hs a @ ''Content-Length: '' @ dec (a_len a) @ [CR]"

definition head_ok :: "answer \<Rightarrow> bool" where
  "head_ok a \<longleftrightarrow> length (a_ver a) = 8 \<and> 200 \<le> a_code a \<and> a_code a \<le> 299 \<and>
     CR \<notin> set (a_reason a) \<and> NEWLINE \<notin> set (a_reason a) \<and> a_len a < 2 ^ 31 \<and>
     absent (map to_lower) ''Content-Length:'' (a_hs a) ''Content-Length: ''"

lemma status_head:
  assumes ok: "head_ok a" and ch: "c_in (ps_chan s) = Data (answer_head a @ y) # es" and y: "y \<noteq> []"
    and len: "datsz = length (answer_head a @ y)" "datsz \<le> IOBUFSZ" and fuel: "IOBUFSZ \<le> fuel"
  shows "\<exists>pre. length pre + length y = datsz \<and>
    status_loop fresh fuel (Suc n) jid s =
      bind_io (find_end fresh fuel (length pre) datsz) (verdict fresh jid (int (a_len a)))
        (s\<lparr>ps_chan := (ps_chan s)\<lparr>c_in := es\<rparr>, ps_buf := pre @ y @ drop datsz (ps_buf s)\<rparr>)"
proof -
  let ?p0 = "a_ver a @ [SPACE] @ dec (a_code a) @ [NUL] @ a_reason a"
  let ?rest = "NEWLINE # a_hs a @ ''Content-Length: '' @ dec (a_len a) @ CR # y"
  let ?pre = "?p0 @ NUL # NEWLINE # a_hs a @ ''Content-Length: '' @ dec (a_len a) @ [NUL]"
  let ?t = "drop datsz (ps_buf s)"
  let ?s1 = "s\<lparr>ps_chan := (ps_chan s)\<lparr>c_in := es\<rparr>, ps_buf := ?p0 @ NUL # ?rest @ ?t\<rparr>"
  have h: "answer_head a @ y = a_ver a @ [SPACE] @ dec (a_code a) @ [SPACE] @ a_reason a @ CR # ?rest"
    by (simp add: answer_head_def)
  define p0 where "p0 = ?p0"
  define s1 where "s1 = ?s1"
  define pre where "pre = ?pre"
  have 1: "status_loop fresh fuel (Suc n) jid s = check_answer fresh fuel jid (length p0) datsz s1"
    unfolding p0_def s1_def
    by (rule status_line) (use ch ok len h in \<open>simp_all add: head_ok_def\<close>)
  have yl: "0 < length y" using y by simp
  have dz: "length ?pre + length y = datsz" using len(1) by (simp add: answer_head_def)
  have 2: "find_length fresh fuel (length p0) datsz s1 =
      Inr (Some (length pre, int (a_len a), datsz), s1\<lparr>ps_buf := pre @ y @ ?t\<rparr>)"
    unfolding p0_def s1_def pre_def
    by (rule content_length) (use ok dz yl len(2) fuel in \<open>simp_all add: head_ok_def\<close>)
  have dz': "length pre + length y = datsz" "\<not> datsz \<le> length pre" using dz yl unfolding pre_def by linarith+
  have "s1\<lparr>ps_buf := pre @ y @ ?t\<rparr> = s\<lparr>ps_chan := (ps_chan s)\<lparr>c_in := es\<rparr>, ps_buf := pre @ y @ ?t\<rparr>" by (simp add: s1_def)
  then show ?thesis
    by (intro exI [of _ pre]) (simp add: 1 2 dz' check_answer_def io_simps del: status_loop.simps)
qed


text \<open>A whole answer: further header lines, the empty line, and the IPP response.\<close>

definition answer_bytes :: "answer \<Rightarrow> string" where
  "answer_bytes a = answer_head a @ NEWLINE # a_hs2 a @ [CR, NEWLINE] @ a_ipp a"

definition answer_ok :: "answer \<Rightarrow> bool" where
  "answer_ok a \<longleftrightarrow> head_ok a \<and> (a_hs2 a = [] \<or> last (a_hs2 a) = NEWLINE) \<and>
     absent id BLANK (butlast (NEWLINE # a_hs2 a)) BLANK \<and>
     8 \<le> length (a_ipp a) \<and> a_len a \<le> length (a_ipp a) \<and> length (answer_bytes a) \<le> IOBUFSZ"

definition ipp_status :: "string \<Rightarrow> nat" where
  "ipp_status ipp = 256 * of_char (ipp ! 2) + of_char (ipp ! 3)"

definition ipp_id :: "string \<Rightarrow> 32 word" where
  "ipp_id ipp = of_le32 (rev (take 4 (drop 4 ipp)))"

text \<open>The result of \<open>printer_status\<close> on a whole answer in one piece.\<close>

lemma printer_status_answer:
  assumes ok: "answer_ok a" and ch: "c_in c = Data (answer_bytes a) # es"
  shows "printer_status fresh jid c = Inr (ipp_id (a_ipp a) = jid \<and> ipp_status (a_ipp a) \<le> 0x00ff, c\<lparr>c_in := es\<rparr>)"
proof -
  let ?s = "\<lparr>ps_chan = c, ps_buf = map fresh [0..<IOBUFSZ]\<rparr>"
  let ?y = "NEWLINE # a_hs2 a @ [CR, NEWLINE] @ a_ipp a"
  define u where "u = butlast (NEWLINE # a_hs2 a)"
  define n where "n = length (trd_bytes (c_in c))"
  define d where "d = length (answer_bytes a)"
  have y: "?y = u @ BLANK @ a_ipp a"
    using ok append_butlast_last_id [of "NEWLINE # a_hs2 a"] by (auto simp: answer_ok_def u_def)
  have dd: "d = length (answer_head a @ ?y)" "d \<le> IOBUFSZ" using ok by (auto simp: d_def answer_bytes_def answer_ok_def)
  have fuel: "IOBUFSZ \<le> (n + 2) * IOBUFSZ" by simp
  have ch': "c_in (ps_chan ?s) = Data (answer_head a @ ?y) # es" using ch by (simp add: answer_bytes_def)
  have hd: "head_ok a" using ok by (simp add: answer_ok_def)
  obtain pre where pre: "length pre + length ?y = d" and run: "status_loop fresh ((n + 2) * IOBUFSZ) (Suc n) jid ?s =
      bind_io (find_end fresh ((n + 2) * IOBUFSZ) (length pre) d) (verdict fresh jid (int (a_len a)))
        (?s\<lparr>ps_chan := (ps_chan ?s)\<lparr>c_in := es\<rparr>, ps_buf := pre @ ?y @ drop d (ps_buf ?s)\<rparr>)"
    using status_head [OF hd ch' _ dd fuel, of fresh n jid] by blast
  define t where "t = drop d (ps_buf ?s)"
  define s1 where "s1 = \<lparr>ps_chan = c\<lparr>c_in := es\<rparr>, ps_buf = pre @ u @ BLANK @ a_ipp a @ t\<rparr>"
  have s1: "?s\<lparr>ps_chan := (ps_chan ?s)\<lparr>c_in := es\<rparr>, ps_buf := pre @ ?y @ drop d (ps_buf ?s)\<rparr> = s1"
    unfolding y s1_def t_def by simp
  define i where "i = length pre + length u + 3"
  have di: "d = i + length (a_ipp a)" using pre unfolding y i_def by simp
  have ipp: "8 \<le> length (a_ipp a)" "a_len a \<le> length (a_ipp a)" and ab: "absent id BLANK u BLANK"
    using ok by (auto simp: answer_ok_def u_def)
  have ne: "a_ipp a \<noteq> []" using ipp(1) by auto
  obtain f where f: "(n + 2) * IOBUFSZ = Suc f" by (cases "(n + 2) * IOBUFSZ") auto
  have "find_end fresh ((n + 2) * IOBUFSZ) (length pre) d s1 = Inr (Some (i, d), s1)"
    unfolding f i_def by (rule find_end_at) (use ab di ne in \<open>simp_all add: s1_def i_def\<close>)
  moreover have t4: "take 4 (drop (i + 4) (ps_buf s1)) = take 4 (drop 4 (a_ipp a))"
    using ipp(1) by (simp add: s1_def i_def)
  moreover have b: "drop i (ps_buf s1) = a_ipp a @ t" "i + 8 \<le> length (ps_buf s1)" using ipp by (simp_all add: s1_def i_def)
  then have "ipp_answer i s1 = Inr ((ipp_status (a_ipp a), ipp_id (a_ipp a)), s1)"
    using ipp nth_drop [of i "ps_buf s1" 2] nth_drop [of i "ps_buf s1" 3] t4
    by (simp add: ipp_answer_def ipp_status_def ipp_id_def nth_append add.commute)
  ultimately have "status_loop fresh ((n + 2) * IOBUFSZ) (Suc n) jid ?s =
      Inr (ipp_id (a_ipp a) = jid \<and> ipp_status (a_ipp a) \<le> 0x00ff, s1)"
    unfolding run s1 using di ipp(2) by (simp add: io_simps verdict_def)
  then show ?thesis by (simp add: printer_status_def n_def [symmetric] s1_def Let_def del: status_loop.simps)
qed

section \<open>Properties\<close>

text \<open>C16: an answer that arrives in one piece is judged by its IPP header. For every HTTP
  response of class 2xx with a \<open>Content-Length\<close> line anywhere among its header lines, whose
  body is at least as long as announced, the daemon takes the job as printed exactly when the
  request ID in the body is the job's number and the IPP status is of the class of successful
  ones; it reads no further and stays inside its buffer.\<close>

theorem printer_status_verdict:
  assumes ok: "answer_ok a" and ch: "c_in c = Data (answer_bytes a) # es"
  shows "printer_status fresh jid c = Inr (ipp_id (a_ipp a) = jid \<and> ipp_status (a_ipp a) \<le> 0x00ff, c\<lparr>c_in := es\<rparr>)"
  by (rule printer_status_answer [OF assms])


text \<open>A success response with a \<open>Content-Type\<close> line before the length and a \<open>Server\<close> line after it.\<close>

definition sample_answer :: answer where
  "sample_answer = \<lparr>a_ver = ''HTTP/1.1'', a_code = 200, a_reason = ''OK'',
     a_hs = ''Content-Type: application/ipp'' @ [CR, NEWLINE], a_len = 9,
     a_hs2 = ''Server: CUPS'' @ [CR, NEWLINE],
     a_ipp = [byte_of 1, byte_of 1, byte_of 0, byte_of 1] @ rev (le32 17) @ [byte_of 3]\<rparr>"

lemma sample_answer_ok: "answer_ok sample_answer"
proof -
  have ab: "absent (map to_lower) ''Content-Length:'' (''Content-Type: application/ipp'' @ [CR, NEWLINE]) ''Content-Length: ''"
    "absent id BLANK (butlast (NEWLINE # ''Server: CUPS'' @ [CR, NEWLINE])) BLANK" by code_simp+
  have "length (dec 200) = 3" "length (dec 9) = 1" by code_simp+
  with ab show ?thesis
    by (simp add: answer_ok_def head_ok_def sample_answer_def answer_bytes_def answer_head_def del: butlast.simps)
qed

theorem printer_status_verdict_witness:
  "\<exists>c'. printer_status (\<lambda>i. CHR ''x'') 17
     \<lparr>c_in = [Data (answer_bytes sample_answer)], c_wr = [], c_out = [], c_errno = 0\<rparr> = Inr (True, c')"
proof -
  have "ipp_id (a_ipp sample_answer) = 17 \<and> ipp_status (a_ipp sample_answer) \<le> 0x00ff"
    by (simp add: sample_answer_def ipp_id_def ipp_status_def)
  then show ?thesis
    using printer_status_verdict [OF sample_answer_ok,
        of "\<lparr>c_in = [Data (answer_bytes sample_answer)], c_wr = [], c_out = [], c_errno = 0\<rparr>" "[]" "\<lambda>i. CHR ''x''" 17] by simp
qed

text \<open>C17: the daemon hangs when the HTTP header is split. When the first read ends after the
  \<open>Content-Length\<close> line but before the empty line that ends the header, the loop that looks
  for the empty line neither advances nor reads: it runs for ever, whatever the printer sends
  next. The model runs out of fuel for every amount of fuel.\<close>

theorem printer_status_hangs:
  assumes ok: "head_ok a" and ch: "c_in c = Data (answer_head a @ NEWLINE # h) # es"
    and ab: "absent id BLANK (NEWLINE # h) []" and len: "length (answer_head a @ NEWLINE # h) \<le> IOBUFSZ"
  shows "(\<forall>k n. status_loop fresh (IOBUFSZ + k) (Suc n) jid \<lparr>ps_chan = c, ps_buf = map fresh [0..<IOBUFSZ]\<rparr> = Inl Diverges) \<and>
    printer_status fresh jid c = Inl Diverges"
proof -
  let ?s = "\<lparr>ps_chan = c, ps_buf = map fresh [0..<IOBUFSZ]\<rparr>"
  have all: "\<forall>k n. status_loop fresh (IOBUFSZ + k) (Suc n) jid ?s = Inl Diverges"
  proof (intro allI)
    fix k n
    define d where "d = length (answer_head a @ NEWLINE # h)"
    define s1 where "s1 = (\<lambda>pre. ?s\<lparr>ps_chan := (ps_chan ?s)\<lparr>c_in := es\<rparr>, ps_buf := pre @ (NEWLINE # h) @ drop d (ps_buf ?s)\<rparr>)"
    have ch': "c_in (ps_chan ?s) = Data (answer_head a @ NEWLINE # h) # es" using ch by simp
    obtain pre where pre: "length pre + length (NEWLINE # h) = d"
      and run: "status_loop fresh (IOBUFSZ + k) (Suc n) jid ?s =
        bind_io (find_end fresh (IOBUFSZ + k) (length pre) d) (verdict fresh jid (int (a_len a))) (s1 pre)"
      using status_head [OF ok ch' _ d_def _ le_add1 [of IOBUFSZ k], of fresh n jid] len unfolding s1_def d_def by blast
    have "find_end fresh (IOBUFSZ + k) (length pre) d (s1 pre) = Inl Diverges"
      by (rule find_end_hangs [OF _ ab]) (use pre in \<open>simp_all add: s1_def\<close>)
    with run show "status_loop fresh (IOBUFSZ + k) (Suc n) jid ?s = Inl Diverges" by (simp add: io_simps)
  qed
  define n where "n = length (trd_bytes (c_in c))"
  have "status_loop fresh (IOBUFSZ + (n + 1) * IOBUFSZ) (Suc n) jid ?s = Inl Diverges" using all by blast
  moreover have "IOBUFSZ + (n + 1) * IOBUFSZ = (n + 2) * IOBUFSZ" by simp
  ultimately have "printer_status fresh jid c = Inl Diverges"
    by (simp add: printer_status_def n_def [symmetric] Let_def del: status_loop.simps)
  with all show ?thesis by blast
qed

theorem printer_status_hangs_witness:
  "printer_status (\<lambda>i. CHR ''x'') 17
     \<lparr>c_in = [Data (answer_head sample_answer @ [NEWLINE]), Data (''Server: CUPS'' @ BLANK @ a_ipp sample_answer)],
      c_wr = [], c_out = [], c_errno = 0\<rparr> = Inl Diverges"
proof -
  let ?c = "\<lparr>c_in = [Data (answer_head sample_answer @ [NEWLINE]), Data (''Server: CUPS'' @ BLANK @ a_ipp sample_answer)],
      c_wr = [], c_out = [], c_errno = 0\<rparr>"
  have "head_ok sample_answer" "length (answer_head sample_answer @ [NEWLINE]) \<le> IOBUFSZ"
    using sample_answer_ok by (simp_all add: answer_ok_def answer_bytes_def)
  moreover have "absent id BLANK [NEWLINE] []" by code_simp
  ultimately show ?thesis using printer_status_hangs [of sample_answer ?c "[]"] by simp
qed

end
