(* ===== verification/Printd_Printer.thy ===== *)
theory Printd_Printer
  imports Printd_Status Printd_Config Printd_Client
begin

text \<open>
  The printer thread (\<open>printer/printd.c\<close>): one round of \<open>printer_thread\<close>, from taking a job off
  the queue to disposing of it or putting it back. The configuration file and the resolver are
  parameters, and so is \<open>dial\<close>, the connection that \<open>connect_retry\<close> makes.
\<close>

section \<open>One round\<close>

text \<open>A look at \<open>reread\<close>, under \<open>configlock\<close>.\<close>

definition check_config :: "resolver \<Rightarrow> string option \<Rightarrow> (printd, unit) io" where
  "check_config getaddrinfo conf =
     seq_io (\<lambda>s. if configlock s then Inl Blocked else Inr ((), s\<lparr>configlock := True\<rparr>))
     (bind_io (gets_io reread) (\<lambda>r.
      if r then
        seq_io (modify_io (\<lambda>s. s\<lparr>printer := None\<rparr>))
       (seq_io (modify_io (\<lambda>s. s\<lparr>reread := False\<rparr>))
       (seq_io (modify_io (\<lambda>s. s\<lparr>configlock := False\<rparr>))
        (init_printer getaddrinfo conf)))
      else modify_io (\<lambda>s. s\<lparr>configlock := False\<rparr>)))"

text \<open>
  The loop that sends the file, from the offset \<open>pos\<close>; \<open>False\<close> is \<open>goto defer\<close>. A read of the
  file may fail or fall short; it returns 0 only at the end of the file.
\<close>

fun send_file :: "nat \<Rightarrow> nat \<Rightarrow> string \<Rightarrow> (spool, bool) io" where
  "send_file 0 pos content = fail_io Diverges"
| "send_file (Suc fuel) pos content =
     bind_io next_sys (\<lambda>r.
     case r of
       FErr e \<Rightarrow> seq_io (set_errno e) (ret_io False)
     | _ \<Rightarrow>
         let n = (case r of FShort n \<Rightarrow> min (max 1 n) IOBUFSZ | _ \<Rightarrow> IOBUFSZ); buf = take n (drop pos content) in
         if buf = [] then ret_io True
         else
           bind_io (on_conn (writen buf)) (\<lambda>nw.
           if nw \<noteq> int (length buf) then ret_io False
           else send_file fuel (pos + length buf) content))"

text \<open>Sending a job of \<open>sz\<close> bytes over the connection: headers, a backspace for text, the file.\<close>

definition send_job :: "string \<Rightarrow> job \<Rightarrow> nat \<Rightarrow> string \<Rightarrow> (spool, bool) io" where
  "send_job printer_name jp sz content =
     (case then_do (ipp_header printer_name jp) (\<lambda>ibuf.
             then_do (http_header printer_name (sz + length ibuf + (if is_text (req jp) then 1 else 0))) (\<lambda>hbuf.
             Inr (ibuf, hbuf))) of
        Inl e \<Rightarrow> fail_io e
      | Inr (ibuf, hbuf) \<Rightarrow>
        bind_io (on_conn (sys_write (hbuf @ ibuf))) (\<lambda>n.
        if n \<noteq> int (length hbuf + length ibuf) then ret_io False
        else
          bind_io (if is_text (req jp) then on_conn (sys_write [CHR 0x08]) else ret_io 1) (\<lambda>n.
          if n \<noteq> 1 then ret_io False
          else send_file (Suc (length content)) 0 content)))"

definition status_io :: "(nat \<Rightarrow> char) \<Rightarrow> 32 word \<Rightarrow> (spool, bool) io" where
  "status_io fresh jid s =
     (case printer_status fresh jid (conn s) of Inl e \<Rightarrow> Inl e | Inr (ok, c) \<Rightarrow> Inr (ok, s\<lparr>conn := c\<rparr>))"

fun is_err :: "sysres \<Rightarrow> bool" where
  "is_err (FErr e) = True"
| "is_err _ = False"

datatype fate = Canceled | Deferred_job | Printed_job

text \<open>The job is in hand: \<open>jp\<close> is its address, \<open>j\<close> its contents.\<close>

definition print_job :: "(nat \<Rightarrow> char) \<Rightarrow> chan option \<Rightarrow> addr option \<Rightarrow> job \<Rightarrow> (spool, fate) io" where
  "print_job fresh dial jp j =
     (let name = data_path (job_name (jobid j)) in
      bind_io next_sys (\<lambda>o_res.
      bind_io (gets_io (\<lambda>s. files s name)) (\<lambda>file.
      if is_err o_res \<or> file = None then seq_io (on_pd (free_node jp)) (ret_io Canceled)
      else
        bind_io next_sys (\<lambda>s_res.
        if is_err s_res then seq_io (on_pd (free_node jp)) (ret_io Canceled)
        else
          case dial of
            None \<Rightarrow> seq_io (on_pd (replace_job jp)) (ret_io Deferred_job)
          | Some c \<Rightarrow>
              seq_io (modify_io (\<lambda>s. s\<lparr>conn := c\<rparr>))
              (bind_io (gets_io (\<lambda>s. printer (pd s))) (\<lambda>pname.
               case pname of
                 None \<Rightarrow> fail_io (Undefined ''null printer'')
               | Some printer_name \<Rightarrow>
                   bind_io (send_job printer_name j (length (the file)) (the file)) (\<lambda>sent.
                   bind_io (if sent then status_io fresh (jobid j) else ret_io False) (\<lambda>success.
                   if success then
                     seq_io (unlink_io name)
                    (seq_io (unlink_io (req_path (job_name (jobid j))))
                    (seq_io (on_pd (free_node jp)) (ret_io Printed_job)))
                   else seq_io (on_pd (replace_job jp)) (ret_io Deferred_job)))))))))"

definition printer_step :: "(nat \<Rightarrow> char) \<Rightarrow> resolver \<Rightarrow> string option \<Rightarrow> chan option \<Rightarrow> (spool, job \<times> fate) io" where
  "printer_step fresh getaddrinfo conf dial =
     bind_io (on_pd pick_job) (\<lambda>jp.
     bind_io (on_pd (at_node jp n_val)) (\<lambda>j.
     seq_io (on_pd update_jobno)
    (seq_io (on_pd (check_config getaddrinfo conf))
    (bind_io (print_job fresh dial jp j) (\<lambda>f. ret_io (j, f))))))"


section \<open>What a round keeps\<close>

text \<open>
  The headers stay inside their arrays. Printer names are C strings.
\<close>

definition headers_fit :: "string \<Rightarrow> job \<Rightarrow> nat \<Rightarrow> bool" where
  "headers_fit printer_name jp sz \<longleftrightarrow> NUL \<notin> set printer_name \<and> ipp_fits printer_name jp \<and>
     length (http_bytes printer_name (sz + length (ipp_bytes printer_name jp) + (if is_text (req jp) then 1 else 0))) \<le> HBUFSZ"

lemma headers_built:
  assumes "headers_fit printer_name jp sz"
  shows "then_do (ipp_header printer_name jp) (\<lambda>ibuf.
      then_do (http_header printer_name (sz + length ibuf + (if is_text (req jp) then 1 else 0))) (\<lambda>hbuf. Inr (ibuf, hbuf))) =
    Inr (ipp_bytes printer_name jp, http_bytes printer_name (sz + length (ipp_bytes printer_name jp) + (if is_text (req jp) then 1 else 0)))"
  using assms ipp_header_eq [of printer_name jp] by (simp add: headers_fit_def http_header_def fits_array_def)

lemma pq_rep_more [simp]:
  "pq_rep (p\<lparr>jobfd := f\<rparr>) q h = pq_rep p q h"
  "pq_rep (p\<lparr>pd_faults := l\<rparr>) q h = pq_rep p q h"
  "pq_rep (p\<lparr>configlock := b\<rparr>) q h = pq_rep p q h"
  "pq_rep (p\<lparr>reread := b\<rparr>) q h = pq_rep p q h"
  "pq_rep (p\<lparr>printer := pr\<rparr>) q h = pq_rep p q h"
proof -
  show "pq_rep (p\<lparr>jobfd := f\<rparr>) q h = pq_rep p q h" by (rule pq_rep_cong) (cases p; simp)+
  show "pq_rep (p\<lparr>pd_faults := l\<rparr>) q h = pq_rep p q h" by (rule pq_rep_cong) (cases p; simp)+
  show "pq_rep (p\<lparr>configlock := b\<rparr>) q h = pq_rep p q h" by (rule pq_rep_cong) (cases p; simp)+
  show "pq_rep (p\<lparr>reread := b\<rparr>) q h = pq_rep p q h" by (rule pq_rep_cong) (cases p; simp)+
  show "pq_rep (p\<lparr>printer := pr\<rparr>) q h = pq_rep p q h" by (rule pq_rep_cong) (cases p; simp)+
qed

lemma update_jobno_keeps: "update_jobno p = Inr (x, p') \<Longrightarrow> pq_rep p' q h = pq_rep p q h"
  by (auto simp: update_jobno_def io_simps pd_fault_def split: list.splits if_splits)

lemma check_config_keeps: "check_config getaddrinfo conf p = Inr (x, p') \<Longrightarrow> pq_rep p' q h = pq_rep p q h"
  by (auto simp: check_config_def init_printer_def io_simps split: sum.splits option.splits list.splits if_splits)

text \<open>Calls that only use the connection and the schedule of the file system.\<close>

definition io_only :: "(spool, 'a) io \<Rightarrow> bool" where
  "io_only m \<longleftrightarrow> (\<forall>s x s'. m s = Inr (x, s') \<longrightarrow> pd s' = pd s \<and> files s' = files s \<and> unlq s' = unlq s)"

lemma io_onlyD: "io_only m \<Longrightarrow> m s = Inr (x, s') \<Longrightarrow> pd s' = pd s \<and> files s' = files s \<and> unlq s' = unlq s"
  by (auto simp: io_only_def)

lemma io_only_bind [intro]: "io_only m \<Longrightarrow> (\<And>x. io_only (k x)) \<Longrightarrow> io_only (bind_io m k)"
  unfolding io_only_def by (fastforce simp: bind_io_def split: sum.splits)

lemma io_only_basic [intro!]:
  "io_only (ret_io x)" "io_only (fail_io e)" "io_only next_sys" "io_only (on_conn f)" "io_only (set_errno n)"
  by (auto simp: io_only_def io_simps next_sys_def on_conn_def set_errno_def split: list.splits prod.splits)

lemma io_only_seq [intro]: "io_only m \<Longrightarrow> io_only k \<Longrightarrow> io_only (seq_io m k)"
  unfolding seq_io_def by blast

lemma io_only_if: "io_only a \<Longrightarrow> io_only b \<Longrightarrow> io_only (if c then a else b)"
  by simp

lemmas io_only_rules = io_only_bind io_only_seq io_only_basic io_only_if

lemma io_only_send_file: "io_only (send_file fuel pos content)"
proof (induction fuel arbitrary: pos)
  case (Suc fuel)
  show ?case
    unfolding send_file.simps Let_def
    by (intro io_only_rules) (simp split: sysres.split, intro conjI allI impI io_only_rules Suc.IH)
qed auto

lemma io_only_send_job: "io_only (send_job nm j sz content)"
  unfolding send_job_def
  by (auto split: sum.split intro!: io_only_bind io_only_if io_only_basic io_only_send_file)

lemma io_only_status: "io_only (status_io fresh jid)"
  by (auto simp: io_only_def status_io_def split: sum.splits)

text \<open>
  The request that carries a job, as the printer is to receive it: the body is the IPP header, a
  backspace for plain text, and the file.
\<close>

definition job_body :: "string \<Rightarrow> job \<Rightarrow> string \<Rightarrow> string" where
  "job_body nm j content = ipp_bytes nm j @ (if is_text (req j) then [CHR 0x08] else []) @ content"

definition job_request :: "string \<Rightarrow> job \<Rightarrow> string \<Rightarrow> string" where
  "job_request nm j content = http_bytes nm (length (job_body nm j content)) @ job_body nm j content"

text \<open>
  Why a job meets its fate: it is canceled exactly when its data file cannot be opened or examined
  (the first two calls on the spool directory), printed only when the printer has received the
  whole request and its answer was judged a success, deferred when there is no connection, the
  transfer broke off or the answer was no success. The transfer is the one over this connection
  with the answers of the system that remain after the first two.
\<close>

definition sys_at :: "nat \<Rightarrow> spool \<Rightarrow> sysres" where
  "sys_at n s = (if n < length (sysq s) then sysq s ! n else FOk)"

definition unreadable :: "job \<Rightarrow> spool \<Rightarrow> bool" where
  "unreadable j s \<longleftrightarrow> files s (data_path (job_name (jobid j))) = None \<or> is_err (sys_at 0 s) \<or> is_err (sys_at 1 s)"

definition judged :: "(nat \<Rightarrow> char) \<Rightarrow> chan option \<Rightarrow> job \<Rightarrow> spool \<Rightarrow> bool \<Rightarrow> bool" where
  "judged fresh dial j s success \<longleftrightarrow>
     (\<exists>c c1 c2 nm. dial = Some c \<and> c_in c1 = c_in c \<and>
        c_out c1 = c_out c @ job_request nm j (the (files s (data_path (job_name (jobid j))))) \<and>
        printer_status fresh (jobid j) c1 = Inr (success, c2))"

definition broke_off :: "chan option \<Rightarrow> job \<Rightarrow> spool \<Rightarrow> bool" where
  "broke_off dial j s \<longleftrightarrow>
     (\<exists>nm s1 s2. dial = Some (conn s1) \<and> sysq s1 = drop 2 (sysq s) \<and> files s1 = files s \<and>
        send_job nm j (length (the (files s (data_path (job_name (jobid j)))))) (the (files s (data_path (job_name (jobid j))))) s1 =
          Inr (False, s2))"

definition fate_cause :: "(nat \<Rightarrow> char) \<Rightarrow> chan option \<Rightarrow> fate \<Rightarrow> job \<Rightarrow> spool \<Rightarrow> bool" where
  "fate_cause fresh dial f j s \<longleftrightarrow>
     (case f of
        Canceled \<Rightarrow> unreadable j s
      | Deferred_job \<Rightarrow> \<not> unreadable j s \<and> (dial = None \<or> broke_off dial j s \<or> judged fresh dial j s False)
      | Printed_job \<Rightarrow> \<not> unreadable j s \<and> judged fresh dial j s True)"

text \<open>The fate of a job in hand decides what becomes of it in the queue and in the spool directory.\<close>

definition fate_ok :: "fate \<Rightarrow> job \<Rightarrow> job list \<Rightarrow> spool \<Rightarrow> spool \<Rightarrow> bool" where
  "fate_ok f j q s s' \<longleftrightarrow>
     (let data = data_path (job_name (jobid j)); ctl = req_path (job_name (jobid j)) in
      case f of
        Canceled \<Rightarrow> pq_rep (pd s') q None \<and> files s' = files s
      | Deferred_job \<Rightarrow> pq_rep (pd s') (j # q) None \<and> files s' = files s
      | Printed_job \<Rightarrow> pq_rep (pd s') q None \<and> (\<forall>p. p \<noteq> data \<and> p \<noteq> ctl \<longrightarrow> files s' p = files s p) \<and>
          (True \<notin> set (unlq s) \<longrightarrow> files s' = (files s)(data := None, ctl := None)))"


lemma on_pd_free:
  assumes "pq_rep (pd s) q (Some (a, j))"
  shows "\<exists>p. on_pd (free_node (Some a)) s = Inr ((), s\<lparr>pd := p\<rparr>) \<and> pq_rep p q None"
  using free_job_rep [OF assms] by (auto simp: on_pd_def)

lemma on_pd_replace:
  assumes "pq_rep (pd s) q (Some (a, j))"
  shows "\<exists>p. on_pd (replace_job (Some a)) s = Inr ((), s\<lparr>pd := p\<rparr>) \<and> pq_rep p (j # q) None"
  using replace_job_rep [OF assms] by (auto simp: on_pd_def)

text \<open>The end of \<open>print_job\<close>, once the transfer has returned.\<close>

lemma print_job_end:
  assumes "pq_rep (pd s1) q (Some (a, j))" "files s1 = files s" "unlq s1 = unlq s"
  shows "\<exists>s'. (if success then
       seq_io (unlink_io (data_path (job_name (jobid j))))
        (seq_io (unlink_io (req_path (job_name (jobid j))))
        (seq_io (on_pd (free_node (Some a))) (ret_io Printed_job)))
     else seq_io (on_pd (replace_job (Some a))) (ret_io Deferred_job)) s1 =
     Inr (if success then Printed_job else Deferred_job, s') \<and>
     fate_ok (if success then Printed_job else Deferred_job) j q s s' \<and> conn s' = conn s1"
proof (cases success)
  case True
  let ?d = "data_path (job_name (jobid j))" let ?c = "req_path (job_name (jobid j))"
  obtain us f where un: "unlink_io ?d s1 = Inr ((), s1\<lparr>unlq := us, files := f\<rparr>)"
    "\<forall>p. p \<noteq> ?d \<longrightarrow> f p = files s1 p" "True \<notin> set (unlq s1) \<longrightarrow> f = (files s1)(?d := None) \<and> True \<notin> set us"
    using unlink_run [of ?d s1] by blast
  let ?s2 = "s1\<lparr>unlq := us, files := f\<rparr>"
  obtain us2 f2 where un2: "unlink_io ?c ?s2 = Inr ((), ?s2\<lparr>unlq := us2, files := f2\<rparr>)"
    "\<forall>p. p \<noteq> ?c \<longrightarrow> f2 p = files ?s2 p" "True \<notin> set (unlq ?s2) \<longrightarrow> f2 = (files ?s2)(?c := None) \<and> True \<notin> set us2"
    using unlink_run [of ?c ?s2] by blast
  let ?s3 = "?s2\<lparr>unlq := us2, files := f2\<rparr>"
  obtain p where "on_pd (free_node (Some a)) ?s3 = Inr ((), ?s3\<lparr>pd := p\<rparr>)" "pq_rep p q None"
    using on_pd_free [of ?s3 q a j] assms(1) by auto
  with True assms(2,3) un un2 show ?thesis
    by (simp add: io_simps fate_ok_def Let_def del: fun_upd_apply)
next
  case False
  with on_pd_replace [OF assms(1)] assms(2) show ?thesis by (auto simp: io_simps fate_ok_def)
qed

text \<open>A transfer that succeeds has sent the whole request.\<close>

lemma sys_write_in: "sys_write bs c = (n, c') \<Longrightarrow> c_in c' = c_in c"
  by (auto simp: sys_write_def split: list.splits wr_event.splits)

lemma write_loop_in: "write_loop n bs c = (r, c') \<Longrightarrow> c_in c' = c_in c"
proof (induction n bs c rule: write_loop.induct)
  case (1 n bs c)
  obtain nw c1 where w: "sys_write bs c = (nw, c1)" by fastforce
  with sys_write_in [OF w] "1.prems" "1.IH" show ?case
    by (cases "bs = []") (auto simp: write_loop.simps [of n bs c] write_loop.simps [of n "[]" c] split: if_splits)
qed

lemma writen_whole:
  assumes "writen bs c = (int (length bs), c')"
  shows "c_out c' = c_out c @ bs \<and> c_in c' = c_in c"
  using write_loop_counts [of bs "length bs" c "int (length bs)" c'] write_loop_in assms by (fastforce simp: writen_def)

lemma sys_write_whole: "sys_write bs c = (int (length bs), c') \<Longrightarrow> c_out c' = c_out c @ bs \<and> c_in c' = c_in c"
  using sys_write_appends [of bs c "int (length bs)" c'] sys_write_in by auto

lemma send_file_sent:
  assumes "send_file fuel pos content s = Inr (True, s')"
  shows "c_out (conn s') = c_out (conn s) @ drop pos content \<and> c_in (conn s') = c_in (conn s)"
  using assms
proof (induction fuel arbitrary: pos s)
  case 0
  then show ?case by (simp add: io_simps)
next
  case (Suc fuel)
  obtain r s1 where r: "next_sys s = Inr (r, s1)" "conn s1 = conn s" by (cases "sysq s") (auto simp: next_sys_def)
  have ok: "\<not> is_err r" using Suc.prems r by (cases r) (auto simp: io_simps set_errno_def)
  define n where "n = (case r of FShort n \<Rightarrow> min (max 1 n) IOBUFSZ | _ \<Rightarrow> IOBUFSZ)"
  have n: "0 < n" by (cases r) (auto simp: n_def)
  let ?buf = "take n (drop pos content)"
  show ?case
  proof (cases "?buf = []")
    case True
    with n have "drop pos content = []" by simp
    with True Suc.prems r ok n show ?thesis by (cases r) (auto simp: io_simps n_def Let_def)
  next
    case False
    obtain nw c where w: "writen ?buf (conn s) = (nw, c)" by fastforce
    have step: "send_file (Suc fuel) pos content s =
        (if nw \<noteq> int (length ?buf) then Inr (False, s1\<lparr>conn := c\<rparr>)
         else send_file fuel (pos + length ?buf) content (s1\<lparr>conn := c\<rparr>))"
      using r ok False w n by (cases r) (simp_all add: io_simps n_def Let_def on_conn_def, simp add: min_def)
    with Suc.prems have nw: "nw = int (length ?buf)"
      and rest: "send_file fuel (pos + length ?buf) content (s1\<lparr>conn := c\<rparr>) = Inr (True, s')" by (auto split: if_splits)
    have wh: "c_out c = c_out (conn s) @ ?buf \<and> c_in c = c_in (conn s)" using writen_whole [of ?buf "conn s" c] w nw by simp
    have "?buf @ drop (pos + length ?buf) content = drop pos content"
      by (metis append_take_drop_id drop_drop add.commute append_eq_conv_conj)
    with Suc.IH [OF rest] wh show ?thesis by simp
  qed
qed

lemma cstr_cstr [simp]: "cstr (cstr x) = cstr x"
  by (rule cstr_no_nul) simp

lemma send_job_sent:
  assumes "send_job nm j (length content) content s = Inr (True, s')"
  shows "c_out (conn s') = c_out (conn s) @ job_request (cstr nm) j content \<and> c_in (conn s') = c_in (conn s)"
proof -
  let ?x = "if is_text (req j) then [CHR 0x08] else []"
  have same: "ipp_header nm j = ipp_header (cstr nm) j" "http_bytes nm = http_bytes (cstr nm)"
    by (simp_all add: ipp_header_def http_bytes_def fun_eq_iff)
  obtain ibuf where i: "ipp_header (cstr nm) j = Inr ibuf"
    using assms same by (cases "ipp_header (cstr nm) j") (auto simp: send_job_def io_simps)
  then have ib: "ibuf = ipp_bytes (cstr nm) j" using ipp_header_eq [of "cstr nm" j] by (auto split: if_splits)
  define hbuf where "hbuf = http_bytes (cstr nm) (length content + length ibuf + (if is_text (req j) then 1 else 0))"
  have fit: "length hbuf \<le> HBUFSZ"
    using assms i same by (auto simp: send_job_def io_simps http_header_def fits_array_def hbuf_def split: if_splits)
  have hb: "hbuf = http_bytes (cstr nm) (length (job_body (cstr nm) j content))"
    by (simp add: hbuf_def job_body_def ib add.commute add.left_commute)
  obtain n c1 where w: "sys_write (hbuf @ ibuf) (conn s) = (n, c1)" by fastforce
  obtain n2 c2 where w2: "(if is_text (req j) then sys_write [CHR 0x08] c1 else (1, c1)) = (n2, c2)" by fastforce
  have ex: "bind_io (if is_text (req j) then on_conn (sys_write [CHR 0x08]) else ret_io 1) k (s\<lparr>conn := c1\<rparr>) = k n2 (s\<lparr>conn := c2\<rparr>)" for k :: "int \<Rightarrow> (spool, bool) io"
    using w2 by (auto simp: io_simps on_conn_def)
  have run: "send_job nm j (length content) content s =
      (if n \<noteq> int (length hbuf + length ibuf) then Inr (False, s\<lparr>conn := c1\<rparr>)
       else if n2 \<noteq> 1 then Inr (False, s\<lparr>conn := c2\<rparr>)
       else send_file (Suc (length content)) 0 content (s\<lparr>conn := c2\<rparr>))"
    using w i same fit ex unfolding send_job_def http_header_def fits_array_def hbuf_def
    by (simp add: bind_io_apply [of "on_conn _"] on_conn_def ret_io_apply del: send_file.simps cong: if_cong)
  with assms have n: "n = int (length (hbuf @ ibuf))" "n2 = 1"
    and rest: "send_file (Suc (length content)) 0 content (s\<lparr>conn := c2\<rparr>) = Inr (True, s')" by (auto split: if_splits)
  have "c_out c1 = c_out (conn s) @ hbuf @ ibuf \<and> c_in c1 = c_in (conn s)" using sys_write_whole [of "hbuf @ ibuf" "conn s" c1] w n(1) by simp
  moreover have "c_out c2 = c_out c1 @ ?x \<and> c_in c2 = c_in c1"
    using w2 n(2) sys_write_whole [of "[CHR 0x08]" c1 c2] by (auto split: if_splits)
  ultimately show ?thesis using send_file_sent [OF rest] unfolding job_request_def hb [symmetric] by (simp add: job_body_def ib)
qed

lemma next_sys_at:
  obtains s1 where "next_sys s = Inr (sys_at 0 s, s1)" "sys_at 0 s1 = sys_at 1 s" "pd s1 = pd s" "files s1 = files s" "unlq s1 = unlq s"
    "sysq s1 = drop 1 (sysq s)"
proof (cases "sysq s")
  case Nil
  then show thesis by (intro that [of s]) (simp_all add: next_sys_def sys_at_def)
next
  case (Cons x rs)
  then show thesis by (intro that [of "s\<lparr>sysq := rs\<rparr>"]) (simp_all add: next_sys_def sys_at_def)
qed

lemma fate_cause_pd: "fate_cause fresh dial f j (s\<lparr>pd := p\<rparr>) = fate_cause fresh dial f j s"
  by (cases f) (simp_all add: fate_cause_def unreadable_def judged_def broke_off_def sys_at_def)

lemma print_job_fate:
  assumes rep: "pq_rep (pd s) q (Some (a, j))" and run: "print_job fresh dial (Some a) j s = Inr (f, s')"
  shows "fate_ok f j q s s' \<and> fate_cause fresh dial f j s"
proof -
  let ?name = "data_path (job_name (jobid j))"
  obtain s1 where 1: "next_sys s = Inr (sys_at 0 s, s1)" "sys_at 0 s1 = sys_at 1 s" "pd s1 = pd s" "files s1 = files s" "unlq s1 = unlq s"
    "sysq s1 = drop 1 (sysq s)" by (rule next_sys_at)
  obtain s2 where 2: "next_sys s1 = Inr (sys_at 1 s, s2)" "pd s2 = pd s" "files s2 = files s" "unlq s2 = unlq s" "sysq s2 = drop 2 (sysq s)"
    using next_sys_at [of s1] 1 by (metis drop_drop one_add_one)
  have rep1: "pq_rep (pd s1) q (Some (a, j))" and rep2: "pq_rep (pd s2) q (Some (a, j))" using rep 1 2 by simp_all
  show ?thesis
  proof (cases "unreadable j s")
    case True
    with run 1 2 on_pd_free [OF rep1] on_pd_free [OF rep2] show ?thesis
      by (auto simp: print_job_def Let_def io_simps fate_ok_def fate_cause_def unreadable_def split: if_splits)
  next
    case ok: False
    then have ok1: "\<not> is_err (sys_at 0 s)" "files s ?name \<noteq> None" "\<not> is_err (sys_at 1 s)" by (auto simp: unreadable_def)
    show ?thesis
    proof (cases dial)
      case None
      with run 1 2 ok ok1 on_pd_replace [OF rep2] show ?thesis
        by (auto simp: print_job_def Let_def io_simps fate_ok_def fate_cause_def)
    next
      case (Some c)
      let ?s3 = "s2\<lparr>conn := c\<rparr>" let ?content = "the (files s ?name)"
      obtain nm where nm: "printer (pd s) = Some nm"
        using run 1 2 ok1 Some by (cases "printer (pd s)") (auto simp: print_job_def Let_def io_simps)
      obtain sent s4 where s4: "send_job nm j (length ?content) ?content ?s3 = Inr (sent, s4)"
        using run 1 2 ok1 Some nm by (auto simp: print_job_def Let_def io_simps split: sum.splits)
      obtain success s5 where s5: "(if sent then status_io fresh (jobid j) else ret_io False) s4 = Inr (success, s5)"
        using run 1 2 ok1 Some nm s4 by (auto simp: print_job_def Let_def io_simps split: sum.splits if_splits)
      have k4: "pd s4 = pd s" "files s4 = files s" "unlq s4 = unlq s" using io_onlyD [OF io_only_send_job s4] 2 by simp_all
      have "io_only (if sent then status_io fresh (jobid j) else ret_io False)" using io_only_status by auto
      from io_onlyD [OF this s5] k4 have k5: "pd s5 = pd s" "files s5 = files s" "unlq s5 = unlq s" by simp_all
      have "pq_rep (pd s5) q (Some (a, j))" using rep k5 by simp
      from print_job_end [OF this k5(2,3), of success] run 1 2 ok1 Some nm s4 s5
      have f: "f = (if success then Printed_job else Deferred_job)" "fate_ok f j q s s'"
        by (auto simp: print_job_def Let_def io_simps)
      have "fate_cause fresh dial f j s"
      proof (cases sent)
        case False
        then have "broke_off dial j s" using s4 Some 2(3,5) unfolding broke_off_def by (intro exI [of _ nm] exI [of _ ?s3] exI [of _ s4]) simp
        with False s5 f(1) ok show ?thesis by (auto simp: fate_cause_def io_simps)
      next
        case True
        then have "c_out (conn s4) = c_out c @ job_request (cstr nm) j ?content \<and> c_in (conn s4) = c_in c"
          using send_job_sent [of nm j ?content ?s3 s4] s4 by simp
        moreover obtain c2 where "printer_status fresh (jobid j) (conn s4) = Inr (success, c2)"
          using True s5 by (auto simp: status_io_def split: sum.splits)
        ultimately have "judged fresh dial j s success" using Some unfolding judged_def by blast
        with f(1) ok show ?thesis by (cases success) (auto simp: fate_cause_def)
      qed
      with f(2) show ?thesis by blast
    qed
  qed
qed

text \<open>C13: no job is lost, and what becomes of a job has its reason. Whatever the printer answers and
  whichever calls fail, a round of the printer thread that returns has taken the first job of
  the queue and left the others in their order. It has dropped this job, files untouched, exactly when the job's data file could
  not be opened or examined. It has removed it from the queue together with both its files
  (as far as the two \<open>unlink\<close> calls succeed) only after the printer received the complete
  request for this job, header and file, and \<open>printer_status\<close> judged what it answered a
  success. Otherwise, that is without a connection, when the transfer broke off, or when the
  answer was not a success, the job is back at the front of the queue and its files are
  untouched.\<close>

theorem printer_step_job_safe:
  assumes "pq_rep (pd s) (j # q) None" "printer_step fresh getaddrinfo conf dial s = Inr ((j', f), s')"
  shows "j' = j \<and> fate_ok f j q s s' \<and> fate_cause fresh dial f j s"
proof -
  obtain a p1 where p1: "pick_job (pd s) = Inr (Some a, p1)" "pq_rep p1 q (Some (a, j))"
    using pick_job_rep [OF assms(1)] by blast
  have look: "at_node (Some a) n_val p1 = Inr (j, p1)" using p1(2) by (auto simp: pq_rep_def)
  obtain p2 where p2: "update_jobno p1 = Inr ((), p2)"
    using assms(2) p1(1) look by (auto simp: printer_step_def io_simps on_pd_def split: sum.splits)
  obtain p3 where p3: "check_config getaddrinfo conf p2 = Inr ((), p3)"
    using assms(2) p1(1) look p2 by (auto simp: printer_step_def io_simps on_pd_def split: sum.splits)
  have rep3: "pq_rep (pd (s\<lparr>pd := p3\<rparr>)) q (Some (a, j))"
    using p1(2) update_jobno_keeps [OF p2] check_config_keeps [OF p3] by simp
  have run: "print_job fresh dial (Some a) j (s\<lparr>pd := p3\<rparr>) = Inr (f, s')" and j: "j' = j"
    using assms(2) p1(1) look p2 p3 by (auto simp: printer_step_def io_simps on_pd_def split: sum.splits)
  have "fate_ok f j q s s'" using print_job_fate [OF rep3 run] by (cases f) (auto simp: fate_ok_def Let_def)
  moreover have "fate_cause fresh dial f j s"
    using print_job_fate [OF rep3 run] by (simp add: fate_cause_pd)
  ultimately show ?thesis using j by simp
qed


section \<open>What is sent\<close>

lemma send_file_all:
  assumes "calm s" "steady (conn s)" "pos \<le> length content" "length content < pos + fuel"
  shows "\<exists>s'. send_file fuel pos content s = Inr (True, s') \<and> c_out (conn s') = c_out (conn s) @ drop pos content \<and>
     c_in (conn s') = c_in (conn s) \<and> pd s' = pd s \<and> files s' = files s"
  using assms
proof (induction fuel arbitrary: pos s)
  case (Suc fuel)
  obtain q where q: "next_sys s = Inr (FOk, s\<lparr>sysq := q\<rparr>)" "calm (s\<lparr>sysq := q\<rparr>)" using next_sys_calm [OF Suc.prems(1)] by blast
  let ?buf = "take IOBUFSZ (drop pos content)"
  show ?case
  proof (cases "?buf = []")
    case True
    with q show ?thesis by (simp add: io_simps)
  next
    case False
    obtain c where c: "writen ?buf (conn s) = (int (length ?buf), c)" "c_out c = c_out (conn s) @ ?buf" "steady c" "c_in c = c_in (conn s)"
      using write_loop_all [OF Suc.prems(2), of ?buf "length ?buf"] by (auto simp: writen_def)
    let ?s1 = "s\<lparr>sysq := q, conn := c\<rparr>"
    have len: "0 < length ?buf" using False by simp
    then have "length content < pos + length ?buf + fuel" using Suc.prems(4) by linarith
    moreover have "pos + length ?buf \<le> length content" using Suc.prems(3) by simp
    moreover have "calm ?s1" "steady (conn ?s1)" using q(2) c(3) by (simp_all add: calm_def)
    ultimately obtain s' where s': "send_file fuel (pos + length ?buf) content ?s1 = Inr (True, s')"
      "c_out (conn s') = c_out c @ drop (pos + length ?buf) content" "c_in (conn s') = c_in (conn s)" "pd s' = pd s" "files s' = files s"
      using Suc.IH [where s = ?s1 and pos = "pos + length ?buf"] c(4) by auto
    have "?buf @ drop (pos + length ?buf) content = drop pos content"
      using append_take_drop_id [of IOBUFSZ "drop pos content"] by (auto simp: min_def add.commute)
    moreover have "send_file (Suc fuel) pos content s = send_file fuel (pos + length ?buf) content ?s1"
      using q(1) c(1) False by (simp add: io_simps on_conn_def Let_def)
    ultimately show ?thesis using s' c(2) by auto
  qed
qed simp

lemma send_job_all:
  assumes "calm s" "c_wr (conn s) = []" "headers_fit nm j (length content)"
  shows "\<exists>s'. send_job nm j (length content) content s = Inr (True, s') \<and>
     c_out (conn s') = c_out (conn s) @ job_request nm j content \<and>
     c_in (conn s') = c_in (conn s) \<and> pd s' = pd s \<and> files s' = files s"
proof -
  let ?i = "ipp_bytes nm j" let ?x = "if is_text (req j) then [CHR 0x08] else []"
  let ?h = "http_bytes nm (length content + length ?i + length ?x)"
  let ?s1 = "s\<lparr>conn := (conn s)\<lparr>c_out := c_out (conn s) @ ?h @ ?i @ ?x\<rparr>\<rparr>"
  have hl: "http_bytes nm (length (job_body nm j content)) = ?h"
    by (auto simp: job_body_def add.commute add.left_commute)
  have "steady (conn ?s1)" "calm ?s1" using assms by (simp_all add: steady_def)
  then obtain s' where s': "send_file (Suc (length content)) 0 content ?s1 = Inr (True, s')"
    "c_out (conn s') = c_out (conn ?s1) @ content" "c_in (conn s') = c_in (conn s)" "pd s' = pd s" "files s' = files s"
    using send_file_all [where s = ?s1 and content = content and pos = 0 and fuel = "Suc (length content)"] by auto
  have "send_job nm j (length content) content s = send_file (Suc (length content)) 0 content ?s1"
    using assms(2) headers_built [OF assms(3)]
    by (simp add: send_job_def io_simps on_conn_def sys_write_def del: send_file.simps)
  with s' show ?thesis unfolding job_request_def hl by (auto simp: job_body_def)
qed

lemma pick_job_frame:
  assumes "pick_job p = Inr (x, p')"
  shows "printer p' = printer p \<and> reread p' = reread p \<and> configlock p' = configlock p \<and> pd_faults p' = pd_faults p"
  using assms
  by (auto simp: pick_job_def remove_job_def io_simps lock_joblock_def unlock_joblock_def at_node_def set_next_def set_prev_def
      set_node_def split: sum.splits option.splits if_splits)


text \<open>C14: a round with a working printer sends the job and acts on the answer. Assume that no call on
  the spool directory or the job file fails, the configuration is not to be read again, the
  connection takes all that is written, the headers fit their arrays, and the printer's
  answer, an HTTP answer with a status of the 200s, a \<open>Content-Length\<close>, a blank line and at
  least an IPP header, arrives in one read. Then the printer receives one HTTP request whose
  \<open>Content-Length\<close> is the length of the body it carries: the IPP header, a backspace for plain
  text, and the spooled file, byte for byte. The job is printed, that is taken off the queue
  and its files removed, exactly when the answer names the job and reports success; otherwise
  it goes back to the front of the queue with its files.\<close>

theorem printer_step_prints:
  assumes rep: "pq_rep (pd s) (j # q) None" and calm: "calm s" "pd_faults (pd s) = []"
    and conf: "\<not> reread (pd s)" "\<not> configlock (pd s)" "printer (pd s) = Some nm"
    and spooled_file: "files s (data_path (job_name (jobid j))) = Some content"
    and fit: "headers_fit nm j (length content)"
    and c: "c_wr c = []" "c_in c = [Data (answer_bytes a)]" and a: "answer_ok a"
  shows "\<exists>s'. printer_step fresh getaddrinfo conf (Some c) s =
       Inr ((j, if ipp_id (a_ipp a) = jobid j \<and> ipp_status (a_ipp a) \<le> 0x00ff then Printed_job else Deferred_job), s') \<and>
     fate_ok (if ipp_id (a_ipp a) = jobid j \<and> ipp_status (a_ipp a) \<le> 0x00ff then Printed_job else Deferred_job) j q s s' \<and>
     c_out (conn s') = c_out c @ job_request nm j content"
proof -
  let ?ok = "ipp_id (a_ipp a) = jobid j \<and> ipp_status (a_ipp a) \<le> 0x00ff"
  obtain x p1 where p1: "pick_job (pd s) = Inr (Some x, p1)" "pq_rep p1 q (Some (x, j))"
    using pick_job_rep [OF rep] by blast
  have look: "at_node (Some x) n_val p1 = Inr (j, p1)" using p1(2) by (auto simp: pq_rep_def)
  note fr = pick_job_frame [OF p1(1)]
  obtain p2 where p2: "update_jobno p1 = Inr ((), p2)" "printer p2 = Some nm" "\<not> reread p2" "\<not> configlock p2"
    using fr calm(2) conf by (simp add: update_jobno_def io_simps pd_fault_def)
  obtain p3 where p3: "check_config getaddrinfo conf p2 = Inr ((), p3)" "printer p3 = Some nm"
    using p2 by (simp add: check_config_def io_simps)
  let ?s0 = "s\<lparr>pd := p3\<rparr>"
  have rep3: "pq_rep p3 q (Some (x, j))" using p1(2) update_jobno_keeps [OF p2(1)] check_config_keeps [OF p3(1)] by simp
  obtain q1 where q1: "next_sys ?s0 = Inr (FOk, ?s0\<lparr>sysq := q1\<rparr>)" "calm (?s0\<lparr>sysq := q1\<rparr>)"
    using next_sys_calm [of ?s0] calm(1) by auto
  obtain q2 where q2: "next_sys (?s0\<lparr>sysq := q1\<rparr>) = Inr (FOk, ?s0\<lparr>sysq := q2\<rparr>)" "calm (?s0\<lparr>sysq := q2\<rparr>)"
    using next_sys_calm [OF q1(2)] by auto
  let ?s2 = "?s0\<lparr>sysq := q2, conn := c\<rparr>"
  have "calm ?s2" using q2(2) by (simp add: calm_def)
  then obtain s3 where s3: "send_job nm j (length content) content ?s2 = Inr (True, s3)"
    "c_out (conn s3) = c_out c @ job_request nm j content"
    "c_in (conn s3) = c_in c" "pd s3 = p3" "files s3 = files s" "unlq s3 = unlq s"
    using send_job_all [of ?s2 nm j content] c(1) fit io_onlyD [OF io_only_send_job] by fastforce
  let ?s4 = "s3\<lparr>conn := (conn s3)\<lparr>c_in := []\<rparr>\<rparr>"
  have s4: "status_io fresh (jobid j) s3 = Inr (?ok, ?s4)"
    using printer_status_answer [OF a, of "conn s3" "[]" fresh "jobid j"] s3(3) c(2) by (simp add: status_io_def)
  have "pq_rep (pd ?s4) q (Some (x, j))" "files ?s4 = files s" "unlq ?s4 = unlq s" using rep3 s3 by simp_all
  from print_job_end [OF this, of ?ok] obtain s' where s':
    "print_job fresh (Some c) (Some x) j ?s0 = Inr (if ?ok then Printed_job else Deferred_job, s')"
    "fate_ok (if ?ok then Printed_job else Deferred_job) j q s s'" "conn s' = conn ?s4"
    using q1(1) q2(1) p3(2) s3(1) s4 spooled_file by (auto simp: print_job_def Let_def io_simps)
  have "printer_step fresh getaddrinfo conf (Some c) s = Inr ((j, if ?ok then Printed_job else Deferred_job), s')"
    using p1(1) look p2(1) p3(1) s'(1) by (simp add: printer_step_def io_simps on_pd_def)
  with s' s3(2) show ?thesis by auto
qed


text \<open>A daemon with one job in the queue, and the printer's channel.\<close>

definition sample_job :: job where
  "sample_job = \<lparr>jobid = 17, req = sample_req\<lparr>r_flags := 1\<rparr>\<rparr>"

definition sample_printd :: printd where
  "sample_printd = printd_start\<lparr>dl_heap := [0 \<mapsto> \<lparr>n_next = None, n_prev = None, n_val = sample_job\<rparr>],
     dl_head := Some 0, dl_tail := Some 0, dl_brk := 1, printer := Some ''lp1''\<rparr>"

definition sample_line :: chan where
  "sample_line = \<lparr>c_in = [Data (answer_bytes sample_answer)], c_wr = [], c_out = [], c_errno = 0\<rparr>"

definition sample_ready :: spool where
  "sample_ready = \<lparr>pd = sample_printd, files = [data_path (job_name 17) \<mapsto> ''hello''], sysq = [], unlq = [], conn = sample_line\<rparr>"

lemma sample_printd_rep: "pq_rep sample_printd [sample_job] None"
  unfolding pq_rep_def
  by (rule exI [of _ "[0]"]) (simp add: sample_printd_def printd_start_def dl_ok_def dl_vals_def)

lemma cstr_pad: "NUL \<notin> set s \<Longrightarrow> 0 < n \<Longrightarrow> cstr (s @ replicate n NUL @ t) = s"
  by (cases n) auto

lemma sample_ipp_length: "length (ipp_bytes ''lp1'' sample_job) = 184"
proof -
  have "length (cstr (r_usernm sample_req @ r_jobnm sample_req)) = 3" "length (cstr (r_jobnm sample_req)) = 8"
    using cstr_pad [of "''sar''" 61 "''notes.ps'' @ replicate 248 NUL"] cstr_pad [of "''notes.ps''" 248 "[]"]
    by (simp_all add: sample_req_def)
  then show ?thesis
    by (simp add: length_ipp_bytes sample_job_def is_text_def)
qed

lemma sample_fit: "headers_fit ''lp1'' sample_job (length ''hello'')"
proof -
  have "length (dec 190) = 3" by code_simp
  moreover have "NUL \<in> set (r_jobnm (req sample_job))" "is_text (req sample_job)"
    by (simp_all add: sample_job_def sample_req_def is_text_def)
  ultimately show ?thesis using sample_ipp_length by (simp add: headers_fit_def ipp_fits_def http_bytes_def crlf_def)
qed

lemma sample_ready_ok:
  "pq_rep (pd sample_ready) [sample_job] None" "calm sample_ready" "pd_faults (pd sample_ready) = []"
  "\<not> reread (pd sample_ready)" "\<not> configlock (pd sample_ready)" "printer (pd sample_ready) = Some ''lp1''"
  "files sample_ready (data_path (job_name (jobid sample_job))) = Some ''hello''"
  "c_wr sample_line = []" "c_in sample_line = [Data (answer_bytes sample_answer)]"
  using sample_printd_rep
  by (simp_all add: sample_ready_def calm_def sample_printd_def printd_start_def sample_job_def sample_line_def)

theorem printer_step_prints_witness:
  "\<exists>s'. printer_step (\<lambda>i. CHR ''x'') (\<lambda>h sv. Inl 0) None (Some sample_line) sample_ready = Inr ((sample_job, Printed_job), s') \<and>
     c_out (conn s') = http_bytes ''lp1'' 190 @ ipp_bytes ''lp1'' sample_job @ [CHR 0x08] @ ''hello'' \<and> files s' = Map.empty"
proof -
  have ok: "ipp_id (a_ipp sample_answer) = jobid sample_job \<and> ipp_status (a_ipp sample_answer) \<le> 0x00ff"
    by (simp add: sample_answer_def ipp_id_def ipp_status_def sample_job_def)
  note len = sample_ipp_length
  have t: "is_text (req sample_job)" by (simp add: sample_job_def is_text_def)
  have out: "c_out sample_line = []" and un: "unlq sample_ready = []" and fl: "files sample_ready = [data_path (job_name (jobid sample_job)) \<mapsto> ''hello'']"
    by (simp_all add: sample_line_def sample_ready_def sample_job_def)
  show ?thesis
    using printer_step_prints [OF sample_ready_ok(1-7) sample_fit sample_ready_ok(8,9) sample_answer_ok,
        of "\<lambda>i. CHR ''x''" "\<lambda>h sv. Inl 0" None] ok len t out fl un
    by (auto simp: job_request_def job_body_def fate_ok_def Let_def fun_upd_def cong: if_cong)
qed

theorem printer_step_job_safe_witness:
  "\<exists>s'. printer_step (\<lambda>i. CHR ''x'') (\<lambda>h sv. Inl 0) None None sample_ready = Inr ((sample_job, Deferred_job), s') \<and>
     pq_rep (pd s') [sample_job] None"
proof -
  have "\<exists>s'. printer_step (\<lambda>i. CHR ''x'') (\<lambda>h sv. Inl 0) None None sample_ready = Inr ((sample_job, Deferred_job), s')"
    by (simp add: printer_step_def print_job_def io_simps on_pd_def pick_job_def remove_job_def lock_joblock_def unlock_joblock_def
        sample_ready_def sample_printd_def printd_start_def update_jobno_def pd_fault_def check_config_def next_sys_def
        sample_job_def replace_job_def Let_def)
  then obtain s' where s': "printer_step (\<lambda>i. CHR ''x'') (\<lambda>h sv. Inl 0) None None sample_ready = Inr ((sample_job, Deferred_job), s')" ..
  from printer_step_job_safe [OF sample_ready_ok(1) this] s' show ?thesis by (auto simp: fate_ok_def)
qed

end
