(* ===== verification/Print_Client.thy ===== *)
theory Print_Client
  imports Printd_Client Printd_Config
begin

text \<open>
  The command \<open>print\<close> (\<open>printer/print.c\<close>) and the socket helpers it uses, \<open>connect_retry\<close>
  (\<open>sockets/clconn2.c\<close>) and \<open>initserver\<close> (\<open>sockets/initsrv2.c\<close>), with their first versions
  (\<open>sockets/clconn.c\<close>, \<open>sockets/initsrv1.c\<close>). The last section puts the command and the daemon
  together.
\<close>

section \<open>Connecting\<close>

text \<open>What an attempt meets: no socket, a refused connection, or a connection.\<close>

datatype attempt = NoSocket int | Refused int | Connected chan

abbreviation MAXSLEEP :: nat where "MAXSLEEP \<equiv> 128"

text \<open>
  \<open>connect_retry\<close>: the attempts to come are given, the result is the connection (\<open>Inl\<close> the
  \<open>errno\<close> left behind) and the sleeps between the attempts.
\<close>

function retry_from :: "nat \<Rightarrow> attempt list \<Rightarrow> int \<Rightarrow> (int + chan) \<times> nat list" where
  "retry_from numsec as err =
     (if 0 < numsec \<and> numsec \<le> MAXSLEEP then
        (case (case as of [] \<Rightarrow> Refused 111 | a # _ \<Rightarrow> a) of
           NoSocket e \<Rightarrow> (Inl e, [])
         | Connected c \<Rightarrow> (Inr c, [])
         | Refused e \<Rightarrow>
             (case retry_from (2 * numsec) (tl as) e of
                (r, sl) \<Rightarrow> (r, if numsec \<le> MAXSLEEP div 2 then numsec # sl else sl)))
      else (Inl err, []))"
  by pat_completeness auto
termination
  by (relation "measure (\<lambda>(n, as, err). 129 - n)") auto

declare retry_from.simps [simp del]

definition connect_retry :: "attempt list \<Rightarrow> (int + chan) \<times> nat list" where
  "connect_retry as = retry_from 1 as 0"

text \<open>The first version tries again with the same socket; \<open>oks\<close> says which attempts succeed.\<close>

function retry1_from :: "nat \<Rightarrow> bool list \<Rightarrow> int \<times> nat list" where
  "retry1_from numsec oks =
     (if 0 < numsec \<and> numsec \<le> MAXSLEEP then
        if oks \<noteq> [] \<and> hd oks then (0, [])
        else
          (case retry1_from (2 * numsec) (tl oks) of
             (r, sl) \<Rightarrow> (r, if numsec \<le> MAXSLEEP div 2 then numsec # sl else sl))
      else (-1, []))"
  by pat_completeness auto
termination
  by (relation "measure (\<lambda>(n, oks). 129 - n)") auto

declare retry1_from.simps [simp del]

definition connect_retry1 :: "bool list \<Rightarrow> int \<times> nat list" where
  "connect_retry1 oks = retry1_from 1 oks"

text \<open>
  \<open>initserver\<close>: the calls \<open>socket\<close>, \<open>setsockopt\<close>, \<open>bind\<close> and \<open>listen\<close> answer 0 or an error; the
  result is the descriptor, or the \<open>errno\<close> of the failed call, the socket being closed again.
  \<open>stream\<close> says that the type is \<open>SOCK_STREAM\<close> or \<open>SOCK_SEQPACKET\<close>.
\<close>

record sockcalls =
  k_socket :: "int + int"
  k_setsockopt :: int
  k_bind :: int
  k_listen :: int

definition initserver :: "bool \<Rightarrow> sockcalls \<Rightarrow> (int + int) \<times> int list" where
  "initserver stream k =
     (case k_socket k of
        Inl e \<Rightarrow> (Inl e, [])
      | Inr fd \<Rightarrow>
          if k_setsockopt k \<noteq> 0 then (Inl (k_setsockopt k), [fd])
          else if k_bind k \<noteq> 0 then (Inl (k_bind k), [fd])
          else if stream \<and> k_listen k \<noteq> 0 then (Inl (k_listen k), [fd])
          else (Inr fd, []))"

text \<open>The first version does not set \<open>SO_REUSEADDR\<close>.\<close>

definition initserver1 :: "bool \<Rightarrow> sockcalls \<Rightarrow> (int + int) \<times> int list" where
  "initserver1 stream k =
     (case k_socket k of
        Inl e \<Rightarrow> (Inl e, [])
      | Inr fd \<Rightarrow>
          if k_bind k \<noteq> 0 then (Inl (k_bind k), [fd])
          else if stream \<and> k_listen k \<noteq> 0 then (Inl (k_listen k), [fd])
          else (Inr fd, []))"

section \<open>The command\<close>

abbreviation PRINTRESP_SZ :: nat where "PRINTRESP_SZ \<equiv> 520"

record pclient =
  pc_sock :: chan
  pc_rd :: "sysres list"    \<comment> \<open>how the coming reads of the file end\<close>
  pc_stdout :: string

definition on_sock :: "(chan \<Rightarrow> 'a \<times> chan) \<Rightarrow> (pclient, 'a) io" where
  "on_sock f s = (case f (pc_sock s) of (x, c) \<Rightarrow> Inr (x, s\<lparr>pc_sock := c\<rparr>))"

text \<open>The request: \<open>junk\<close> are the bytes of the uninitialised structure.\<close>

definition build_req :: "printreq \<Rightarrow> string option \<Rightarrow> string \<Rightarrow> nat \<Rightarrow> bool \<Rightarrow> printreq" where
  "build_req junk pwd fname nbytes text =
     \<lparr>r_size = htonl (of_nat nbytes),
      r_flags = (if text then htonl PR_TEXT else 0),
      r_usernm = (case pwd of
                    None \<Rightarrow> strcpy_into ''unknown'' (r_usernm junk)
                  | Some pw_name \<Rightarrow> strncpy (USERNM_MAX - 1) pw_name @ [NUL]),
      r_jobnm = (let len = length fname in
                 if JOBNM_MAX \<le> len
                 then strcpy_into (''... '' @ take (JOBNM_MAX - 5) (drop (len - JOBNM_MAX + 5) fname)) (r_jobnm junk)
                 else strcpy_into fname (r_jobnm junk))\<rparr>"

text \<open>
  The loop that sends the file. A failing read returns -1, which the loop takes for a length:
  \<open>writen\<close> is called with it.
\<close>

fun submit_loop :: "nat \<Rightarrow> nat \<Rightarrow> string \<Rightarrow> (pclient, unit) io" where
  "submit_loop 0 pos content = fail_io Diverges"
| "submit_loop (Suc fuel) pos content =
     bind_io (\<lambda>s. case pc_rd s of [] \<Rightarrow> Inr (FOk, s) | r # rs \<Rightarrow> Inr (r, s\<lparr>pc_rd := rs\<rparr>)) (\<lambda>r.
     case r of
       FErr e \<Rightarrow> fail_io (Undefined ''writen with length -1'')
     | _ \<Rightarrow>
         let n = (case r of FShort n \<Rightarrow> min n IOBUFSZ | _ \<Rightarrow> IOBUFSZ); buf = take n (drop pos content) in
         if buf = [] then ret_io ()
         else
           bind_io (on_sock (writen buf)) (\<lambda>nw.
           if nw \<noteq> int (length buf) then
             (if nw < 0 then fail_io (SysExit ''can't write to print server'')
              else fail_io (QuitExit ''short write to print server''))
           else submit_loop fuel (pos + length buf) content))"

definition submit_file :: "printreq \<Rightarrow> string option \<Rightarrow> string \<Rightarrow> string \<Rightarrow> nat \<Rightarrow> bool \<Rightarrow> (pclient, unit) io" where
  "submit_file junk pwd fname content nbytes text =
     bind_io (on_sock (writen (printreq_bytes (build_req junk pwd fname nbytes text)))) (\<lambda>nw.
     if nw \<noteq> int PRINTREQ_SZ then
       (if nw < 0 then fail_io (SysExit ''can't write to print server'')
        else fail_io (QuitExit ''short write to print server''))
     else
       seq_io (submit_loop (Suc (length content)) 0 content)
       (bind_io (on_sock (readn PRINTRESP_SZ)) (\<lambda>res.
        if map_option length res \<noteq> Some PRINTRESP_SZ then fail_io (SysExit ''can't read response from server'')
        else
          let retcode = of_le32 (take 4 (the res)); jid = of_le32 (take 4 (drop 4 (the res))); msg = drop 8 (the res) in
          if retcode \<noteq> 0 then
            seq_io (modify_io (\<lambda>s. s\<lparr>pc_stdout := pc_stdout s @ ''rejected: '' @ cstr msg @ [NEWLINE]\<rparr>)) (fail_io (Exit 1))
          else
            modify_io (\<lambda>s. s\<lparr>pc_stdout := pc_stdout s @ ''job ID '' @ dec (unat (ntohl jid)) @ [NEWLINE]\<rparr>))))"

text \<open>The options, as \<open>getopt\<close> of POSIX takes them: is there a \<open>-t\<close>, an unknown one, what is left.\<close>

fun print_opts :: "string list \<Rightarrow> bool \<times> bool \<times> string list" where
  "print_opts [] = (False, False, [])"
| "print_opts (a # as) =
     (if a = ''--'' then (False, False, as)
      else if 1 < length a \<and> hd a = CHR ''-'' then
        (case print_opts as of (t, e, r) \<Rightarrow> (CHR ''t'' \<in> set (tl a) \<or> t, (\<exists>c \<in> set (tl a). c \<noteq> CHR ''t'') \<or> e, r))
      else (False, False, a # as))"

text \<open>
  The file system as the command sees it: a regular file with its contents, or something else.
\<close>

datatype object = Regular string | Special

text \<open>Try the addresses one after the other; the attempts for each are given.\<close>

fun print_try :: "int \<Rightarrow> attempt list list \<Rightarrow> int + chan" where
  "print_try err [] = Inl err"
| "print_try err (as # rest) =
     (case fst (connect_retry as) of
        Inl e \<Rightarrow> print_try e rest
      | Inr c \<Rightarrow> Inr c)"

definition print_main ::
  "printreq \<Rightarrow> string option \<Rightarrow> string option \<Rightarrow> resolver \<Rightarrow> (nat \<Rightarrow> attempt list) \<Rightarrow> (string \<rightharpoonup> object) \<Rightarrow> string list
     \<Rightarrow> (pclient, unit) io" where
  "print_main junk pwd conf getaddrinfo dials fs args =
     (case print_opts args of
        (text, err, rest) \<Rightarrow>
          if err \<or> length rest \<noteq> 1 then fail_io (QuitExit ''usage: print [-t] filename'')
          else
            case fs (hd rest) of
              None \<Rightarrow> fail_io (SysExit ''print: can't open'')
            | Some Special \<Rightarrow> fail_io (QuitExit ''print: must be a regular file'')
            | Some (Regular content) \<Rightarrow>
                (case get_printserver conf of
                   Inl e \<Rightarrow> fail_io e
                 | Inr None \<Rightarrow> fail_io (QuitExit ''print: no print server defined'')
                 | Inr (Some host) \<Rightarrow>
                     (case getaddrlist getaddrinfo host ''print'' of
                        Inl e \<Rightarrow> fail_io (QuitExit ''print: getaddrinfo error'')
                      | Inr ailist \<Rightarrow>
                          (case print_try 0 (map dials [0..<length ailist]) of
                             Inl e \<Rightarrow> fail_io (SysExit ''print: can't contact'')
                           | Inr c \<Rightarrow>
                               seq_io (modify_io (\<lambda>s. s\<lparr>pc_sock := c\<rparr>))
                              (seq_io (submit_file junk pwd (hd rest) content (length content) text)
                               (fail_io (Exit 0)))))))"


section \<open>Properties of the socket helpers\<close>

lemma retry_from_step:
  "0 < n \<Longrightarrow> n \<le> MAXSLEEP \<Longrightarrow> retry_from n (Refused e # as) err =
     (case retry_from (2 * n) as e of (r, sl) \<Rightarrow> (r, if n \<le> 64 then n # sl else sl))"
  by (subst retry_from.simps) simp

lemma retry_from_end:
  "0 < n \<Longrightarrow> n \<le> MAXSLEEP \<Longrightarrow> retry_from n (Connected c # as) err = (Inr c, [])"
  "0 < n \<Longrightarrow> n \<le> MAXSLEEP \<Longrightarrow> retry_from n (NoSocket e # as) err = (Inl e, [])"
  "MAXSLEEP < n \<Longrightarrow> retry_from n as err = (Inl err, [])"
  by (subst retry_from.simps, simp)+

text \<open>\<open>k\<close> refusals from a delay of \<open>2 ^ m\<close> on.\<close>

lemma retry_refused:
  assumes "m + length es \<le> 8"
  shows "retry_from (2 ^ m) (map Refused es @ as) err =
     (let e' = (if es = [] then err else last es) in
      case retry_from (2 ^ (m + length es)) as e' of
        (r, sl) \<Rightarrow> (r, map (\<lambda>i. 2 ^ i) (filter (\<lambda>i. i < 7) [m..<m + length es]) @ sl))"
  using assms
proof (induction es arbitrary: m err)
  case (Cons e es)
  have m: "m \<le> 7" using Cons.prems by simp
  have le: "(2::nat) ^ m \<le> 128" using power_increasing [OF m, of "2::nat"] by simp
  have lt: "(2::nat) ^ m \<le> 64 \<longleftrightarrow> m < 7"
    using power_increasing_iff [of "2::nat" m 6] by auto
  have IH: "retry_from (2 * 2 ^ m) (map Refused es @ as) e =
     (let e' = (if es = [] then e else last es) in
      case retry_from (2 ^ (Suc m + length es)) as e' of
        (r, sl) \<Rightarrow> (r, map (\<lambda>i. 2 ^ i) (filter (\<lambda>i. i < 7) [Suc m..<Suc m + length es]) @ sl))"
    using Cons.IH [of "Suc m" e] Cons.prems by simp
  have up: "[m..<Suc (m + length es)] = m # [Suc m..<Suc (m + length es)]" by (simp add: upt_conv_Cons del: upt_Suc)
  show ?case
    using retry_from_step [of "2 ^ m" e "map Refused es @ as" err] le lt IH
    by (simp add: Let_def up split: prod.splits del: upt_Suc)
qed simp

text \<open>\<open>connect_retry\<close> backs off exponentially and gives up. With \<open>k < 8\<close> refusals before the
  peer accepts, it returns the connection after sleeping 1, 2, 4, ... seconds, \<open>k\<close> times in
  all but never more than 64 seconds at once; after eight refusals it gives up with the
  \<open>errno\<close> of the last one, having slept 127 seconds in all.\<close>

theorem connect_retry_backoff:
  "(length es < 8 \<longrightarrow> connect_retry (map Refused es @ Connected c # as) = (Inr c, map (\<lambda>i. 2 ^ i) [0..<length es])) \<and>
   (length es = 8 \<longrightarrow> connect_retry (map Refused es @ as) = (Inl (last es), map (\<lambda>i. 2 ^ i) [0..<7]) \<and>
      sum_list (snd (connect_retry (map Refused es @ as))) = 127)"
proof (intro conjI impI)
  assume l: "length es < 8"
  have p: "(2::nat) ^ length es \<le> 128" using power_increasing [of "length es" 7 "2::nat"] l by simp
  have f: "filter (\<lambda>i. i < 7) [0..<length es] = [0..<length es]" using l by (simp add: filter_id_conv)
  show "connect_retry (map Refused es @ Connected c # as) = (Inr c, map (\<lambda>i. 2 ^ i) [0..<length es])"
    using retry_refused [of 0 es "Connected c # as" 0] l p f by (simp add: connect_retry_def retry_from_end Let_def)
next
  assume l: "length es = 8"
  have f: "filter (\<lambda>i. i < 7) [0..<8] = [0..<7]" by code_simp
  show c: "connect_retry (map Refused es @ as) = (Inl (last es), map (\<lambda>i. 2 ^ i) [0..<7])"
    using retry_refused [of 0 es as 0] l f by (auto simp: connect_retry_def retry_from_end Let_def simp del: upt_rec_numeral)
  show "sum_list (snd (connect_retry (map Refused es @ as))) = 127" unfolding c by (simp add: upt_rec)
qed

theorem connect_retry_backoff_witness:
  "connect_retry [Refused 111, Refused 111, Connected \<lparr>c_in = [], c_wr = [], c_out = [], c_errno = 0\<rparr>] =
     (Inr \<lparr>c_in = [], c_wr = [], c_out = [], c_errno = 0\<rparr>, [1, 2])"
  using connect_retry_backoff [of "[111, 111]" "\<lparr>c_in = [], c_wr = [], c_out = [], c_errno = 0\<rparr>" "[]"] by (simp add: upt_rec)

text \<open>The first versions: the same attempts and delays, and the same result where the option can be set.\<close>

lemma retry1_from_eq:
  "retry1_from n oks = (case retry_from n (map (\<lambda>ok. if ok then Connected c else Refused e) oks) err of
     (r, sl) \<Rightarrow> (if r = Inr c then 0 else -1, sl))"
proof (induction n oks arbitrary: err rule: retry1_from.induct)
  case (1 n oks)
  show ?case
  proof (cases "0 < n \<and> n \<le> MAXSLEEP \<and> \<not> (oks \<noteq> [] \<and> hd oks)")
    case True
    have "(case map (\<lambda>ok. if ok then Connected c else Refused e) oks of [] \<Rightarrow> Refused 111 | a # _ \<Rightarrow> a) = Refused (if oks = [] then 111 else e)"
      using True by (cases oks) auto
    with True 1 [of "if oks = [] then 111 else e"] show ?thesis
      by (subst retry1_from.simps, subst retry_from.simps) (auto simp: map_tl split: prod.splits)
  next
    case False
    then show ?thesis by (subst retry1_from.simps, subst retry_from.simps) (cases oks; auto)
  qed
qed

lemma connect_retry1_eq:
  "connect_retry1 oks = (case connect_retry (map (\<lambda>ok. if ok then Connected c else Refused e) oks) of (r, sl) \<Rightarrow> (if r = Inr c then 0 else -1, sl))"
  by (simp add: connect_retry1_def connect_retry_def retry1_from_eq [of _ _ c e 0])

lemma initserver1_eq: "k_setsockopt k = 0 \<Longrightarrow> initserver1 stream k = initserver stream k"
  by (simp add: initserver1_def initserver_def split: sum.splits)

section \<open>The command and the daemon together\<close>

lemma submit_loop_all:
  assumes "pc_rd s = []" "steady (pc_sock s)" "pos \<le> length content" "length content < pos + fuel"
  shows "\<exists>c. submit_loop fuel pos content s = Inr ((), s\<lparr>pc_sock := c\<rparr>) \<and>
     c_out c = c_out (pc_sock s) @ drop pos content \<and> c_in c = c_in (pc_sock s)"
  using assms
proof (induction fuel arbitrary: pos s)
  case (Suc fuel)
  let ?buf = "take IOBUFSZ (drop pos content)"
  show ?case
  proof (cases "?buf = []")
    case True
    with Suc.prems(1) show ?thesis by (intro exI [of _ "pc_sock s"]) (simp add: io_simps)
  next
    case False
    obtain c where c: "writen ?buf (pc_sock s) = (int (length ?buf), c)" "c_out c = c_out (pc_sock s) @ ?buf" "steady c"
      "c_in c = c_in (pc_sock s)"
      using write_loop_all [OF Suc.prems(2), of ?buf "length ?buf"] by (auto simp: writen_def)
    let ?s1 = "s\<lparr>pc_sock := c\<rparr>"
    have "0 < length ?buf" using False by simp
    then have "length content < pos + length ?buf + fuel" using Suc.prems(4) by linarith
    moreover have "pos + length ?buf \<le> length content" using Suc.prems(3) by simp
    ultimately obtain c' where c': "submit_loop fuel (pos + length ?buf) content ?s1 = Inr ((), ?s1\<lparr>pc_sock := c'\<rparr>)"
      "c_out c' = c_out c @ drop (pos + length ?buf) content" "c_in c' = c_in c"
      using Suc.IH [where s = ?s1 and pos = "pos + length ?buf"] Suc.prems(1) c(3) by auto
    have "?buf @ drop (pos + length ?buf) content = drop pos content"
      using append_take_drop_id [of IOBUFSZ "drop pos content"] by (auto simp: min_def add.commute)
    moreover have "submit_loop (Suc fuel) pos content s = submit_loop fuel (pos + length ?buf) content ?s1"
      using Suc.prems(1) c(1) False by (simp add: io_simps on_sock_def Let_def)
    ultimately show ?thesis using c' c(2,4) by (intro exI [of _ c']) auto
  qed
qed simp

text \<open>The strings that the daemon finds in the request.\<close>

definition sent_user :: "string option \<Rightarrow> string" where
  "sent_user pwd = (case pwd of None \<Rightarrow> ''unknown'' | Some n \<Rightarrow> take 63 (cstr n))"

definition sent_name :: "string \<Rightarrow> string" where
  "sent_name fname = (if 256 \<le> length fname then ''... '' @ drop (length fname - 251) fname else fname)"

lemma length_strcpy_into [simp]: "length (cstr s) < length old \<Longrightarrow> length (strcpy_into s old) = length old"
  by (simp add: strcpy_into_def)

lemma cstr_strcpy_into [simp]: "cstr (strcpy_into s old) = cstr s"
  by (simp add: strcpy_into_def)

lemma build_req_ok:
  assumes "printreq_ok junk" "NUL \<notin> set fname"
  shows "printreq_ok (build_req junk pwd fname n text)"
    "cstr (r_usernm (build_req junk pwd fname n text)) = sent_user pwd"
    "cstr (r_jobnm (build_req junk pwd fname n text)) = sent_name fname"
proof -
  have nul: "NUL \<notin> set (drop k fname)" "NUL \<notin> set (take m (drop k fname))" for k m
    using assms(2) by (meson in_set_dropD in_set_takeD)+
  show "printreq_ok (build_req junk pwd fname n text)"
    using assms nul by (auto simp: printreq_ok_def build_req_def strncpy_def Let_def split: option.splits)
  have "cstr (strncpy 63 nm @ [NUL]) = take 63 (cstr nm)" for nm
  proof (cases "63 \<le> length (cstr nm)")
    case True
    then have "strncpy 63 nm = take 63 (cstr nm)" by (simp add: strncpy_def)
    moreover have "NUL \<notin> set (take 63 (cstr nm))" by (meson in_set_takeD nul_notin_cstr)
    ultimately show ?thesis by simp
  next
    case False
    then obtain k where k: "63 - length (cstr nm) = Suc k" by (cases "63 - length (cstr nm)") auto
    have "strncpy 63 nm = cstr nm @ NUL # replicate k NUL" using False k by (simp add: strncpy_def)
    with False show ?thesis by simp
  qed
  moreover have "cstr ''unknown'' = ''unknown''" by simp
  ultimately show "cstr (r_usernm (build_req junk pwd fname n text)) = sent_user pwd"
    by (auto simp: build_req_def sent_user_def split: option.splits)
  show "cstr (r_jobnm (build_req junk pwd fname n text)) = sent_name fname"
    using assms(2) nul by (auto simp: build_req_def sent_name_def Let_def)
qed


lemma job_name_short: "0 < sint j \<Longrightarrow> length (job_name j) \<le> 10 \<and> NUL \<notin> set (job_name j)"
proof -
  assume p: "0 < sint j"
  have "sint j < 2 ^ 31" using sint_less [of j] by simp
  then have "length (dec (nat (sint j))) \<le> 10" using p by (intro length_dec_le) auto
  moreover have "NUL \<notin> set (dec (nat (sint j)))" by (simp add: isdigit_def)
  ultimately show ?thesis using p by (simp add: job_name_def dec_int_def)
qed

lemma accept_msg_parts:
  assumes "0 < sint j" "length msg = MSGLEN_MAX"
  shows "length (accept_msg j msg) = PRINTRESP_SZ" "of_le32 (take 4 (accept_msg j msg)) = 0"
    "ntohl (of_le32 (take 4 (drop 4 (accept_msg j msg)))) = j"
proof -
  have "NUL \<notin> set (''request ID '' @ job_name j)" using job_name_short [OF assms(1)] by simp
  then have "length (cstr (''request ID '' @ job_name j)) < length msg"
    using job_name_short [OF assms(1)] assms(2) by (simp del: append.simps)
  then show "length (accept_msg j msg) = PRINTRESP_SZ" using assms(2) by (simp add: accept_msg_def printresp_bytes_def)
qed (simp_all add: accept_msg_def printresp_bytes_def)

lemma sys_read_out: "sys_read n c = (v, c') \<Longrightarrow> c_out c' = c_out c \<and> c_wr c' = c_wr c"
  by (auto simp: sys_read_def split: if_splits prod.splits sum.splits)

lemma readn_out: "readn n c = (v, c') \<Longrightarrow> c_out c' = c_out c \<and> c_wr c' = c_wr c"
  unfolding readn_def by (rule read_loop_out [OF sys_read_out])

lemma submit_file_run:
  assumes junk: "printreq_ok junk" "NUL \<notin> set fname" and rd: "pc_rd p = []" and st: "steady (pc_sock p)"
    and ans: "c_in (pc_sock p) = [Data (accept_msg j msg)]" "0 < sint j" "length msg = MSGLEN_MAX"
  shows "\<exists>c. submit_file junk pwd fname content n text p =
      Inr ((), p\<lparr>pc_sock := c, pc_stdout := pc_stdout p @ ''job ID '' @ dec (unat j) @ [NEWLINE]\<rparr>) \<and>
     c_out c = c_out (pc_sock p) @ printreq_bytes (build_req junk pwd fname n text) @ content"
proof -
  let ?r = "build_req junk pwd fname n text"
  have len: "length (printreq_bytes ?r) = PRINTREQ_SZ" using build_req_ok(1) [OF junk] by simp
  obtain c1 where c1: "writen (printreq_bytes ?r) (pc_sock p) = (int PRINTREQ_SZ, c1)"
    "c_out c1 = c_out (pc_sock p) @ printreq_bytes ?r" "steady c1" "c_in c1 = c_in (pc_sock p)"
    using write_loop_all [OF st, of "printreq_bytes ?r" PRINTREQ_SZ] len by (auto simp: writen_def)
  let ?p1 = "p\<lparr>pc_sock := c1\<rparr>"
  obtain c2 where c2: "submit_loop (Suc (length content)) 0 content ?p1 = Inr ((), ?p1\<lparr>pc_sock := c2\<rparr>)"
    "c_out c2 = c_out c1 @ content" "c_in c2 = c_in c1"
    using submit_loop_all [where s = ?p1 and pos = 0 and content = content and fuel = "Suc (length content)"] rd c1(3) by auto
  obtain res c3 where c3: "readn PRINTRESP_SZ c2 = (res, c3)" by fastforce
  have "rd_bytes (c_in c2) = accept_msg j msg" using c2(3) c1(4) ans(1) by simp
  moreover have "length (accept_msg j msg) = PRINTRESP_SZ" by (rule accept_msg_parts [OF ans(2,3)])
  ultimately have res: "res = Some (accept_msg j msg)"
    using plain.fill_returns [of PRINTRESP_SZ c2] c3 by (auto simp: readn_def)
  have "c_out c3 = c_out c2" using readn_out [OF c3] by simp
  with c1 c2 c3 res accept_msg_parts [OF ans(2,3)] show ?thesis
    by (auto simp: submit_file_def io_simps on_sock_def Let_def simp del: submit_loop.simps)
qed


text \<open>C15: from the command to the queue. What \<open>submit_file\<close> sends, followed by silence (the
  command waits for the answer and does not close its side), is what \<open>client_thread\<close> needs: the
  data file holds exactly the contents of the file, the queued request carries its size, the
  user's name and the file's name, cut to what fits the fields, and the text flag when \<open>-t\<close> was
  given; and on the daemon's answer the command reports the number under which the job was
  queued.\<close>

theorem print_end_to_end:
  assumes srv: "pq_rep (pd s) q None" "dl_head (workers (pd s)) = None" "workers_fit (pd s)" "calm s" "steady (conn s)"
    and j: "j = nextjob (pd s)" "0 < sint j"
    and new: "files s (data_path (job_name j)) = None" "files s (req_path (job_name j)) = None"
    and cl: "printreq_ok junk" "NUL \<notin> set fname" "pc_rd p = []" "steady (pc_sock p)" "length msg = MSGLEN_MAX"
    and wire: "c_in (conn s) = [Data (printreq_bytes (build_req junk pwd fname (length content) text) @ content), Quiet]"
      "c_in (pc_sock p) = [Data (accept_msg j msg)]"
  shows "\<exists>s' p' r. client_thread strerror buf msg tid fd s = Inr (0, s') \<and>
     submit_file junk pwd fname content (length content) text p = Inr ((), p') \<and>
     c_out (pc_sock p') = c_out (pc_sock p) @ printreq_bytes (build_req junk pwd fname (length content) text) @ content \<and>
     c_out (conn s') = c_out (conn s) @ accept_msg j msg \<and>
     files s' (data_path (job_name j)) = Some content \<and> pq_rep (pd s') (q @ [\<lparr>jobid = j, req = r\<rparr>]) None \<and>
     r_size r = of_nat (length content) \<and> cstr (r_usernm r) = sent_user pwd \<and> cstr (r_jobnm r) = sent_name fname \<and>
     (text \<longrightarrow> is_text r) \<and> pc_stdout p' = pc_stdout p @ ''job ID '' @ dec (unat j) @ [NEWLINE]"
proof -
  let ?b = "build_req junk pwd fname (length content) text"
  note b = build_req_ok [OF cl(1,2), of pwd "length content" "text"]
  have bytes: "trd_bytes (c_in (conn s)) = printreq_bytes ?b @ content" using wire(1) by simp
  obtain s' fl where s': "client_thread strerror buf msg tid fd s = Inr (0, s')"
    "files s' = (files s)(data_path (job_name j) \<mapsto> content,
       req_path (job_name j) \<mapsto> printreq_bytes (?b\<lparr>r_size := ntohl (r_size ?b), r_flags := fl\<rparr>))"
    "pq_rep (pd s') (q @ [\<lparr>jobid = j, req = ?b\<lparr>r_size := ntohl (r_size ?b), r_flags := fl\<rparr>\<rparr>]) None"
    "fl = ntohl (r_flags ?b) \<or> fl = or (ntohl (r_flags ?b)) PR_TEXT"
    "c_out (conn s') = c_out (conn s) @ accept_msg j msg"
    using client_thread_accepted [OF srv(1-3) new j(1) srv(4,5) bytes b(1), of strerror buf msg tid fd] unfolding Let_def by blast
  obtain c where c: "submit_file junk pwd fname content (length content) text p =
      Inr ((), p\<lparr>pc_sock := c, pc_stdout := pc_stdout p @ ''job ID '' @ dec (unat j) @ [NEWLINE]\<rparr>)"
     "c_out c = c_out (pc_sock p) @ printreq_bytes ?b @ content"
    using submit_file_run [OF cl(1-4) wire(2) j(2) cl(5)] by blast
  let ?r = "?b\<lparr>r_size := ntohl (r_size ?b), r_flags := fl\<rparr>"
  have "is_text ?r" if "text"
    using that s'(4) by (auto simp: is_text_def build_req_def)
  moreover have "r_size ?r = of_nat (length content)" by (simp add: build_req_def)
  ultimately show ?thesis using s' c b(2,3)
    by (intro exI [of _ s'] exI [of _ "p\<lparr>pc_sock := c, pc_stdout := _\<rparr>"] exI [of _ ?r]) auto
qed


definition sample_client :: pclient where
  "sample_client = \<lparr>pc_sock = \<lparr>c_in = [Data (accept_msg 1 (replicate 512 NUL))], c_wr = [Accept 100], c_out = [], c_errno = 0\<rparr>,
     pc_rd = [], pc_stdout = []\<rparr>"

theorem print_end_to_end_witness:
  "\<exists>p'. submit_file sample_req (Some ''sar'') ''notes.txt'' ''hello'' (length ''hello'') True sample_client = Inr ((), p') \<and>
     pc_stdout p' = ''job ID 1'' @ [NEWLINE]"
proof -
  let ?w = "printreq_bytes (build_req sample_req (Some ''sar'') ''notes.txt'' (length ''hello'') True) @ ''hello''"
  let ?s = "sample_spool\<lparr>conn := \<lparr>c_in = [Data ?w, Quiet], c_wr = [], c_out = [], c_errno = 0\<rparr>\<rparr>"
  have "pq_rep (pd ?s) [] None" "dl_head (workers (pd ?s)) = None" "workers_fit (pd ?s)" "calm ?s" "steady (conn ?s)"
    "1 = nextjob (pd ?s)" "files ?s x = None" for x
    using sample_spool_ready by (simp_all add: steady_def)
  moreover have "printreq_ok sample_req" by (simp add: printreq_ok_def sample_req_def)
  moreover have "pc_rd sample_client = []" "steady (pc_sock sample_client)" "pc_stdout sample_client = []"
    "c_in (pc_sock sample_client) = [Data (accept_msg 1 (replicate 512 NUL))]" by (simp_all add: sample_client_def steady_def)
  moreover have "dec (unat (1 :: 32 word)) = ''1''" by code_simp
  ultimately show ?thesis
    using print_end_to_end [of ?s "[]" 1 sample_req "''notes.txt''" sample_client "replicate 512 NUL" "Some ''sar''" "''hello''" True "\<lambda>e. []" "[]" 7 4]
    by auto
qed

end
