(* ===== verification/Fd_Passing.thy ===== *)
theory Fd_Passing
  imports Stream_Io
begin

text \<open>
  Passing descriptors over a UNIX domain socket: \<open>send_fd\<close>, \<open>send_err\<close>, \<open>recv_fd\<close>
  (\<open>lib/sendfd.c\<close>, \<open>lib/senderr.c\<close>, \<open>lib/recvfd.c\<close>) and the variants that pass credentials
  (\<open>ipc2/sendfd2.c\<close>, \<open>ipc2/recvfd2.c\<close>). The socket is a byte stream; a descriptor travels with
  the first byte of the message it was sent with. How the kernel cuts the stream into the
  messages that \<open>recvmsg\<close> returns is not fixed by the sender. A descriptor that is passed stands
  for the open file it refers to: the number under which the receiving process gets the file
  is the kernel's choice and is not modelled.
\<close>

section \<open>Sending\<close>

text \<open>
  The sending side: the channel, the control data attached so far (the position of the byte it
  travels with, the descriptor, and the user ID when credentials are passed), and whether the
  coming \<open>malloc\<close> calls succeed. \<open>us_cmsg\<close> says that the control buffer has been allocated.
\<close>

record usock =
  us_chan :: chan
  us_ctl :: "(nat \<times> int \<times> nat option) list"
  us_cmsg :: bool
  us_malloc :: "bool list"

text \<open>\<open>sendmsg\<close> of the two-byte message: the number of bytes sent or -1.\<close>

definition sendmsg2 :: "string \<Rightarrow> (int \<times> nat option) option \<Rightarrow> usock \<Rightarrow> int \<times> usock" where
  "sendmsg2 buf ctl s =
     (case sys_write buf (us_chan s) of
        (n, c) \<Rightarrow>
          (n, s\<lparr>us_chan := c,
                us_ctl := us_ctl s @ (case ctl of
                                        Some (fd, u) \<Rightarrow> if 0 < n then [(length (c_out (us_chan s)), fd, u)] else []
                                      | None \<Rightarrow> [])\<rparr>))"

definition get_cmsg :: "usock \<Rightarrow> bool \<times> usock" where
  "get_cmsg s =
     (if us_cmsg s then (True, s)
      else case us_malloc s of
        [] \<Rightarrow> (True, s\<lparr>us_cmsg := True\<rparr>)
      | b # bs \<Rightarrow> (b, s\<lparr>us_cmsg := b, us_malloc := bs\<rparr>))"

text \<open>The status byte for a negative descriptor: a \<open>char\<close>, never 0.\<close>

definition status_byte :: "int \<Rightarrow> char" where
  "status_byte fd = (let b = char_of (nat ((- fd) mod 256)) in if b = NUL then CHR 0x01 else b)"

text \<open>\<open>send_fd\<close>, with the credentials of the variant when \<open>cred\<close> is a user ID.\<close>

definition send_fd_with :: "nat option \<Rightarrow> int \<Rightarrow> usock \<Rightarrow> int \<times> usock" where
  "send_fd_with cred fd_to_send s =
     (if fd_to_send < 0 then
        (case sendmsg2 [NUL, status_byte fd_to_send] None s of (n, s1) \<Rightarrow> (if n \<noteq> 2 then -1 else 0, s1))
      else
        case get_cmsg s of
          (False, s1) \<Rightarrow> (-1, s1)
        | (True, s1) \<Rightarrow>
            (case sendmsg2 [NUL, NUL] (Some (fd_to_send, cred)) s1 of (n, s2) \<Rightarrow> (if n \<noteq> 2 then -1 else 0, s2)))"

definition send_fd :: "int \<Rightarrow> usock \<Rightarrow> int \<times> usock" where
  "send_fd fd_to_send = send_fd_with None fd_to_send"

definition send_ufd :: "nat \<Rightarrow> int \<Rightarrow> usock \<Rightarrow> int \<times> usock" where
  "send_ufd euid fd_to_send = send_fd_with (Some euid) fd_to_send"

definition send_err :: "int \<Rightarrow> string \<Rightarrow> usock \<Rightarrow> int \<times> usock" where
  "send_err errcode msg s =
     (let n = length (cstr msg);
          r = (if 0 < n then (case writen (cstr msg) (us_chan s) of (w, c) \<Rightarrow> (w, s\<lparr>us_chan := c\<rparr>)) else (0, s)) in
      if fst r \<noteq> int n then (-1, snd r)
      else
        case send_fd (if 0 \<le> errcode then -1 else errcode) (snd r) of
          (v, s2) \<Rightarrow> (if v < 0 then -1 else 0, s2))"

section \<open>Receiving\<close>

text \<open>What \<open>recvmsg\<close> returns: bytes with control data, or a failure; no message is the end.\<close>

datatype umsg = Msg string "(int \<times> nat option) option" | MErr int

text \<open>The first null byte of a message.\<close>

definition null_at :: "string \<Rightarrow> nat option" where
  "null_at bs = (let k = length (cstr bs) in if k < length bs then Some k else None)"

text \<open>
  The two receivers. \<open>full\<close> says which control data fill the control buffer (a descriptor; a
  descriptor with credentials), \<open>user\<close> is the user's function on the text. The result is the
  descriptor or the negative status, the user ID received, the text given to the user's
  function, and the messages not yet read.
\<close>

fun recv_with ::
  "((int \<times> nat option) \<Rightarrow> bool) \<Rightarrow> (string \<Rightarrow> int) \<Rightarrow> umsg list \<Rightarrow> exit_reason + (int \<times> nat option \<times> string \<times> umsg list)" where
  "recv_with full user [] = Inr (-1, None, [], [])"
| "recv_with full user (MErr e # ms) = Inr (-1, None, [], ms)"
| "recv_with full user (Msg bs ctl # ms) =
     (if bs = [] then Inr (-1, None, [], ms)
      else case null_at bs of
        None \<Rightarrow>
          if user bs \<noteq> int (length bs) then Inr (-1, None, bs, ms)
          else (case recv_with full user ms of
                  Inl e \<Rightarrow> Inl e
                | Inr (fd, u, out, rest) \<Rightarrow> Inr (fd, u, bs @ out, rest))
      | Some k \<Rightarrow>
          if k + 2 \<noteq> length bs then Inl (Dump ''message format error'')
          else
            let status = (of_char (bs ! Suc k) :: nat) in
            if status = 0 \<and> (case ctl of None \<Rightarrow> True | Some x \<Rightarrow> \<not> full x) then Inl (Dump ''status = 0 but no fd'')
            else
              let newfd = (if status = 0 then fst (the ctl) else - int status);
                  u = (if status = 0 then snd (the ctl) else None);
                  out = take k bs in
              if 0 < k \<and> user out \<noteq> int k then Inr (-1, u, out, ms)
              else Inr (newfd, u, out, ms))"

text \<open>\<open>mem\<close> says that the control buffer is there or can be allocated.\<close>

definition recv_fd :: "bool \<Rightarrow> (string \<Rightarrow> int) \<Rightarrow> umsg list \<Rightarrow> exit_reason + (int \<times> string \<times> umsg list)" where
  "recv_fd mem user ms =
     (if \<not> mem then Inr (-1, [], ms)
      else case recv_with (\<lambda>x. True) user ms of Inl e \<Rightarrow> Inl e | Inr (fd, u, out, rest) \<Rightarrow> Inr (fd, out, rest))"

text \<open>\<open>recv_ufd\<close>; \<open>passcred\<close> is the result of turning the socket option on.\<close>

definition recv_ufd ::
  "bool \<Rightarrow> bool \<Rightarrow> (string \<Rightarrow> int) \<Rightarrow> umsg list \<Rightarrow> exit_reason + (int \<times> nat option \<times> string \<times> umsg list)" where
  "recv_ufd passcred mem user ms =
     (if \<not> passcred \<or> \<not> mem then Inr (-1, None, [], ms)
      else recv_with (\<lambda>(fd, u). u \<noteq> None) user ms)"

text \<open>
  A delivery of the bytes \<open>bs\<close> that begin at position \<open>p\<close> of the stream: nonempty pieces, each
  with the control data sent with one of its bytes.
\<close>

fun delivers :: "nat \<Rightarrow> string \<Rightarrow> (nat \<times> int \<times> nat option) list \<Rightarrow> umsg list \<Rightarrow> bool" where
  "delivers p bs ctl [] = (bs = [])"
| "delivers p bs ctl (MErr e # ms) = False"
| "delivers p bs ctl (Msg b c # ms) =
     (b \<noteq> [] \<and> take (length b) bs = b \<and>
      c = map_option snd (find (\<lambda>(q, x). p \<le> q \<and> q < p + length b) ctl) \<and>
      delivers (p + length b) (drop (length b) bs) ctl ms)"


section \<open>A delivery and its receiver\<close>

text \<open>The last two bytes of the stream arrive together.\<close>

definition tail_whole :: "umsg list \<Rightarrow> bool" where
  "tail_whole ms \<longleftrightarrow> ms \<noteq> [] \<and> (case last ms of Msg b c \<Rightarrow> 2 \<le> length b | MErr e \<Rightarrow> False)"

lemma of_char_zero: "of_char c = (0::nat) \<longleftrightarrow> c = NUL"
proof
  assume "of_char c = (0::nat)"
  then have "of_char c = (of_char NUL :: nat)" by simp
  then show "c = NUL" by (simp only: of_char_eq_iff)
qed simp

lemma null_at_none: "NUL \<notin> set bs \<Longrightarrow> null_at bs = None"
  by (simp add: null_at_def Let_def)

lemma null_at_some: "NUL \<notin> set m \<Longrightarrow> null_at (m @ NUL # r) = Some (length m)"
  by (simp add: null_at_def Let_def)

lemma delivers_nonempty: "delivers p bs ctl ms \<Longrightarrow> bs \<noteq> [] \<Longrightarrow> ms \<noteq> []"
  by (cases ms) auto

text \<open>
  However the text and the two bytes are cut, the receiver passes on the text and ends with the
  status, unless the two bytes are separated.
\<close>

lemma recv_delivered:
  assumes "delivers p (m @ [NUL, st]) ctl ms" "NUL \<notin> set m" "tail_whole ms"
    and user: "\<And>x. user x = int (length x)"
    and ok: "st \<noteq> NUL \<or> (\<exists>q x. ctl = [(q, x)] \<and> q = p + length m \<and> full x)"
  shows "\<exists>u. recv_with full user ms =
     Inr (if st = NUL then fst (snd (hd ctl)) else - int (of_char st), u, m, []) \<and> (st = NUL \<longrightarrow> u = snd (snd (hd ctl)))"
  using assms(1-3) ok
proof (induction p "m @ [NUL, st]" ctl ms arbitrary: m rule: delivers.induct)
  case (3 p ctl b c ms)
  let ?bs = "m @ [NUL, st]"
  have b: "b \<noteq> []" "take (length b) ?bs = b" and rest: "delivers (p + length b) (drop (length b) ?bs) ctl ms"
    and c: "c = map_option snd (find (\<lambda>(q, x). p \<le> q \<and> q < p + length b) ctl)"
    using "3.prems"(1) by auto
  show ?case
  proof (cases "length b \<le> length m")
    case True
    have bm: "b = take (length b) m" using b(2) True by simp
    have dr: "drop (length b) ?bs = drop (length b) m @ [NUL, st]" using True by simp
    have nm: "NUL \<notin> set b" "NUL \<notin> set (drop (length b) m)" using "3.prems"(2) bm by (metis in_set_takeD, metis in_set_dropD)
    have ne: "ms \<noteq> []" using delivers_nonempty [OF rest [unfolded dr]] by simp
    then have tw: "tail_whole ms" using "3.prems"(3) by (simp add: tail_whole_def)
    have pl: "p + length b + length (drop (length b) m) = p + length m" using True by simp
    have "\<exists>u. recv_with full user ms =
       Inr (if st = NUL then fst (snd (hd ctl)) else - int (of_char st), u, drop (length b) m, []) \<and> (st = NUL \<longrightarrow> u = snd (snd (hd ctl)))"
      by (rule "3.hyps" [OF dr rest [unfolded dr] nm(2) tw]) (use "3.prems"(4) pl in simp)
    moreover have "m = b @ drop (length b) m" using bm append_take_drop_id by metis
    ultimately show ?thesis using b(1) null_at_none [OF nm(1)] user by auto
  next
    case False
    have lb: "length b \<le> length m + 2" using arg_cong [OF b(2), of length] by simp
    have "length b \<noteq> length m + 1"
    proof
      assume l: "length b = length m + 1"
      then have dr: "drop (length b) ?bs = [st]" by simp
      obtain b1 c1 ms1 where ms: "ms = Msg b1 c1 # ms1" "b1 \<noteq> []" "take (length b1) [st] = b1"
        using rest unfolding dr by (cases ms; cases "hd ms") auto
      then have b1: "b1 = [st]" by (cases b1) (auto split: nat.splits)
      then have "ms1 = []" using rest ms dr by (cases ms1; cases "hd ms1") auto
      with ms b1 "3.prems"(3) show False by (simp add: tail_whole_def)
    qed
    with False lb have l: "length b = length m + 2" by simp
    then have bb: "b = m @ [NUL, st]" using b(2) by simp
    have "ms = []" using rest l by (cases ms; cases "hd ms") auto
    moreover have "of_char st = (0::nat) \<longleftrightarrow> st = NUL" by (rule of_char_zero)
    ultimately show ?thesis
      using bb c "3.prems"(2,4) user null_at_some [OF "3.prems"(2), of "[st]"] by (auto simp: nth_append)
  qed
qed auto


text \<open>When the null byte and the status byte are separated, the receiver dumps core.\<close>

lemma recv_split:
  assumes "delivers p (m @ [NUL, st]) ctl ms" "NUL \<notin> set m" "\<not> tail_whole ms"
    and user: "\<And>x. user x = int (length x)"
  shows "recv_with full user ms = Inl (Dump ''message format error'')"
  using assms(1-3)
proof (induction p "m @ [NUL, st]" ctl ms arbitrary: m rule: delivers.induct)
  case (3 p ctl b c ms)
  let ?bs = "m @ [NUL, st]"
  have b: "b \<noteq> []" "take (length b) ?bs = b" and rest: "delivers (p + length b) (drop (length b) ?bs) ctl ms"
    using "3.prems"(1) by auto
  have lb: "length b \<le> length m + 2" using arg_cong [OF b(2), of length] by simp
  consider "length b \<le> length m" | "length b = length m + 1" | "length b = length m + 2" using lb by linarith
  then show ?case
  proof cases
    case 1
    have bm: "b = take (length b) m" using b(2) 1 by simp
    have dr: "drop (length b) ?bs = drop (length b) m @ [NUL, st]" using 1 by simp
    have nm: "NUL \<notin> set b" "NUL \<notin> set (drop (length b) m)" using "3.prems"(2) bm by (metis in_set_takeD, metis in_set_dropD)
    have "ms \<noteq> []" using delivers_nonempty [OF rest [unfolded dr]] by simp
    then have "\<not> tail_whole ms" using "3.prems"(3) by (simp add: tail_whole_def)
    from "3.hyps" [OF dr rest [unfolded dr] nm(2) this] b(1) null_at_none [OF nm(1)] user show ?thesis by simp
  next
    case 2
    then have "b = m @ [NUL]" using b(2) by simp
    with null_at_some [OF "3.prems"(2), of "[]"] show ?thesis by simp
  next
    case 3
    then have "ms = []" using rest by (cases ms; cases "hd ms") auto
    with 3 "3.prems"(3) show ?thesis by (simp add: tail_whole_def)
  qed
qed auto

lemma of_char_status:
  "of_char (status_byte e) = (let k = nat ((- e) mod 256) in if k = 0 then 1 else k)"
proof -
  let ?k = "nat ((- e) mod 256)"
  have k: "?k < 256" by (simp add: nat_less_iff)
  then have o: "(of_char (char_of ?k) :: nat) = ?k" by simp
  then have "char_of ?k = NUL \<longleftrightarrow> ?k = 0" using of_char_zero [of "char_of ?k"] by simp
  with o show ?thesis by (simp add: status_byte_def Let_def)
qed

lemma status_byte_not_nul: "status_byte e \<noteq> NUL"
  using of_char_status [of e] of_char_zero [of "status_byte e"] by (simp add: Let_def split: if_splits)

lemma status_byte_exact: "-255 \<le> e \<Longrightarrow> e < 0 \<Longrightarrow> - int (of_char (status_byte e)) = e"
  using of_char_status [of e] by (simp add: Let_def)

text \<open>A socket on which nothing has been sent and no call fails.\<close>

definition fresh_sock :: "usock \<Rightarrow> bool" where
  "fresh_sock s \<longleftrightarrow> c_out (us_chan s) = [] \<and> c_wr (us_chan s) = [] \<and> us_ctl s = [] \<and> us_malloc s = []"

lemma send_fd_run:
  assumes "fresh_sock s" "0 \<le> fd"
  shows "\<exists>s'. send_fd_with cred fd s = (0, s') \<and> c_out (us_chan s') = [NUL, NUL] \<and> us_ctl s' = [(0, fd, cred)]"
  using assms
  by (cases "us_cmsg s") (simp_all add: send_fd_with_def get_cmsg_def sendmsg2_def sys_write_def fresh_sock_def)

lemma send_err_run:
  assumes "fresh_sock s" "NUL \<notin> set msg"
  shows "\<exists>s'. send_err e msg s = (0, s') \<and> us_ctl s' = [] \<and>
    c_out (us_chan s') = msg @ [NUL, status_byte (if 0 \<le> e then -1 else e)]"
proof -
  have st: "steady (us_chan s)" using assms(1) by (simp add: fresh_sock_def steady_def)
  obtain c where c: "writen msg (us_chan s) = (int (length msg), c)" "c_out c = msg" "c_wr c = []"
  proof -
    have "writen msg (us_chan s) = (int (length msg), (us_chan s)\<lparr>c_out := msg\<rparr>)"
      using assms(1) by (cases "msg = []")
        (auto simp: writen_def fresh_sock_def sys_write_def write_loop.simps [of _ msg] write_loop.simps [of _ "[]"])
    with assms(1) show ?thesis by (intro that) (auto simp: fresh_sock_def)
  qed
  have neg: "(if 0 \<le> e then -1 else e) < 0" by simp
  show ?thesis
    using assms c neg
    by (cases "msg = []")
      (auto simp: send_err_def send_fd_def send_fd_with_def sendmsg2_def sys_write_def fresh_sock_def Let_def)
qed

section \<open>Properties\<close>

text \<open>The code that arrives for a negative status: what fits an unsigned byte, and never 0.\<close>

definition passed_code :: "int \<Rightarrow> int" where
  "passed_code e = (if 0 \<le> e \<or> (- e) mod 256 = 0 then -1 else - ((- e) mod 256))"

lemma passed_code_byte: "- int (of_char (status_byte (if 0 \<le> e then -1 else e))) = passed_code e"
proof -
  have "- e mod 256 \<le> 0 \<longleftrightarrow> - e mod 256 = 0" by (metis order.eq_iff pos_mod_sign zero_less_numeral)
  then show ?thesis using of_char_status [of e] of_char_status [of "-1"] by (simp add: passed_code_def Let_def)
qed

lemma passed_code_small: "-255 \<le> e \<Longrightarrow> e < 0 \<Longrightarrow> passed_code e = e"
  by (simp add: passed_code_def)

lemma recv_fd_delivered:
  assumes "delivers 0 (m @ [NUL, st]) ctl ms" "NUL \<notin> set m" "\<And>x. user x = int (length x)"
    "st \<noteq> NUL \<or> (\<exists>x. ctl = [(length m, x)] \<and> full x)"
  shows "if tail_whole ms then \<exists>u. recv_with full user ms =
     Inr (if st = NUL then fst (snd (hd ctl)) else - int (of_char st), u, m, []) \<and> (st = NUL \<longrightarrow> u = snd (snd (hd ctl)))
     else recv_with full user ms = Inl (Dump ''message format error'')"
  using recv_delivered [of 0 m st ctl ms user full] recv_split [of 0 m st ctl ms user full] assms by auto

text \<open>C18: what is passed arrives, unless the stream is cut at the one place that the protocol cannot
  take. Whatever pieces the kernel delivers the stream in: if the null byte and the status
  byte arrive together, a descriptor sent by \<open>send_fd\<close> is what \<open>recv_fd\<close> returns (with the
  sender's user ID for the variant with credentials), and an error sent by \<open>send_err\<close> arrives as
  its text, handed to the user's function piece by piece, and a negative code: -1 for a code
  that is not negative, the same code from -1 to -255, the code modulo 256 below, where -256
  and its multiples become -1. If the two bytes arrive separately, the receiver dumps core.\<close>

theorem fd_passing_roundtrip:
  assumes "fresh_sock s" "\<And>x. user x = int (length x)"
  shows "(0 \<le> fd \<longrightarrow> (\<exists>s'. send_fd fd s = (0, s') \<and>
       (\<forall>ms. delivers 0 (c_out (us_chan s')) (us_ctl s') ms \<longrightarrow>
          recv_fd True user ms = (if tail_whole ms then Inr (fd, [], []) else Inl (Dump ''message format error''))))) \<and>
     (0 \<le> fd \<longrightarrow> (\<exists>s'. send_ufd euid fd s = (0, s') \<and>
       (\<forall>ms. delivers 0 (c_out (us_chan s')) (us_ctl s') ms \<longrightarrow>
          recv_ufd True True user ms =
            (if tail_whole ms then Inr (fd, Some euid, [], []) else Inl (Dump ''message format error''))))) \<and>
     (NUL \<notin> set msg \<longrightarrow> (\<exists>s'. send_err e msg s = (0, s') \<and>
       (\<forall>ms. delivers 0 (c_out (us_chan s')) (us_ctl s') ms \<longrightarrow>
          recv_fd True user ms = (if tail_whole ms then Inr (passed_code e, msg, []) else Inl (Dump ''message format error''))))) \<and>
     (-255 \<le> e \<and> e < 0 \<longrightarrow> passed_code e = e)"
proof (intro conjI impI)
  assume fd: "0 \<le> fd"
  obtain s' where s': "send_fd_with None fd s = (0, s')" "c_out (us_chan s') = [] @ [NUL, NUL]" "us_ctl s' = [(0, fd, None)]"
    using send_fd_run [OF assms(1) fd] by auto
  have "recv_fd True user ms = (if tail_whole ms then Inr (fd, [], []) else Inl (Dump ''message format error''))"
    if "delivers 0 (c_out (us_chan s')) (us_ctl s') ms" for ms
    using recv_fd_delivered [of "[]" NUL "us_ctl s'" ms user "\<lambda>x. True"] that s' assms(2) by (auto simp: recv_fd_def split: if_splits)
  with s'(1) show "\<exists>s'. send_fd fd s = (0, s') \<and>
       (\<forall>ms. delivers 0 (c_out (us_chan s')) (us_ctl s') ms \<longrightarrow>
          recv_fd True user ms = (if tail_whole ms then Inr (fd, [], []) else Inl (Dump ''message format error'')))"
    by (auto simp: send_fd_def)
next
  assume fd: "0 \<le> fd"
  obtain s' where s': "send_fd_with (Some euid) fd s = (0, s')" "c_out (us_chan s') = [] @ [NUL, NUL]" "us_ctl s' = [(0, fd, Some euid)]"
    using send_fd_run [OF assms(1) fd] by auto
  have "recv_ufd True True user ms = (if tail_whole ms then Inr (fd, Some euid, [], []) else Inl (Dump ''message format error''))"
    if "delivers 0 (c_out (us_chan s')) (us_ctl s') ms" for ms
    using recv_fd_delivered [of "[]" NUL "us_ctl s'" ms user "\<lambda>(fd, u). u \<noteq> None"] that s' assms(2)
    by (auto simp: recv_ufd_def split: if_splits)
  with s'(1) show "\<exists>s'. send_ufd euid fd s = (0, s') \<and>
       (\<forall>ms. delivers 0 (c_out (us_chan s')) (us_ctl s') ms \<longrightarrow>
          recv_ufd True True user ms =
            (if tail_whole ms then Inr (fd, Some euid, [], []) else Inl (Dump ''message format error'')))"
    by (auto simp: send_ufd_def)
next
  assume m: "NUL \<notin> set msg"
  let ?e = "if 0 \<le> e then -1 else e"
  obtain s' where s': "send_err e msg s = (0, s')" "us_ctl s' = []" "c_out (us_chan s') = msg @ [NUL, status_byte ?e]"
    using send_err_run [OF assms(1) m] by blast
  have "recv_fd True user ms = (if tail_whole ms then Inr (passed_code e, msg, []) else Inl (Dump ''message format error''))"
    if "delivers 0 (c_out (us_chan s')) (us_ctl s') ms" for ms
    using recv_fd_delivered [of msg "status_byte ?e" "us_ctl s'" ms user "\<lambda>x. True"] that s' m assms(2) passed_code_byte [of e]
      status_byte_not_nul [of ?e] by (auto simp: recv_fd_def split: if_splits)
  with s'(1) show "\<exists>s'. send_err e msg s = (0, s') \<and>
       (\<forall>ms. delivers 0 (c_out (us_chan s')) (us_ctl s') ms \<longrightarrow>
          recv_fd True user ms = (if tail_whole ms then Inr (passed_code e, msg, []) else Inl (Dump ''message format error'')))"
    by blast
next
  assume "-255 \<le> e \<and> e < 0"
  then show "passed_code e = e" using passed_code_small by blast
qed

definition sample_sock :: usock where
  "sample_sock = \<lparr>us_chan = \<lparr>c_in = [], c_wr = [], c_out = [], c_errno = 0\<rparr>, us_ctl = [], us_cmsg = False, us_malloc = []\<rparr>"

theorem fd_passing_roundtrip_witness:
  "\<exists>s'. send_err (-2) ''no such file'' sample_sock = (0, s') \<and>
     recv_fd True (\<lambda>x. int (length x)) [Msg ''no su'' None, Msg (''ch file'' @ [NUL, status_byte (-2)]) None] = Inr (-2, ''no such file'', [])"
proof -
  let ?ms = "[Msg ''no su'' None, Msg (''ch file'' @ [NUL, status_byte (-2)]) None]"
  have f: "fresh_sock sample_sock" by (simp add: fresh_sock_def sample_sock_def)
  obtain s' where s': "send_err (-2) ''no such file'' sample_sock = (0, s')"
    and r: "\<forall>ms. delivers 0 (c_out (us_chan s')) (us_ctl s') ms \<longrightarrow>
       recv_fd True (\<lambda>x. int (length x)) ms =
         (if tail_whole ms then Inr (passed_code (-2), ''no such file'', []) else Inl (Dump ''message format error''))"
    using fd_passing_roundtrip [OF f, of "\<lambda>x. int (length x)" 0 0 "''no such file''" "-2"] by auto
  have "c_out (us_chan s') = ''no such file'' @ [NUL, status_byte (-2)]" "us_ctl s' = []"
    using send_err_run [OF f, of "''no such file''" "-2"] s' by auto
  then have "delivers 0 (c_out (us_chan s')) (us_ctl s') ?ms" by simp
  moreover have "tail_whole ?ms" by (simp add: tail_whole_def)
  moreover have "passed_code (-2) = -2" by (simp add: passed_code_small)
  ultimately show ?thesis using r s' by auto
qed

text \<open>A separated status byte kills the receiver. When the kernel delivers the null byte as the
  last byte of one message and the status byte in the next, which nothing on a stream socket
  rules out (a message of \<open>MAXLINE\<close> bytes may end there), \<open>recv_fd\<close> dumps core, although the
  sender did nothing wrong.\<close>

theorem recv_fd_split_dumps:
  assumes "fresh_sock s" "NUL \<notin> set msg"
  shows "\<exists>s'. send_err e msg s = (0, s') \<and>
     delivers 0 (c_out (us_chan s')) (us_ctl s') [Msg (msg @ [NUL]) None, Msg [last (c_out (us_chan s'))] None] \<and>
     recv_fd True user [Msg (msg @ [NUL]) None, Msg [last (c_out (us_chan s'))] None] = Inl (Dump ''message format error'')"
proof -
  obtain s' where s': "send_err e msg s = (0, s')" "us_ctl s' = []"
    "c_out (us_chan s') = msg @ [NUL, status_byte (if 0 \<le> e then -1 else e)]"
    using send_err_run [OF assms] by blast
  have "null_at (msg @ [NUL]) = Some (length msg)" using null_at_some [OF assms(2), of "[]"] by simp
  with s' show ?thesis by (intro exI [of _ s']) (simp add: recv_fd_def)
qed

theorem recv_fd_split_dumps_witness:
  "recv_fd True (\<lambda>x. int (length x)) [Msg (''failed'' @ [NUL]) None, Msg [status_byte (-1)] None] = Inl (Dump ''message format error'')"
proof -
  have f: "fresh_sock sample_sock" by (simp add: fresh_sock_def sample_sock_def)
  have "c_out (us_chan (snd (send_err (-1) ''failed'' sample_sock))) = ''failed'' @ [NUL, status_byte (-1)]"
    using send_err_run [OF f, of "''failed''" "-1"] by auto
  with recv_fd_split_dumps [OF f, of "''failed''" "-1" "\<lambda>x. int (length x)"] show ?thesis by auto
qed

end
