(* ===== verification/Client_Table.thy ===== *)
theory Client_Table
  imports Fd_Passing
begin

text \<open>
  The table of connected clients of the open server (\<open>ipc2/opend/client.c\<close>): an array that
  grows by \<open>NALLOC\<close> entries, in which a descriptor of -1 marks a free entry. The interface the
  server's loops rely on is the locale \<open>client_table\<close>: to its users the table is a map from
  descriptors to user IDs.
\<close>

record Client =
  cl_fd :: int
  cl_uid :: "32 word"

text \<open>
  The array (empty while the pointer is null), what fresh memory holds in the user IDs of new
  entries, and the outcomes of the coming allocations (an empty schedule: they succeed).
\<close>

record ctable =
  client :: "Client list"
  ct_junk :: "nat \<Rightarrow> 32 word"
  ct_malloc :: "bool list"

abbreviation NALLOC :: nat where "NALLOC \<equiv> 10"

definition client_alloc :: "(ctable, unit) io" where
  "client_alloc t =
     (if ct_malloc t \<noteq> [] \<and> \<not> hd (ct_malloc t) then Inl (SysExit ''can't alloc for client array'')
      else
        let client_size = length (client t) in
        Inr ((), t\<lparr>client := client t @ map (\<lambda>i. \<lparr>cl_fd = -1, cl_uid = ct_junk t i\<rparr>) [client_size..<client_size + NALLOC],
                   ct_malloc := tl (ct_malloc t)\<rparr>))"

text \<open>The first entry with a given descriptor.\<close>

fun find_fd :: "int \<Rightarrow> Client list \<Rightarrow> nat option" where
  "find_fd fd [] = None"
| "find_fd fd (c # cs) = (if cl_fd c = fd then Some 0 else map_option Suc (find_fd fd cs))"

text \<open>The search that starts at the label \<open>again\<close>; the fuel counts the jumps to it.\<close>

fun client_search :: "nat \<Rightarrow> int \<Rightarrow> 32 word \<Rightarrow> (ctable, nat) io" where
  "client_search 0 fd uid = fail_io Diverges"
| "client_search (Suc fuel) fd uid =
     bind_io (gets_io (\<lambda>t. find_fd (-1) (client t))) (\<lambda>r.
       case r of
         Some i \<Rightarrow> seq_io (modify_io (\<lambda>t. t\<lparr>client := (client t)[i := \<lparr>cl_fd = fd, cl_uid = uid\<rparr>]\<rparr>)) (ret_io i)
       | None \<Rightarrow> seq_io client_alloc (client_search fuel fd uid))"

definition client_add :: "int \<Rightarrow> 32 word \<Rightarrow> (ctable, nat) io" where
  "client_add fd uid =
     bind_io (gets_io client) (\<lambda>c. seq_io (when_io (c = []) client_alloc) (client_search 2 fd uid))"

definition client_del :: "int \<Rightarrow> (ctable, unit) io" where
  "client_del fd =
     bind_io (gets_io (\<lambda>t. find_fd fd (client t))) (\<lambda>r.
       case r of
         Some i \<Rightarrow> modify_io (\<lambda>t. t\<lparr>client := (client t)[i := (client t ! i)\<lparr>cl_fd := -1\<rparr>]\<rparr>)
       | None \<Rightarrow> fail_io (QuitExit ''can't find client entry for fd''))"

section \<open>The table as a map\<close>

text \<open>The clients that a table holds, and that each descriptor is entered at most once.\<close>

definition clients_of :: "Client list \<Rightarrow> (int \<rightharpoonup> 32 word)" where
  "clients_of cs = (\<lambda>fd. if fd = -1 then None else map_option (\<lambda>i. cl_uid (cs ! i)) (find_fd fd cs))"

definition table_ok :: "Client list \<Rightarrow> bool" where
  "table_ok cs \<longleftrightarrow> (\<forall>i j. i < length cs \<and> j < length cs \<and> cl_fd (cs ! i) = cl_fd (cs ! j) \<and> cl_fd (cs ! i) \<noteq> -1 \<longrightarrow> i = j)"

lemma find_fd_None: "find_fd fd cs = None \<longleftrightarrow> (\<forall>i < length cs. cl_fd (cs ! i) \<noteq> fd)"
  by (induction cs) (auto simp: nth_Cons less_Suc_eq_0_disj split: nat.splits)

lemma find_fd_Some: "find_fd fd cs = Some i \<Longrightarrow> i < length cs \<and> cl_fd (cs ! i) = fd"
  by (induction cs arbitrary: i) (auto split: if_splits)

lemma find_fd_at:
  assumes "table_ok cs" "i < length cs" "cl_fd (cs ! i) = fd" "fd \<noteq> -1"
  shows "find_fd fd cs = Some i"
proof (cases "find_fd fd cs")
  case None
  then show ?thesis using assms by (auto simp: find_fd_None)
next
  case (Some j)
  with assms find_fd_Some [OF Some] show ?thesis by (auto simp: table_ok_def)
qed

lemma clients_of_Some:
  assumes "table_ok cs"
  shows "clients_of cs fd = Some u \<longleftrightarrow> fd \<noteq> -1 \<and> (\<exists>i < length cs. cs ! i = \<lparr>cl_fd = fd, cl_uid = u\<rparr>)"
proof
  assume "clients_of cs fd = Some u"
  then obtain i where "fd \<noteq> -1" "find_fd fd cs = Some i" "cl_uid (cs ! i) = u"
    by (auto simp: clients_of_def split: if_splits)
  moreover from this find_fd_Some have "i < length cs" "cl_fd (cs ! i) = fd" by auto
  ultimately show "fd \<noteq> -1 \<and> (\<exists>i < length cs. cs ! i = \<lparr>cl_fd = fd, cl_uid = u\<rparr>)"
    by (intro conjI exI [of _ i]) auto
next
  assume "fd \<noteq> -1 \<and> (\<exists>i < length cs. cs ! i = \<lparr>cl_fd = fd, cl_uid = u\<rparr>)"
  then show "clients_of cs fd = Some u" using find_fd_at [OF assms] by (auto simp: clients_of_def)
qed

lemma clients_of_None: "clients_of cs fd = None \<longleftrightarrow> fd = -1 \<or> (\<forall>i < length cs. cl_fd (cs ! i) \<noteq> fd)"
  by (auto simp: clients_of_def find_fd_None)

lemma maps_eqI:
  fixes m m' :: "'a \<rightharpoonup> 'b"
  assumes "\<And>k v. m k = Some v \<longleftrightarrow> m' k = Some v"
  shows "m = m'"
proof
  fix k
  show "m k = m' k" using assms [of k] by (metis option.exhaust)
qed

lemma ex_list_update:
  assumes "i < length xs"
  shows "(\<exists>j < length (xs[i := y]). xs[i := y] ! j = x) \<longleftrightarrow> x = y \<or> (\<exists>j < length xs. j \<noteq> i \<and> xs ! j = x)"
  using assms by (auto simp: nth_list_update split: if_splits)

text \<open>Entering a client in a free entry, and removing one.\<close>

lemma table_insert:
  assumes "table_ok cs" "i < length cs" "cl_fd (cs ! i) = -1" "fd \<noteq> -1" "clients_of cs fd = None"
  shows "table_ok (cs[i := \<lparr>cl_fd = fd, cl_uid = u\<rparr>])"
    and "clients_of (cs[i := \<lparr>cl_fd = fd, cl_uid = u\<rparr>]) = (clients_of cs)(fd \<mapsto> u)"
proof -
  have no: "\<And>j. j < length cs \<Longrightarrow> cl_fd (cs ! j) \<noteq> fd" using assms(4,5) by (auto simp: clients_of_None)
  show ok: "table_ok (cs[i := \<lparr>cl_fd = fd, cl_uid = u\<rparr>])"
    using assms(1,2) no unfolding table_ok_def by (auto simp: nth_list_update split: if_splits)
  show "clients_of (cs[i := \<lparr>cl_fd = fd, cl_uid = u\<rparr>]) = (clients_of cs)(fd \<mapsto> u)"
  proof (rule maps_eqI)
    fix k v
    show "clients_of (cs[i := \<lparr>cl_fd = fd, cl_uid = u\<rparr>]) k = Some v \<longleftrightarrow> ((clients_of cs)(fd \<mapsto> u)) k = Some v"
      unfolding clients_of_Some [OF ok] fun_upd_apply ex_list_update [OF assms(2)]
      using assms(3,4) no clients_of_Some [OF assms(1), of k v] by (cases "k = fd") (auto, metis Client.select_convs(1))
  qed
qed

lemma table_remove:
  assumes "table_ok cs" "find_fd fd cs = Some i" "fd \<noteq> -1"
  shows "table_ok (cs[i := (cs ! i)\<lparr>cl_fd := -1\<rparr>])"
    and "clients_of (cs[i := (cs ! i)\<lparr>cl_fd := -1\<rparr>]) = (clients_of cs)(fd := None)"
proof -
  have i: "i < length cs" "cl_fd (cs ! i) = fd" using find_fd_Some [OF assms(2)] by auto
  show ok: "table_ok (cs[i := (cs ! i)\<lparr>cl_fd := -1\<rparr>])"
    using assms(1) i(1) unfolding table_ok_def by (auto simp: nth_list_update split: if_splits)
  have only: "\<And>j. j < length cs \<Longrightarrow> cl_fd (cs ! j) = fd \<Longrightarrow> j = i"
    using assms(1,3) i unfolding table_ok_def by auto
  show "clients_of (cs[i := (cs ! i)\<lparr>cl_fd := -1\<rparr>]) = (clients_of cs)(fd := None)"
  proof (rule maps_eqI)
    fix k v
    let ?x = "\<lparr>cl_fd = k, cl_uid = v\<rparr>"
    have ne: "k \<noteq> -1 \<Longrightarrow> ?x \<noteq> (cs ! i)\<lparr>cl_fd := -1\<rparr>" by (cases "cs ! i") simp
    have at: "j \<noteq> i \<longleftrightarrow> k \<noteq> fd" if "j < length cs" "cs ! j = ?x" for j
      using that i only [of j] by (metis Client.select_convs(1))
    have "clients_of (cs[i := (cs ! i)\<lparr>cl_fd := -1\<rparr>]) k = Some v \<longleftrightarrow>
        k \<noteq> -1 \<and> (\<exists>j < length cs. j \<noteq> i \<and> cs ! j = ?x)"
      unfolding clients_of_Some [OF ok] ex_list_update [OF i(1)] using ne by blast
    also have "\<dots> \<longleftrightarrow> k \<noteq> -1 \<and> k \<noteq> fd \<and> (\<exists>j < length cs. cs ! j = ?x)" using at by blast
    also have "\<dots> \<longleftrightarrow> ((clients_of cs)(fd := None)) k = Some v" unfolding fun_upd_apply clients_of_Some [OF assms(1), symmetric]
      using clients_of_Some [OF assms(1), of k v] by auto
    finally show "clients_of (cs[i := (cs ! i)\<lparr>cl_fd := -1\<rparr>]) k = Some v \<longleftrightarrow> ((clients_of cs)(fd := None)) k = Some v" .
  qed
qed

lemma find_free_append: "find_fd (-1) (cs @ map (\<lambda>i. \<lparr>cl_fd = -1, cl_uid = g i\<rparr>) [n..<n + NALLOC]) \<noteq> None"
proof -
  have "(cs @ map (\<lambda>i. \<lparr>cl_fd = -1, cl_uid = g i\<rparr>) [n..<n + NALLOC]) ! length cs = \<lparr>cl_fd = -1, cl_uid = g n\<rparr>"
    by (simp add: nth_append)
  then show ?thesis unfolding find_fd_None not_all by (intro exI [of _ "length cs"]) simp
qed

lemma table_grow:
  assumes "table_ok cs"
  shows "table_ok (cs @ map (\<lambda>i. \<lparr>cl_fd = -1, cl_uid = g i\<rparr>) [n..<n + NALLOC])"
    and "clients_of (cs @ map (\<lambda>i. \<lparr>cl_fd = -1, cl_uid = g i\<rparr>) [n..<n + NALLOC]) = clients_of cs"
proof -
  let ?cs = "cs @ map (\<lambda>i. \<lparr>cl_fd = -1, cl_uid = g i\<rparr>) [n..<n + NALLOC]"
  have old: "\<And>j. j < length ?cs \<Longrightarrow> cl_fd (?cs ! j) \<noteq> -1 \<Longrightarrow> j < length cs \<and> ?cs ! j = cs ! j"
    by (auto simp: nth_append split: if_splits)
  show ok: "table_ok ?cs"
    using assms unfolding table_ok_def by (metis old)
  show "clients_of ?cs = clients_of cs"
  proof (rule maps_eqI)
    fix k v
    show "clients_of ?cs k = Some v \<longleftrightarrow> clients_of cs k = Some v"
      unfolding clients_of_Some [OF ok] clients_of_Some [OF assms]
      using old by (auto simp: nth_append)
  qed
qed

section \<open>The interface\<close>

text \<open>
  Runs of connections (a descriptor with its user) and disconnections; a run is sane when no
  descriptor is connected twice and only connected ones are disconnected.
\<close>

fun run_clients ::
  "(int \<Rightarrow> 32 word \<Rightarrow> 's \<Rightarrow> exit_reason + (nat \<times> 's)) \<Rightarrow> (int \<Rightarrow> 's \<Rightarrow> exit_reason + (unit \<times> 's))
     \<Rightarrow> (int \<times> 32 word option) list \<Rightarrow> 's \<Rightarrow> exit_reason + 's" where
  "run_clients add del [] s = Inr s"
| "run_clients add del ((fd, Some u) # es) s = (case add fd u s of Inl e \<Rightarrow> Inl e | Inr (i, s') \<Rightarrow> run_clients add del es s')"
| "run_clients add del ((fd, None) # es) s = (case del fd s of Inl e \<Rightarrow> Inl e | Inr (x, s') \<Rightarrow> run_clients add del es s')"

fun sane_events :: "(int \<times> 32 word option) list \<Rightarrow> (int \<rightharpoonup> 32 word) \<Rightarrow> bool" where
  "sane_events [] m = True"
| "sane_events ((fd, r) # es) m = (0 \<le> fd \<and> (r = None \<longleftrightarrow> m fd \<noteq> None) \<and> sane_events es (m(fd := r)))"

locale client_table =
  fixes add :: "int \<Rightarrow> 32 word \<Rightarrow> 's \<Rightarrow> exit_reason + (nat \<times> 's)"
    and del :: "int \<Rightarrow> 's \<Rightarrow> exit_reason + (unit \<times> 's)"
    and tab :: "'s \<Rightarrow> (int \<rightharpoonup> 32 word)"
    and inv :: "'s \<Rightarrow> bool"
    and memory :: "'s \<Rightarrow> bool"
  assumes add_ok: "inv s \<Longrightarrow> memory s \<Longrightarrow> 0 \<le> fd \<Longrightarrow> tab s fd = None \<Longrightarrow>
      \<exists>i s'. add fd uid s = Inr (i, s') \<and> inv s' \<and> memory s' \<and> tab s' = (tab s)(fd \<mapsto> uid)"
    and del_ok: "inv s \<Longrightarrow> 0 \<le> fd \<Longrightarrow> tab s fd \<noteq> None \<Longrightarrow>
      \<exists>s'. del fd s = Inr ((), s') \<and> inv s' \<and> (memory s \<longrightarrow> memory s') \<and> tab s' = (tab s)(fd := None)"
    and del_missing: "inv s \<Longrightarrow> 0 \<le> fd \<Longrightarrow> tab s fd = None \<Longrightarrow> \<exists>e. del fd s = Inl e"
begin

lemma run_map:
  assumes "inv s" "memory s" "sane_events es (tab s)"
  shows "\<exists>s'. run_clients add del es s = Inr s' \<and> inv s' \<and> tab s' = fold (\<lambda>(fd, r) m. m(fd := r)) es (tab s)"
  using assms
proof (induction es arbitrary: s)
  case (Cons e es)
  obtain fd r where e: "e = (fd, r)" by (cases e)
  show ?case
  proof (cases r)
    case None
    from Cons.prems e None obtain s' where "del fd s = Inr ((), s')" "inv s'" "memory s'" "tab s' = (tab s)(fd := None)"
      using del_ok [of s fd] by auto
    with Cons.IH [of s'] Cons.prems e None show ?thesis by (simp del: fun_upd_apply)
  next
    case (Some u)
    from Cons.prems e Some obtain i s' where "add fd u s = Inr (i, s')" "inv s'" "memory s'" "tab s' = (tab s)(fd \<mapsto> u)"
      using add_ok [of s fd u] by auto
    with Cons.IH [of s'] Cons.prems e Some show ?thesis by (simp del: fun_upd_apply)
  qed
qed simp

end

lemma client_add_run:
  assumes "table_ok (client t)" "ct_malloc t = []" "clients_of (client t) fd = None" "fd \<noteq> -1"
  shows "\<exists>i t'. client_add fd uid t = Inr (i, t') \<and> table_ok (client t') \<and> ct_malloc t' = [] \<and>
    clients_of (client t') = (clients_of (client t))(fd \<mapsto> uid) \<and>
    i < length (client t') \<and> client t' ! i = \<lparr>cl_fd = fd, cl_uid = uid\<rparr> \<and>
    (\<forall>j. j \<noteq> i \<longrightarrow> j < length (client t') \<longrightarrow> cl_fd (client t' ! j) \<noteq> -1 \<longrightarrow> j < length (client t) \<and> client t' ! j = client t ! j) \<and>
    length (client t) \<le> length (client t')"
    (is "\<exists>i t'. _ \<and> ?P i t'")
proof -
  let ?grown = "\<lambda>cs. cs @ map (\<lambda>i. \<lparr>cl_fd = -1, cl_uid = ct_junk t i\<rparr>) [length cs..<length cs + NALLOC]"
  have put: "\<exists>i t'. client_search (Suc n) fd uid s = Inr (i, t') \<and> ?P i t'"
    if f: "find_fd (-1) (client s) \<noteq> None" and s: "s = t \<or> s = t\<lparr>client := ?grown (client t)\<rparr>" for s n
  proof -
    from f obtain i where i: "find_fd (-1) (client s) = Some i" by auto
    note il = find_fd_Some [OF i]
    have ok: "table_ok (client s)" "clients_of (client s) = clients_of (client t)"
      using s table_grow [OF assms(1), of "ct_junk t" "length (client t)"] assms(1) by auto
    have old: "j < length (client t) \<and> client s ! j = client t ! j"
      if "j < length (client s)" "cl_fd (client s ! j) \<noteq> -1" for j
      using s that by (auto simp: nth_append split: if_splits)
    have no: "clients_of (client s) fd = None" using ok(2) assms(3) by simp
    note ins = table_insert [OF ok(1) conjunct1 [OF il] conjunct2 [OF il] assms(4) no, of uid]
    have m: "ct_malloc s = []" and lenc: "length (client t) \<le> length (client s)" using s assms(2) by auto
    show ?thesis
      by (rule exI [of _ i], rule exI [of _ "s\<lparr>client := (client s)[i := \<lparr>cl_fd = fd, cl_uid = uid\<rparr>]\<rparr>"])
        (use i il ins ok(2) m old lenc in \<open>auto simp: io_simps nth_list_update\<close>)
  qed
  have al: "client_alloc t = Inr ((), t\<lparr>client := ?grown (client t)\<rparr>)"
    using assms(2) by (simp add: client_alloc_def Let_def)
  have g: "find_fd (-1) (client (t\<lparr>client := ?grown (client t)\<rparr>)) \<noteq> None"
    using find_free_append [of "client t" "ct_junk t" "length (client t)"] by simp
  obtain i t' where grown: "client_search 1 fd uid (t\<lparr>client := ?grown (client t)\<rparr>) = Inr (i, t')" "?P i t'"
    using put [OF g disjI2 [OF refl], of 0] by auto
  show ?thesis
  proof (cases "client t = []")
    case True
    then show ?thesis using put [OF g disjI2 [OF refl], of 1] al by (simp add: client_add_def io_simps eval_nat_numeral)
  next
    case ne: False
    show ?thesis
    proof (cases "find_fd (-1) (client t) = None")
      case True
      with ne al grown show ?thesis
        by (intro exI [of _ i] exI [of _ t']) (simp add: client_add_def io_simps eval_nat_numeral)
    next
      case False
      then show ?thesis using put [OF False disjI1 [OF refl], of 1] ne by (simp add: client_add_def io_simps eval_nat_numeral)
    qed
  qed
qed

interpretation ct: client_table client_add client_del "\<lambda>t. clients_of (client t)" "\<lambda>t. table_ok (client t)" "\<lambda>t. ct_malloc t = []"
proof
  show "\<exists>i s'. client_add fd uid s = Inr (i, s') \<and> table_ok (client s') \<and> ct_malloc s' = [] \<and>
      clients_of (client s') = (clients_of (client s))(fd \<mapsto> uid)"
    if "table_ok (client s)" "ct_malloc s = []" "0 \<le> fd" "clients_of (client s) fd = None" for s fd uid
    using client_add_run [of s fd uid] that by fastforce
next
  show "\<exists>s'. client_del fd s = Inr ((), s') \<and> table_ok (client s') \<and> (ct_malloc s = [] \<longrightarrow> ct_malloc s' = []) \<and>
      clients_of (client s') = (clients_of (client s))(fd := None)"
    if ok: "table_ok (client s)" and fd: "0 \<le> fd" and c: "clients_of (client s) fd \<noteq> None" for s fd
  proof -
    from c obtain i where i: "find_fd fd (client s) = Some i" by (auto simp: clients_of_def split: if_splits)
    from fd have "fd \<noteq> -1" by simp
    with table_remove [OF ok i] i show ?thesis by (auto simp: client_del_def io_simps)
  qed
next
  show "\<exists>e. client_del fd s = Inl e" if "0 \<le> fd" "clients_of (client s) fd = None" for s fd
    using that by (auto simp: clients_of_def client_del_def io_simps)
qed

text \<open>C21: the client table is a map. However clients come and go, with as many connected at a
  time as memory allows, entering and removing them in the array has the effect of the same
  updates on a map from descriptors to user IDs: the array grows when it is full, freed entries
  are used again, no entry of another client is touched, and the search after the array has
  grown always succeeds.\<close>

theorem client_table_refines_map:
  assumes "table_ok (client t)" "ct_malloc t = []" "sane_events es (clients_of (client t))"
  shows "\<exists>t'. run_clients client_add client_del es t = Inr t' \<and> table_ok (client t') \<and>
    clients_of (client t') = fold (\<lambda>(fd, r) m. m(fd := r)) es (clients_of (client t))"
  by (rule ct.run_map [OF assms])

theorem client_table_refines_map_witness:
  "\<exists>t'. run_clients client_add client_del [(4, Some 100), (5, Some 200), (4, None), (6, Some 300)]
        \<lparr>client = [], ct_junk = (\<lambda>_. 0), ct_malloc = []\<rparr> = Inr t' \<and> clients_of (client t') 4 = None \<and> clients_of (client t') 6 = Some 300"
proof -
  let ?es = "[(4, Some 100), (5, Some 200), (4, None), (6, Some 300)] :: (int \<times> 32 word option) list"
  have "table_ok []" "clients_of [] = Map.empty" by (auto simp: table_ok_def clients_of_def)
  moreover have "sane_events ?es Map.empty" by simp
  ultimately show ?thesis
    using client_table_refines_map [of "\<lparr>client = [], ct_junk = (\<lambda>_. 0), ct_malloc = []\<rparr>" ?es] by auto
qed

end
