(* ===== verification/Open_Server.thy ===== *)
theory Open_Server
  imports Client_Table
begin

text \<open>
  The open servers: a client sends a line \<open>open <pathname> <oflag>\<close>, the server opens the file
  and passes the descriptor back (\<open>ipc2/opend/request.c\<close>, \<open>ipc2/opend/cliargs.c\<close>,
  \<open>lib/bufargs.c\<close>; the variant that is forked by its client in \<open>ipc2/opend.fe\<close>), and the client
  functions \<open>csopen\<close> (\<open>ipc2/open/open.c\<close>, \<open>ipc2/open.fe/open.c\<close>). \<open>open\<close> of the kernel and
  \<open>strerror\<close> are parameters.
\<close>

abbreviation MAXLINE :: nat where "MAXLINE \<equiv> 4096"
abbreviation CL_OPEN :: string where "CL_OPEN \<equiv> ''open''"

section \<open>Arguments\<close>

text \<open>The white space of \<open>buf_args\<close>, and the tokens that repeated calls of \<open>strtok\<close> return.\<close>

definition is_white :: "char \<Rightarrow> bool" where
  "is_white c \<longleftrightarrow> c = SPACE \<or> c = CHR 0x09 \<or> c = NEWLINE"

lemma dropWhile_shrinks: "dropWhile P s \<noteq> [] \<Longrightarrow> length (dropWhile (\<lambda>c. \<not> P c) (dropWhile P s)) < length s"
proof (induction s)
  case (Cons a s)
  then show ?case using length_dropWhile_le [of "\<lambda>c. \<not> P c" s] by (auto simp: le_imp_less_Suc)
qed simp

function tokens :: "string \<Rightarrow> string list" where
  "tokens s =
     (let t = dropWhile is_white s in
      if t = [] then []
      else takeWhile (\<lambda>c. \<not> is_white c) t # tokens (dropWhile (\<lambda>c. \<not> is_white c) t))"
  by pat_completeness auto
termination
  by (relation "measure length") (auto simp del: dropWhile_eq_Nil_conv intro!: dropWhile_shrinks)

declare tokens.simps [simp del]

abbreviation MAXARGC :: nat where "MAXARGC \<equiv> 50"

text \<open>
  \<open>buf_args\<close>: the first argument is the buffer itself, cut by \<open>strtok\<close> after its first token,
  so white space in front of the token stays in it.
\<close>

definition buf_args :: "(string list \<Rightarrow> ('s, int) io) \<Rightarrow> string \<Rightarrow> ('s, int) io" where
  "buf_args optfunc buf =
     (case tokens (cstr buf) of
        [] \<Rightarrow> ret_io (-1)
      | t # ts \<Rightarrow>
          if MAXARGC - 1 \<le> length ts then ret_io (-1)
          else optfunc ((takeWhile is_white (cstr buf) @ t) # ts))"

section \<open>The server\<close>

text \<open>
  The globals of the server, its end of each client's connection, and the descriptors it has
  opened for clients and not yet closed. \<open>errmsg\<close> is the string in the buffer of that name.
\<close>

record opend =
  ctab :: ctable
  errmsg :: string
  pathname :: string
  oflag :: int
  socks :: "int \<Rightarrow> usock"
  openfds :: "int list"

text \<open>The texts that \<open>errmsg\<close> gets.\<close>

definition usage_msg :: string where
  "usage_msg = ''usage: <pathname> <oflag>'' @ [NEWLINE]"

definition unterminated_msg :: "32 word \<Rightarrow> string \<Rightarrow> string" where
  "unterminated_msg uid buf =
     ''request from uid '' @ dec_int (sint uid) @ '' not null terminated: '' @ padl (length buf) (cstr buf) @ [NEWLINE]"

definition unterminated_msg_fe :: "string \<Rightarrow> string" where
  "unterminated_msg_fe buf = ''request not null terminated: '' @ padl (length buf) (cstr buf) @ [NEWLINE]"

definition cant_open_msg :: "string \<Rightarrow> string \<Rightarrow> string" where
  "cant_open_msg path reason = ''can't open '' @ path @ '': '' @ reason @ [NEWLINE]"

definition cli_args :: "string list \<Rightarrow> (opend, int) io" where
  "cli_args argv =
     (if length argv \<noteq> 3 \<or> argv ! 0 \<noteq> CL_OPEN then
        seq_io (modify_io (\<lambda>s. s\<lparr>errmsg := usage_msg\<rparr>)) (ret_io (-1))
      else
        seq_io (modify_io (\<lambda>s. s\<lparr>pathname := argv ! 1, oflag := atoi (argv ! 2)\<rparr>)) (ret_io 0))"

definition on_fd :: "int \<Rightarrow> (usock \<Rightarrow> int \<times> usock) \<Rightarrow> (opend, int) io" where
  "on_fd fd f s = (case f (socks s fd) of (v, u) \<Rightarrow> Inr (v, s\<lparr>socks := (socks s)(fd := u)\<rparr>))"

text \<open>\<open>snprintf(errmsg, MAXLINE-1, ...)\<close>: at most \<open>MAXLINE-2\<close> bytes of the text are kept.\<close>

definition set_errmsg :: "string \<Rightarrow> (opend, unit) io" where
  "set_errmsg m = modify_io (\<lambda>s. s\<lparr>errmsg := take (MAXLINE - 2) m\<rparr>)"

definition send_errmsg :: "int \<Rightarrow> (opend, unit) io" where
  "send_errmsg fd = bind_io (gets_io errmsg) (\<lambda>m. seq_io (on_fd fd (send_err (-1) m)) (ret_io ()))"

text \<open>\<open>log_msg(errmsg)\<close>: the message is the format.\<close>

definition log_errmsg :: "(opend, unit) io" where
  "log_errmsg = bind_io (gets_io errmsg) (\<lambda>m. if format_plain m then ret_io () else fail_io (Undefined ''format of log_msg''))"

definition handle_request ::
  "(string \<Rightarrow> int \<Rightarrow> int + int) \<Rightarrow> (int \<Rightarrow> string) \<Rightarrow> string \<Rightarrow> int \<Rightarrow> 32 word \<Rightarrow> (opend, unit) io" where
  "handle_request sysopen strerror buf clifd uid =
     (if buf = [] then fail_io (Undefined ''buf[-1]'')
      else if last buf \<noteq> NUL then
        seq_io (set_errmsg (unterminated_msg uid buf))
          (send_errmsg clifd)
      else
        bind_io (buf_args cli_args buf) (\<lambda>r.
        if r < 0 then seq_io (send_errmsg clifd) log_errmsg
        else
          bind_io (gets_io (\<lambda>s. (pathname s, oflag s))) (\<lambda>(path, fl).
          case sysopen path fl of
            Inl errno \<Rightarrow>
              seq_io (set_errmsg (cant_open_msg path (strerror errno)))
                (seq_io (send_errmsg clifd) log_errmsg)
          | Inr newfd \<Rightarrow>
              seq_io (modify_io (\<lambda>s. s\<lparr>openfds := newfd # openfds s\<rparr>))
                (bind_io (on_fd clifd (send_fd newfd)) (\<lambda>v.
                 if v < 0 then fail_io (SysExit ''send_fd error'')
                 else modify_io (\<lambda>s. s\<lparr>openfds := remove1 newfd (openfds s)\<rparr>))))))"

text \<open>The server that its client forks: the same without log and user ID, on standard output.\<close>

definition handle_request_fe ::
  "(string \<Rightarrow> int \<Rightarrow> int + int) \<Rightarrow> (int \<Rightarrow> string) \<Rightarrow> string \<Rightarrow> int \<Rightarrow> (opend, unit) io" where
  "handle_request_fe sysopen strerror buf fd =
     (if buf = [] then fail_io (Undefined ''buf[-1]'')
      else if last buf \<noteq> NUL then
        seq_io (set_errmsg (unterminated_msg_fe buf)) (send_errmsg fd)
      else
        bind_io (buf_args cli_args buf) (\<lambda>r.
        if r < 0 then send_errmsg fd
        else
          bind_io (gets_io (\<lambda>s. (pathname s, oflag s))) (\<lambda>(path, fl).
          case sysopen path fl of
            Inl errno \<Rightarrow> seq_io (set_errmsg (cant_open_msg path (strerror errno))) (send_errmsg fd)
          | Inr newfd \<Rightarrow>
              seq_io (modify_io (\<lambda>s. s\<lparr>openfds := newfd # openfds s\<rparr>))
                (bind_io (on_fd fd (send_fd newfd)) (\<lambda>v.
                 if v < 0 then fail_io (SysExit ''send_fd error'')
                 else modify_io (\<lambda>s. s\<lparr>openfds := remove1 newfd (openfds s)\<rparr>))))))"

text \<open>
  Its main loop reads requests from standard input until the client closes the pipe. One more
  step than there are events and bytes to read is enough.
\<close>

definition read_fd :: "int \<Rightarrow> nat \<Rightarrow> (opend, string option) io" where
  "read_fd fd n s =
     (case sys_read n (us_chan (socks s fd)) of
        (r, c) \<Rightarrow> Inr (r, s\<lparr>socks := (socks s)(fd := (socks s fd)\<lparr>us_chan := c\<rparr>)\<rparr>))"

fun opend_fe_loop :: "nat \<Rightarrow> (string \<Rightarrow> int \<Rightarrow> int + int) \<Rightarrow> (int \<Rightarrow> string) \<Rightarrow> (opend, unit) io" where
  "opend_fe_loop 0 sysopen strerror = fail_io Diverges"
| "opend_fe_loop (Suc fuel) sysopen strerror =
     bind_io (read_fd 0 MAXLINE) (\<lambda>r.
     case r of
       None \<Rightarrow> fail_io (SysExit ''read error on stream pipe'')
     | Some buf \<Rightarrow>
         if buf = [] then fail_io (Exit 0)
         else seq_io (handle_request_fe sysopen strerror buf 1) (opend_fe_loop fuel sysopen strerror))"

fun events_size :: "rd_event list \<Rightarrow> nat" where
  "events_size [] = 0"
| "events_size (Data bs # es) = length bs + Suc (events_size es)"
| "events_size (e # es) = Suc (events_size es)"

definition opend_fe_main :: "(string \<Rightarrow> int \<Rightarrow> int + int) \<Rightarrow> (int \<Rightarrow> string) \<Rightarrow> (opend, unit) io" where
  "opend_fe_main sysopen strerror s = opend_fe_loop (Suc (events_size (c_in (us_chan (socks s 0))))) sysopen strerror s"

section \<open>The clients\<close>

text \<open>
  The client's side: the connection once it is made, whether a server is at its other end, the
  messages that will arrive on it, and what was written to standard error.
\<close>

record csclient =
  cs_conn :: "chan option"
  cs_server :: bool
  cs_in :: "umsg list"
  cs_err :: string

definition csopen_request :: "string \<Rightarrow> int \<Rightarrow> string" where
  "csopen_request name fl = CL_OPEN @ '' '' @ cstr name @ '' '' @ dec_int fl @ [NUL]"

text \<open>
  What both versions do on an open connection; \<open>bufsz\<close> is the size of the buffer for the flag,
  \<open>mem\<close> and \<open>user\<close> are those of \<open>recv_fd\<close>. With no server at the other end the client, which
  holds that end open itself, waits for ever.
\<close>

definition csopen_on :: "nat \<Rightarrow> bool \<Rightarrow> (string \<Rightarrow> int) \<Rightarrow> string \<Rightarrow> int \<Rightarrow> chan \<Rightarrow> (csclient, int) io" where
  "csopen_on bufsz mem user name fl c s =
     (if bufsz < length ('' '' @ dec_int fl) + 1 then Inl (Undefined ''sprintf overflows buf'')
      else
        let req = csopen_request name fl in
        case sys_write req c of
          (n, c') \<Rightarrow>
            let s1 = s\<lparr>cs_conn := Some c'\<rparr> in
            if n \<noteq> int (length req) then Inr (-1, s1)
            else if \<not> cs_server s1 then Inl Blocked
            else case recv_fd mem user (cs_in s1) of
              Inl e \<Rightarrow> Inl e
            | Inr (fd, out, rest) \<Rightarrow> Inr (fd, s1\<lparr>cs_in := rest, cs_err := cs_err s1 @ out\<rparr>))"

text \<open>\<open>csopen\<close> of the daemon's client; \<open>dial\<close> is the result of \<open>cli_conn\<close>.\<close>

definition csopen :: "chan option \<Rightarrow> bool \<Rightarrow> (string \<Rightarrow> int) \<Rightarrow> string \<Rightarrow> int \<Rightarrow> (csclient, int) io" where
  "csopen dial mem user name fl s =
     (case cs_conn s of
        Some c \<Rightarrow> csopen_on 12 mem user name fl c s
      | None \<Rightarrow>
          (case dial of
             None \<Rightarrow> Inr (-1, s)
           | Some c \<Rightarrow> csopen_on 12 mem user name fl c (s\<lparr>cs_conn := Some c, cs_server := True\<rparr>)))"

text \<open>\<open>csopen\<close> of the client that forks its server: the results of \<open>fd_pipe\<close> and of \<open>fork\<close>.\<close>

definition csopen_fe :: "chan option \<Rightarrow> bool \<Rightarrow> bool \<Rightarrow> (string \<Rightarrow> int) \<Rightarrow> string \<Rightarrow> int \<Rightarrow> (csclient, int) io" where
  "csopen_fe pipe forked mem user name fl s =
     (case cs_conn s of
        Some c \<Rightarrow> csopen_on 10 mem user name fl c s
      | None \<Rightarrow>
          (case pipe of
             None \<Rightarrow> Inr (-1, s)
           | Some c \<Rightarrow>
               let s1 = s\<lparr>cs_conn := Some c, cs_server := forked\<rparr> in
               if \<not> forked then Inr (-1, s1)
               else csopen_on 10 mem user name fl c s1))"

section \<open>Tokens\<close>

lemma tokens_white: "is_white c \<Longrightarrow> tokens (c # s) = tokens s"
  by (subst (1 2) tokens.simps) (simp add: Let_def)

lemma tokens_Nil [simp]: "tokens [] = []"
  by (simp add: tokens.simps)

lemma tokens_word:
  assumes "w \<noteq> []" "\<forall>c \<in> set w. \<not> is_white c" "r = [] \<or> is_white (hd r)"
  shows "tokens (w @ r) = w # tokens r"
proof -
  have d: "dropWhile is_white (w @ r) = w @ r" using assms(1,2) by (cases w) auto
  have t: "takeWhile (\<lambda>c. \<not> is_white c) (w @ r) = w" "dropWhile (\<lambda>c. \<not> is_white c) (w @ r) = r"
    using assms(2,3) by (induction w) (auto, (cases r; simp)+)
  show ?thesis by (subst tokens.simps) (simp add: d t Let_def assms(1))
qed

lemma white_simps [simp]: "is_white SPACE" "isdigit c \<Longrightarrow> \<not> is_white c"
  by (auto simp: is_white_def isdigit_def)

lemma request_args:
  assumes "name \<noteq> []" "NUL \<notin> set name" "\<forall>c \<in> set name. \<not> is_white c" "0 \<le> fl"
  shows "buf_args f (csopen_request name fl) = f [CL_OPEN, name, dec (nat fl)]"
proof -
  let ?t = "CL_OPEN @ SPACE # name @ SPACE # dec (nat fl)"
  have r: "csopen_request name fl = ?t @ [NUL]"
    using assms(2,4) by (simp add: csopen_request_def dec_int_def)
  have n: "NUL \<notin> set ?t" using assms(2) by simp
  then have c: "cstr (csopen_request name fl) = ?t" unfolding r by (rule cstr_append_nul)
  have "tokens ?t = CL_OPEN # tokens (SPACE # name @ SPACE # dec (nat fl))"
    by (rule tokens_word) (auto simp: is_white_def)
  also have "\<dots> = CL_OPEN # tokens (name @ SPACE # dec (nat fl))" by (simp only: tokens_white white_simps)
  also have "\<dots> = CL_OPEN # name # tokens (SPACE # dec (nat fl))" using tokens_word [OF assms(1,3), of "SPACE # dec (nat fl)"] by simp
  also have "\<dots> = CL_OPEN # name # tokens (dec (nat fl))" by (simp only: tokens_white white_simps)
  also have "\<dots> = [CL_OPEN, name, dec (nat fl)]" using tokens_word [of "dec (nat fl)" "[]"] dec_digits by auto
  finally have "tokens ?t = [CL_OPEN, name, dec (nat fl)]" .
  moreover have "takeWhile is_white ?t = []" by (simp add: is_white_def)
  ultimately show ?thesis by (simp add: buf_args_def c)
qed

section \<open>Replies\<close>

text \<open>A connection on which no call fails, and the answers that a request can get on it.\<close>

definition ready_sock :: "usock \<Rightarrow> bool" where
  "ready_sock u \<longleftrightarrow> c_wr (us_chan u) = [] \<and> us_malloc u = []"

definition sent_fd :: "int \<Rightarrow> usock \<Rightarrow> usock \<Rightarrow> bool" where
  "sent_fd newfd u u' \<longleftrightarrow> ready_sock u' \<and> c_in (us_chan u') = c_in (us_chan u) \<and>
     c_out (us_chan u') = c_out (us_chan u) @ [NUL, NUL] \<and> us_ctl u' = us_ctl u @ [(length (c_out (us_chan u)), newfd, None)]"

definition sent_msg :: "string \<Rightarrow> usock \<Rightarrow> usock \<Rightarrow> bool" where
  "sent_msg m u u' \<longleftrightarrow> ready_sock u' \<and> c_in (us_chan u') = c_in (us_chan u) \<and>
     c_out (us_chan u') = c_out (us_chan u) @ m @ [NUL, CHR 0x01] \<and> us_ctl u' = us_ctl u"

lemma send_fd_ready:
  assumes "ready_sock u" "0 \<le> fd"
  shows "\<exists>u'. send_fd fd u = (0, u') \<and> sent_fd fd u u'"
  using assms
  by (cases "us_cmsg u")
    (simp_all add: send_fd_def send_fd_with_def get_cmsg_def sendmsg2_def sys_write_def ready_sock_def sent_fd_def)

lemma status_byte_1: "status_byte (-1) = CHR 0x01"
proof -
  have "of_char (status_byte (-1)) = (of_char (CHR 0x01) :: nat)" by (simp add: of_char_status Let_def)
  then show ?thesis by (simp only: of_char_eq_iff)
qed

lemma send_err_ready:
  assumes "ready_sock u" "NUL \<notin> set m"
  shows "\<exists>u'. send_err (-1) m u = (0, u') \<and> sent_msg m u u'"
proof -
  have "writen m (us_chan u) = (int (length m), (us_chan u)\<lparr>c_out := c_out (us_chan u) @ m\<rparr>)"
    using assms(1) by (cases "m = []")
      (auto simp: writen_def ready_sock_def sys_write_def write_loop.simps [of _ m] write_loop.simps [of _ "[]"])
  with assms show ?thesis
    by (cases "m = []")
      (auto simp: send_err_def send_fd_def send_fd_with_def sendmsg2_def sys_write_def ready_sock_def sent_msg_def status_byte_1 Let_def)
qed

lemma send_errmsg_run:
  assumes "ready_sock (socks s fd)" "NUL \<notin> set (errmsg s)"
  shows "\<exists>u. send_errmsg fd s = Inr ((), s\<lparr>socks := (socks s)(fd := u)\<rparr>) \<and> sent_msg (errmsg s) (socks s fd) u"
  using send_err_ready [OF assms] by (auto simp: send_errmsg_def on_fd_def io_simps)

lemma NUL_not_in_messages [simp]:
  "NUL \<notin> set usage_msg" "NUL \<notin> set (unterminated_msg uid buf)" "NUL \<notin> set (unterminated_msg_fe buf)"
  "NUL \<in> set (cant_open_msg path reason) \<longleftrightarrow> NUL \<in> set path \<or> NUL \<in> set reason"
  by (auto simp: usage_msg_def unterminated_msg_def unterminated_msg_fe_def cant_open_msg_def dec_int_def padl_def)

lemma tokens_set: "t \<in> set (tokens s) \<Longrightarrow> set t \<subseteq> set s"
proof (induction s rule: tokens.induct)
  case (1 s)
  let ?t = "dropWhile is_white s"
  have sub: "set ?t \<subseteq> set s" by (auto dest: set_dropWhileD)
  show ?case
  proof (cases "?t = []")
    case True
    with "1.prems" show ?thesis by (simp add: tokens.simps [of s])
  next
    case False
    with "1.prems" have "t = takeWhile (\<lambda>c. \<not> is_white c) ?t \<or> t \<in> set (tokens (dropWhile (\<lambda>c. \<not> is_white c) ?t))"
      unfolding tokens.simps [of s] Let_def by (simp del: dropWhile_eq_Nil_conv)
    then show ?thesis
    proof
      assume "t = takeWhile (\<lambda>c. \<not> is_white c) ?t"
      then show ?thesis using sub by (auto dest: set_takeWhileD)
    next
      assume "t \<in> set (tokens (dropWhile (\<lambda>c. \<not> is_white c) ?t))"
      then have "set t \<subseteq> set (dropWhile (\<lambda>c. \<not> is_white c) ?t)" using "1.IH" [OF refl False] by blast
      also have "\<dots> \<subseteq> set ?t" by (auto dest: set_dropWhileD)
      finally show ?thesis using sub by blast
    qed
  qed
qed

text \<open>What parsing a request does to the server: a usage message, or a path and flags.\<close>

lemma buf_args_cli_args:
  "\<exists>r s'. buf_args cli_args buf s = Inr (r, s') \<and> ctab s' = ctab s \<and> socks s' = socks s \<and> openfds s' = openfds s \<and>
     (errmsg s' = errmsg s \<or> errmsg s' = usage_msg) \<and>
     (\<not> r < 0 \<longrightarrow> NUL \<notin> set (pathname s'))"
proof (cases "tokens (cstr buf)")
  case (Cons t ts)
  have "NUL \<notin> set x" if "x \<in> set (tokens (cstr buf))" for x
    using tokens_set [OF that] nul_notin_cstr [of buf] by blast
  then have "ts ! 0 \<in> set ts \<Longrightarrow> NUL \<notin> set (ts ! 0)" using Cons by simp
  then show ?thesis using Cons by (cases ts) (auto simp: buf_args_def cli_args_def io_simps nth_Cons)
qed (auto simp: buf_args_def io_simps)

definition replied :: "usock \<Rightarrow> usock \<Rightarrow> bool" where
  "replied u u' \<longleftrightarrow> (\<exists>newfd. 0 \<le> newfd \<and> sent_fd newfd u u') \<or> (\<exists>m. NUL \<notin> set m \<and> sent_msg m u u')"

definition only_sock :: "int \<Rightarrow> opend \<Rightarrow> opend \<Rightarrow> bool" where
  "only_sock fd s s' \<longleftrightarrow> ctab s' = ctab s \<and> openfds s' = openfds s \<and> (\<forall>f. f \<noteq> fd \<longrightarrow> socks s' f = socks s f)"

lemma reply_errmsg:
  assumes "ready_sock (socks s fd)" "NUL \<notin> set (errmsg s)"
  shows "\<exists>s'. send_errmsg fd s = Inr ((), s') \<and> only_sock fd s s' \<and> sent_msg (errmsg s) (socks s fd) (socks s' fd) \<and> errmsg s' = errmsg s"
  using send_errmsg_run [OF assms] by (auto simp: only_sock_def)

lemma handle_request_answers:
  assumes buf: "buf \<noteq> []" and ready: "ready_sock (socks s clifd)" and msg: "NUL \<notin> set (errmsg s)"
    and opn: "\<And>p f fd. sysopen p f = Inr fd \<Longrightarrow> 0 \<le> fd" and str: "\<And>e. NUL \<notin> set (strerror e)"
  shows "handle_request sysopen strerror buf clifd uid s = Inl (Undefined ''format of log_msg'') \<or>
    (\<exists>s'. handle_request sysopen strerror buf clifd uid s = Inr ((), s') \<and> only_sock clifd s s' \<and>
       replied (socks s clifd) (socks s' clifd) \<and> NUL \<notin> set (errmsg s'))"
proof (cases "last buf = NUL")
  case False
  let ?m = "take (MAXLINE - 2) (unterminated_msg uid buf)"
  have n: "NUL \<notin> set (errmsg (s\<lparr>errmsg := ?m\<rparr>))"
    by (auto dest!: in_set_takeD)
  obtain s' where "send_errmsg clifd (s\<lparr>errmsg := ?m\<rparr>) = Inr ((), s')" "only_sock clifd (s\<lparr>errmsg := ?m\<rparr>) s'"
    "sent_msg ?m (socks s clifd) (socks s' clifd)" "errmsg s' = ?m"
    using reply_errmsg [of "s\<lparr>errmsg := ?m\<rparr>" clifd] ready n by auto
  with n False buf show ?thesis
    by (auto simp: handle_request_def set_errmsg_def io_simps only_sock_def replied_def)
next
  case True
  obtain r s1 where r: "buf_args cli_args buf s = Inr (r, s1)" "ctab s1 = ctab s" "socks s1 = socks s" "openfds s1 = openfds s"
    "errmsg s1 = errmsg s \<or> errmsg s1 = usage_msg" "\<not> r < 0 \<longrightarrow> NUL \<notin> set (pathname s1)"
    using buf_args_cli_args [of buf s] by auto
  have e1: "NUL \<notin> set (errmsg s1)" using r(5) msg by auto
  have err: "seq_io (send_errmsg clifd) log_errmsg s2 = Inl (Undefined ''format of log_msg'') \<or>
      (\<exists>s'. seq_io (send_errmsg clifd) log_errmsg s2 = Inr ((), s') \<and> only_sock clifd s s' \<and>
         replied (socks s clifd) (socks s' clifd) \<and> NUL \<notin> set (errmsg s'))"
    if s2: "socks s2 = socks s" "ctab s2 = ctab s" "openfds s2 = openfds s" "NUL \<notin> set (errmsg s2)" for s2
  proof -
    obtain s' where "send_errmsg clifd s2 = Inr ((), s')" "only_sock clifd s2 s'"
      "sent_msg (errmsg s2) (socks s2 clifd) (socks s' clifd)" "errmsg s' = errmsg s2"
      using reply_errmsg [of s2 clifd] ready s2 by auto
    with s2 show ?thesis by (auto simp: log_errmsg_def io_simps only_sock_def replied_def)
  qed
  show ?thesis
  proof (cases "r < 0")
    case neg: True
    from err [OF r(3) r(2) r(4) e1] show ?thesis
      using True buf r(1) neg by (auto simp: handle_request_def io_simps)
  next
    case pos: False
    show ?thesis
    proof (cases "sysopen (pathname s1) (oflag s1)")
      case (Inl e)
      let ?m = "take (MAXLINE - 2) (cant_open_msg (pathname s1) (strerror e))"
      have "NUL \<notin> set (errmsg (s1\<lparr>errmsg := ?m\<rparr>))" using r(6) pos str [of e] by (auto dest!: in_set_takeD)
      from err [OF _ _ _ this] r show ?thesis
        using True buf pos Inl by (auto simp: handle_request_def io_simps set_errmsg_def)
    next
      case (Inr newfd)
      have "0 \<le> newfd" using opn Inr by blast
      from send_fd_ready [OF ready this] obtain u where u: "send_fd newfd (socks s clifd) = (0, u)" "sent_fd newfd (socks s clifd) u" by auto
      have "handle_request sysopen strerror buf clifd uid s = Inr ((), s1\<lparr>socks := (socks s)(clifd := u)\<rparr>)"
        using True buf r pos Inr u by (simp add: handle_request_def io_simps on_fd_def)
      then show ?thesis using u(2) r e1 \<open>0 \<le> newfd\<close> by (auto simp: only_sock_def replied_def)
    qed
  qed
qed

section \<open>The loop of the forked server ends\<close>

lemma rd_next_size: "rd_next n es = (Inr bs, es') \<Longrightarrow> bs \<noteq> [] \<Longrightarrow> 0 < n \<Longrightarrow> events_size es' < events_size es"
proof (induction n es rule: rd_next.induct)
  case (2 n b es)
  then show ?case by (cases "b = []") (auto split: if_splits)
qed auto

lemma send_errmsg_frame:
  "\<exists>s'. send_errmsg fd s = Inr ((), s') \<and> (\<forall>f. f \<noteq> fd \<longrightarrow> socks s' f = socks s f)"
  by (auto simp: send_errmsg_def on_fd_def io_simps split: prod.splits)

lemma handle_request_fe_frame:
  "(\<exists>e. handle_request_fe sysopen strerror buf fd s = Inl e \<and> e \<noteq> Diverges) \<or>
   (\<exists>s'. handle_request_fe sysopen strerror buf fd s = Inr ((), s') \<and> (\<forall>f. f \<noteq> fd \<longrightarrow> socks s' f = socks s f))"
proof -
  obtain r s1 where r: "buf_args cli_args buf s = Inr (r, s1)" "socks s1 = socks s"
    using buf_args_cli_args [of buf s] by auto
  have e: "\<exists>s'. send_errmsg fd s2 = Inr ((), s') \<and> (\<forall>f. f \<noteq> fd \<longrightarrow> socks s' f = socks s f)" if "socks s2 = socks s" for s2
    using send_errmsg_frame [of fd s2] that by simp
  show ?thesis
    using r e [of s1] e [of "s\<lparr>errmsg := take (MAXLINE - 2) (unterminated_msg_fe buf)\<rparr>"]
      e [of "s1\<lparr>errmsg := take (MAXLINE - 2) (cant_open_msg (pathname s1) (strerror (projl (sysopen (pathname s1) (oflag s1)))))\<rparr>"]
    by (auto simp: handle_request_fe_def io_simps set_errmsg_def on_fd_def split: sum.splits prod.splits)
qed

lemma opend_fe_loop_ends:
  "events_size (c_in (us_chan (socks s 0))) < fuel \<Longrightarrow> \<exists>e. opend_fe_loop fuel sysopen strerror s = Inl e \<and> e \<noteq> Diverges"
proof (induction fuel arbitrary: s)
  case (Suc fuel)
  let ?c = "us_chan (socks s 0)"
  obtain r c where rd: "sys_read MAXLINE ?c = (r, c)" by (cases "sys_read MAXLINE ?c")
  show ?case
  proof (cases "r = None \<or> r = Some []")
    case True
    with rd show ?thesis by (auto simp: read_fd_def io_simps)
  next
    case False
    then obtain buf where buf: "r = Some buf" "buf \<noteq> []" by (cases r) auto
    let ?s1 = "s\<lparr>socks := (socks s)(0 := (socks s 0)\<lparr>us_chan := c\<rparr>)\<rparr>"
    have "events_size (c_in c) < events_size (c_in ?c)"
      using rd buf rd_next_size [of MAXLINE "c_in ?c" buf "c_in c"] by (auto simp: sys_read_def split: prod.splits sum.splits)
    then have m: "events_size (c_in (us_chan (socks ?s1 0))) < fuel" using Suc.prems by simp
    have step: "opend_fe_loop (Suc fuel) sysopen strerror s =
        seq_io (handle_request_fe sysopen strerror buf 1) (opend_fe_loop fuel sysopen strerror) ?s1"
      using rd buf by (simp add: read_fd_def io_simps)
    from handle_request_fe_frame [of sysopen strerror buf 1 ?s1] show ?thesis
    proof
      assume "\<exists>e. handle_request_fe sysopen strerror buf 1 ?s1 = Inl e \<and> e \<noteq> Diverges"
      with step show ?thesis by (auto simp: io_simps)
    next
      assume "\<exists>s'. handle_request_fe sysopen strerror buf 1 ?s1 = Inr ((), s') \<and> (\<forall>f. f \<noteq> 1 \<longrightarrow> socks s' f = socks ?s1 f)"
      then obtain s' where s': "handle_request_fe sysopen strerror buf 1 ?s1 = Inr ((), s')" "socks s' 0 = socks ?s1 0" by auto
      with m have "events_size (c_in (us_chan (socks s' 0))) < fuel" by simp
      from Suc.IH [OF this] step s'(1) show ?thesis by (simp add: io_simps)
    qed
  qed
qed simp

lemma opend_fe_main_ends: "\<exists>e. opend_fe_main sysopen strerror s = Inl e \<and> e \<noteq> Diverges"
  unfolding opend_fe_main_def by (rule opend_fe_loop_ends) simp

section \<open>Properties\<close>

lemma fresh_ready: "fresh_sock u \<Longrightarrow> ready_sock u"
  by (simp add: fresh_sock_def ready_sock_def)

lemma recv_sent_fd:
  assumes "fresh_sock u" "sent_fd newfd u u'" "delivers 0 (c_out (us_chan u')) (us_ctl u') ms" "tail_whole ms"
    and "\<And>x. user x = int (length x)"
  shows "recv_fd True user ms = Inr (newfd, [], [])"
  using recv_delivered [of 0 "[]" NUL "us_ctl u'" ms user "\<lambda>x. True"] assms
  by (auto simp: recv_fd_def sent_fd_def fresh_sock_def)

lemma recv_sent_msg:
  assumes "fresh_sock u" "sent_msg m u u'" "NUL \<notin> set m" "delivers 0 (c_out (us_chan u')) (us_ctl u') ms" "tail_whole ms"
    and "\<And>x. user x = int (length x)"
  shows "recv_fd True user ms = Inr (-1, m, [])"
  using recv_delivered [of 0 m "CHR 0x01" "us_ctl u'" ms user "\<lambda>x. True"] assms
  by (auto simp: recv_fd_def sent_msg_def fresh_sock_def)

text \<open>The server's run on a request of \<open>csopen\<close>.\<close>

lemma handle_request_run:
  assumes name: "name \<noteq> []" "NUL \<notin> set name" "\<forall>c \<in> set name. \<not> is_white c" and fl: "0 \<le> fl" "fl < 2 ^ 31"
    and ready: "ready_sock (socks s clifd)"
  shows "sysopen name fl = Inr newfd \<Longrightarrow> 0 \<le> newfd \<Longrightarrow>
      \<exists>s'. handle_request sysopen strerror (csopen_request name fl) clifd uid s = Inr ((), s') \<and> only_sock clifd s s' \<and>
        sent_fd newfd (socks s clifd) (socks s' clifd)"
    and "sysopen name fl = Inl e \<Longrightarrow> NUL \<notin> set (strerror e) \<Longrightarrow>
      m = take (MAXLINE - 2) (cant_open_msg name (strerror e)) \<Longrightarrow> format_plain m \<Longrightarrow>
      \<exists>s'. handle_request sysopen strerror (csopen_request name fl) clifd uid s = Inr ((), s') \<and> only_sock clifd s s' \<and>
        sent_msg m (socks s clifd) (socks s' clifd) \<and> NUL \<notin> set m"
proof -
  have req: "csopen_request name fl \<noteq> []" "last (csopen_request name fl) = NUL" by (simp_all add: csopen_request_def)
  let ?s1 = "s\<lparr>pathname := name, oflag := fl\<rparr>"
  have "atoi (dec (nat fl)) = fl" using atoi_dec [of "nat fl"] fl by simp
  then have args: "buf_args cli_args (csopen_request name fl) s = Inr (0, ?s1)"
    by (simp add: request_args [OF name fl(1)] cli_args_def io_simps)
  note run = handle_request_def io_simps req args
  {
    assume "sysopen name fl = Inr newfd" "0 \<le> newfd"
    moreover from send_fd_ready [OF ready this(2)] obtain u where
      "send_fd newfd (socks s clifd) = (0, u)" "sent_fd newfd (socks s clifd) u" by auto
    ultimately show "\<exists>s'. handle_request sysopen strerror (csopen_request name fl) clifd uid s = Inr ((), s') \<and> only_sock clifd s s' \<and>
        sent_fd newfd (socks s clifd) (socks s' clifd)"
      by (simp add: run on_fd_def only_sock_def)
  next
    assume e: "sysopen name fl = Inl e" "NUL \<notin> set (strerror e)" "m = take (MAXLINE - 2) (cant_open_msg name (strerror e))" "format_plain m"
    have n: "NUL \<notin> set m" using e(2,3) name(2) by (auto dest!: in_set_takeD)
    obtain s' where "send_errmsg clifd (?s1\<lparr>errmsg := m\<rparr>) = Inr ((), s')" "only_sock clifd (?s1\<lparr>errmsg := m\<rparr>) s'"
      "sent_msg m (socks s clifd) (socks s' clifd)" "errmsg s' = m"
      using reply_errmsg [of "?s1\<lparr>errmsg := m\<rparr>" clifd] ready n by auto
    with e(1,4) e(3) [symmetric] n show "\<exists>s'. handle_request sysopen strerror (csopen_request name fl) clifd uid s = Inr ((), s') \<and> only_sock clifd s s' \<and>
        sent_msg m (socks s clifd) (socks s' clifd) \<and> NUL \<notin> set m"
      by (simp add: run set_errmsg_def log_errmsg_def only_sock_def)
  }
qed

lemma csopen_run:
  assumes "cs_conn cl = Some c" "c_wr c = []" "cs_server cl" "0 \<le> fl" "fl < 2 ^ 31" "recv_fd True user (cs_in cl) = Inr (fd, out, rest)"
  shows "csopen dial True user name fl cl =
    Inr (fd, cl\<lparr>cs_conn := Some (c\<lparr>c_out := c_out c @ csopen_request name fl\<rparr>), cs_in := rest, cs_err := cs_err cl @ out\<rparr>)"
proof -
  have "length (dec (nat fl)) \<le> 10" using length_dec_le [of "nat fl" 10] assms(4,5) by simp
  then have "\<not> 12 < length ('' '' @ dec_int fl) + 1" using assms(4) by (simp add: dec_int_def)
  with assms show ?thesis by (simp add: csopen_def csopen_on_def sys_write_def Let_def)
qed

text \<open>C19: opening through the server. When the server handles the request that \<open>csopen\<close> writes
  for a path without white space, \<open>csopen\<close> returns the descriptor that the server's \<open>open\<close>
  returned for that path and these flags, and the server keeps no copy of it; when that \<open>open\<close>
  fails, \<open>csopen\<close> returns -1 and the reason appears on standard error, cut at 4094 bytes (unless
  the path makes the server's log call undefined). The server is taken to have the whole
  request, which its loop reads in one piece when it is not longer than \<open>MAXLINE\<close>, and the null
  and status bytes of its answer to arrive together.\<close>

theorem open_server_roundtrip:
  assumes name: "name \<noteq> []" "NUL \<notin> set name" "\<forall>c \<in> set name. \<not> is_white c" and fl: "0 \<le> fl" "fl < 2 ^ 31"
    and fresh: "fresh_sock (socks s clifd)" and user: "\<And>x. user x = int (length x)"
    and cl: "cs_conn cl = Some c" "c_wr c = []" "cs_server cl"
  shows "case sysopen name fl of
      Inr newfd \<Rightarrow> 0 \<le> newfd \<longrightarrow>
        (\<exists>s'. handle_request sysopen strerror (csopen_request name fl) clifd uid s = Inr ((), s') \<and> openfds s' = openfds s \<and>
          (\<forall>ms. delivers 0 (c_out (us_chan (socks s' clifd))) (us_ctl (socks s' clifd)) ms \<longrightarrow> tail_whole ms \<longrightarrow>
             csopen dial True user name fl (cl\<lparr>cs_in := ms\<rparr>) =
               Inr (newfd, cl\<lparr>cs_conn := Some (c\<lparr>c_out := c_out c @ csopen_request name fl\<rparr>), cs_in := []\<rparr>)))
    | Inl e \<Rightarrow> NUL \<notin> set (strerror e) \<longrightarrow> format_plain (take (MAXLINE - 2) (cant_open_msg name (strerror e))) \<longrightarrow>
        (\<exists>s'. handle_request sysopen strerror (csopen_request name fl) clifd uid s = Inr ((), s') \<and> openfds s' = openfds s \<and>
          (\<forall>ms. delivers 0 (c_out (us_chan (socks s' clifd))) (us_ctl (socks s' clifd)) ms \<longrightarrow> tail_whole ms \<longrightarrow>
             csopen dial True user name fl (cl\<lparr>cs_in := ms\<rparr>) =
               Inr (-1, cl\<lparr>cs_conn := Some (c\<lparr>c_out := c_out c @ csopen_request name fl\<rparr>), cs_in := [],
                          cs_err := cs_err cl @ take (MAXLINE - 2) (cant_open_msg name (strerror e))\<rparr>)))"
proof (cases "sysopen name fl")
  case (Inr newfd)
  {
    assume "0 \<le> newfd"
    with handle_request_run(1) [of name fl s clifd sysopen newfd strerror uid, OF name fl fresh_ready [OF fresh] Inr]
    obtain s' where s': "handle_request sysopen strerror (csopen_request name fl) clifd uid s = Inr ((), s')" "openfds s' = openfds s"
      "sent_fd newfd (socks s clifd) (socks s' clifd)" by (auto simp: only_sock_def)
    have "csopen dial True user name fl (cl\<lparr>cs_in := ms\<rparr>) =
        Inr (newfd, cl\<lparr>cs_conn := Some (c\<lparr>c_out := c_out c @ csopen_request name fl\<rparr>), cs_in := []\<rparr>)"
      if "delivers 0 (c_out (us_chan (socks s' clifd))) (us_ctl (socks s' clifd)) ms" "tail_whole ms" for ms
      using csopen_run [of "cl\<lparr>cs_in := ms\<rparr>" c fl user newfd "[]" "[]" dial name]
        recv_sent_fd [OF fresh s'(3) that user] cl fl by simp
    with s' have "\<exists>s'. handle_request sysopen strerror (csopen_request name fl) clifd uid s = Inr ((), s') \<and> openfds s' = openfds s \<and>
          (\<forall>ms. delivers 0 (c_out (us_chan (socks s' clifd))) (us_ctl (socks s' clifd)) ms \<longrightarrow> tail_whole ms \<longrightarrow>
             csopen dial True user name fl (cl\<lparr>cs_in := ms\<rparr>) =
               Inr (newfd, cl\<lparr>cs_conn := Some (c\<lparr>c_out := c_out c @ csopen_request name fl\<rparr>), cs_in := []\<rparr>))"
      by blast
  }
  with Inr show ?thesis by simp
next
  case (Inl e)
  let ?m = "take (MAXLINE - 2) (cant_open_msg name (strerror e))"
  {
    assume "NUL \<notin> set (strerror e)" "format_plain ?m"
    with handle_request_run(2) [of name fl s clifd sysopen e strerror ?m uid, OF name fl fresh_ready [OF fresh] Inl _ refl]
    obtain s' where s': "handle_request sysopen strerror (csopen_request name fl) clifd uid s = Inr ((), s')" "openfds s' = openfds s"
      "sent_msg ?m (socks s clifd) (socks s' clifd)" "NUL \<notin> set ?m" by (auto simp: only_sock_def)
    have "csopen dial True user name fl (cl\<lparr>cs_in := ms\<rparr>) =
        Inr (-1, cl\<lparr>cs_conn := Some (c\<lparr>c_out := c_out c @ csopen_request name fl\<rparr>), cs_in := [], cs_err := cs_err cl @ ?m\<rparr>)"
      if "delivers 0 (c_out (us_chan (socks s' clifd))) (us_ctl (socks s' clifd)) ms" "tail_whole ms" for ms
      using csopen_run [of "cl\<lparr>cs_in := ms\<rparr>" c fl user "-1" ?m "[]" dial name]
        recv_sent_msg [OF fresh s'(3,4) that user] cl fl by simp
    with s' have "\<exists>s'. handle_request sysopen strerror (csopen_request name fl) clifd uid s = Inr ((), s') \<and> openfds s' = openfds s \<and>
          (\<forall>ms. delivers 0 (c_out (us_chan (socks s' clifd))) (us_ctl (socks s' clifd)) ms \<longrightarrow> tail_whole ms \<longrightarrow>
             csopen dial True user name fl (cl\<lparr>cs_in := ms\<rparr>) =
               Inr (-1, cl\<lparr>cs_conn := Some (c\<lparr>c_out := c_out c @ csopen_request name fl\<rparr>), cs_in := [], cs_err := cs_err cl @ ?m\<rparr>))"
      by blast
  }
  with Inl show ?thesis by simp
qed

definition sample_opend :: opend where
  "sample_opend = \<lparr>ctab = \<lparr>client = [], ct_junk = (\<lambda>_. 0), ct_malloc = []\<rparr>, errmsg = [], pathname = [], oflag = 0,
     socks = (\<lambda>_. sample_sock), openfds = []\<rparr>"

theorem open_server_roundtrip_witness:
  "\<exists>s'. handle_request (\<lambda>p f. Inr 7) (\<lambda>_. []) (csopen_request ''/etc/motd'' 0) 4 100 sample_opend = Inr ((), s') \<and> openfds s' = []"
proof -
  let ?c = "\<lparr>c_in = [], c_wr = [], c_out = [], c_errno = 0\<rparr>"
  have f: "fresh_sock (socks sample_opend 4)" by (simp add: sample_opend_def sample_sock_def fresh_sock_def)
  have w: "\<forall>c \<in> set ''/etc/motd''. \<not> is_white c" by (simp add: is_white_def)
  show ?thesis
    using open_server_roundtrip [where name = "''/etc/motd''" and fl = 0 and s = sample_opend and clifd = 4
        and user = "\<lambda>x. int (length x)" and cl = "\<lparr>cs_conn = Some ?c, cs_server = True, cs_in = [], cs_err = []\<rparr>" and c = ?c
        and sysopen = "\<lambda>p f. Inr 7" and strerror = "\<lambda>_. []" and uid = 100] f w
    by (auto simp: sample_opend_def)
qed

text \<open>C22: every request is answered once. Whatever bytes a client sends, handling them ends with
  exactly one answer on that client's connection (a descriptor, or a text with an error
  status), no descriptor left open in the server, and nothing changed for other clients; or the
  message, used as a format of the log call, makes the behaviour undefined.\<close>

theorem open_server_answers:
  assumes "buf \<noteq> []" "ready_sock (socks s clifd)" "NUL \<notin> set (errmsg s)"
    and "\<And>p f fd. sysopen p f = Inr fd \<Longrightarrow> 0 \<le> fd" "\<And>e. NUL \<notin> set (strerror e)"
  shows "handle_request sysopen strerror buf clifd uid s = Inl (Undefined ''format of log_msg'') \<or>
    (\<exists>s'. handle_request sysopen strerror buf clifd uid s = Inr ((), s') \<and> only_sock clifd s s' \<and>
       replied (socks s clifd) (socks s' clifd) \<and> NUL \<notin> set (errmsg s'))"
  by (rule handle_request_answers [OF assms])

theorem open_server_answers_witness:
  "\<exists>s'. handle_request (\<lambda>p f. Inr 7) (\<lambda>_. []) ''hello'' 4 100 sample_opend = Inr ((), s') \<and>
     replied (socks sample_opend 4) (socks s' 4)"
proof -
  have l: "handle_request (\<lambda>p f. Inr 7) (\<lambda>_. []) ''hello'' 4 100 sample_opend \<noteq> Inl (Undefined ''format of log_msg'')"
    by (auto simp: handle_request_def io_simps set_errmsg_def send_errmsg_def on_fd_def split: prod.splits)
  have "ready_sock (socks sample_opend 4)" "NUL \<notin> set (errmsg sample_opend)"
    by (simp_all add: sample_opend_def sample_sock_def ready_sock_def)
  then show ?thesis
    using open_server_answers [where buf = "''hello''" and s = sample_opend and clifd = 4 and sysopen = "\<lambda>p f. Inr 7"
        and strerror = "\<lambda>_. []" and uid = 100] l by auto
qed

text \<open>A failed \<open>fork\<close> leaves \<open>csopen\<close> of the forking client stuck. The first call returns -1
  but keeps the pipe; every later call takes it for a connection to a server, writes its request
  into it and waits for an answer that nobody can send.\<close>

theorem csopen_fe_stuck:
  assumes "cs_conn s = None" "c_wr c = []" "0 \<le> fl" "fl < 10 ^ 8"
  shows "\<exists>s1. csopen_fe (Some c) False mem user name' fl' s = Inr (-1, s1) \<and>
    csopen_fe pipe forked mem user name fl s1 = Inl Blocked"
proof -
  have "length (dec (nat fl)) \<le> 8" using length_dec_le [of "nat fl" 8] assms(3,4) by simp
  then have "\<not> 10 < length ('' '' @ dec_int fl) + 1" using assms(3) by (simp add: dec_int_def)
  with assms show ?thesis by (simp add: csopen_fe_def csopen_on_def sys_write_def Let_def)
qed

theorem csopen_fe_stuck_witness:
  "\<exists>s1. csopen_fe (Some \<lparr>c_in = [], c_wr = [], c_out = [], c_errno = 0\<rparr>) False True (\<lambda>x. 0) ''a'' 0
       \<lparr>cs_conn = None, cs_server = False, cs_in = [], cs_err = []\<rparr> = Inr (-1, s1) \<and>
    csopen_fe None True True (\<lambda>x. 0) ''b'' 1 s1 = Inl Blocked"
  by (rule csopen_fe_stuck) simp_all

end
