(* ===== verification/Open_Loop.thy ===== *)
theory Open_Loop
  imports Open_Server
begin

text \<open>
  The main loops of the open server, one turn at a time: the version over \<open>select\<close>
  (\<open>ipc2/opend/loop.select.c\<close>) and the version over \<open>poll\<close> (\<open>ipc2/opend/loop.poll.c\<close>). What the
  kernel reports in a turn is an argument: the ready descriptors, and the connection (its
  descriptor, the user at its other end, the socket) that \<open>serv_accept\<close> returns.
\<close>

section \<open>The loop over select\<close>

text \<open>The server's globals and the locals of \<open>loop\<close>.\<close>

record sloop =
  srv :: opend
  allset :: "int set"
  maxfd :: int
  maxi :: int

abbreviation FD_SETSIZE :: int where "FD_SETSIZE \<equiv> 1024"

type_synonym accepted = "int \<times> 32 word \<times> usock"

definition on_srv :: "(opend, 'a) io \<Rightarrow> (sloop, 'a) io" where
  "on_srv m s = (case m (srv s) of Inl e \<Rightarrow> Inl e | Inr (x, o') \<Rightarrow> Inr (x, s\<lparr>srv := o'\<rparr>))"

definition on_ctab :: "(ctable, 'a) io \<Rightarrow> (opend, 'a) io" where
  "on_ctab m s = (case m (ctab s) of Inl e \<Rightarrow> Inl e | Inr (x, t) \<Rightarrow> Inr (x, s\<lparr>ctab := t\<rparr>))"

text \<open>Before the loop; \<open>listenfd\<close> is the result of \<open>serv_listen\<close>.\<close>

definition select_start :: "int \<Rightarrow> opend \<Rightarrow> exit_reason + sloop" where
  "select_start listenfd s =
     (if listenfd < 0 then Inl (SysExit ''serv_listen error'')
      else if FD_SETSIZE \<le> listenfd then Inl (Undefined ''FD_SET'')
      else Inr \<lparr>srv = s, allset = {listenfd}, maxfd = listenfd, maxi = -1\<rparr>)"

text \<open>A new client.\<close>

definition select_accept :: "accepted \<Rightarrow> (sloop, unit) io" where
  "select_accept a =
     (case a of (clifd, uid, u) \<Rightarrow>
        if clifd < 0 then fail_io (SysExit ''serv_accept error'')
        else
          bind_io (on_srv (on_ctab (client_add clifd uid))) (\<lambda>i.
          if FD_SETSIZE \<le> clifd then fail_io (Undefined ''FD_SET'')
          else
            modify_io (\<lambda>s. s\<lparr>srv := (srv s)\<lparr>socks := (socks (srv s))(clifd := u)\<rparr>,
                             allset := insert clifd (allset s),
                             maxfd := (if maxfd s < clifd then clifd else maxfd s),
                             maxi := (if maxi s < int i then int i else maxi s)\<rparr>)))"

text \<open>One entry of the table, and the walk over the entries.\<close>

definition select_client ::
  "(string \<Rightarrow> int \<Rightarrow> int + int) \<Rightarrow> (int \<Rightarrow> string) \<Rightarrow> int set \<Rightarrow> nat \<Rightarrow> (sloop, unit) io" where
  "select_client sysopen strerror rset i =
     bind_io (gets_io (\<lambda>s. client (ctab (srv s)))) (\<lambda>cs.
     if length cs \<le> i then fail_io (Undefined ''client[i]'')
     else
       let clifd = cl_fd (cs ! i) in
       if clifd < 0 \<or> clifd \<notin> rset then ret_io ()
       else
         bind_io (on_srv (read_fd clifd MAXLINE)) (\<lambda>r.
         case r of
           None \<Rightarrow> fail_io (SysExit ''read error on fd'')
         | Some buf \<Rightarrow>
             if buf = [] then
               seq_io (on_srv (on_ctab (client_del clifd))) (modify_io (\<lambda>s. s\<lparr>allset := allset s - {clifd}\<rparr>))
             else on_srv (handle_request sysopen strerror buf clifd (cl_uid (cs ! i)))))"

fun select_scan ::
  "(string \<Rightarrow> int \<Rightarrow> int + int) \<Rightarrow> (int \<Rightarrow> string) \<Rightarrow> int set \<Rightarrow> nat list \<Rightarrow> (sloop, unit) io" where
  "select_scan sysopen strerror rset [] = ret_io ()"
| "select_scan sysopen strerror rset (i # is) =
     seq_io (select_client sysopen strerror rset i) (select_scan sysopen strerror rset is)"

text \<open>One turn of the loop; \<open>None\<close> is a failed \<open>select\<close>.\<close>

definition select_round ::
  "(string \<Rightarrow> int \<Rightarrow> int + int) \<Rightarrow> (int \<Rightarrow> string) \<Rightarrow> int \<Rightarrow> int set option \<Rightarrow> accepted \<Rightarrow> (sloop, unit) io" where
  "select_round sysopen strerror listenfd sel a =
     (case sel of
        None \<Rightarrow> fail_io (SysExit ''select error'')
      | Some ready \<Rightarrow>
          bind_io (gets_io (\<lambda>s. (allset s \<inter> ready, maxi s))) (\<lambda>(rset, m).
          if listenfd \<in> rset then select_accept a
          else select_scan sysopen strerror rset [0..<nat (m + 1)]))"

section \<open>The loop over poll\<close>

record pollent =
  pf_fd :: int
  pf_in :: bool      \<comment> \<open>\<open>revents & POLLIN\<close>\<close>
  pf_hup :: bool     \<comment> \<open>\<open>revents & POLLHUP\<close>\<close>

text \<open>The array has \<open>maxfd\<close> entries; \<open>pl_malloc\<close> are the outcomes of its coming allocations.\<close>

record ploop =
  psrv :: opend
  pollfd :: "pollent list"
  numfd :: nat
  pl_malloc :: "bool list"

abbreviation free_ent :: pollent where "free_ent \<equiv> \<lparr>pf_fd = -1, pf_in = False, pf_hup = False\<rparr>"

definition on_psrv :: "(opend, 'a) io \<Rightarrow> (ploop, 'a) io" where
  "on_psrv m s = (case m (psrv s) of Inl e \<Rightarrow> Inl e | Inr (x, o') \<Rightarrow> Inr (x, s\<lparr>psrv := o'\<rparr>))"

definition grow_pollfd :: "(ploop, unit) io" where
  "grow_pollfd s =
     (if pl_malloc s \<noteq> [] \<and> \<not> hd (pl_malloc s) then Inl (SysExit ''realloc error'')
      else Inr ((), s\<lparr>pollfd := pollfd s @ replicate NALLOC free_ent, pl_malloc := tl (pl_malloc s)\<rparr>))"

definition poll_start :: "int \<Rightarrow> bool list \<Rightarrow> opend \<Rightarrow> exit_reason + ploop" where
  "poll_start listenfd mem s =
     (if mem \<noteq> [] \<and> \<not> hd mem then Inl (SysExit ''malloc error'')
      else if listenfd < 0 then Inl (SysExit ''serv_listen error'')
      else
        case on_ctab (client_add listenfd 0) s of
          Inl e \<Rightarrow> Inl e
        | Inr (i, s') \<Rightarrow>
            Inr \<lparr>psrv = s', pollfd = (replicate NALLOC free_ent)[0 := free_ent\<lparr>pf_fd := listenfd\<rparr>], numfd = 1, pl_malloc = tl mem\<rparr>)"

definition poll_accept :: "accepted \<Rightarrow> (ploop, unit) io" where
  "poll_accept a =
     (case a of (clifd, uid, u) \<Rightarrow>
        if clifd < 0 then fail_io (SysExit ''serv_accept error'')
        else
          seq_io (on_psrv (on_ctab (client_add clifd uid)))
          (seq_io (\<lambda>s. when_io (numfd s = length (pollfd s)) grow_pollfd s)
            (modify_io (\<lambda>s. s\<lparr>psrv := (psrv s)\<lparr>socks := (socks (psrv s))(clifd := u)\<rparr>,
                              pollfd := (pollfd s)[numfd s := free_ent\<lparr>pf_fd := clifd\<rparr>],
                              numfd := numfd s + 1\<rparr>))))"

text \<open>
  The end of a client's connection (the code at \<open>hungup\<close>); the result is the index at which the
  walk goes on. The last entry takes the place of the one that is gone.
\<close>

definition poll_hungup :: "nat \<Rightarrow> (ploop, nat) io" where
  "poll_hungup i =
     bind_io (gets_io (\<lambda>s. (pollfd s, numfd s, client (ctab (psrv s))))) (\<lambda>(pfd, n, cs).
     if length cs \<le> i then fail_io (Undefined ''client[i]'')
     else
       seq_io (on_psrv (on_ctab (client_del (pf_fd (pfd ! i)))))
         (if i < n - 1
          then seq_io (modify_io (\<lambda>s. s\<lparr>pollfd := pfd[i := pfd ! (n - 1)], numfd := n - 1\<rparr>)) (ret_io i)
          else seq_io (modify_io (\<lambda>s. s\<lparr>numfd := n - 1\<rparr>)) (ret_io (i + 1))))"

text \<open>One entry.\<close>

definition poll_client :: "(string \<Rightarrow> int \<Rightarrow> int + int) \<Rightarrow> (int \<Rightarrow> string) \<Rightarrow> nat \<Rightarrow> (ploop, nat) io" where
  "poll_client sysopen strerror i =
     bind_io (gets_io (\<lambda>s. pollfd s ! i)) (\<lambda>p.
     if pf_hup p then poll_hungup i
     else if pf_in p then
       bind_io (on_psrv (read_fd (pf_fd p) MAXLINE)) (\<lambda>r.
       case r of
         None \<Rightarrow> fail_io (SysExit ''read error on fd'')
       | Some buf \<Rightarrow>
           if buf = [] then poll_hungup i
           else
             bind_io (gets_io (\<lambda>s. client (ctab (psrv s)))) (\<lambda>cs.
             if length cs \<le> i then fail_io (Undefined ''client[i]'')
             else seq_io (on_psrv (handle_request sysopen strerror buf (pf_fd p) (cl_uid (cs ! i)))) (ret_io (i + 1))))
     else ret_io (i + 1))"

text \<open>
  The walk over the entries. Each step goes to the next entry or removes one, so that as many
  steps as there are entries are enough.
\<close>

fun poll_scan :: "nat \<Rightarrow> (string \<Rightarrow> int \<Rightarrow> int + int) \<Rightarrow> (int \<Rightarrow> string) \<Rightarrow> nat \<Rightarrow> (ploop, unit) io" where
  "poll_scan 0 sysopen strerror i = fail_io Diverges"
| "poll_scan (Suc fuel) sysopen strerror i =
     bind_io (gets_io numfd) (\<lambda>n.
     if n \<le> i then ret_io ()
     else bind_io (poll_client sysopen strerror i) (\<lambda>i'. poll_scan fuel sysopen strerror i'))"

text \<open>What \<open>poll\<close> reports, by descriptor: input, hang-up. \<open>None\<close> is a failed call.\<close>

definition set_revents :: "(int \<Rightarrow> bool \<times> bool) \<Rightarrow> nat \<Rightarrow> pollent list \<Rightarrow> pollent list" where
  "set_revents rv n pfd =
     map (\<lambda>p. p\<lparr>pf_in := fst (rv (pf_fd p)), pf_hup := snd (rv (pf_fd p))\<rparr>) (take n pfd) @ drop n pfd"

definition poll_round ::
  "(string \<Rightarrow> int \<Rightarrow> int + int) \<Rightarrow> (int \<Rightarrow> string) \<Rightarrow> (int \<Rightarrow> bool \<times> bool) option \<Rightarrow> accepted \<Rightarrow> (ploop, unit) io" where
  "poll_round sysopen strerror res a =
     (case res of
        None \<Rightarrow> fail_io (SysExit ''poll error'')
      | Some rv \<Rightarrow>
          seq_io (modify_io (\<lambda>s. s\<lparr>pollfd := set_revents rv (numfd s) (pollfd s)\<rparr>))
          (seq_io (\<lambda>s. when_io (pf_in (pollfd s ! 0)) (poll_accept a) s)
            (\<lambda>s. poll_scan (Suc (numfd s)) sysopen strerror 1 s)))"

fun poll_rounds ::
  "(string \<Rightarrow> int \<Rightarrow> int + int) \<Rightarrow> (int \<Rightarrow> string) \<Rightarrow> ((int \<Rightarrow> bool \<times> bool) \<times> accepted) list \<Rightarrow> (ploop, unit) io" where
  "poll_rounds sysopen strerror [] = ret_io ()"
| "poll_rounds sysopen strerror ((rv, a) # ts) =
     seq_io (poll_round sysopen strerror (Some rv) a) (poll_rounds sysopen strerror ts)"

section \<open>Invariant of the select loop\<close>

abbreviation cls :: "sloop \<Rightarrow> Client list" where "cls s \<equiv> client (ctab (srv s))"

text \<open>
  Every connected client is in the part of the table that the walk covers and in the set given
  to \<open>select\<close>, and nothing else but the listening descriptor is in that set.
\<close>

definition select_inv :: "int \<Rightarrow> sloop \<Rightarrow> bool" where
  "select_inv listenfd s \<longleftrightarrow> table_ok (cls s) \<and>
     (\<forall>i < length (cls s). cl_fd (cls s ! i) \<noteq> -1 \<longrightarrow> 0 \<le> cl_fd (cls s ! i) \<and> int i \<le> maxi s) \<and>
     allset s = insert listenfd (dom (clients_of (cls s))) \<and> listenfd \<notin> dom (clients_of (cls s)) \<and>
     (\<forall>f \<in> allset s. f \<le> maxfd s) \<and> -1 \<le> maxi s \<and> maxi s < int (length (cls s))"

text \<open>No call on the connections or for memory fails.\<close>

definition select_calm :: "sloop \<Rightarrow> bool" where
  "select_calm s \<longleftrightarrow> ct_malloc (ctab (srv s)) = [] \<and> NUL \<notin> set (errmsg (srv s)) \<and>
     (\<forall>fd \<in> dom (clients_of (cls s)). ready_sock (socks (srv s) fd))"

text \<open>What a turn does for the entry \<open>i\<close>.\<close>

definition at_eof :: "usock \<Rightarrow> bool" where
  "at_eof u \<longleftrightarrow> fst (sys_read MAXLINE (us_chan u)) = Some []"

definition after_read :: "usock \<Rightarrow> usock" where
  "after_read u = u\<lparr>us_chan := snd (sys_read MAXLINE (us_chan u))\<rparr>"

definition served :: "int set \<Rightarrow> nat \<Rightarrow> sloop \<Rightarrow> sloop \<Rightarrow> bool" where
  "served rset i s s' \<longleftrightarrow>
     (let fd = cl_fd (cls s ! i); u = socks (srv s) fd; u' = socks (srv s') fd in
      if fd < 0 \<or> fd \<notin> rset then cls s' ! i = cls s ! i \<and> (0 \<le> fd \<longrightarrow> u' = u)
      else if at_eof u then cl_fd (cls s' ! i) = -1
      else cls s' ! i = cls s ! i \<and> replied (after_read u) u')"

text \<open>Everything that does not belong to the entries \<open>I\<close> stays.\<close>

definition keeps :: "nat set \<Rightarrow> sloop \<Rightarrow> sloop \<Rightarrow> bool" where
  "keeps I s s' \<longleftrightarrow> length (cls s') = length (cls s) \<and> maxi s' = maxi s \<and>
     (\<forall>j < length (cls s). j \<notin> I \<longrightarrow> cls s' ! j = cls s ! j \<and>
        (0 \<le> cl_fd (cls s ! j) \<longrightarrow> socks (srv s') (cl_fd (cls s ! j)) = socks (srv s) (cl_fd (cls s ! j))))"

abbreviation log_format :: exit_reason where "log_format \<equiv> Undefined ''format of log_msg''"
abbreviation read_failed :: exit_reason where "read_failed \<equiv> SysExit ''read error on fd''"

lemma in_clients:
  assumes "table_ok cs" "i < length cs" "cl_fd (cs ! i) = fd" "fd \<noteq> -1"
  shows "fd \<in> dom (clients_of cs)"
  using clients_of_Some [OF assms(1), of fd "cl_uid (cs ! i)"] assms by auto

lemma other_fd:
  assumes "table_ok cs" "i < length cs" "j < length cs" "i \<noteq> j" "0 \<le> cl_fd (cs ! i)"
  shows "cl_fd (cs ! j) \<noteq> cl_fd (cs ! i)"
  using assms unfolding table_ok_def by auto

lemma after_read_ready: "ready_sock u \<Longrightarrow> ready_sock (after_read u)"
  by (auto simp: ready_sock_def after_read_def sys_read_def split: prod.splits sum.splits)

lemma replied_ready: "replied u u' \<Longrightarrow> ready_sock u'"
  by (auto simp: replied_def sent_fd_def sent_msg_def)

lemma read_fd_run: "read_fd fd MAXLINE o1 = Inr (fst (sys_read MAXLINE (us_chan (socks o1 fd))), o1\<lparr>socks := (socks o1)(fd := after_read (socks o1 fd))\<rparr>)"
  by (simp add: read_fd_def after_read_def split: prod.splits)

text \<open>One entry.\<close>

lemma select_client_step:
  assumes inv: "select_inv listenfd s" and calm: "select_calm s" and i: "i < length (cls s)"
    and opn: "\<And>p f fd. sysopen p f = Inr fd \<Longrightarrow> 0 \<le> fd" and str: "\<And>e. NUL \<notin> set (strerror e)"
  shows "select_client sysopen strerror rset i s \<in> {Inl log_format, Inl read_failed} \<or>
    (\<exists>s'. select_client sysopen strerror rset i s = Inr ((), s') \<and> select_inv listenfd s' \<and> select_calm s' \<and>
       served rset i s s' \<and> keeps {i} s s')"
proof -
  let ?fd = "cl_fd (cls s ! i)" and ?o = "srv s"
  have ok: "table_ok (cls s)" using inv by (simp add: select_inv_def)
  show ?thesis
  proof (cases "?fd < 0 \<or> ?fd \<notin> rset")
    case True
    then show ?thesis using inv calm i
      by (auto simp: select_client_def io_simps Let_def served_def keeps_def)
  next
    case False
    then have fd: "0 \<le> ?fd" "?fd \<in> rset" by auto
    have idom: "?fd \<in> dom (clients_of (cls s))" using in_clients [OF ok i refl] fd(1) by simp
    then have ready: "ready_sock (socks ?o ?fd)" using calm by (simp add: select_calm_def)
    let ?o1 = "?o\<lparr>socks := (socks ?o)(?fd := after_read (socks ?o ?fd))\<rparr>"
    note rd = read_fd_run [of ?fd ?o]
    show ?thesis
    proof (cases "fst (sys_read MAXLINE (us_chan (socks ?o ?fd)))")
      case None
      then show ?thesis using i fd rd by (simp add: select_client_def io_simps Let_def on_srv_def)
    next
      case (Some buf)
      show ?thesis
      proof (cases "buf = []")
        case True
        have f: "find_fd ?fd (cls s) = Some i" using find_fd_at [OF ok i refl] fd(1) by simp
        let ?cs = "(cls s)[i := (cls s ! i)\<lparr>cl_fd := -1\<rparr>]"
        let ?s' = "s\<lparr>srv := ?o1\<lparr>ctab := (ctab ?o)\<lparr>client := ?cs\<rparr>\<rparr>, allset := allset s - {?fd}\<rparr>"
        have run: "select_client sysopen strerror rset i s = Inr ((), ?s')"
          using i fd rd Some True f
          by (simp add: select_client_def io_simps Let_def on_srv_def on_ctab_def client_del_def)
        have t: "table_ok ?cs" "clients_of ?cs = (clients_of (cls s))(?fd := None)"
          using table_remove [OF ok f] fd(1) by auto
        have "select_inv listenfd ?s'" unfolding select_inv_def
          using inv i t idom by (auto simp: select_inv_def nth_list_update split: if_splits)
        moreover have "select_calm ?s'" using calm t(2) by (auto simp: select_calm_def)
        moreover have "served rset i s ?s'" using fd i Some True by (simp add: served_def Let_def at_eof_def)
        moreover have "keeps {i} s ?s'" using other_fd [OF ok i] fd(1) by (auto simp: keeps_def)
        ultimately show ?thesis using run by blast
      next
        case ne: False
        have r1: "ready_sock (socks ?o1 ?fd)" "NUL \<notin> set (errmsg ?o1)"
          using after_read_ready [OF ready] calm by (simp_all add: select_calm_def)
        let ?h = "handle_request sysopen strerror buf ?fd (cl_uid (cls s ! i))"
        have run: "select_client sysopen strerror rset i s = on_srv ?h (s\<lparr>srv := ?o1\<rparr>)"
          using i fd rd Some ne by (simp add: select_client_def io_simps Let_def on_srv_def)
        from handle_request_answers [where uid = "cl_uid (cls s ! i)" and sysopen = sysopen and strerror = strerror, OF ne r1 opn str] show ?thesis
        proof
          assume "?h ?o1 = Inl log_format"
          with run show ?thesis by (simp add: on_srv_def)
        next
          assume "\<exists>o2. ?h ?o1 = Inr ((), o2) \<and> only_sock ?fd ?o1 o2 \<and> replied (socks ?o1 ?fd) (socks o2 ?fd) \<and> NUL \<notin> set (errmsg o2)"
          then obtain o2 where o2: "?h ?o1 = Inr ((), o2)" "only_sock ?fd ?o1 o2" "replied (after_read (socks ?o ?fd)) (socks o2 ?fd)"
            "NUL \<notin> set (errmsg o2)" by auto
          have c: "ctab o2 = ctab ?o" "\<And>f. f \<noteq> ?fd \<Longrightarrow> socks o2 f = socks ?o f" using o2(2) by (auto simp: only_sock_def)
          have "select_inv listenfd (s\<lparr>srv := o2\<rparr>)" using inv c(1) by (simp add: select_inv_def)
          moreover have "ready_sock (socks o2 f)" if "f \<in> dom (clients_of (cls s))" for f
            using that calm c(2) [of f] replied_ready [OF o2(3)] by (cases "f = ?fd") (auto simp: select_calm_def)
          then have "select_calm (s\<lparr>srv := o2\<rparr>)" using calm c(1) o2(4) by (simp add: select_calm_def)
          moreover have "served rset i s (s\<lparr>srv := o2\<rparr>)" using fd Some ne c(1) o2(3) by (simp add: served_def Let_def at_eof_def)
          moreover have "keeps {i} s (s\<lparr>srv := o2\<rparr>)" using c other_fd [OF ok i] fd(1) by (auto simp: keeps_def)
          ultimately show ?thesis using run o2(1) by (auto simp: on_srv_def)
        qed
      qed
    qed
  qed
qed

lemma keeps_trans:
  assumes "keeps I s1 s2" "keeps J s2 s3"
  shows "keeps (I \<union> J) s1 s3"
  using assms by (auto simp: keeps_def)

lemma served_keep:
  assumes "served rset i s1 s2" "keeps J s2 s3" "i \<notin> J" "i < length (cls s2)"
  shows "served rset i s1 s3"
  using assms by (auto simp: served_def keeps_def Let_def split: if_splits)

lemma keep_served:
  assumes "keeps J s1 s2" "served rset i s2 s3" "i \<notin> J" "i < length (cls s1)"
  shows "served rset i s1 s3"
proof -
  have "cls s2 ! i = cls s1 ! i" "0 \<le> cl_fd (cls s1 ! i) \<Longrightarrow> socks (srv s2) (cl_fd (cls s1 ! i)) = socks (srv s1) (cl_fd (cls s1 ! i))"
    using assms(1,3,4) by (auto simp: keeps_def)
  with assms(2) show ?thesis by (auto simp: served_def Let_def split: if_splits)
qed

lemma select_scan_steps:
  assumes "select_inv listenfd s" "select_calm s" "distinct is" "\<forall>i \<in> set is. i < length (cls s)"
    and opn: "\<And>p f fd. sysopen p f = Inr fd \<Longrightarrow> 0 \<le> fd" and str: "\<And>e. NUL \<notin> set (strerror e)"
  shows "select_scan sysopen strerror rset is s \<in> {Inl log_format, Inl read_failed} \<or>
    (\<exists>s'. select_scan sysopen strerror rset is s = Inr ((), s') \<and> select_inv listenfd s' \<and> select_calm s' \<and>
       (\<forall>i \<in> set is. served rset i s s') \<and> keeps (set is) s s')"
  using assms(1-4)
proof (induction "is" arbitrary: s)
  case Nil
  then show ?case by (simp add: io_simps keeps_def)
next
  case (Cons i "is")
  have i: "i < length (cls s)" using Cons.prems(4) by simp
  from select_client_step [where sysopen = sysopen and strerror = strerror and rset = rset, OF Cons.prems(1,2) i opn str] show ?case
  proof
    assume "select_client sysopen strerror rset i s \<in> {Inl log_format, Inl read_failed}"
    then show ?thesis by (auto simp: io_simps)
  next
    assume "\<exists>s'. select_client sysopen strerror rset i s = Inr ((), s') \<and> select_inv listenfd s' \<and> select_calm s' \<and>
       served rset i s s' \<and> keeps {i} s s'"
    then obtain s1 where s1: "select_client sysopen strerror rset i s = Inr ((), s1)" "select_inv listenfd s1" "select_calm s1"
      "served rset i s s1" "keeps {i} s s1" by blast
    have len: "length (cls s1) = length (cls s)" using s1(5) by (simp add: keeps_def)
    then have "\<forall>j \<in> set is. j < length (cls s1)" using Cons.prems(4) by simp
    from Cons.IH [OF s1(2,3) _ this] Cons.prems(3)
    consider "select_scan sysopen strerror rset is s1 \<in> {Inl log_format, Inl read_failed}"
      | s2 where "select_scan sysopen strerror rset is s1 = Inr ((), s2)" "select_inv listenfd s2" "select_calm s2"
          "\<forall>i \<in> set is. served rset i s1 s2" "keeps (set is) s1 s2"
      by auto
    then show ?thesis
    proof cases
      case 1
      then show ?thesis using s1(1) by (auto simp: io_simps)
    next
      case (2 s2)
      have "served rset i s s2" using served_keep [OF s1(4) 2(5)] Cons.prems(3) i len by simp
      moreover have "served rset j s s2" if "j \<in> set is" for j
        using keep_served [OF s1(5), of rset j s2] 2(4) that Cons.prems(3,4) by auto
      moreover have "keeps (set (i # is)) s s2" using keeps_trans [OF s1(5) 2(5)] by simp
      ultimately show ?thesis using s1(1) 2 by (auto simp: io_simps)
    qed
  qed
qed

lemma select_accept_step:
  assumes inv: "select_inv listenfd s" and calm: "select_calm s" "ready_sock u"
    and fd: "0 \<le> clifd" "clifd < FD_SETSIZE" "clifd \<notin> allset s"
  shows "\<exists>s'. select_accept (clifd, uid, u) s = Inr ((), s') \<and> select_inv listenfd s' \<and> select_calm s' \<and>
    clients_of (cls s') = (clients_of (cls s))(clifd \<mapsto> uid)"
proof -
  have t: "table_ok (client (ctab (srv s)))" "ct_malloc (ctab (srv s)) = []" "clients_of (client (ctab (srv s))) clifd = None"
    using inv calm fd(3) by (auto simp: select_inv_def select_calm_def)
  have "clifd \<noteq> -1" using fd(1) by simp
  from client_add_run [OF t this, of uid] obtain i t' where t': "client_add clifd uid (ctab (srv s)) = Inr (i, t')"
    "table_ok (client t')" "ct_malloc t' = []" "clients_of (client t') = (clients_of (cls s))(clifd \<mapsto> uid)" "i < length (client t')"
    "client t' ! i = \<lparr>cl_fd = clifd, cl_uid = uid\<rparr>"
    "\<And>j. j \<noteq> i \<Longrightarrow> j < length (client t') \<Longrightarrow> cl_fd (client t' ! j) \<noteq> -1 \<Longrightarrow> j < length (cls s) \<and> client t' ! j = cls s ! j"
    "length (cls s) \<le> length (client t')"
    by blast
  define s' where "s' = s\<lparr>srv := (srv s)\<lparr>ctab := t', socks := (socks (srv s))(clifd := u)\<rparr>,
     allset := insert clifd (allset s), maxfd := (if maxfd s < clifd then clifd else maxfd s),
     maxi := (if maxi s < int i then int i else maxi s)\<rparr>"
  have run: "select_accept (clifd, uid, u) s = Inr ((), s')"
    using fd t'(1) by (simp add: select_accept_def io_simps on_srv_def on_ctab_def s'_def)
  have ent: "0 \<le> cl_fd (client t' ! j) \<and> int j \<le> maxi s'" if "j < length (client t')" "cl_fd (client t' ! j) \<noteq> -1" for j
  proof (cases "j = i")
    case True
    then show ?thesis using t'(6) fd(1) by (simp add: s'_def)
  next
    case False
    with t'(7) [OF _ that] have "j < length (cls s)" "client t' ! j = cls s ! j" by auto
    with inv that(2) have "0 \<le> cl_fd (client t' ! j)" "int j \<le> maxi s" by (auto simp: select_inv_def)
    then show ?thesis by (simp add: s'_def)
  qed
  have sets: "allset s' = insert listenfd (dom (clients_of (client t')))" "listenfd \<notin> dom (clients_of (client t'))" "-1 \<le> maxi s'"
    using inv fd(3) by (auto simp: select_inv_def t'(4) s'_def)
  have "\<forall>f \<in> allset s. f \<le> maxfd s" using inv by (simp add: select_inv_def)
  then have top: "\<forall>f \<in> allset s'. f \<le> maxfd s'" by (fastforce simp: s'_def)
  have "maxi s' < int (length (client t'))" using inv t'(5,8) by (auto simp: select_inv_def s'_def)
  with ent sets top t'(2) have "select_inv listenfd s'" by (simp add: select_inv_def) (simp add: s'_def)
  moreover have "select_calm s'" using calm t'(3,4) by (auto simp: select_calm_def s'_def)
  ultimately show ?thesis using run t'(4) by (auto simp: s'_def)
qed

text \<open>C20: a turn of the select loop serves every ready client, and only those. The invariant holds
  after the turn: each connected client has one entry, within the part of the table that is
  walked, and its descriptor is in the set given to \<open>select\<close>, which holds nothing else but the
  listening descriptor. A turn with a new connection enters that client with its user ID. Any
  other turn answers, once each, the ready clients that have sent something, removes those that
  have closed, and leaves the entries and connections of all others alone. Apart from a failed
  read and the format of the log call, a turn cannot fail: no index is out of bounds and no
  entry is missing.\<close>

theorem select_round_serves:
  assumes inv: "select_inv listenfd s" and calm: "select_calm s" "ready_sock u"
    and fd: "0 \<le> clifd" "clifd < FD_SETSIZE" "clifd \<notin> allset s"
    and opn: "\<And>p f fd. sysopen p f = Inr fd \<Longrightarrow> 0 \<le> fd" and str: "\<And>e. NUL \<notin> set (strerror e)"
  shows "select_round sysopen strerror listenfd (Some ready) (clifd, uid, u) s \<in> {Inl log_format, Inl read_failed} \<or>
    (\<exists>s'. select_round sysopen strerror listenfd (Some ready) (clifd, uid, u) s = Inr ((), s') \<and>
       select_inv listenfd s' \<and> select_calm s' \<and>
       (if listenfd \<in> ready then clients_of (cls s') = (clients_of (cls s))(clifd \<mapsto> uid)
        else \<forall>i < length (cls s). served (allset s \<inter> ready) i s s'))"
proof (cases "listenfd \<in> ready")
  case True
  have "listenfd \<in> allset s" using inv by (simp add: select_inv_def)
  with True select_accept_step [OF inv calm fd, of uid] show ?thesis by (auto simp: select_round_def io_simps)
next
  case False
  let ?is = "[0..<nat (maxi s + 1)]" and ?rset = "allset s \<inter> ready"
  have m: "\<forall>i \<in> set ?is. i < length (cls s)" using inv by (auto simp: select_inv_def)
  have r: "select_round sysopen strerror listenfd (Some ready) (clifd, uid, u) s = select_scan sysopen strerror ?rset ?is s"
    using False by (simp add: select_round_def io_simps)
  have "select_scan sysopen strerror ?rset ?is s \<in> {Inl log_format, Inl read_failed} \<or>
    (\<exists>s'. select_scan sysopen strerror ?rset ?is s = Inr ((), s') \<and> select_inv listenfd s' \<and> select_calm s' \<and>
       (\<forall>i \<in> set ?is. served ?rset i s s') \<and> keeps (set ?is) s s')"
    by (rule select_scan_steps [OF inv calm(1) distinct_upt m]) (use opn str in auto)
  then consider "select_scan sysopen strerror ?rset ?is s \<in> {Inl log_format, Inl read_failed}"
    | s' where "select_scan sysopen strerror ?rset ?is s = Inr ((), s')" "select_inv listenfd s'" "select_calm s'"
        "\<forall>i \<in> set ?is. served ?rset i s s'" "keeps (set ?is) s s'"
    by blast
  then show ?thesis
  proof cases
    case 1
    then show ?thesis using r by simp
  next
    case (2 s')
    have "served ?rset i s s'" if i: "i < length (cls s)" for i
    proof (cases "i \<in> set ?is")
      case True
      with 2(4) show ?thesis by blast
    next
      case out: False
      then have "cl_fd (cls s ! i) = -1" using inv i by (auto simp: select_inv_def)
      moreover have "cls s' ! i = cls s ! i" using 2(5) i out by (auto simp: keeps_def)
      ultimately show ?thesis by (simp add: served_def Let_def)
    qed
    with 2 r False show ?thesis by auto
  qed
qed

theorem select_round_serves_witness:
  "\<exists>s s'. select_start 3 sample_opend = Inr s \<and>
     select_round (\<lambda>p f. Inr 9) (\<lambda>_. []) 3 (Some {3}) (4, 100, sample_sock) s = Inr ((), s') \<and>
     select_inv 3 s' \<and> clients_of (cls s') 4 = Some 100"
proof -
  define s where "s = \<lparr>srv = sample_opend, allset = {3}, maxfd = 3, maxi = -1\<rparr>"
  have "clients_of [] = Map.empty" by (auto simp: clients_of_def)
  then have i: "select_inv 3 s" "select_calm s" "ready_sock sample_sock" "(4::int) \<notin> allset s"
    by (simp_all add: select_inv_def select_calm_def s_def sample_opend_def table_ok_def sample_sock_def ready_sock_def)
  have no: "select_round (\<lambda>p f. Inr 9) (\<lambda>_. []) 3 (Some {3}) (4, 100, sample_sock) s \<notin> {Inl log_format, Inl read_failed}"
    using select_accept_step [OF i(1-3) _ _ i(4), of 100] by (auto simp: select_round_def io_simps s_def)
  have "select_start 3 sample_opend = Inr s" by (simp add: select_start_def s_def)
  then show ?thesis
    using select_round_serves [OF i(1-3) _ _ i(4), of "\<lambda>p f. Inr 9" "\<lambda>_. []" "{3}" 100] no by auto
qed

section \<open>The walk of the poll loop\<close>

lemma on_psrv_InrD: "on_psrv m s = Inr (x, s') \<Longrightarrow> numfd s' = numfd s \<and> pollfd s' = pollfd s"
  by (auto simp: on_psrv_def split: sum.splits)

lemma poll_hungup_shrinks:
  "poll_hungup i s = Inr (i', s') \<Longrightarrow> i < numfd s \<Longrightarrow> numfd s' - i' < numfd s - i"
  by (auto simp: poll_hungup_def io_simps Let_def split: if_splits sum.splits prod.splits)

lemma poll_client_shrinks:
  assumes "poll_client sysopen strerror i s = Inr (i', s')" "i < numfd s"
  shows "numfd s' - i' < numfd s - i"
proof (cases "pf_hup (pollfd s ! i)")
  case True
  with assms poll_hungup_shrinks show ?thesis by (simp add: poll_client_def io_simps)
next
  case False
  show ?thesis
  proof (cases "pf_in (pollfd s ! i)")
    case nin: False
    with False assms show ?thesis by (auto simp: poll_client_def io_simps)
  next
    case True
    with False assms(1) obtain r s1 where rd: "on_psrv (read_fd (pf_fd (pollfd s ! i)) MAXLINE) s = Inr (Some r, s1)"
      and k: "(if r = [] then poll_hungup i s1
        else if length (client (ctab (psrv s1))) \<le> i then Inl (Undefined ''client[i]'')
        else seq_io (on_psrv (handle_request sysopen strerror r (pf_fd (pollfd s ! i)) (cl_uid (client (ctab (psrv s1)) ! i)))) (ret_io (i + 1)) s1)
        = Inr (i', s')"
      by (auto simp: poll_client_def io_simps split: sum.splits prod.splits option.splits if_splits)
    from on_psrv_InrD [OF rd] have n: "numfd s1 = numfd s" by simp
    show ?thesis
    proof (cases "r = []")
      case True
      with k poll_hungup_shrinks [of i s1] n assms(2) show ?thesis by simp
    next
      case False
      with k n assms(2) show ?thesis
        by (auto simp: io_simps split: sum.splits if_splits prod.splits dest!: on_psrv_InrD)
    qed
  qed
qed

text \<open>Only the walk itself can run out of steps, and it does not.\<close>

lemma poll_client_not_diverges: "poll_client sysopen strerror i s \<noteq> Inl Diverges"
proof -
  have hr: "handle_request sysopen strerror buf fd uid o1 \<noteq> Inl Diverges" for buf fd uid o1
  proof -
    obtain r s1 where "buf_args cli_args buf o1 = Inr (r, s1)" using buf_args_cli_args [of buf o1] by auto
    then show ?thesis
      by (auto simp: handle_request_def io_simps set_errmsg_def send_errmsg_def log_errmsg_def on_fd_def
          split: sum.splits prod.splits)
  qed
  have hu: "poll_hungup i s1 \<noteq> Inl Diverges" for s1
    by (auto simp: poll_hungup_def on_psrv_def on_ctab_def client_del_def io_simps Let_def split: sum.splits prod.splits option.splits if_splits)
  show ?thesis
    using hr hu by (auto simp: poll_client_def on_psrv_def read_fd_run io_simps split: sum.splits prod.splits option.splits)
qed

lemma poll_scan_ends: "numfd s - i < fuel \<Longrightarrow> poll_scan fuel sysopen strerror i s \<noteq> Inl Diverges"
proof (induction fuel arbitrary: i s)
  case (Suc fuel)
  show ?case
  proof (cases "numfd s \<le> i")
    case False
    show ?thesis
    proof (cases "poll_client sysopen strerror i s")
      case (Inl e)
      with False poll_client_not_diverges [of sysopen strerror i s] show ?thesis by (simp add: io_simps)
    next
      case (Inr x)
      then obtain i' s' where x: "poll_client sysopen strerror i s = Inr (i', s')" by (cases x) auto
      with poll_client_shrinks [OF x] False Suc.prems have "numfd s' - i' < fuel" by simp
      from Suc.IH [OF this] x False show ?thesis by (simp add: io_simps)
    qed
  qed (simp add: io_simps)
qed simp

section \<open>The user ID in the poll loop\<close>

text \<open>Two clients connect (descriptors 4 and 5); then the first hangs up and the second sends.\<close>

definition two_clients :: "32 word \<Rightarrow> 32 word \<Rightarrow> string \<Rightarrow> ((int \<Rightarrow> bool \<times> bool) \<times> accepted) list" where
  "two_clients u1 u2 bytes =
     [(\<lambda>fd. (fd = 3, False), (4, u1, sample_sock)),
      (\<lambda>fd. (fd = 3, False), (5, u2, sample_sock\<lparr>us_chan := (us_chan sample_sock)\<lparr>c_in := [Data bytes]\<rparr>\<rparr>)),
      (\<lambda>fd. (fd = 5, fd = 4), (6, 0, sample_sock))]"

text \<open>The states of the run: the entries of the two tables that are in use, and the connections.\<close>

definition poll_run_state :: "(int \<times> 32 word) list \<Rightarrow> (int \<times> bool) list \<Rightarrow> (int \<Rightarrow> usock) \<Rightarrow> ploop" where
  "poll_run_state l fds sk =
     \<lparr>psrv = sample_opend\<lparr>ctab := \<lparr>client = map (\<lambda>(f, u). \<lparr>cl_fd = f, cl_uid = u\<rparr>) l @ replicate (10 - length l) \<lparr>cl_fd = -1, cl_uid = 0\<rparr>,
                                   ct_junk = (\<lambda>_. 0), ct_malloc = []\<rparr>, socks := sk\<rparr>,
      pollfd = map (\<lambda>(f, b). \<lparr>pf_fd = f, pf_in = b, pf_hup = False\<rparr>) fds @ replicate (10 - length fds) free_ent,
      numfd = length fds, pl_malloc = []\<rparr>"

lemma poll_start_run: "poll_start 3 [] sample_opend = Inr (poll_run_state [(3, 0)] [(3, False)] (\<lambda>_. sample_sock))"
  by (simp add: poll_start_def on_ctab_def client_add_def client_alloc_def io_simps sample_opend_def poll_run_state_def
      eval_nat_numeral Let_def)

lemma poll_accept_run:
  "length l = 1 \<and> length fds = 1 \<or> length l = 2 \<and> length fds = 2 \<Longrightarrow> list_all (\<lambda>(f, u). f \<noteq> -1) l \<Longrightarrow> 0 \<le> clifd \<Longrightarrow>
   poll_accept (clifd, uid, u) (poll_run_state l fds sk) = Inr ((), poll_run_state (l @ [(clifd, uid)]) (fds @ [(clifd, False)]) (sk(clifd := u)))"
  by (auto simp: poll_accept_def on_psrv_def on_ctab_def client_add_def io_simps poll_run_state_def sample_opend_def
      eval_nat_numeral length_Suc_conv split_def)

lemma poll_round_run1:
  "poll_round sysopen strerror (Some (\<lambda>fd. (fd = 3, False))) (4, u1, sk1) (poll_run_state [(3, 0)] [(3, b)] sk) =
     Inr ((), poll_run_state [(3, 0), (4, u1)] [(3, True), (4, False)] (sk(4 := sk1)))"
proof -
  have r: "(poll_run_state [(3, 0)] [(3, b)] sk)\<lparr>pollfd := set_revents (\<lambda>fd. (fd = 3, False)) 1 (pollfd (poll_run_state [(3, 0)] [(3, b)] sk))\<rparr>
      = poll_run_state [(3, 0)] [(3, True)] sk"
    by (simp add: poll_run_state_def set_revents_def)
  have n: "numfd (poll_run_state l fds k) = length fds" "pollfd (poll_run_state l [(3, True), (4, False)] k) ! 1 = free_ent\<lparr>pf_fd := 4\<rparr>"
    "pollfd (poll_run_state l ((3, True) # fds) k) ! 0 = \<lparr>pf_fd = 3, pf_in = True, pf_hup = False\<rparr>" for l fds k
    by (simp_all add: poll_run_state_def)
  show ?thesis
    using poll_accept_run [of "[(3, 0)]" "[(3, True)]" 4 u1 sk1 sk] r n
    by (simp add: poll_round_def io_simps eval_nat_numeral poll_client_def)
qed

lemma poll_round_run2:
  "poll_round sysopen strerror (Some (\<lambda>fd. (fd = 3, False))) (5, u2, sk2) (poll_run_state [(3, 0), (4, u1)] [(3, b), (4, False)] sk) =
     Inr ((), poll_run_state [(3, 0), (4, u1), (5, u2)] [(3, True), (4, False), (5, False)] (sk(5 := sk2)))"
proof -
  let ?s = "poll_run_state [(3, 0), (4, u1)] [(3, b), (4, False)] sk"
  have r: "?s\<lparr>pollfd := set_revents (\<lambda>fd. (fd = 3, False)) 2 (pollfd ?s)\<rparr> = poll_run_state [(3, 0), (4, u1)] [(3, True), (4, False)] sk"
    by (simp add: poll_run_state_def set_revents_def eval_nat_numeral)
  have n: "numfd (poll_run_state l fds k) = length fds"
    "\<not> pf_in (pollfd (poll_run_state l [(3, True), (4, False), (5, False)] k) ! 1)" "\<not> pf_hup (pollfd (poll_run_state l [(3, True), (4, False), (5, False)] k) ! 1)"
    "\<not> pf_in (pollfd (poll_run_state l [(3, True), (4, False), (5, False)] k) ! 2)" "\<not> pf_hup (pollfd (poll_run_state l [(3, True), (4, False), (5, False)] k) ! 2)"
    "pf_in (pollfd (poll_run_state l ((3, True) # fds) k) ! 0)" for l fds k
    by (simp_all add: poll_run_state_def eval_nat_numeral)
  show ?thesis
    using poll_accept_run [of "[(3, 0), (4, u1)]" "[(3, True), (4, False)]" 5 u2 sk2 sk] r n
    by (simp add: poll_round_def io_simps eval_nat_numeral poll_client_def)
qed

text \<open>The turn in which the first client hangs up and the second sends.\<close>

lemma poll_round_run3:
  assumes "bytes \<noteq> []" "length bytes \<le> MAXLINE" "last bytes \<noteq> NUL"
    and sk: "sk 5 = sample_sock\<lparr>us_chan := (us_chan sample_sock)\<lparr>c_in := [Data bytes]\<rparr>\<rparr>"
  shows "\<exists>s'. poll_round sysopen strerror (Some (\<lambda>fd. (fd = 5, fd = 4))) a
      (poll_run_state [(3, 0), (4, u1), (5, u2)] [(3, True), (4, False), (5, False)] sk) = Inr ((), s') \<and>
    c_out (us_chan (socks (psrv s') 5)) = take (MAXLINE - 2) (unterminated_msg u1 bytes) @ [NUL, CHR 0x01]"
proof -
  let ?s = "poll_run_state [(3, 0), (4, u1), (5, u2)] [(3, True), (4, False), (5, False)] sk"
  let ?rv = "\<lambda>fd. (fd = (5::int), fd = 4)"
  let ?s1 = "?s\<lparr>pollfd := [\<lparr>pf_fd = 3, pf_in = False, pf_hup = False\<rparr>, \<lparr>pf_fd = 4, pf_in = False, pf_hup = True\<rparr>,
     \<lparr>pf_fd = 5, pf_in = True, pf_hup = False\<rparr>] @ replicate 7 free_ent\<rparr>"
  have r: "?s\<lparr>pollfd := set_revents ?rv 3 (pollfd ?s)\<rparr> = ?s1"
    by (simp add: poll_run_state_def set_revents_def eval_nat_numeral)
  define t where "t = (client (ctab (psrv ?s)))[1 := \<lparr>cl_fd = -1, cl_uid = u1\<rparr>]"
  define s2 where "s2 = ?s1\<lparr>psrv := (psrv ?s)\<lparr>ctab := (ctab (psrv ?s))\<lparr>client := t\<rparr>\<rparr>,
     pollfd := (pollfd ?s1)[1 := \<lparr>pf_fd = 5, pf_in = True, pf_hup = False\<rparr>], numfd := 2\<rparr>"
  have h: "poll_hungup 1 ?s1 = Inr (1, s2)"
    by (simp add: poll_hungup_def io_simps on_psrv_def on_ctab_def client_del_def poll_run_state_def s2_def t_def eval_nat_numeral)
  let ?o = "psrv s2"
  have o: "socks ?o = sk" "errmsg ?o = []" "client (ctab ?o) ! 1 = \<lparr>cl_fd = -1, cl_uid = u1\<rparr>" "length (client (ctab ?o)) = 10"
    by (simp_all add: s2_def t_def poll_run_state_def sample_opend_def)
  have rd: "read_fd 5 MAXLINE ?o = Inr (Some bytes, ?o\<lparr>socks := sk(5 := sample_sock)\<rparr>)"
    using assms(1,2) o(1) sk by (simp add: read_fd_def sys_read_def sample_sock_def)
  let ?o1 = "?o\<lparr>socks := sk(5 := sample_sock)\<rparr>" and ?m = "take (MAXLINE - 2) (unterminated_msg u1 bytes)"
  have m: "NUL \<notin> set ?m" "ready_sock sample_sock" by (auto simp: ready_sock_def sample_sock_def dest!: in_set_takeD)
  obtain o2 where o2: "send_errmsg 5 (?o1\<lparr>errmsg := ?m\<rparr>) = Inr ((), o2)" "sent_msg ?m sample_sock (socks o2 5)"
    using reply_errmsg [of "?o1\<lparr>errmsg := ?m\<rparr>" 5] m by auto
  have hr: "handle_request sysopen strerror bytes 5 u1 ?o1 = Inr ((), o2)"
    using assms(1,3) o2(1) by (simp add: handle_request_def set_errmsg_def io_simps)
  have c1: "poll_client sysopen strerror 1 ?s1 = Inr (1, s2)" using h by (simp add: poll_client_def io_simps)
  have p2: "pollfd s2 ! 1 = \<lparr>pf_fd = 5, pf_in = True, pf_hup = False\<rparr>" "numfd s2 = 2" by (simp_all add: s2_def)
  have c2: "poll_client sysopen strerror 1 s2 = Inr (2, s2\<lparr>psrv := o2\<rparr>)"
    using p2 rd hr o assms(1) by (simp add: poll_client_def io_simps on_psrv_def eval_nat_numeral)
  have n: "numfd ?s1 = 3" "pollfd ?s1 ! 0 = \<lparr>pf_fd = 3, pf_in = False, pf_hup = False\<rparr>" "numfd ?s = 3" by (simp_all add: poll_run_state_def)
  have k1: "poll_scan (Suc k) sysopen strerror 2 (s2\<lparr>psrv := o2\<rparr>) = Inr ((), s2\<lparr>psrv := o2\<rparr>)" for k
    using p2 by (simp add: io_simps)
  have k2: "poll_scan (Suc (Suc k)) sysopen strerror 1 s2 = Inr ((), s2\<lparr>psrv := o2\<rparr>)" for k
    unfolding poll_scan.simps(2) [of "Suc k" _ _ 1] using p2 c2 k1 [of k] by (simp add: io_simps del: poll_scan.simps)
  have "poll_scan (Suc (Suc (Suc k))) sysopen strerror 1 ?s1 = Inr ((), s2\<lparr>psrv := o2\<rparr>)" for k
    unfolding poll_scan.simps(2) [of "Suc (Suc k)" _ _ 1] using n c1 k2 [of k] by (simp add: io_simps del: poll_scan.simps)
  from this [of 1] have "poll_scan (Suc 3) sysopen strerror 1 ?s1 = Inr ((), s2\<lparr>psrv := o2\<rparr>)"
    by (simp only: numeral_3_eq_3 One_nat_def)
  then have "poll_round sysopen strerror (Some ?rv) a ?s = Inr ((), s2\<lparr>psrv := o2\<rparr>)"
    using r n by (simp add: poll_round_def io_simps del: poll_scan.simps)
  moreover have "c_out (us_chan (socks o2 5)) = ?m @ [NUL, CHR 0x01]" using o2(2) by (simp add: sent_msg_def sample_sock_def)
  ultimately show ?thesis by auto
qed

text \<open>The poll loop confuses users. It takes the user ID of a request from the entry of the
  client table that has the index of the client in the poll array. The poll array is packed when
  a client leaves and the table is not: once the first of two clients has gone, the requests of
  the second are handled, and answered, under the user ID of the first.\<close>

theorem poll_loop_wrong_uid:
  assumes "bytes \<noteq> []" "length bytes \<le> MAXLINE" "last bytes \<noteq> NUL"
  shows "\<exists>s0 s'. poll_start 3 [] sample_opend = Inr s0 \<and> poll_rounds sysopen strerror (two_clients u1 u2 bytes) s0 = Inr ((), s') \<and>
    c_out (us_chan (socks (psrv s') 5)) = take (MAXLINE - 2) (unterminated_msg u1 bytes) @ [NUL, CHR 0x01]"
proof -
  let ?sk = "sample_sock\<lparr>us_chan := (us_chan sample_sock)\<lparr>c_in := [Data bytes]\<rparr>\<rparr>"
  obtain s' where "poll_round sysopen strerror (Some (\<lambda>fd. (fd = 5, fd = 4))) (6, 0, sample_sock)
      (poll_run_state [(3, 0), (4, u1), (5, u2)] [(3, True), (4, False), (5, False)] (((\<lambda>_. sample_sock)(4 := sample_sock))(5 := ?sk))) = Inr ((), s')"
    "c_out (us_chan (socks (psrv s') 5)) = take (MAXLINE - 2) (unterminated_msg u1 bytes) @ [NUL, CHR 0x01]"
    using poll_round_run3 [OF assms, of "((\<lambda>_. sample_sock)(4 := sample_sock))(5 := ?sk)" sysopen strerror "(6, 0, sample_sock)" u1 u2] by auto
  then show ?thesis
    by (simp add: poll_start_run two_clients_def io_simps poll_round_run1 poll_round_run2 del: fun_upd_apply)
qed

theorem poll_loop_wrong_uid_witness:
  "\<exists>s0 s'. poll_start 3 [] sample_opend = Inr s0 \<and>
    poll_rounds (\<lambda>p f. Inl 2) (\<lambda>_. []) (two_clients 1000 1001 ''open'') s0 = Inr ((), s') \<and>
    c_out (us_chan (socks (psrv s') 5)) = take (MAXLINE - 2) (unterminated_msg 1000 ''open'') @ [NUL, CHR 0x01]"
  by (rule poll_loop_wrong_uid) simp_all

end
