(* ===== verification/Job_Queue.thy ===== *)
theory Job_Queue
  imports Printd_Queue
begin

text \<open>
  The job queue under a reader-writer lock (\<open>threads/rwlock.c\<close>) and its variant with another
  removal (\<open>mytests/threads/Ex11_3_workerthrd.c\<close>). Their interface is the locale \<open>job_list\<close>: to
  its users the queue is a list of jobs; both variants are instances.
\<close>

section \<open>The queue\<close>

text \<open>
  \<open>struct queue\<close>: the list part of the record holds \<open>q_head\<close> and \<open>q_tail\<close>; the lock is held by
  a writer or by some readers; \<open>q_rdfail\<close> says which of the coming calls of
  \<open>pthread_rwlock_rdlock\<close> fail. A job is a node with contents of type \<open>'v\<close>.
\<close>

record 'v jobq = "'v dlist" +
  q_writer :: bool
  q_readers :: nat
  q_rdfail :: "bool list"

definition wrlock :: "('v jobq, unit) io" where
  "wrlock s = (if q_writer s \<or> 0 < q_readers s then Inl Blocked else Inr ((), s\<lparr>q_writer := True\<rparr>))"

definition rdlock :: "('v jobq, bool) io" where
  "rdlock s =
     (if q_rdfail s \<noteq> [] \<and> hd (q_rdfail s) then Inr (False, s\<lparr>q_rdfail := tl (q_rdfail s)\<rparr>)
      else if q_writer s then Inl Blocked
      else Inr (True, s\<lparr>q_readers := Suc (q_readers s), q_rdfail := tl (q_rdfail s)\<rparr>))"

definition unlock :: "('v jobq, unit) io" where
  "unlock = modify_io (\<lambda>s. if q_writer s then s\<lparr>q_writer := False\<rparr> else s\<lparr>q_readers := q_readers s - 1\<rparr>)"

text \<open>\<open>err\<close> is the result of \<open>pthread_rwlock_init\<close>.\<close>

definition queue_init :: "int \<Rightarrow> ('v jobq, int) io" where
  "queue_init err =
     seq_io (modify_io (\<lambda>s. s\<lparr>dl_head := None, dl_tail := None\<rparr>))
     (if err \<noteq> 0 then ret_io err
      else seq_io (modify_io (\<lambda>s. s\<lparr>q_writer := False, q_readers := 0\<rparr>)) (ret_io 0))"

definition job_insert :: "addr option \<Rightarrow> ('v jobq, unit) io" where
  "job_insert jp =
     seq_io wrlock
     (bind_io (gets_io dl_head) (\<lambda>q_head.
      seq_io (set_next jp q_head)
     (seq_io (set_prev jp None)
     (seq_io (if q_head \<noteq> None then set_prev q_head jp else modify_io (\<lambda>s. s\<lparr>dl_tail := jp\<rparr>))
     (seq_io (modify_io (\<lambda>s. s\<lparr>dl_head := jp\<rparr>))
      unlock)))))"

definition job_append :: "addr option \<Rightarrow> ('v jobq, unit) io" where
  "job_append jp =
     seq_io wrlock
     (bind_io (gets_io dl_tail) (\<lambda>q_tail.
      seq_io (set_next jp None)
     (seq_io (set_prev jp q_tail)
     (seq_io (if q_tail \<noteq> None then set_next q_tail jp else modify_io (\<lambda>s. s\<lparr>dl_head := jp\<rparr>))
     (seq_io (modify_io (\<lambda>s. s\<lparr>dl_tail := jp\<rparr>))
      unlock)))))"

definition job_remove :: "addr option \<Rightarrow> ('v jobq, unit) io" where
  "job_remove jp =
     seq_io wrlock
     (bind_io (gets_io (\<lambda>s. (dl_head s, dl_tail s))) (\<lambda>(q_head, q_tail).
      seq_io
        (if jp = q_head then
           bind_io (at_node jp n_next) (\<lambda>nx.
           seq_io (modify_io (\<lambda>s. s\<lparr>dl_head := nx\<rparr>))
             (if q_tail = jp then modify_io (\<lambda>s. s\<lparr>dl_tail := None\<rparr>)
              else bind_io (at_node jp n_prev) (\<lambda>pv. set_prev nx pv)))
         else if jp = q_tail then
           bind_io (at_node jp n_prev) (\<lambda>pv.
           seq_io (modify_io (\<lambda>s. s\<lparr>dl_tail := pv\<rparr>))
             (bind_io (at_node jp n_next) (\<lambda>nx. set_next pv nx)))
         else
           bind_io (at_node jp n_prev) (\<lambda>pv.
           bind_io (at_node jp n_next) (\<lambda>nx.
           seq_io (set_next pv nx) (set_prev nx pv))))
        unlock))"

text \<open>The walk of \<open>job_find\<close>; the number of allocated nodes bounds it.\<close>

fun find_loop :: "nat \<Rightarrow> ('v \<Rightarrow> bool) \<Rightarrow> addr option \<Rightarrow> ('v jobq, addr option) io" where
  "find_loop fuel mine None = ret_io None"
| "find_loop 0 mine (Some a) = fail_io Diverges"
| "find_loop (Suc fuel) mine (Some a) =
     bind_io (at_node (Some a) n_val) (\<lambda>v.
     if mine v then ret_io (Some a)
     else bind_io (at_node (Some a) n_next) (\<lambda>nx. find_loop fuel mine nx))"

definition job_find :: "('v \<Rightarrow> bool) \<Rightarrow> ('v jobq, addr option) io" where
  "job_find mine =
     bind_io rdlock (\<lambda>ok.
     if \<not> ok then ret_io None
     else
       bind_io (\<lambda>s. find_loop (dl_brk s) mine (dl_head s) s) (\<lambda>jp.
       seq_io unlock (ret_io jp)))"

text \<open>The removal of the other variant.\<close>

definition job_remove_simple :: "addr option \<Rightarrow> ('v jobq, unit) io" where
  "job_remove_simple jp =
     seq_io wrlock
     (bind_io (at_node jp n_prev) (\<lambda>pv.
      bind_io (at_node jp n_next) (\<lambda>nx.
      seq_io (if pv \<noteq> None then set_next pv nx else modify_io (\<lambda>s. s\<lparr>dl_head := nx\<rparr>))
     (seq_io (bind_io (at_node jp n_next) (\<lambda>nx.
              bind_io (at_node jp n_prev) (\<lambda>pv.
              if nx \<noteq> None then set_prev nx pv else modify_io (\<lambda>s. s\<lparr>dl_tail := pv\<rparr>))))
      unlock))))"

section \<open>What the operations do\<close>

text \<open>The queue holds the jobs at the addresses \<open>as\<close>, and nobody holds the lock.\<close>

definition jq_rep :: "'v jobq \<Rightarrow> addr list \<Rightarrow> bool" where
  "jq_rep s as \<longleftrightarrow> dl_ok s as \<and> \<not> q_writer s \<and> q_readers s = 0 \<and> q_rdfail s = []"

definition jq_val :: "'v jobq \<Rightarrow> addr \<Rightarrow> 'v option" where
  "jq_val s a = map_option n_val (dl_heap s a)"

lemma jobq_order:
  "(s :: 'v jobq)\<lparr>q_writer := w, dl_heap := h\<rparr> = s\<lparr>dl_heap := h, q_writer := w\<rparr>"
  "(s :: 'v jobq)\<lparr>q_writer := w, dl_head := p\<rparr> = s\<lparr>dl_head := p, q_writer := w\<rparr>"
  "(s :: 'v jobq)\<lparr>q_writer := w, dl_tail := p\<rparr> = s\<lparr>dl_tail := p, q_writer := w\<rparr>"
  by (cases s; simp)+

lemmas jobq_run = io_simps wrlock_def unlock_def dlist_order jobq_order

lemma job_insert_rep:
  assumes "jq_rep s as" "a \<notin> set as" "jq_val s a = Some v"
  shows "\<exists>s'. job_insert (Some a) s = Inr ((), s') \<and> jq_rep s' (a # as) \<and> jq_val s' = jq_val s"
proof -
  have ok: "dl_ok s as" and nl: "\<not> q_writer s" "q_readers s = 0" "q_rdfail s = []" using assms(1) by (auto simp: jq_rep_def)
  obtain n where n: "dl_heap s a = Some n" using assms(3) by (auto simp: jq_val_def)
  let ?n = "n\<lparr>n_next := dl_head s, n_prev := None\<rparr>"
  define h' where "h' = (case dl_head s of None \<Rightarrow> dl_heap s
      | Some t \<Rightarrow> (dl_heap s)(t \<mapsto> (the (dl_heap s t))\<lparr>n_prev := Some a\<rparr>))"
  have ab: "a < dl_brk s" using ok n by (auto simp: dl_ok_def)
  have "distinct (a # as) \<and>
     dseg (h'(a \<mapsto> ?n)) None (Some a) (a # as) (if dl_head s = None then Some a else dl_tail s) None \<and>
     (\<forall>b \<in> dom (h'(a \<mapsto> ?n)). b < dl_brk s) \<and> (\<forall>b. b \<noteq> a \<longrightarrow> map_option n_val (h' b) = map_option n_val (dl_heap s b))"
    by (rule dl_push [OF ok assms(2) ab _ h'_def]) simp_all
  then have d: "dl_ok (s\<lparr>dl_heap := h'(a \<mapsto> ?n), dl_head := Some a, dl_tail := (if dl_head s = None then Some a else dl_tail s)\<rparr>) (a # as)"
    and vals: "\<And>b. b \<noteq> a \<Longrightarrow> map_option n_val (h' b) = map_option n_val (dl_heap s b)" by (auto simp: dl_ok_def)
  let ?s' = "s\<lparr>dl_heap := h'(a \<mapsto> ?n), dl_head := Some a, dl_tail := (if dl_head s = None then Some a else dl_tail s), q_writer := False\<rparr>"
  have run: "job_insert (Some a) s = Inr ((), ?s')"
  proof (cases "dl_head s")
    case None
    then show ?thesis using nl n by (simp add: job_insert_def jobq_run h'_def)
  next
    case (Some t)
    then obtain nt where "dl_heap s t = Some nt" "t \<noteq> a"
      using dl_ok_head [OF ok] dl_ok_alloc [OF ok, of t] assms(2) by (auto split: list.splits)
    then show ?thesis using nl n Some by (simp add: job_insert_def jobq_run h'_def fun_upd_twist)
  qed
  have "jq_rep ?s' (a # as)" using d nl by (simp add: jq_rep_def dl_ok_def)
  moreover have "jq_val ?s' = jq_val s" using vals n by (auto simp: jq_val_def fun_eq_iff)
  ultimately show ?thesis using run by blast
qed

lemma job_append_rep:
  assumes "jq_rep s as" "a \<notin> set as" "jq_val s a = Some v"
  shows "\<exists>s'. job_append (Some a) s = Inr ((), s') \<and> jq_rep s' (as @ [a]) \<and> jq_val s' = jq_val s"
proof -
  have ok: "dl_ok s as" and nl: "\<not> q_writer s" "q_readers s = 0" "q_rdfail s = []" using assms(1) by (auto simp: jq_rep_def)
  obtain n where n: "dl_heap s a = Some n" using assms(3) by (auto simp: jq_val_def)
  let ?n = "n\<lparr>n_next := None, n_prev := dl_tail s\<rparr>"
  define h' where "h' = (case dl_tail s of None \<Rightarrow> dl_heap s
      | Some t \<Rightarrow> (dl_heap s)(t \<mapsto> (the (dl_heap s t))\<lparr>n_next := Some a\<rparr>))"
  have ab: "a < dl_brk s" using ok n by (auto simp: dl_ok_def)
  have "distinct (as @ [a]) \<and>
     dseg (h'(a \<mapsto> ?n)) None (if dl_tail s = None then Some a else dl_head s) (as @ [a]) (Some a) None \<and>
     (\<forall>b \<in> dom (h'(a \<mapsto> ?n)). b < dl_brk s) \<and> (\<forall>b. b \<noteq> a \<longrightarrow> map_option n_val (h' b) = map_option n_val (dl_heap s b))"
    by (rule dl_append [OF ok assms(2) ab _ h'_def]) simp_all
  then have d: "dl_ok (s\<lparr>dl_heap := h'(a \<mapsto> ?n), dl_head := (if dl_tail s = None then Some a else dl_head s), dl_tail := Some a\<rparr>) (as @ [a])"
    and vals: "\<And>b. b \<noteq> a \<Longrightarrow> map_option n_val (h' b) = map_option n_val (dl_heap s b)" by (auto simp: dl_ok_def)
  let ?s' = "s\<lparr>dl_heap := h'(a \<mapsto> ?n), dl_head := (if dl_tail s = None then Some a else dl_head s), dl_tail := Some a, q_writer := False\<rparr>"
  have run: "job_append (Some a) s = Inr ((), ?s')"
  proof (cases "dl_tail s")
    case None
    then show ?thesis using nl n by (simp add: job_append_def jobq_run h'_def)
  next
    case (Some t)
    then obtain nt where "dl_heap s t = Some nt" "t \<noteq> a"
      using dl_ok_tail [OF ok] dl_ok_alloc [OF ok, of t] assms(2) last_in_set [of as] by (metis option.distinct(1) option.inject)
    then show ?thesis using nl n Some by (simp add: job_append_def jobq_run h'_def fun_upd_twist)
  qed
  have "jq_rep ?s' (as @ [a])" using d nl by (simp add: jq_rep_def dl_ok_def)
  moreover have "jq_val ?s' = jq_val s" using vals n by (auto simp: jq_val_def fun_eq_iff)
  ultimately show ?thesis using run by blast
qed

text \<open>Both removals take the node out.\<close>

lemma neighbours:
  assumes ok: "dl_ok s (xs @ a # ys)" and n: "dl_heap s a = Some n"
  shows "\<And>b. n_next n = Some b \<Longrightarrow> \<exists>m. dl_heap s b = Some m \<and> b \<noteq> a \<and> n_prev n \<noteq> Some b"
    and "\<And>b. n_prev n = Some b \<Longrightarrow> \<exists>m. dl_heap s b = Some m \<and> b \<noteq> a"
    and "dl_head s = Some a \<longleftrightarrow> n_prev n = None" "dl_tail s = Some a \<longleftrightarrow> n_next n = None"
proof -
  note u = dl_unlink(4,5) [OF ok n]
  have d: "distinct (xs @ a # ys)" using ok by (simp add: dl_ok_def)
  show "\<exists>m. dl_heap s b = Some m \<and> b \<noteq> a \<and> n_prev n \<noteq> Some b" if "n_next n = Some b" for b
  proof -
    from that u(1) obtain zs where ys: "ys = b # zs" by (cases ys) auto
    with dl_ok_alloc [OF ok, of b] d u(2) show ?thesis by (auto split: if_splits dest: last_in_set)
  qed
  show "\<exists>m. dl_heap s b = Some m \<and> b \<noteq> a" if "n_prev n = Some b" for b
  proof -
    from that u(2) have b: "b \<in> set xs" by (auto split: if_splits)
    with dl_ok_alloc [OF ok, of b] d show ?thesis by auto
  qed
  show "dl_head s = Some a \<longleftrightarrow> n_prev n = None" using dl_ok_head [OF ok] u(2) d by (cases xs) auto
  show "dl_tail s = Some a \<longleftrightarrow> n_next n = None" using dl_ok_tail [OF ok] u(1) d by (cases ys rule: rev_cases) auto
qed

lemma job_remove_run:
  assumes ok: "dl_ok s (xs @ a # ys)" and n: "dl_heap s a = Some n" and nl: "\<not> q_writer s" "q_readers s = 0"
  shows "job_remove (Some a) s = Inr ((), (unlink s a n)\<lparr>q_writer := False\<rparr>)"
proof -
  note nb = neighbours [OF ok n]
  note rd = job_remove_def jobq_run unlink_def Let_def
  have hd: "(Some a = dl_head s) = (n_prev n = None)" "(dl_tail s = Some a) = (n_next n = None)" "(Some a = dl_tail s) = (n_next n = None)"
    using nb(3,4) by (auto simp: eq_commute)
  show ?thesis
  proof (cases "n_next n")
    case None
    show ?thesis
    proof (cases "n_prev n")
      case pn: None
      then have "dl_head s = Some a" "dl_tail s = Some a" using None nb(3,4) by auto
      then show ?thesis using nl n None pn by (simp add: rd)
    next
      case (Some c)
      then obtain m' where "dl_heap s c = Some m'" "c \<noteq> a" using nb(2) by blast
      then show ?thesis using nl n None Some by (simp add: rd hd)
    qed
  next
    case (Some b)
    then obtain m where m: "dl_heap s b = Some m" "b \<noteq> a" "n_prev n \<noteq> Some b" using nb(1) by blast
    show ?thesis
    proof (cases "n_prev n")
      case None
      then show ?thesis using nl n Some m by (simp add: rd hd)
    next
      case (Some c)
      then obtain m' where "dl_heap s c = Some m'" "c \<noteq> a" using nb(2) by blast
      then show ?thesis using nl n Some \<open>n_next n = Some b\<close> m by (simp add: rd hd fun_upd_twist)
    qed
  qed
qed

lemma job_remove_simple_run:
  assumes ok: "dl_ok s (xs @ a # ys)" and n: "dl_heap s a = Some n" and nl: "\<not> q_writer s" "q_readers s = 0"
  shows "job_remove_simple (Some a) s = Inr ((), (unlink s a n)\<lparr>q_writer := False\<rparr>)"
proof -
  note nb = neighbours [OF ok n]
  note rd = job_remove_simple_def jobq_run unlink_def Let_def
  show ?thesis
  proof (cases "n_next n")
    case None
    then show ?thesis using nl n nb(2) by (cases "n_prev n") (auto simp: rd)
  next
    case (Some b)
    then obtain m where m: "dl_heap s b = Some m" "b \<noteq> a" "n_prev n \<noteq> Some b" using nb(1) by blast
    show ?thesis
    proof (cases "n_prev n")
      case None
      then show ?thesis using nl n Some m by (simp add: rd)
    next
      case (Some c)
      then obtain m' where "dl_heap s c = Some m'" "c \<noteq> a" using nb(2) by blast
      then show ?thesis using nl n Some \<open>n_next n = Some b\<close> m by (simp add: rd fun_upd_twist)
    qed
  qed
qed

lemma unlink_rep:
  assumes "jq_rep s (xs @ a # ys)" "dl_heap s a = Some n"
  shows "jq_rep ((unlink s a n)\<lparr>q_writer := False\<rparr>) (xs @ ys)" "jq_val ((unlink s a n)\<lparr>q_writer := False\<rparr>) = jq_val s"
proof -
  have ok: "dl_ok s (xs @ a # ys)" and nl: "q_readers s = 0" "q_rdfail s = []" using assms(1) by (auto simp: jq_rep_def)
  note u = dl_unlink [OF ok assms(2)]
  have "q_readers (unlink s a n) = 0" "q_rdfail (unlink s a n) = []" using nl by (simp_all add: unlink_def Let_def)
  with u(1) show "jq_rep ((unlink s a n)\<lparr>q_writer := False\<rparr>) (xs @ ys)" by (simp add: jq_rep_def dl_ok_def)
  show "jq_val ((unlink s a n)\<lparr>q_writer := False\<rparr>) = jq_val s" using u(3) by (simp add: jq_val_def fun_eq_iff)
qed

lemma find_loop_seg:
  assumes "dseg (dl_heap s) pv p as lv None" "length as \<le> fuel"
  shows "find_loop fuel mine p s = Inr (find (\<lambda>a. mine (n_val (the (dl_heap s a)))) as, s)"
  using assms
proof (induction as arbitrary: pv p fuel)
  case (Cons a as)
  then obtain n k where n: "p = Some a" "dl_heap s a = Some n" "dseg (dl_heap s) (Some a) (n_next n) as lv None"
    "fuel = Suc k" "length as \<le> k" by (cases fuel) (auto split: option.splits)
  with Cons.IH [OF n(3,5)] show ?case by (simp add: io_simps)
qed (simp add: io_simps)

lemma jq_length: "dl_ok s as \<Longrightarrow> length as \<le> dl_brk s"
proof -
  assume ok: "dl_ok s as"
  have "set as \<subseteq> {..<dl_brk s}"
  proof
    fix a
    assume "a \<in> set as"
    then have "a \<in> dom (dl_heap s)" using dl_ok_alloc [OF ok] by blast
    then show "a \<in> {..<dl_brk s}" using ok by (auto simp: dl_ok_def)
  qed
  then have "card (set as) \<le> dl_brk s" using card_mono [of "{..<dl_brk s}" "set as"] by simp
  moreover have "distinct as" using ok by (simp add: dl_ok_def)
  ultimately show ?thesis by (simp add: distinct_card)
qed

lemma job_find_rep:
  assumes "jq_rep s as"
  shows "job_find mine s = Inr (find (\<lambda>a. case jq_val s a of Some v \<Rightarrow> mine v | None \<Rightarrow> False) as, s)"
proof -
  have ok: "dl_ok s as" and nl: "\<not> q_writer s" "q_readers s = 0" "q_rdfail s = []" using assms by (auto simp: jq_rep_def)
  let ?s1 = "s\<lparr>q_readers := Suc 0\<rparr>"
  have "dseg (dl_heap ?s1) None (dl_head ?s1) as (dl_tail ?s1) None" using ok by (simp add: dl_ok_def)
  then have f: "find_loop (dl_brk ?s1) mine (dl_head ?s1) ?s1 = Inr (find (\<lambda>a. mine (n_val (the (dl_heap s a)))) as, ?s1)"
    using find_loop_seg jq_length [OF ok] by fastforce
  have e: "find (\<lambda>a. mine (n_val (the (dl_heap s a)))) as = find (\<lambda>a. case jq_val s a of Some v \<Rightarrow> mine v | None \<Rightarrow> False) as"
    using dl_ok_alloc [OF ok] by (intro find_cong refl) (force simp: jq_val_def)
  have r: "s\<lparr>q_readers := Suc 0, q_rdfail := []\<rparr> = ?s1" "s\<lparr>q_readers := 0\<rparr> = s" using nl by (cases s; simp)+
  show ?thesis using f nl by (simp add: job_find_def rdlock_def unlock_def io_simps e r)
qed

section \<open>The interface\<close>

datatype jop = Ins addr | App addr | Rem addr

fun jop_run :: "(addr option \<Rightarrow> ('s, unit) io) \<Rightarrow> (addr option \<Rightarrow> ('s, unit) io) \<Rightarrow> (addr option \<Rightarrow> ('s, unit) io) \<Rightarrow> jop \<Rightarrow> ('s, unit) io" where
  "jop_run ins app rm (Ins a) = ins (Some a)"
| "jop_run ins app rm (App a) = app (Some a)"
| "jop_run ins app rm (Rem a) = rm (Some a)"

fun jops_run :: "(addr option \<Rightarrow> ('s, unit) io) \<Rightarrow> (addr option \<Rightarrow> ('s, unit) io) \<Rightarrow> (addr option \<Rightarrow> ('s, unit) io) \<Rightarrow> jop list \<Rightarrow> ('s, unit) io" where
  "jops_run ins app rm [] = ret_io ()"
| "jops_run ins app rm (x # xs) = seq_io (jop_run ins app rm x) (jops_run ins app rm xs)"

fun jop_spec :: "jop \<Rightarrow> addr list \<Rightarrow> addr list" where
  "jop_spec (Ins a) as = a # as"
| "jop_spec (App a) as = as @ [a]"
| "jop_spec (Rem a) as = remove1 a as"

text \<open>Jobs that exist and are not queued are put in, queued ones are taken out.\<close>

fun jop_fits :: "(addr \<rightharpoonup> 'v) \<Rightarrow> addr list \<Rightarrow> jop \<Rightarrow> bool" where
  "jop_fits val as (Ins a) = (a \<notin> set as \<and> val a \<noteq> None)"
| "jop_fits val as (App a) = (a \<notin> set as \<and> val a \<noteq> None)"
| "jop_fits val as (Rem a) = (a \<in> set as)"

fun jops_fit :: "(addr \<rightharpoonup> 'v) \<Rightarrow> addr list \<Rightarrow> jop list \<Rightarrow> bool" where
  "jops_fit val as [] = True"
| "jops_fit val as (x # xs) = (jop_fits val as x \<and> jops_fit val (jop_spec x as) xs)"

locale job_list =
  fixes ins app rm :: "addr option \<Rightarrow> ('s, unit) io"
    and rep :: "'s \<Rightarrow> addr list \<Rightarrow> bool"
    and val :: "'s \<Rightarrow> addr \<Rightarrow> 'v option"
  assumes ins_rep: "rep s as \<Longrightarrow> a \<notin> set as \<Longrightarrow> val s a = Some v \<Longrightarrow> \<exists>s'. ins (Some a) s = Inr ((), s') \<and> rep s' (a # as) \<and> val s' = val s"
    and app_rep: "rep s as \<Longrightarrow> a \<notin> set as \<Longrightarrow> val s a = Some v \<Longrightarrow> \<exists>s'. app (Some a) s = Inr ((), s') \<and> rep s' (as @ [a]) \<and> val s' = val s"
    and rm_rep: "rep s as \<Longrightarrow> a \<in> set as \<Longrightarrow> \<exists>s'. rm (Some a) s = Inr ((), s') \<and> rep s' (remove1 a as) \<and> val s' = val s"
begin

lemma jop_refines:
  assumes "rep s as" "jop_fits (val s) as x"
  shows "\<exists>s'. jop_run ins app rm x s = Inr ((), s') \<and> rep s' (jop_spec x as) \<and> val s' = val s"
  using assms ins_rep app_rep rm_rep by (cases x) fastforce+

lemma jops_refine:
  "rep s as \<Longrightarrow> jops_fit (val s) as xs \<Longrightarrow>
   \<exists>s'. jops_run ins app rm xs s = Inr ((), s') \<and> rep s' (fold jop_spec xs as) \<and> val s' = val s"
proof (induction xs arbitrary: s as)
  case (Cons x xs)
  then obtain s1 where s1: "jop_run ins app rm x s = Inr ((), s1)" "rep s1 (jop_spec x as)" "val s1 = val s"
    using jop_refines by fastforce
  with Cons.IH [OF s1(2)] Cons.prems show ?case by (auto simp: io_simps)
qed (simp add: io_simps)

end

lemma removal_rep:
  assumes run: "\<And>s xs a ys n. dl_ok s (xs @ a # ys) \<Longrightarrow> dl_heap s a = Some n \<Longrightarrow> \<not> q_writer s \<Longrightarrow> q_readers s = 0 \<Longrightarrow>
      rm (Some a) s = Inr ((), (unlink s a n)\<lparr>q_writer := False\<rparr>)"
    and rep: "jq_rep s as" and a: "a \<in> set as"
  shows "\<exists>s'. rm (Some a) s = Inr ((), s') \<and> jq_rep s' (remove1 a as) \<and> jq_val s' = jq_val s"
proof -
  obtain xs ys where as: "as = xs @ a # ys" "a \<notin> set xs" using a by (meson split_list_first)
  have ok: "dl_ok s (xs @ a # ys)" "\<not> q_writer s" "q_readers s = 0" using rep as by (auto simp: jq_rep_def)
  obtain n where n: "dl_heap s a = Some n" using dl_ok_alloc [OF ok(1)] by auto
  have "remove1 a as = xs @ ys" using as by (simp add: remove1_append)
  with run [OF ok(1) n ok(2,3)] unlink_rep [OF rep [unfolded as(1)] n] show ?thesis by auto
qed

interpretation rwlock: job_list job_insert job_append job_remove jq_rep jq_val
proof (unfold_locales, goal_cases)
  case 1
  then show ?case by (rule job_insert_rep)
next
  case 2
  then show ?case by (rule job_append_rep)
next
  case 3
  show ?case by (rule removal_rep [of job_remove, OF job_remove_run 3])
qed

interpretation workers: job_list job_insert job_append job_remove_simple jq_rep jq_val
proof (unfold_locales, goal_cases)
  case 1
  then show ?case by (rule job_insert_rep)
next
  case 2
  then show ?case by (rule job_append_rep)
next
  case 3
  show ?case by (rule removal_rep [of job_remove_simple, OF job_remove_simple_run 3])
qed

section \<open>Properties\<close>

text \<open>C26: the job queue is a list. Whatever sequence of insertions in front, additions behind and
  removals of queued jobs is run on \<open>threads/rwlock.c\<close>'s queue, no pointer is followed wrongly,
  the queue then holds, in both directions, what the same operations on a list give, the jobs
  keep their contents and the lock is free again; and \<open>job_find\<close> returns the first job of a
  thread in that order, or null.\<close>

theorem job_queue_refines_list:
  assumes "jq_rep s as" "jops_fit (jq_val s) as xs"
  shows "\<exists>s'. jops_run job_insert job_append job_remove xs s = Inr ((), s') \<and> jq_rep s' (fold jop_spec xs as) \<and> jq_val s' = jq_val s \<and>
    job_find mine s' = Inr (find (\<lambda>a. case jq_val s a of Some v \<Rightarrow> mine v | None \<Rightarrow> False) (fold jop_spec xs as), s')"
proof -
  obtain s' where s': "jops_run job_insert job_append job_remove xs s = Inr ((), s')" "jq_rep s' (fold jop_spec xs as)" "jq_val s' = jq_val s"
    using rwlock.jops_refine [OF assms] by blast
  with job_find_rep [OF s'(2), of mine] show ?thesis by auto
qed

definition sample_jobq :: "nat jobq" where
  "sample_jobq = \<lparr>dl_heap = [0 \<mapsto> \<lparr>n_next = None, n_prev = None, n_val = 7\<rparr>, 1 \<mapsto> \<lparr>n_next = None, n_prev = None, n_val = 8\<rparr>],
     dl_head = None, dl_tail = None, dl_brk = 2, dl_oom = [], q_writer = False, q_readers = 0, q_rdfail = []\<rparr>"

theorem job_queue_refines_list_witness:
  "\<exists>s'. jops_run job_insert job_append job_remove [App 0, Ins 1, Rem 0] sample_jobq = Inr ((), s') \<and> jq_rep s' [1] \<and>
     job_find (\<lambda>v. v = 8) s' = Inr (Some 1, s')"
proof -
  have "jq_rep sample_jobq []" by (simp add: jq_rep_def sample_jobq_def dl_ok_def)
  moreover have "jops_fit (jq_val sample_jobq) [] [App 0, Ins 1, Rem 0]" by (simp add: jq_val_def sample_jobq_def)
  ultimately obtain s' where
    "jops_run job_insert job_append job_remove [App 0, Ins 1, Rem 0] sample_jobq = Inr ((), s') \<and>
     jq_rep s' (fold jop_spec [App 0, Ins 1, Rem 0] []) \<and> jq_val s' = jq_val sample_jobq \<and>
     job_find (\<lambda>v. v = 8) s' = Inr (find (\<lambda>a. case jq_val sample_jobq a of Some v \<Rightarrow> v = 8 | None \<Rightarrow> False) (fold jop_spec [App 0, Ins 1, Rem 0] []), s')"
    using job_queue_refines_list [of sample_jobq "[]" "[App 0, Ins 1, Rem 0]" "\<lambda>v. v = 8"] by blast
  then show ?thesis by (auto simp: jq_val_def sample_jobq_def)
qed

text \<open>The shorter removal does the same. On every well-formed queue, and for every job in it,
  \<open>job_remove\<close> of \<open>Ex11_3_workerthrd.c\<close>, which looks only at the job's neighbours, and
  \<open>job_remove\<close> of \<open>threads/rwlock.c\<close>, which compares the job with the two ends, return and leave
  the same state.\<close>

theorem job_remove_equivalent:
  assumes "jq_rep s as" "a \<in> set as"
  shows "job_remove_simple (Some a) s = job_remove (Some a) s \<and> (\<exists>s'. job_remove (Some a) s = Inr ((), s'))"
proof -
  obtain xs ys where as: "as = xs @ a # ys" using assms(2) by (meson split_list)
  have ok: "dl_ok s (xs @ a # ys)" "\<not> q_writer s" "q_readers s = 0" using assms(1) as by (auto simp: jq_rep_def)
  obtain n where n: "dl_heap s a = Some n" using dl_ok_alloc [OF ok(1)] by auto
  show ?thesis using job_remove_run [OF ok(1) n ok(2,3)] job_remove_simple_run [OF ok(1) n ok(2,3)] by simp
qed

theorem job_remove_equivalent_witness:
  "\<exists>s. job_append (Some 0) sample_jobq = Inr ((), s) \<and> job_remove_simple (Some 0) s = job_remove (Some 0) s"
proof -
  have r: "jq_rep sample_jobq []" "jq_val sample_jobq 0 = Some 7" by (simp_all add: jq_rep_def sample_jobq_def dl_ok_def jq_val_def)
  obtain s where "job_append (Some 0) sample_jobq = Inr ((), s)" "jq_rep s [0]" using job_append_rep [OF r(1) _ r(2)] by auto
  with job_remove_equivalent [of s "[0]" 0] show ?thesis by auto
qed

end
