(* ===== verification/Step_System.thy ===== *)
theory Step_System
  imports Apue_Prelude
begin

text \<open>
  Programs that run concurrently, as step relations: the states that can be reached, the rule for
  invariants, and executable schedules. The interfaces are the locales \<open>step_invariant\<close> and
  \<open>schedules\<close>; each concurrent component interprets them on its own steps.
\<close>

section \<open>Reachable states\<close>

inductive reachable :: "('s \<Rightarrow> bool) \<Rightarrow> ('s \<Rightarrow> 's \<Rightarrow> bool) \<Rightarrow> 's \<Rightarrow> bool" for init step where
  start: "init s \<Longrightarrow> reachable init step s"
| step: "reachable init step s \<Longrightarrow> step s s' \<Longrightarrow> reachable init step s'"

locale step_invariant =
  fixes init :: "'s \<Rightarrow> bool" and step :: "'s \<Rightarrow> 's \<Rightarrow> bool" and inv :: "'s \<Rightarrow> bool"
  assumes start_inv: "init s \<Longrightarrow> inv s"
    and step_inv: "inv s \<Longrightarrow> step s s' \<Longrightarrow> inv s'"
begin

lemma reachable_inv: "reachable init step s \<Longrightarrow> inv s"
  by (induction rule: reachable.induct) (fact start_inv, rule step_inv)

end

section \<open>Schedules\<close>

text \<open>A schedule is a list of moves; \<open>nxt\<close> gives the state after a move, if it is possible.\<close>

fun run_moves :: "('m \<Rightarrow> 's \<Rightarrow> 's option) \<Rightarrow> 'm list \<Rightarrow> 's \<Rightarrow> 's option" where
  "run_moves nxt [] s = Some s"
| "run_moves nxt (m # ms) s = (case nxt m s of None \<Rightarrow> None | Some s' \<Rightarrow> run_moves nxt ms s')"

lemma run_moves_append: "run_moves nxt (ms @ ns) s = (case run_moves nxt ms s of None \<Rightarrow> None | Some s' \<Rightarrow> run_moves nxt ns s')"
  by (induction ms arbitrary: s) (auto split: option.splits)

locale schedules =
  fixes step :: "'s \<Rightarrow> 's \<Rightarrow> bool" and nxt :: "'m \<Rightarrow> 's \<Rightarrow> 's option"
  assumes nxt_step: "nxt m s = Some s' \<Longrightarrow> step s s'"
begin

lemma run_reachable: "reachable init step s \<Longrightarrow> run_moves nxt ms s = Some s' \<Longrightarrow> reachable init step s'"
  by (induction ms arbitrary: s) (auto split: option.splits dest: nxt_step intro: reachable.step)

end

end
