(* ===== verification/Worker_Pool.thy ===== *)
theory Worker_Pool
  imports Job_Queue Step_System "HOL-Library.Multiset"
begin

text \<open>
  The worker threads of \<open>mytests/threads/Ex11_3_workerthrd.c\<close>: each waits on a condition
  variable of its own for jobs addressed to it, which the main thread puts into one queue. The
  threads are interleaved at the points where they release a lock or sleep; the operations on
  the queue run under its lock and are single steps.
\<close>

section \<open>State\<close>

record wjob =
  wj_id :: int
  wj_worker :: nat      \<comment> \<open>\<open>j_worker\<close>, by its index in the pool\<close>

text \<open>
  Where a worker is. From \<open>Locked\<close> to \<open>Found\<close> it holds its own mutex, except while it sleeps.
\<close>

datatype wpc =
    Top              \<comment> \<open>at the test of \<open>graceful_stop\<close> in \<open>worker_func\<close>\<close>
  | Locked           \<comment> \<open>in \<open>job_fetch_atomic\<close>, about to call \<open>job_find\<close>\<close>
  | Waiting          \<comment> \<open>\<open>job_find\<close> returned null; about to call \<open>pthread_cond_wait\<close>\<close>
  | Asleep           \<comment> \<open>in \<open>pthread_cond_wait\<close>\<close>
  | Woken            \<comment> \<open>awake, about to leave \<open>pthread_cond_wait\<close>\<close>
  | Found addr       \<comment> \<open>about to remove the job\<close>
  | Has addr         \<comment> \<open>back in \<open>worker_func\<close> with a job\<close>
  | Exited

text \<open>
  \<open>to_signal\<close>: the main thread is between putting a job into the queue and signalling its
  worker. \<open>created\<close> and \<open>printed\<close> record the jobs put into the queue and the workers' output.
\<close>

record pool =
  jobQ :: "wjob jobq"
  wpc :: "nat \<Rightarrow> wpc"
  graceful_stop :: bool
  to_signal :: "nat option"
  created :: "wjob list"
  printed :: "(nat \<times> wjob) list"

definition mine :: "nat \<Rightarrow> wjob \<Rightarrow> bool" where
  "mine w j \<longleftrightarrow> wj_worker j = w"

definition worker_find :: "nat \<Rightarrow> (wjob jobq, addr option) io" where
  "worker_find w = job_find (mine w)"

text \<open>\<open>pthread_cond_signal\<close> on the variable of worker \<open>w\<close>: nothing happens unless it sleeps.\<close>

definition cond_signal :: "nat \<Rightarrow> pool \<Rightarrow> pool" where
  "cond_signal w s = (if wpc s w = Asleep then s\<lparr>wpc := (wpc s)(w := Woken)\<rparr> else s)"

definition holds_mutex :: "wpc \<Rightarrow> bool" where
  "holds_mutex p \<longleftrightarrow> p = Locked \<or> p = Waiting \<or> (\<exists>a. p = Found a)"

text \<open>One job of \<open>create_jobs\<close>, up to the release of the queue's lock.\<close>

definition put_job :: "wjob \<Rightarrow> (wjob jobq, unit) io" where
  "put_job j =
     bind_io (new_node j) (\<lambda>jp.
     if jp = None then fail_io (SysExit ''error: malloc() struct job'')
     else if even (wj_id j) then job_append jp else job_insert jp)"

text \<open>The \<open>i\<close>-th job of \<open>create_jobs\<close> with a pool of \<open>psize\<close> workers.\<close>

definition job_of :: "nat \<Rightarrow> nat \<Rightarrow> wjob" where
  "job_of psize i = \<lparr>wj_id = int i, wj_worker = i mod psize\<rparr>"

text \<open>The jobs of a call of \<open>create_jobs\<close>, in the order in which it puts them into the queue.\<close>

definition create_jobs :: "nat \<Rightarrow> nat \<Rightarrow> wjob list" where
  "create_jobs psize jcount = map (job_of psize) [1..<Suc jcount]"

fun put_jobs :: "wjob list \<Rightarrow> (wjob jobq, unit) io" where
  "put_jobs [] = ret_io ()"
| "put_jobs (j # js) = seq_io (put_job j) (put_jobs js)"

text \<open>The end of a turn of \<open>worker_func\<close>: print the job and free it.\<close>

definition finish_job :: "addr \<Rightarrow> (wjob jobq, wjob) io" where
  "finish_job a = bind_io (at_node (Some a) n_val) (\<lambda>j. seq_io (free_node (Some a)) (ret_io j))"

inductive pool_step :: "nat \<Rightarrow> pool \<Rightarrow> pool \<Rightarrow> bool" for psize where
  stop_top: "w < psize \<Longrightarrow> wpc s w = Top \<Longrightarrow> graceful_stop s \<Longrightarrow> pool_step psize s (s\<lparr>wpc := (wpc s)(w := Exited)\<rparr>)"
| enter: "w < psize \<Longrightarrow> wpc s w = Top \<Longrightarrow> \<not> graceful_stop s \<Longrightarrow> pool_step psize s (s\<lparr>wpc := (wpc s)(w := Locked)\<rparr>)"
| find_none: "w < psize \<Longrightarrow> wpc s w = Locked \<Longrightarrow> worker_find w (jobQ s) = Inr (None, q) \<Longrightarrow>
    pool_step psize s (s\<lparr>jobQ := q, wpc := (wpc s)(w := Waiting)\<rparr>)"
| find_some: "w < psize \<Longrightarrow> wpc s w = Locked \<Longrightarrow> worker_find w (jobQ s) = Inr (Some a, q) \<Longrightarrow>
    pool_step psize s (s\<lparr>jobQ := q, wpc := (wpc s)(w := Found a)\<rparr>)"
| sleep: "w < psize \<Longrightarrow> wpc s w = Waiting \<Longrightarrow> pool_step psize s (s\<lparr>wpc := (wpc s)(w := Asleep)\<rparr>)"
| woken: "w < psize \<Longrightarrow> wpc s w = Woken \<Longrightarrow>
    pool_step psize s (s\<lparr>wpc := (wpc s)(w := (if graceful_stop s then Top else Locked))\<rparr>)"
| take: "w < psize \<Longrightarrow> wpc s w = Found a \<Longrightarrow> job_remove_simple (Some a) (jobQ s) = Inr ((), q) \<Longrightarrow>
    pool_step psize s (s\<lparr>jobQ := q, wpc := (wpc s)(w := Has a)\<rparr>)"
| work: "w < psize \<Longrightarrow> wpc s w = Has a \<Longrightarrow> finish_job a (jobQ s) = Inr (j, q) \<Longrightarrow>
    pool_step psize s (s\<lparr>jobQ := q, wpc := (wpc s)(w := Top), printed := printed s @ [(w, j)]\<rparr>)"
| put: "to_signal s = None \<Longrightarrow> wj_worker j < psize \<Longrightarrow> put_job j (jobQ s) = Inr ((), q) \<Longrightarrow>
    pool_step psize s (s\<lparr>jobQ := q, to_signal := Some (wj_worker j), created := created s @ [j]\<rparr>)"
| signal: "to_signal s = Some w \<Longrightarrow> pool_step psize s ((cond_signal w s)\<lparr>to_signal := None\<rparr>)"
| sigint: "pool_step psize s (s\<lparr>graceful_stop := True\<rparr>)"
| wake: "graceful_stop s \<Longrightarrow> to_signal s = None \<Longrightarrow> w < psize \<Longrightarrow> \<not> holds_mutex (wpc s w) \<Longrightarrow> pool_step psize s (cond_signal w s)"
| spurious: "w < psize \<Longrightarrow> wpc s w = Asleep \<Longrightarrow> pool_step psize s (s\<lparr>wpc := (wpc s)(w := Woken)\<rparr>)"

definition pool_init :: "pool \<Rightarrow> bool" where
  "pool_init s \<longleftrightarrow> jq_rep (jobQ s) [] \<and> dl_heap (jobQ s) = Map.empty \<and> dl_oom (jobQ s) = [] \<and> (\<forall>w. wpc s w = Top) \<and> \<not> graceful_stop s \<and>
     to_signal s = None \<and> created s = [] \<and> printed s = []"

abbreviation pool_reachable :: "nat \<Rightarrow> pool \<Rightarrow> bool" where
  "pool_reachable psize \<equiv> reachable pool_init (pool_step psize)"

section \<open>Invariant\<close>

definition held :: "pool \<Rightarrow> nat \<Rightarrow> wjob multiset" where
  "held s w = (case wpc s w of Has a \<Rightarrow> {# the (jq_val (jobQ s) a) #} | _ \<Rightarrow> {#})"

definition pool_inv :: "nat \<Rightarrow> pool \<Rightarrow> addr list \<Rightarrow> bool" where
  "pool_inv psize s as \<longleftrightarrow> jq_rep (jobQ s) as \<and> dl_oom (jobQ s) = [] \<and>
     (\<forall>w a. wpc s w = Found a \<longrightarrow> w < psize \<and> a \<in> set as \<and> (\<exists>j. jq_val (jobQ s) a = Some j \<and> mine w j)) \<and>
     (\<forall>w a. wpc s w = Has a \<longrightarrow> w < psize \<and> a \<notin> set as \<and> (\<exists>j. jq_val (jobQ s) a = Some j \<and> mine w j)) \<and>
     (\<forall>(w, j) \<in> set (printed s). mine w j) \<and>
     mset (created s) = mset (map (\<lambda>a. the (jq_val (jobQ s) a)) as) + (\<Sum>w<psize. held s w) + mset (map snd (printed s))"

lemma pool_inv_Found:
  "pool_inv psize s as \<Longrightarrow> wpc s w = Found a \<Longrightarrow> w < psize \<and> a \<in> set as \<and> (\<exists>j. jq_val (jobQ s) a = Some j \<and> mine w j)"
  unfolding pool_inv_def by blast

lemma pool_inv_Has:
  "pool_inv psize s as \<Longrightarrow> wpc s w = Has a \<Longrightarrow> w < psize \<and> a \<notin> set as \<and> (\<exists>j. jq_val (jobQ s) a = Some j \<and> mine w j)"
  unfolding pool_inv_def by blast

lemma pool_inv_rep: "pool_inv psize s as \<Longrightarrow> jq_rep (jobQ s) as \<and> dl_oom (jobQ s) = []"
  unfolding pool_inv_def by blast

lemma sum_upd:
  fixes f :: "nat \<Rightarrow> 'a multiset"
  assumes "w < n"
  shows "(\<Sum>x<n. (f(w := y)) x) + f w = (\<Sum>x<n. f x) + y"
proof -
  have w: "w \<in> {..<n}" using assms by simp
  have "(\<Sum>x \<in> {..<n} - {w}. (f(w := y)) x) = (\<Sum>x \<in> {..<n} - {w}. f x)" by (rule sum.cong) auto
  then show ?thesis
    using sum.remove [OF _ w, of f] sum.remove [OF _ w, of "f(w := y)"] by (simp add: ac_simps)
qed

lemma held_upd: "held (s\<lparr>wpc := (wpc s)(w := p)\<rparr>) = (held s)(w := (case p of Has a \<Rightarrow> {# the (jq_val (jobQ s) a) #} | _ \<Rightarrow> {#}))"
  by (auto simp: held_def fun_eq_iff split: wpc.splits)

text \<open>A step that only moves a worker that has no job, before and after.\<close>

lemma pool_inv_move:
  assumes "pool_inv psize s as" "w < psize" "\<forall>a. wpc s w \<noteq> Has a" "\<forall>a. p \<noteq> Has a"
    and "\<forall>a. p = Found a \<longrightarrow> a \<in> set as \<and> (\<exists>j. jq_val (jobQ s) a = Some j \<and> mine w j)"
  shows "pool_inv psize (s\<lparr>wpc := (wpc s)(w := p)\<rparr>) as"
proof -
  have "held s w = {#}" "(case p of Has a \<Rightarrow> {# the (jq_val (jobQ s) a) #} | _ \<Rightarrow> {#}) = {#}"
    using assms(3,4) by (auto simp: held_def split: wpc.splits)
  then have "(\<Sum>x<psize. held (s\<lparr>wpc := (wpc s)(w := p)\<rparr>) x) = (\<Sum>x<psize. held s x)"
    unfolding held_upd using sum_upd [OF assms(2), of "held s" "{#}"] by simp
  with assms show ?thesis by (auto simp: pool_inv_def)
qed

text \<open>What the steps on the queue do.\<close>

lemma new_node_rep:
  assumes "jq_rep q as" "dl_oom q = []"
  shows "\<exists>q'. new_node j q = Inr (Some (dl_brk q), q') \<and> jq_rep q' as \<and> dl_oom q' = [] \<and> jq_val q' = (jq_val q)(dl_brk q \<mapsto> j) \<and>
    dl_brk q \<notin> set as"
proof -
  have ok: "dl_ok q as" using assms(1) by (simp add: jq_rep_def)
  let ?q = "q\<lparr>dl_heap := (dl_heap q)(dl_brk q \<mapsto> \<lparr>n_next = None, n_prev = None, n_val = j\<rparr>), dl_brk := Suc (dl_brk q), dl_oom := []\<rparr>"
  have n: "dl_brk q \<notin> set as" by (rule dl_ok_fresh_notin [OF ok])
  have "jq_rep ?q as" using assms(1) n by (auto simp: jq_rep_def dl_ok_def intro: less_SucI)
  moreover have "jq_val ?q = (jq_val q)(dl_brk q \<mapsto> j)" by (auto simp: jq_val_def fun_eq_iff)
  ultimately show ?thesis using assms(2) n by (simp add: new_node_def)
qed

lemma oom_keeps:
  "job_insert (Some a) q = Inr ((), q') \<Longrightarrow> dl_oom q' = dl_oom q"
  "job_append (Some a) q = Inr ((), q') \<Longrightarrow> dl_oom q' = dl_oom q"
  "job_remove_simple (Some a) q = Inr ((), q') \<Longrightarrow> dl_oom q' = dl_oom q"
  by (auto simp: job_insert_def job_append_def job_remove_simple_def io_simps wrlock_def unlock_def set_next_def set_prev_def set_node_def
      at_node_def split: if_splits option.splits sum.splits)

lemma put_job_run:
  assumes "jq_rep q as" "dl_oom q = []"
  defines "a \<equiv> dl_brk q"
  shows "\<exists>q'. put_job j q = Inr ((), q') \<and> jq_rep q' (if even (wj_id j) then as @ [a] else a # as) \<and> dl_oom q' = [] \<and>
    a \<notin> set as \<and> jq_val q a = None \<and> jq_val q' = (jq_val q)(a \<mapsto> j)"
proof -
  obtain q1 where q1: "new_node j q = Inr (Some a, q1)" "jq_rep q1 as" "dl_oom q1 = []" "jq_val q1 = (jq_val q)(a \<mapsto> j)" "a \<notin> set as"
    using new_node_rep [OF assms(1,2)] unfolding a_def by blast
  have "dl_ok q as" using assms(1) by (simp add: jq_rep_def)
  from dl_ok_fresh [OF this] have free: "jq_val q a = None" by (simp add: jq_val_def a_def)
  have v: "jq_val q1 a = Some j" using q1(4) by simp
  show ?thesis
  proof (cases "even (wj_id j)")
    case True
    obtain q' where q': "job_append (Some a) q1 = Inr ((), q')" "jq_rep q' (as @ [a])" "jq_val q' = jq_val q1"
      using job_append_rep [OF q1(2,5) v] by blast
    with True q1 free oom_keeps(2) [OF q'(1)] show ?thesis by (intro exI [of _ q']) (simp add: put_job_def io_simps)
  next
    case False
    obtain q' where q': "job_insert (Some a) q1 = Inr ((), q')" "jq_rep q' (a # as)" "jq_val q' = jq_val q1"
      using job_insert_rep [OF q1(2,5) v] by blast
    with False q1 free oom_keeps(1) [OF q'(1)] show ?thesis by (intro exI [of _ q']) (simp add: put_job_def io_simps)
  qed
qed

lemma put_job_rep:
  assumes "jq_rep q as" "dl_oom q = []" "put_job j q = Inr ((), q')"
  shows "\<exists>a as'. a \<notin> set as \<and> mset as' = add_mset a (mset as) \<and> jq_rep q' as' \<and> dl_oom q' = [] \<and>
    jq_val q a = None \<and> jq_val q' = (jq_val q)(a \<mapsto> j)"
  using put_job_run [OF assms(1,2), of j] assms(3)
  by (intro exI [of _ "dl_brk q"] exI [of _ "if even (wj_id j) then as @ [dl_brk q] else dl_brk q # as"]) auto

text \<open>Jobs with odd numbers are queued in front, the others behind.\<close>

lemma put_jobs_order:
  assumes "jq_rep q as" "dl_oom q = []"
  shows "\<exists>q' as'. put_jobs js q = Inr ((), q') \<and> jq_rep q' as' \<and>
    map (\<lambda>a. the (jq_val q' a)) as' =
      rev (filter (\<lambda>j. odd (wj_id j)) js) @ map (\<lambda>a. the (jq_val q a)) as @ filter (\<lambda>j. even (wj_id j)) js"
  using assms
proof (induction js arbitrary: q as)
  case (Cons j js)
  let ?a = "dl_brk q" and ?as = "if even (wj_id j) then as @ [dl_brk q] else dl_brk q # as"
  obtain q1 where q1: "put_job j q = Inr ((), q1)" "jq_rep q1 ?as" "dl_oom q1 = []" "?a \<notin> set as" "jq_val q1 = (jq_val q)(?a \<mapsto> j)"
    using put_job_run [OF Cons.prems, of j] by blast
  have m: "map (\<lambda>a. the (jq_val q1 a)) as = map (\<lambda>a. the (jq_val q a)) as" using q1(4) by (auto simp: q1(5))
  obtain q' as' where "put_jobs js q1 = Inr ((), q')" "jq_rep q' as'"
    "map (\<lambda>a. the (jq_val q' a)) as' = rev (filter (\<lambda>j. odd (wj_id j)) js) @ map (\<lambda>a. the (jq_val q1 a)) ?as @ filter (\<lambda>j. even (wj_id j)) js"
    using Cons.IH [OF q1(2,3)] by blast
  with q1(1) m show ?case by (intro exI [of _ q'] exI [of _ as']) (auto simp: io_simps q1(5))
qed (auto simp: io_simps)

lemma finish_job_rep:
  assumes "jq_rep q as" "a \<notin> set as" "jq_val q a = Some v" "finish_job a q = Inr (j, q')"
  shows "j = v \<and> jq_rep q' as \<and> dl_oom q' = dl_oom q \<and> jq_val q' = (jq_val q)(a := None)"
proof -
  obtain n where n: "dl_heap q a = Some n" "n_val n = v" using assms(3) by (auto simp: jq_val_def)
  with assms(4) have "j = v" "q' = q\<lparr>dl_heap := (dl_heap q)(a := None)\<rparr>"
    by (auto simp: finish_job_def io_simps free_node_def)
  with assms(1,2) show ?thesis by (auto simp: jq_rep_def dl_ok_def jq_val_def fun_eq_iff)
qed

lemma held_put:
  assumes "pool_inv psize s as" "jq_val (jobQ s) a = None" "jq_val q' = (jq_val (jobQ s))(a \<mapsto> j)" "w < psize"
  shows "held (s\<lparr>jobQ := q', to_signal := t, created := c\<rparr>) w = held s w"
  using assms by (force simp: held_def pool_inv_def split: wpc.splits)

lemma pool_inv_put:
  assumes inv: "pool_inv psize s as" and run: "put_job j (jobQ s) = Inr ((), q')"
  shows "\<exists>as'. pool_inv psize (s\<lparr>jobQ := q', to_signal := t, created := created s @ [j]\<rparr>) as'"
proof -
  let ?s = "s\<lparr>jobQ := q', to_signal := t, created := created s @ [j]\<rparr>"
  have i: "jq_rep (jobQ s) as" "dl_oom (jobQ s) = []" using inv by (auto simp: pool_inv_def)
  obtain a as' where a: "a \<notin> set as" "mset as' = add_mset a (mset as)" "jq_rep q' as'" "dl_oom q' = []"
    "jq_val (jobQ s) a = None" "jq_val q' = (jq_val (jobQ s))(a \<mapsto> j)"
    using put_job_rep [OF i run] by blast
  have set: "set as' = insert a (set as)" using arg_cong [OF a(2), of set_mset] by simp
  have h: "(\<Sum>w<psize. held ?s w) = (\<Sum>w<psize. held s w)"
    by (rule sum.cong [OF refl]) (use held_put [OF inv a(5,6)] in auto)
  have "mset (map (\<lambda>b. the (jq_val q' b)) as') = image_mset (\<lambda>b. the (jq_val q' b)) (add_mset a (mset as))" using a(2) by simp
  also have "\<dots> = add_mset j (image_mset (\<lambda>b. the (jq_val q' b)) (mset as))" by (simp add: a(6))
  also have "image_mset (\<lambda>b. the (jq_val q' b)) (mset as) = image_mset (\<lambda>b. the (jq_val (jobQ s) b)) (mset as)"
    using a(1) by (intro image_mset_cong) (auto simp: a(6))
  finally have m: "mset (map (\<lambda>b. the (jq_val q' b)) as') = add_mset j (mset (map (\<lambda>b. the (jq_val (jobQ s) b)) as))" by simp
  have ne: "w < psize \<and> b \<noteq> a" if "wpc s w = Found b \<or> wpc s w = Has b" for w b
    using inv that a(5) by (fastforce simp: pool_inv_def)
  have "pool_inv psize ?s as'"
    unfolding pool_inv_def using inv a(3,4) set ne h m by (fastforce simp: pool_inv_def a(6))
  then show ?thesis by blast
qed

lemma pool_inv_take:
  assumes inv: "pool_inv psize s as" and w: "wpc s w = Found a" and run: "job_remove_simple (Some a) (jobQ s) = Inr ((), q')"
  shows "pool_inv psize (s\<lparr>jobQ := q', wpc := (wpc s)(w := Has a)\<rparr>) (remove1 a as)"
proof -
  let ?s = "s\<lparr>jobQ := q', wpc := (wpc s)(w := Has a)\<rparr>"
  obtain j where i: "jq_rep (jobQ s) as" "dl_oom (jobQ s) = []" "w < psize" "a \<in> set as" "jq_val (jobQ s) a = Some j" "mine w j"
    using pool_inv_rep [OF inv] pool_inv_Found [OF inv w] by blast
  have q: "jq_rep q' (remove1 a as)" "jq_val q' = jq_val (jobQ s)"
    using workers.rm_rep [OF i(1,4)] run by auto
  have o: "dl_oom q' = []" using oom_keeps(3) [OF run] i(2) by simp
  have d: "distinct as" using i(1) by (simp add: jq_rep_def dl_ok_def)
  have "held ?s = (held s)(w := {# j #})" using q(2) i(5) by (auto simp: held_def fun_eq_iff split: wpc.splits)
  moreover have "held s w = {#}" using w by (simp add: held_def)
  ultimately have h: "(\<Sum>x<psize. held ?s x) = add_mset j (\<Sum>x<psize. held s x)"
    using sum_upd [OF i(3), of "held s" "{# j #}"] by simp
  have e: "mset as = add_mset a (mset (remove1 a as))" using i(4) by simp
  have "mset (map (\<lambda>b. the (jq_val (jobQ s) b)) as) = image_mset (\<lambda>b. the (jq_val (jobQ s) b)) (mset as)" by simp
  also have "\<dots> = image_mset (\<lambda>b. the (jq_val (jobQ s) b)) (add_mset a (mset (remove1 a as)))" by (simp only: e [symmetric])
  also have "\<dots> = add_mset j (mset (map (\<lambda>b. the (jq_val (jobQ s) b)) (remove1 a as)))"
    using i(5) by (simp only: image_mset_add_mset mset_map option.sel)
  finally have m: "mset (map (\<lambda>b. the (jq_val (jobQ s) b)) as) = add_mset j (mset (map (\<lambda>b. the (jq_val (jobQ s) b)) (remove1 a as)))" .
  have other: "x = w" if "jq_val (jobQ s) a = Some j'" "mine x j'" for x j' using that i(5,6) by (auto simp: mine_def)
  have c: "mset (created s) = mset (map (\<lambda>a. the (jq_val (jobQ s) a)) as) + (\<Sum>x<psize. held s x) + mset (map snd (printed s))"
    using inv by (simp add: pool_inv_def)
  have "mset (created ?s) = mset (map (\<lambda>a. the (jq_val (jobQ ?s) a)) (remove1 a as)) + (\<Sum>x<psize. held ?s x) + mset (map snd (printed ?s))"
    unfolding h using c m by (simp add: q(2))
  moreover have "\<forall>x b. wpc ?s x = Found b \<longrightarrow> x < psize \<and> b \<in> set (remove1 a as) \<and> (\<exists>j. jq_val (jobQ ?s) b = Some j \<and> mine x j)"
  proof (intro allI impI)
    fix x b
    assume "wpc ?s x = Found b"
    then have x: "x \<noteq> w" "wpc s x = Found b" by (auto split: if_splits)
    from pool_inv_Found [OF inv x(2)] other [of _ x] x(1) have "x < psize" "b \<in> set as" "b \<noteq> a" "\<exists>j. jq_val (jobQ s) b = Some j \<and> mine x j" by auto
    with d show "x < psize \<and> b \<in> set (remove1 a as) \<and> (\<exists>j. jq_val (jobQ ?s) b = Some j \<and> mine x j)" by (simp add: q(2))
  qed
  moreover have "\<forall>x b. wpc ?s x = Has b \<longrightarrow> x < psize \<and> b \<notin> set (remove1 a as) \<and> (\<exists>j. jq_val (jobQ ?s) b = Some j \<and> mine x j)"
  proof (intro allI impI)
    fix x b
    assume "wpc ?s x = Has b"
    then have "x = w \<and> b = a \<or> wpc s x = Has b" by (auto split: if_splits)
    with pool_inv_Has [OF inv, of x b] i d show "x < psize \<and> b \<notin> set (remove1 a as) \<and> (\<exists>j. jq_val (jobQ ?s) b = Some j \<and> mine x j)"
      by (auto simp: q(2))
  qed
  moreover have "\<forall>(x, j) \<in> set (printed ?s). mine x j" using inv by (auto simp: pool_inv_def)
  ultimately show ?thesis unfolding pool_inv_def using q(1) o by simp
qed

lemma pool_inv_work:
  assumes inv: "pool_inv psize s as" and w: "wpc s w = Has a" and run: "finish_job a (jobQ s) = Inr (j, q')"
  shows "pool_inv psize (s\<lparr>jobQ := q', wpc := (wpc s)(w := Top), printed := printed s @ [(w, j)]\<rparr>) as"
proof -
  let ?s = "s\<lparr>jobQ := q', wpc := (wpc s)(w := Top), printed := printed s @ [(w, j)]\<rparr>"
  obtain v where i: "jq_rep (jobQ s) as" "dl_oom (jobQ s) = []" "w < psize" "a \<notin> set as" "jq_val (jobQ s) a = Some v" "mine w v"
    using pool_inv_rep [OF inv] pool_inv_Has [OF inv w] by blast
  have q: "j = v" "jq_rep q' as" "dl_oom q' = []" "jq_val q' = (jq_val (jobQ s))(a := None)"
    using finish_job_rep [OF i(1,4,5) run] i(2) by auto
  have other: "b \<noteq> a" if "x \<noteq> w" "wpc s x = Has b \<or> wpc s x = Found b" for x b
  proof
    assume "b = a"
    with that(2) obtain j' where "jq_val (jobQ s) a = Some j'" "mine x j'"
      using pool_inv_Has [OF inv] pool_inv_Found [OF inv] by blast
    with i(5,6) that(1) show False by (auto simp: mine_def)
  qed
  have "held ?s = (held s)(w := {#})" using other by (auto simp: held_def fun_eq_iff q(4) split: wpc.splits)
  moreover have "held s w = {# v #}" using w i(5) by (simp add: held_def)
  ultimately have h: "add_mset v (\<Sum>x<psize. held ?s x) = (\<Sum>x<psize. held s x)"
    using sum_upd [OF i(3), of "held s" "{#}"] by simp
  have m: "image_mset (\<lambda>b. the (jq_val q' b)) (mset as) = image_mset (\<lambda>b. the (jq_val (jobQ s) b)) (mset as)"
    by (rule image_mset_cong) (use i(4) in \<open>auto simp: q(4)\<close>)
  have c: "mset (created s) = mset (map (\<lambda>a. the (jq_val (jobQ s) a)) as) + (\<Sum>x<psize. held s x) + mset (map snd (printed s))"
    using inv by (simp add: pool_inv_def)
  have "mset (created ?s) = mset (map (\<lambda>a. the (jq_val (jobQ ?s) a)) as) + (\<Sum>x<psize. held ?s x) + mset (map snd (printed ?s))"
    using c m h [symmetric] q(1) by (simp only: pool.simps) simp
  moreover have "\<forall>x b. wpc ?s x = Found b \<longrightarrow> x < psize \<and> b \<in> set as \<and> (\<exists>j. jq_val (jobQ ?s) b = Some j \<and> mine x j)"
    using inv other by (auto simp: pool_inv_def q(4)) 
  moreover have "\<forall>x b. wpc ?s x = Has b \<longrightarrow> x < psize \<and> b \<notin> set as \<and> (\<exists>j. jq_val (jobQ ?s) b = Some j \<and> mine x j)"
    using inv other by (auto simp: pool_inv_def q(4))
  moreover have "\<forall>(x, j) \<in> set (printed ?s). mine x j" using inv i(6) q(1) by (auto simp: pool_inv_def)
  ultimately show ?thesis unfolding pool_inv_def using q by simp
qed

lemma pool_inv_signal: "pool_inv psize s as \<Longrightarrow> w < psize \<Longrightarrow> pool_inv psize (cond_signal w s) as"
  using pool_inv_move [of psize s as w Woken] by (simp add: cond_signal_def)

lemma pool_inv_cong:
  "pool_inv psize s as \<Longrightarrow> jobQ s' = jobQ s \<Longrightarrow> wpc s' = wpc s \<Longrightarrow> created s' = created s \<Longrightarrow> printed s' = printed s \<Longrightarrow> pool_inv psize s' as"
proof -
  assume a: "pool_inv psize s as" "jobQ s' = jobQ s" "wpc s' = wpc s" "created s' = created s" "printed s' = printed s"
  then have "held s' = held s" unfolding held_def by metis
  with a show ?thesis by (simp add: pool_inv_def)
qed

definition pool_sig_ok :: "nat \<Rightarrow> pool \<Rightarrow> bool" where
  "pool_sig_ok psize s \<longleftrightarrow> (case to_signal s of None \<Rightarrow> True | Some w \<Rightarrow> w < psize)"

lemma pool_step_inv:
  assumes "pool_step psize s s'" "pool_inv psize s as" "pool_sig_ok psize s"
  shows "(\<exists>as'. pool_inv psize s' as') \<and> pool_sig_ok psize s'"
proof -
  have rep: "jq_rep (jobQ s) as" using pool_inv_rep [OF assms(2)] by simp
  have mv: "(\<exists>as'. pool_inv psize (s\<lparr>wpc := (wpc s)(w := p)\<rparr>) as') \<and> pool_sig_ok psize (s\<lparr>wpc := (wpc s)(w := p)\<rparr>)"
    if "w < psize" "\<forall>a. wpc s w \<noteq> Has a" "\<forall>a. p \<noteq> Has a \<and> p \<noteq> Found a" for w p
    using pool_inv_move [OF assms(2) that(1,2), of p] that(3) assms(3) by (intro conjI exI [of _ as]) (auto simp: pool_sig_ok_def)
  from assms(1) show ?thesis
  proof (cases rule: pool_step.cases)
    case (find_none w q)
    then have "q = jobQ s" using job_find_rep [OF rep, of "mine w"] by (simp add: worker_find_def)
    then show ?thesis using find_none pool_inv_move [OF assms(2), of w Waiting] assms(3) by (auto simp: pool_sig_ok_def)
  next
    case (find_some w a q)
    then have q: "q = jobQ s" "find (\<lambda>a. case jq_val (jobQ s) a of Some v \<Rightarrow> mine w v | None \<Rightarrow> False) as = Some a"
      using job_find_rep [OF rep, of "mine w"] by (auto simp: worker_find_def)
    then have "a \<in> set as" "\<exists>j. jq_val (jobQ s) a = Some j \<and> mine w j" by (auto simp: find_Some_iff split: option.splits)
    then show ?thesis using q(1) find_some pool_inv_move [OF assms(2), of w "Found a"] assms(3) by (auto simp: pool_sig_ok_def)
  next
    case (take w a q)
    then have "pool_inv psize s' (remove1 a as)" using pool_inv_take [OF assms(2)] by simp
    then show ?thesis using take assms(3) by (auto simp: pool_sig_ok_def)
  next
    case (work w a j q)
    then have "pool_inv psize s' as" using pool_inv_work [OF assms(2)] by simp
    then show ?thesis using work assms(3) by (auto simp: pool_sig_ok_def)
  next
    case (put j q)
    then show ?thesis using pool_inv_put [OF assms(2)] by (auto simp: pool_sig_ok_def)
  next
    case (signal w)
    then have "pool_inv psize (cond_signal w s) as" using pool_inv_signal [OF assms(2)] assms(3) by (simp add: pool_sig_ok_def)
    then have "pool_inv psize s' as" by (rule pool_inv_cong) (simp_all add: signal)
    then show ?thesis by (auto simp: signal pool_sig_ok_def)
  next
    case sigint
    have "pool_inv psize s' as" by (rule pool_inv_cong [OF assms(2)]) (simp_all add: sigint)
    then show ?thesis using assms(3) by (auto simp: sigint pool_sig_ok_def)
  next
    case (wake w)
    then have "pool_inv psize s' as" using pool_inv_signal [OF assms(2)] by simp
    moreover have "to_signal s' = to_signal s" by (simp add: wake cond_signal_def)
    ultimately show ?thesis using assms(3) by (auto simp: pool_sig_ok_def)
  qed (simp_all add: mv)
qed

interpretation pool_sys: step_invariant pool_init "pool_step psize" "\<lambda>s. (\<exists>as. pool_inv psize s as) \<and> pool_sig_ok psize s" for psize
proof (unfold_locales, goal_cases)
  case (1 s)
  then have "pool_inv psize s []" by (simp add: pool_init_def pool_inv_def held_def)
  with 1 show ?case by (auto simp: pool_init_def pool_sig_ok_def)
next
  case (2 s s')
  then show ?case using pool_step_inv by blast
qed

section \<open>Properties\<close>

text \<open>C24: every job is done once, by its own worker. In every state that the main thread and the
  workers can reach, however they are interleaved and whichever wake-ups are spurious: each job
  put into the queue is in the queue, or in the hands of one worker, or has been printed, and
  exactly one of these, once; workers print only jobs addressed to them; and a worker about to
  remove the job it has found, or to free the one it has, follows no dangling pointer.\<close>

theorem pool_exactly_once:
  assumes "pool_reachable psize s"
  shows "\<exists>as. jq_rep (jobQ s) as \<and>
      mset (created s) = mset (map (\<lambda>a. the (jq_val (jobQ s) a)) as) + (\<Sum>w<psize. held s w) + mset (map snd (printed s)) \<and>
      (\<forall>(w, j) \<in> set (printed s). wj_worker j = w) \<and>
      (\<forall>w a. wpc s w = Found a \<longrightarrow> (\<exists>q. job_remove_simple (Some a) (jobQ s) = Inr ((), q))) \<and>
      (\<forall>w a. wpc s w = Has a \<longrightarrow> (\<exists>j q. finish_job a (jobQ s) = Inr (j, q) \<and> wj_worker j = w))"
proof -
  from pool_sys.reachable_inv [OF assms] obtain as where inv: "pool_inv psize s as" by blast
  have rep: "jq_rep (jobQ s) as" using pool_inv_rep [OF inv] by simp
  have "\<exists>q. job_remove_simple (Some a) (jobQ s) = Inr ((), q)" if "wpc s w = Found a" for w a
    using workers.rm_rep [OF rep] pool_inv_Found [OF inv that] by blast
  moreover have "\<exists>j q. finish_job a (jobQ s) = Inr (j, q) \<and> wj_worker j = w" if "wpc s w = Has a" for w a
    using pool_inv_Has [OF inv that] by (auto simp: jq_val_def finish_job_def io_simps free_node_def mine_def)
  ultimately show ?thesis using inv rep by (intro exI [of _ as]) (auto simp: pool_inv_def mine_def)
qed

definition empty_pool :: pool where
  "empty_pool = \<lparr>jobQ = \<lparr>dl_heap = Map.empty, dl_head = None, dl_tail = None, dl_brk = 0, dl_oom = [],
       q_writer = False, q_readers = 0, q_rdfail = []\<rparr>,
     wpc = (\<lambda>_. Top), graceful_stop = False, to_signal = None, created = [], printed = []\<rparr>"

lemma empty_pool_rep: "jq_rep (jobQ empty_pool) []"
  by (simp add: empty_pool_def jq_rep_def dl_ok_def)

lemma empty_pool_reachable: "pool_reachable psize empty_pool"
  by (rule reachable.start) (use empty_pool_rep in \<open>simp add: empty_pool_def pool_init_def\<close>)

lemma put_first_job: "\<exists>q. put_job j (jobQ empty_pool) = Inr ((), q) \<and> jq_rep q [0] \<and> jq_val q 0 = Some j"
proof -
  have "dl_oom (jobQ empty_pool) = []" "dl_brk (jobQ empty_pool) = 0" by (simp_all add: empty_pool_def)
  with put_job_run [OF empty_pool_rep this(1), of j] show ?thesis by (auto split: if_splits)
qed

theorem pool_exactly_once_witness:
  "\<exists>s as. pool_step 3 empty_pool s \<and> created s = [job_of 3 4] \<and> jq_rep (jobQ s) as \<and>
     {# job_of 3 4 #} = mset (map (\<lambda>a. the (jq_val (jobQ s) a)) as) + (\<Sum>w<3. held s w) + mset (map snd (printed s))"
proof -
  obtain q where q: "put_job (job_of 3 4) (jobQ empty_pool) = Inr ((), q)" using put_first_job by blast
  let ?s = "empty_pool\<lparr>jobQ := q, to_signal := Some (wj_worker (job_of 3 4)), created := created empty_pool @ [job_of 3 4]\<rparr>"
  have st: "pool_step 3 empty_pool ?s"
    by (rule pool_step.put [OF _ _ q]) (simp_all add: empty_pool_def job_of_def)
  have c: "created ?s = [job_of 3 4]" by (simp add: empty_pool_def)
  from pool_exactly_once [OF reachable.step [OF empty_pool_reachable st]] obtain as where
    "jq_rep (jobQ ?s) as" "mset (created ?s) = mset (map (\<lambda>a. the (jq_val (jobQ ?s) a)) as) + (\<Sum>w<3. held ?s w) + mset (map snd (printed ?s))"
    by blast
  then show ?thesis using st c by (intro exI [of _ ?s] exI [of _ as]) simp
qed

text \<open>A wake-up can be lost. \<open>job_append\<close> and \<open>job_insert\<close> signal a worker without holding the
  mutex that the worker holds between finding no job and going to sleep. When the signal falls
  between the two, the worker sleeps although a job is queued for it and nobody is going to
  signal it: such a state is reachable for every worker and without any stop request.\<close>

theorem pool_lost_wakeup:
  assumes "w < psize"
  shows "\<exists>s a j. pool_reachable psize s \<and> wpc s w = Asleep \<and> jq_rep (jobQ s) [a] \<and> jq_val (jobQ s) a = Some j \<and> wj_worker j = w \<and>
    to_signal s = None \<and> \<not> graceful_stop s"
proof -
  let ?j = "\<lparr>wj_id = 2, wj_worker = w\<rparr>"
  let ?s0 = empty_pool
  let ?s1 = "?s0\<lparr>wpc := (wpc ?s0)(w := Locked)\<rparr>"
  let ?s2 = "?s1\<lparr>jobQ := jobQ ?s1, wpc := (wpc ?s1)(w := Waiting)\<rparr>"
  obtain q where q: "put_job ?j (jobQ empty_pool) = Inr ((), q)" "jq_rep q [0]" "jq_val q 0 = Some ?j"
    using put_first_job [of ?j] by blast
  let ?s3 = "?s2\<lparr>jobQ := q, to_signal := Some w, created := created ?s2 @ [?j]\<rparr>"
  let ?s4 = "(cond_signal w ?s3)\<lparr>to_signal := None\<rparr>"
  let ?s5 = "?s4\<lparr>wpc := (wpc ?s4)(w := Asleep)\<rparr>"
  have 1: "pool_step psize ?s0 ?s1" by (rule pool_step.enter [OF assms]) (simp_all add: empty_pool_def)
  have "worker_find w (jobQ ?s1) = Inr (None, jobQ ?s1)" using job_find_rep [OF empty_pool_rep, of "mine w"] by (simp add: worker_find_def)
  then have 2: "pool_step psize ?s1 ?s2" by (intro pool_step.find_none [OF assms]) simp_all
  have 3: "pool_step psize ?s2 ?s3"
    using pool_step.put [of ?s2 ?j psize q] q(1) assms by (simp add: empty_pool_def)
  have 4: "pool_step psize ?s3 ?s4" by (rule pool_step.signal) simp
  have 5: "pool_step psize ?s4 ?s5" by (rule pool_step.sleep [OF assms]) (simp add: cond_signal_def)
  have "pool_reachable psize ?s5" using empty_pool_reachable 1 2 3 4 5 by (meson reachable.step)
  moreover have "jobQ ?s5 = q" "wpc ?s5 w = Asleep" "to_signal ?s5 = None" "\<not> graceful_stop ?s5"
    by (simp_all add: cond_signal_def empty_pool_def)
  ultimately show ?thesis using q by (intro exI [of _ ?s5] exI [of _ 0] exI [of _ ?j]) simp
qed

theorem pool_lost_wakeup_witness: "\<exists>s. pool_reachable 3 s \<and> wpc s 1 = Asleep \<and> to_signal s = None \<and> \<not> graceful_stop s"
  using pool_lost_wakeup [of 1 3] by auto

end
