(* ===== verification/Herd_Pool.thy ===== *)
theory Herd_Pool
  imports Worker_Pool
begin

text \<open>
  The first solution of the worker pool (\<open>mytests/threads/Ex11_3_workerthrd_thundering_herd.c\<close>):
  one mutex protects the queue, and all workers wait on one condition variable, which every new
  job broadcasts. All of \<open>job_insert\<close>, \<open>job_append\<close> and \<open>job_fetch_atomic\<close> runs under the
  mutex, which \<open>pthread_cond_wait\<close> releases as it puts the caller to sleep: the threads are
  interleaved between these critical sections.
\<close>

section \<open>Operations\<close>

text \<open>
  The mutex is the writer's side of the lock of the queue record. The state is that of the
  other pool; \<open>Locked\<close>, \<open>Waiting\<close> and \<open>Found\<close> lie inside a critical section and do not occur.
\<close>

definition lift_q :: "(wjob jobq, 'a) io \<Rightarrow> (pool, 'a) io" where
  "lift_q m s = (case m (jobQ s) of Inl e \<Rightarrow> Inl e | Inr (x, q) \<Rightarrow> Inr (x, s\<lparr>jobQ := q\<rparr>))"

definition cond_broadcast :: "pool \<Rightarrow> pool" where
  "cond_broadcast s = s\<lparr>wpc := (\<lambda>w. if wpc s w = Asleep then Woken else wpc s w)\<rparr>"

definition herd_insert :: "addr option \<Rightarrow> (pool, unit) io" where
  "herd_insert jp =
     seq_io (lift_q wrlock)
     (bind_io (gets_io (\<lambda>s. dl_head (jobQ s))) (\<lambda>q_head.
      seq_io (lift_q (set_next jp q_head))
     (seq_io (lift_q (set_prev jp None))
     (seq_io (if q_head \<noteq> None then lift_q (set_prev q_head jp) else lift_q (modify_io (\<lambda>s. s\<lparr>dl_tail := jp\<rparr>)))
     (seq_io (lift_q (modify_io (\<lambda>s. s\<lparr>dl_head := jp\<rparr>)))
     (seq_io (modify_io cond_broadcast)
      (lift_q unlock)))))))"

definition herd_append :: "addr option \<Rightarrow> (pool, unit) io" where
  "herd_append jp =
     seq_io (lift_q wrlock)
     (bind_io (gets_io (\<lambda>s. dl_tail (jobQ s))) (\<lambda>q_tail.
      seq_io (lift_q (set_next jp None))
     (seq_io (lift_q (set_prev jp q_tail))
     (seq_io (if q_tail \<noteq> None then lift_q (set_next q_tail jp) else lift_q (modify_io (\<lambda>s. s\<lparr>dl_head := jp\<rparr>)))
     (seq_io (lift_q (modify_io (\<lambda>s. s\<lparr>dl_tail := jp\<rparr>)))
     (seq_io (modify_io cond_broadcast)
      (lift_q unlock)))))))"

text \<open>The removal, without the lock.\<close>

definition herd_remove :: "addr option \<Rightarrow> (wjob jobq, unit) io" where
  "herd_remove jp =
     bind_io (gets_io (\<lambda>s. (dl_head s, dl_tail s))) (\<lambda>(q_head, q_tail).
        if jp = q_head then
           bind_io (at_node jp n_next) (\<lambda>nx.
           seq_io (modify_io (\<lambda>s. s\<lparr>dl_head := nx\<rparr>))
             (if q_tail = jp then modify_io (\<lambda>s. s\<lparr>dl_tail := None\<rparr>)
              else bind_io (at_node jp n_prev) (\<lambda>pv. set_prev nx pv)))
         else if jp = q_tail then
           bind_io (at_node jp n_prev) (\<lambda>pv.
           seq_io (modify_io (\<lambda>s. s\<lparr>dl_tail := pv\<rparr>))
             (bind_io (at_node jp n_next) (\<lambda>nx. set_next pv nx)))
         else
           bind_io (at_node jp n_prev) (\<lambda>pv.
           bind_io (at_node jp n_next) (\<lambda>nx.
           seq_io (set_next pv nx) (set_prev nx pv))))"

definition job_remove_atomic :: "addr option \<Rightarrow> (wjob jobq, unit) io" where
  "job_remove_atomic jp = seq_io wrlock (seq_io (herd_remove jp) unlock)"

definition herd_find :: "nat \<Rightarrow> (wjob jobq, addr option) io" where
  "herd_find w = (\<lambda>s. find_loop (dl_brk s) (mine w) (dl_head s) s)"

text \<open>
  \<open>job_fetch_atomic\<close> up to the point where it returns a job or goes to sleep, which gives the
  mutex back. It is also what a worker does when it wakes up and has the mutex again.
\<close>

definition job_fetch_atomic :: "nat \<Rightarrow> (wjob jobq, addr option) io" where
  "job_fetch_atomic w =
     seq_io wrlock
     (bind_io (herd_find w) (\<lambda>pJob.
      if pJob = None then seq_io unlock (ret_io None)
      else seq_io (herd_remove pJob) (seq_io unlock (ret_io pJob))))"

text \<open>One job of \<open>create_jobs\<close>.\<close>

definition herd_put :: "wjob \<Rightarrow> (pool, unit) io" where
  "herd_put j =
     bind_io (lift_q (new_node j)) (\<lambda>jp.
     if jp = None then fail_io (SysExit ''error: malloc() struct job'')
     else if even (wj_id j) then herd_append jp else herd_insert jp)"

text \<open>\<open>job_find_atomic\<close> calls itself with the mutex held.\<close>

function job_find_atomic :: "nat \<Rightarrow> (wjob jobq, addr option) io" where
  "job_find_atomic w s =
     (case wrlock s of
        Inl e \<Rightarrow> Inl e
      | Inr (_, s1) \<Rightarrow> (case job_find_atomic w s1 of Inl e \<Rightarrow> Inl e | Inr (pJob, s2) \<Rightarrow> seq_io unlock (ret_io pJob) s2))"
  by pat_completeness auto
termination
  by (relation "measure (\<lambda>(w, s). if q_writer s \<or> 0 < q_readers s then 0 else 1)") (auto simp: wrlock_def split: if_splits)

section \<open>Threads\<close>

text \<open>The program never sets \<open>graceful_stop\<close> nor leaves a signal pending.\<close>

inductive herd_step :: "nat \<Rightarrow> pool \<Rightarrow> pool \<Rightarrow> bool" for psize where
  fetch_none: "w < psize \<Longrightarrow> wpc s w = Top \<or> wpc s w = Woken \<Longrightarrow> job_fetch_atomic w (jobQ s) = Inr (None, q) \<Longrightarrow>
    herd_step psize s (s\<lparr>jobQ := q, wpc := (wpc s)(w := Asleep)\<rparr>)"
| fetch_some: "w < psize \<Longrightarrow> wpc s w = Top \<or> wpc s w = Woken \<Longrightarrow> job_fetch_atomic w (jobQ s) = Inr (Some a, q) \<Longrightarrow>
    herd_step psize s (s\<lparr>jobQ := q, wpc := (wpc s)(w := Has a)\<rparr>)"
| work: "w < psize \<Longrightarrow> wpc s w = Has a \<Longrightarrow> finish_job a (jobQ s) = Inr (j, q) \<Longrightarrow>
    herd_step psize s (s\<lparr>jobQ := q, wpc := (wpc s)(w := Top), printed := printed s @ [(w, j)]\<rparr>)"
| put: "wj_worker j < psize \<Longrightarrow> herd_put j s = Inr ((), s') \<Longrightarrow> herd_step psize s (s'\<lparr>created := created s' @ [j]\<rparr>)"
| spurious: "w < psize \<Longrightarrow> wpc s w = Asleep \<Longrightarrow> herd_step psize s (s\<lparr>wpc := (wpc s)(w := Woken)\<rparr>)"

definition herd_init :: "pool \<Rightarrow> bool" where
  "herd_init s \<longleftrightarrow> jq_rep (jobQ s) [] \<and> dl_heap (jobQ s) = Map.empty \<and> dl_oom (jobQ s) = [] \<and> (\<forall>w. wpc s w = Top) \<and>
     created s = [] \<and> printed s = []"

abbreviation herd_reachable :: "nat \<Rightarrow> pool \<Rightarrow> bool" where
  "herd_reachable psize \<equiv> reachable herd_init (herd_step psize)"

section \<open>The critical sections\<close>

lemma job_remove_split: "job_remove jp = seq_io wrlock (seq_io (herd_remove jp) unlock)"
  by (rule ext) (auto simp: job_remove_def herd_remove_def seq_io_def bind_io_def gets_io_def split: sum.splits)

text \<open>Steps on the queue in a row are one step on the queue; a broadcast does not touch it.\<close>

lemma lift_q_fold:
  "seq_io (modify_io cond_broadcast) (lift_q u) = seq_io (lift_q u) (modify_io cond_broadcast)"
  "seq_io (lift_q a) (seq_io (lift_q b) k) = seq_io (lift_q (seq_io a b)) k"
  "bind_io (gets_io (\<lambda>s. f (jobQ s))) (\<lambda>x. seq_io (lift_q (m x)) k) = seq_io (lift_q (bind_io (gets_io f) m)) k"
  "(if c then lift_q a else lift_q b) = lift_q (if c then a else b)"
proof -
  show "seq_io (modify_io cond_broadcast) (lift_q u) = seq_io (lift_q u) (modify_io cond_broadcast)"
    by (rule ext) (auto simp: seq_io_def bind_io_def modify_io_def lift_q_def cond_broadcast_def cong: if_cong split: sum.splits)
  show "seq_io (lift_q a) (seq_io (lift_q b) k) = seq_io (lift_q (seq_io a b)) k"
    by (rule ext) (auto simp: seq_io_def bind_io_def lift_q_def split: sum.splits)
  show "bind_io (gets_io (\<lambda>s. f (jobQ s))) (\<lambda>x. seq_io (lift_q (m x)) k) = seq_io (lift_q (bind_io (gets_io f) m)) k"
    by (rule ext) (auto simp: seq_io_def bind_io_def gets_io_def lift_q_def split: sum.splits)
qed simp

lemma herd_insert_lift: "herd_insert jp = seq_io (lift_q (job_insert jp)) (modify_io cond_broadcast)"
  by (simp only: herd_insert_def job_insert_def lift_q_fold(1,2,4) lift_q_fold(3) [where f = dl_head])

lemma herd_append_lift: "herd_append jp = seq_io (lift_q (job_append jp)) (modify_io cond_broadcast)"
  by (simp only: herd_append_def job_append_def lift_q_fold(1,2,4) lift_q_fold(3) [where f = dl_tail])

lemma herd_put_lift: "herd_put j = seq_io (lift_q (put_job j)) (modify_io cond_broadcast)"
  by (rule ext) (auto simp: herd_put_def put_job_def seq_io_def bind_io_def lift_q_def modify_io_def herd_insert_lift herd_append_lift fail_io_def split: sum.splits)

lemma job_remove_atomic_eq: "job_remove_atomic = job_remove"
  by (rule ext) (simp add: job_remove_atomic_def job_remove_split)

text \<open>A fetch finds what \<open>job_find\<close> finds, and removes it as \<open>job_remove\<close> does.\<close>

lemma herd_find_rep:
  assumes "jq_rep q as"
  shows "herd_find w (q\<lparr>q_writer := True\<rparr>) =
    Inr (find (\<lambda>a. case jq_val q a of Some v \<Rightarrow> mine w v | None \<Rightarrow> False) as, q\<lparr>q_writer := True\<rparr>)"
proof -
  have ok: "dl_ok q as" using assms by (simp add: jq_rep_def)
  let ?q = "q\<lparr>q_writer := True\<rparr>"
  have "dseg (dl_heap ?q) None (dl_head ?q) as (dl_tail ?q) None" using ok by (simp add: dl_ok_def)
  then have "find_loop (dl_brk ?q) (mine w) (dl_head ?q) ?q = Inr (find (\<lambda>a. mine w (n_val (the (dl_heap ?q a)))) as, ?q)"
    using find_loop_seg jq_length [OF ok] by fastforce
  moreover have "find (\<lambda>a. mine w (n_val (the (dl_heap q a)))) as = find (\<lambda>a. case jq_val q a of Some v \<Rightarrow> mine w v | None \<Rightarrow> False) as"
    using dl_ok_alloc [OF ok] by (intro find_cong refl) (force simp: jq_val_def)
  ultimately show ?thesis by (simp add: herd_find_def)
qed

lemma job_fetch_none:
  assumes "jq_rep q as" "find (\<lambda>a. case jq_val q a of Some v \<Rightarrow> mine w v | None \<Rightarrow> False) as = None"
  shows "job_fetch_atomic w q = Inr (None, q)"
proof -
  have nl: "\<not> q_writer q" "q_readers q = 0" using assms(1) by (auto simp: jq_rep_def)
  then have "q\<lparr>q_writer := False\<rparr> = q" by (cases q) simp
  with nl show ?thesis using herd_find_rep [OF assms(1), of w] assms(2) by (simp add: job_fetch_atomic_def io_simps wrlock_def unlock_def)
qed

lemma job_fetch_some:
  assumes "jq_rep q as" "find (\<lambda>a. case jq_val q a of Some v \<Rightarrow> mine w v | None \<Rightarrow> False) as = Some a"
  shows "job_fetch_atomic w q = (case job_remove (Some a) q of Inl e \<Rightarrow> Inl e | Inr (_, q') \<Rightarrow> Inr (Some a, q'))"
proof -
  have "\<not> q_writer q" "q_readers q = 0" using assms(1) by (auto simp: jq_rep_def)
  then show ?thesis using herd_find_rep [OF assms(1), of w] assms(2)
    by (auto simp: job_fetch_atomic_def job_remove_split io_simps wrlock_def unlock_def split: sum.splits)
qed

lemma job_find_atomic_blocks: "job_find_atomic w s = Inl Blocked"
proof (cases "q_writer s \<or> 0 < q_readers s")
  case False
  then have "job_find_atomic w (s\<lparr>q_writer := True\<rparr>) = Inl Blocked" by (subst job_find_atomic.simps) (simp add: wrlock_def)
  with False show ?thesis by (subst job_find_atomic.simps) (simp add: wrlock_def del: job_find_atomic.simps)
qed (subst job_find_atomic.simps, simp add: wrlock_def)

section \<open>Invariant\<close>

text \<open>The invariant of the other pool, and: a worker sleeps only while no job is queued for it.\<close>

definition herd_inv :: "nat \<Rightarrow> pool \<Rightarrow> addr list \<Rightarrow> bool" where
  "herd_inv psize s as \<longleftrightarrow> pool_inv psize s as \<and>
     (\<forall>w < psize. (wpc s w = Asleep \<longrightarrow> (\<forall>a \<in> set as. \<forall>j. jq_val (jobQ s) a = Some j \<longrightarrow> \<not> mine w j)) \<and>
        (wpc s w = Top \<or> wpc s w = Woken \<or> wpc s w = Asleep \<or> (\<exists>a. wpc s w = Has a)))"

lemma pool_inv_broadcast: "pool_inv psize s as \<Longrightarrow> pool_inv psize (cond_broadcast s) as"
proof -
  assume inv: "pool_inv psize s as"
  have pc: "wpc (cond_broadcast s) w = Found a \<longleftrightarrow> wpc s w = Found a" "wpc (cond_broadcast s) w = Has a \<longleftrightarrow> wpc s w = Has a" for w a
    by (simp_all add: cond_broadcast_def)
  have "held (cond_broadcast s) = held s" by (auto simp: held_def cond_broadcast_def fun_eq_iff split: wpc.splits)
  moreover have "jobQ (cond_broadcast s) = jobQ s" "created (cond_broadcast s) = created s" "printed (cond_broadcast s) = printed s"
    by (simp_all add: cond_broadcast_def)
  ultimately show ?thesis using inv unfolding pool_inv_def pc by simp
qed

lemma herd_put_inv:
  assumes "herd_inv psize s as" "herd_put j s = Inr ((), s')"
  shows "\<exists>as'. herd_inv psize (s'\<lparr>created := created s' @ [j]\<rparr>) as'"
proof -
  obtain q where q: "put_job j (jobQ s) = Inr ((), q)" "s' = cond_broadcast (s\<lparr>jobQ := q\<rparr>)"
    using assms(2) by (auto simp: herd_put_lift io_simps lift_q_def split: sum.splits)
  have inv: "pool_inv psize s as" using assms(1) by (simp add: herd_inv_def)
  obtain as' where "pool_inv psize (s\<lparr>jobQ := q, to_signal := to_signal s, created := created s @ [j]\<rparr>) as'"
    using pool_inv_put [OF inv q(1)] by blast
  then have "pool_inv psize (cond_broadcast (s\<lparr>jobQ := q, to_signal := to_signal s, created := created s @ [j]\<rparr>)) as'"
    by (rule pool_inv_broadcast)
  then have "pool_inv psize (s'\<lparr>created := created s' @ [j]\<rparr>) as'"
    by (rule pool_inv_cong) (simp_all add: q(2) cond_broadcast_def cong: if_cong)
  moreover have "wpc s' w \<noteq> Asleep" "wpc s w = Top \<or> wpc s w = Woken \<or> wpc s w = Asleep \<or> (\<exists>a. wpc s w = Has a) \<Longrightarrow>
      wpc s' w = Top \<or> wpc s' w = Woken \<or> wpc s' w = Asleep \<or> (\<exists>a. wpc s' w = Has a)" for w
    by (auto simp: q(2) cond_broadcast_def)
  ultimately show ?thesis using assms(1) by (auto simp: herd_inv_def)
qed

lemma remove_same:
  assumes "jq_rep q as" "a \<in> set as"
  shows "job_remove (Some a) q = job_remove_simple (Some a) q"
proof -
  obtain xs ys where as: "as = xs @ a # ys" using assms(2) by (meson split_list)
  have ok: "dl_ok q (xs @ a # ys)" "\<not> q_writer q" "q_readers q = 0" using assms(1) as by (auto simp: jq_rep_def)
  obtain n where "dl_heap q a = Some n" using dl_ok_alloc [OF ok(1)] by auto
  with job_remove_run [OF ok(1) _ ok(2,3)] job_remove_simple_run [OF ok(1) _ ok(2,3)] show ?thesis by simp
qed

lemma herd_fetch_cases:
  assumes "jq_rep q as"
  obtains (none) "job_fetch_atomic w q = Inr (None, q)" "\<forall>a \<in> set as. \<forall>j. jq_val q a = Some j \<longrightarrow> \<not> mine w j"
  | (some) a j q' where "job_fetch_atomic w q = Inr (Some a, q')" "a \<in> set as" "jq_val q a = Some j" "mine w j"
      "job_remove_simple (Some a) q = Inr ((), q')"
proof (cases "find (\<lambda>a. case jq_val q a of Some v \<Rightarrow> mine w v | None \<Rightarrow> False) as")
  case None
  with none job_fetch_none [OF assms None] show thesis by (auto simp: find_None_iff split: option.splits)
next
  case (Some a)
  then have a: "a \<in> set as" "\<exists>j. jq_val q a = Some j \<and> mine w j" by (auto simp: find_Some_iff split: option.splits)
  from workers.rm_rep [OF assms a(1)] obtain q' where q': "job_remove_simple (Some a) q = Inr ((), q')" by blast
  with job_fetch_some [OF assms Some] remove_same [OF assms a(1)] have "job_fetch_atomic w q = Inr (Some a, q')" by simp
  with some a q' show thesis by blast
qed

lemma herd_step_inv:
  assumes "herd_step psize s s'" "herd_inv psize s as"
  shows "\<exists>as'. herd_inv psize s' as'"
proof -
  have inv: "pool_inv psize s as" using assms(2) by (simp add: herd_inv_def)
  have rep: "jq_rep (jobQ s) as" using pool_inv_rep [OF inv] by simp
  from assms(1) show ?thesis
  proof cases
    case (fetch_none w q)
    have "pool_inv psize (s\<lparr>wpc := (wpc s)(w := Asleep)\<rparr>) as" using pool_inv_move [OF inv fetch_none(2)] fetch_none(3) by auto
    with fetch_none assms(2) have "herd_inv psize s' as"
      by (cases rule: herd_fetch_cases [OF rep, of w]) (auto simp: herd_inv_def)
    then show ?thesis by blast
  next
    case (fetch_some w a q)
    let ?s = "s\<lparr>wpc := (wpc s)(w := Found a)\<rparr>"
    obtain j where a: "a \<in> set as" "jq_val (jobQ s) a = Some j" "mine w j" "job_remove_simple (Some a) (jobQ s) = Inr ((), q)"
      using fetch_some by (cases rule: herd_fetch_cases [OF rep, of w]) auto
    have "pool_inv psize ?s as" using pool_inv_move [OF inv fetch_some(2), of "Found a"] fetch_some(3) a by auto
    then have "pool_inv psize (?s\<lparr>jobQ := q, wpc := (wpc ?s)(w := Has a)\<rparr>) (remove1 a as)" by (rule pool_inv_take) (simp_all add: a(4))
    then have p: "pool_inv psize s' (remove1 a as)" by (rule pool_inv_cong) (simp_all add: fetch_some)
    have "jq_val q = jq_val (jobQ s)" using workers.rm_rep [OF rep a(1)] a(4) by auto
    with p assms(2) fetch_some have "herd_inv psize s' (remove1 a as)"
      by (auto simp: herd_inv_def dest: notin_set_remove1)
    then show ?thesis by blast
  next
    case (work w a j q)
    then have p: "pool_inv psize s' as" using pool_inv_work [OF inv work(3,4)] by simp
    obtain v where "a \<notin> set as" "jq_val (jobQ s) a = Some v" using pool_inv_Has [OF inv work(3)] by blast
    from finish_job_rep [OF rep this work(4)] have "jq_val q = (jq_val (jobQ s))(a := None)" by simp
    with p assms(2) work have "herd_inv psize s' as" by (auto simp: herd_inv_def)
    then show ?thesis by blast
  next
    case (put j s1)
    with herd_put_inv [OF assms(2) put(3)] show ?thesis by simp
  next
    case (spurious w)
    have "pool_inv psize s' as" using pool_inv_move [OF inv spurious(2), of Woken] spurious by simp
    with assms(2) spurious have "herd_inv psize s' as" by (auto simp: herd_inv_def)
    then show ?thesis by blast
  qed
qed

interpretation herd_sys: step_invariant herd_init "herd_step psize" "\<lambda>s. \<exists>as. herd_inv psize s as" for psize
proof (unfold_locales, goal_cases)
  case (1 s)
  then have "herd_inv psize s []" by (simp add: herd_init_def herd_inv_def pool_inv_def held_def)
  then show ?case ..
next
  case (2 s s')
  then show ?case using herd_step_inv by blast
qed

text \<open>Worker \<open>w\<close> can finish the job it has, or fetch one of the jobs queued for it.\<close>

definition herd_serves :: "nat \<Rightarrow> pool \<Rightarrow> addr list \<Rightarrow> nat \<Rightarrow> bool" where
  "herd_serves psize s as w \<longleftrightarrow> (\<exists>b i q. wpc s w = Has b \<and> finish_job b (jobQ s) = Inr (i, q)) \<or>
     (\<exists>b i q. (wpc s w = Top \<or> wpc s w = Woken) \<and> b \<in> set as \<and> jq_val (jobQ s) b = Some i \<and> wj_worker i = w \<and>
       job_fetch_atomic w (jobQ s) = Inr (Some b, q) \<and> herd_step psize s (s\<lparr>jobQ := q, wpc := (wpc s)(w := Has b)\<rparr>))"

text \<open>C25: the pool with the broadcast loses neither jobs nor wake-ups. In every state that the main
  thread and the workers can reach: each job put into the queue is in the queue, in the hands of
  one worker, or has been printed, exactly once and by its own worker; and when a job is queued
  for a worker, that worker is not asleep but can take its next step: finish the job it has,
  or fetch one of the jobs queued for it.\<close>

theorem herd_no_lost_wakeup:
  assumes "herd_reachable psize s"
  shows "\<exists>as. jq_rep (jobQ s) as \<and>
      mset (created s) = mset (map (\<lambda>a. the (jq_val (jobQ s) a)) as) + (\<Sum>w<psize. held s w) + mset (map snd (printed s)) \<and>
      (\<forall>(w, j) \<in> set (printed s). wj_worker j = w) \<and>
      (\<forall>w < psize. \<forall>a \<in> set as. \<forall>j. jq_val (jobQ s) a = Some j \<and> wj_worker j = w \<longrightarrow> herd_serves psize s as w)"
proof -
  obtain as where h: "herd_inv psize s as" using herd_sys.reachable_inv [OF assms] by blast
  then have inv: "pool_inv psize s as" by (simp add: herd_inv_def)
  have rep: "jq_rep (jobQ s) as" using pool_inv_rep [OF inv] by simp
  have "herd_serves psize s as w"
    if w: "w < psize" and a: "a \<in> set as" "jq_val (jobQ s) a = Some j" "wj_worker j = w" for w a j
  proof (cases "\<exists>b. wpc s w = Has b")
    case True
    then obtain b where b: "wpc s w = Has b" ..
    with pool_inv_Has [OF inv b] show ?thesis by (auto simp: herd_serves_def jq_val_def finish_job_def io_simps free_node_def)
  next
    case False
    with h w a have pc: "wpc s w = Top \<or> wpc s w = Woken" by (auto simp: herd_inv_def mine_def)
    from rep show ?thesis
    proof (cases rule: herd_fetch_cases [where w = w])
      case none
      with a show ?thesis by (auto simp: mine_def)
    next
      case (some b i q)
      note go = herd_step.fetch_some [where s = s, OF w pc some(1)]
      have "wj_worker i = w" using some(4) by (simp add: mine_def)
      with pc some(1-3) go show ?thesis unfolding herd_serves_def by blast
    qed
  qed
  with inv rep show ?thesis by (intro exI [of _ as]) (auto simp: pool_inv_def mine_def)
qed

theorem herd_no_lost_wakeup_witness:
  "\<exists>s a q. herd_put (job_of 3 4) empty_pool = Inr ((), s) \<and> jq_rep (jobQ s) [a] \<and> job_fetch_atomic 1 (jobQ s) = Inr (Some a, q)"
proof -
  obtain q where q: "put_job (job_of 3 4) (jobQ empty_pool) = Inr ((), q)" using put_first_job by blast
  let ?s = "cond_broadcast (empty_pool\<lparr>jobQ := q\<rparr>)"
  have put: "herd_put (job_of 3 4) empty_pool = Inr ((), ?s)" by (simp add: herd_put_lift io_simps lift_q_def q)
  have "herd_reachable 3 empty_pool"
    by (rule reachable.start) (use empty_pool_rep in \<open>simp add: empty_pool_def herd_init_def\<close>)
  then have r: "herd_reachable 3 (?s\<lparr>created := created ?s @ [job_of 3 4]\<rparr>)"
    by (rule reachable.step) (rule herd_step.put [OF _ put], simp add: job_of_def)
  have s: "jobQ ?s = q" "\<And>w. wpc ?s w = Top" "created ?s = []" "printed ?s = []" by (simp_all add: cond_broadcast_def empty_pool_def)
  have h: "held (?s\<lparr>created := [job_of 3 4]\<rparr>) = (\<lambda>w. {#})" by (simp add: held_def s fun_eq_iff)
  obtain as where as: "jq_rep q as" "{# job_of 3 4 #} = mset (map (\<lambda>a. the (jq_val q a)) as)"
    and go: "\<forall>w < 3. \<forall>a \<in> set as. \<forall>j. jq_val q a = Some j \<and> wj_worker j = w \<longrightarrow>
       herd_serves 3 (?s\<lparr>created := created ?s @ [job_of 3 4]\<rparr>) as w"
    using herd_no_lost_wakeup [OF r] by (auto simp: s h simp del: mset_map)
  from as(2) have "map (\<lambda>a. the (jq_val q a)) as = [job_of 3 4]" by (metis mset_single_iff_right)
  then obtain a where a: "as = [a]" "the (jq_val q a) = job_of 3 4" by auto
  moreover have "jq_val q a \<noteq> None" using as(1) a(1) dl_ok_alloc [of q as] by (fastforce simp: jq_rep_def jq_val_def)
  ultimately have "jq_val q a = Some (job_of 3 4)" by auto
  with go a(1) have "herd_serves 3 (?s\<lparr>created := created ?s @ [job_of 3 4]\<rparr>) as 1" by (simp add: job_of_def)
  with a(1) obtain q' where "job_fetch_atomic 1 q = Inr (Some a, q')" by (auto simp: herd_serves_def s)
  with put as(1) a(1) s(1) show ?thesis by auto
qed

end
