(* ===== verification/Error_Report.thy ===== *)
theory Error_Report
  imports Open_Server
begin

text \<open>
  The error routines that every program of the repository uses (\<open>lib/error.c\<close>,
  \<open>lib/errorlog.c\<close>, and the additions of \<open>librlt/error.c\<close>): a message is built in a buffer of
  \<open>MAXLINE\<close> bytes and written to standard error or to the system log, and some of the routines
  then end the process. \<open>message\<close> stands for what the format and its arguments expand to, and
  \<open>strerror\<close> of the C library is a parameter.
\<close>

section \<open>State\<close>

text \<open>
  What standard output has buffered, what has been written to the file or terminal on which
  standard output and standard error both end, and the entries of the system log.
\<close>

record stdio =
  so_buf :: string
  so_term :: string
  so_syslog :: "string list"
  log_to_stderr :: bool
  log_ident :: "string option"

text \<open>How a routine ends: it returns, the process exits, or it dumps core.\<close>

datatype ending = Returns | Exits int | Dumps

definition fflush_stdout :: "stdio \<Rightarrow> stdio" where
  "fflush_stdout s = s\<lparr>so_buf := [], so_term := so_term s @ so_buf s\<rparr>"

text \<open>\<open>fputs\<close> on standard error, which is not buffered.\<close>

definition fputs_stderr :: "string \<Rightarrow> stdio \<Rightarrow> stdio" where
  "fputs_stderr bs s = s\<lparr>so_term := so_term s @ bs\<rparr>"

text \<open>\<open>snprintf\<close> with a buffer of \<open>n\<close> bytes: the text it leaves there.\<close>

definition snprintf :: "nat \<Rightarrow> string \<Rightarrow> string" where
  "snprintf n t = take (n - 1) t"

text \<open>
  The line that \<open>err_doit\<close> and \<open>log_doit\<close> build in their buffer; \<open>Undefined\<close> when the final
  \<open>strcat\<close> would write behind its end.
\<close>

definition error_line :: "(int \<Rightarrow> string) \<Rightarrow> bool \<Rightarrow> int \<Rightarrow> string \<Rightarrow> exit_reason + string" where
  "error_line strerror errnoflag error message =
     (let buf = snprintf (MAXLINE - 1) message;
          buf2 = (if errnoflag then buf @ snprintf (MAXLINE - length buf - 1) ('': '' @ strerror error) else buf);
          buf3 = buf2 @ [NEWLINE] in
      if MAXLINE < length buf3 + 1 then Inl (Undefined ''strcat'') else Inr buf3)"

section \<open>Messages to standard error\<close>

definition err_doit :: "(int \<Rightarrow> string) \<Rightarrow> bool \<Rightarrow> int \<Rightarrow> string \<Rightarrow> stdio \<Rightarrow> exit_reason + stdio" where
  "err_doit strerror errnoflag error message s =
     (case error_line strerror errnoflag error message of
        Inl e \<Rightarrow> Inl e
      | Inr l \<Rightarrow> Inr (fflush_stdout (fputs_stderr l (fflush_stdout s))))"

definition after :: "ending \<Rightarrow> exit_reason + stdio \<Rightarrow> exit_reason + (ending \<times> stdio)" where
  "after e r = (case r of Inl x \<Rightarrow> Inl x | Inr s \<Rightarrow> Inr (e, s))"

definition err_ret :: "(int \<Rightarrow> string) \<Rightarrow> int \<Rightarrow> string \<Rightarrow> stdio \<Rightarrow> exit_reason + (ending \<times> stdio)" where
  "err_ret strerror errno message s = after Returns (err_doit strerror True errno message s)"

definition err_sys :: "(int \<Rightarrow> string) \<Rightarrow> int \<Rightarrow> string \<Rightarrow> stdio \<Rightarrow> exit_reason + (ending \<times> stdio)" where
  "err_sys strerror errno message s = after (Exits 1) (err_doit strerror True errno message s)"

definition err_cont :: "(int \<Rightarrow> string) \<Rightarrow> int \<Rightarrow> string \<Rightarrow> stdio \<Rightarrow> exit_reason + (ending \<times> stdio)" where
  "err_cont strerror error message s = after Returns (err_doit strerror True error message s)"

definition err_exit :: "(int \<Rightarrow> string) \<Rightarrow> int \<Rightarrow> string \<Rightarrow> stdio \<Rightarrow> exit_reason + (ending \<times> stdio)" where
  "err_exit strerror error message s = after (Exits 1) (err_doit strerror True error message s)"

definition err_dump :: "(int \<Rightarrow> string) \<Rightarrow> int \<Rightarrow> string \<Rightarrow> stdio \<Rightarrow> exit_reason + (ending \<times> stdio)" where
  "err_dump strerror errno message s = after Dumps (err_doit strerror True errno message s)"

definition err_msg :: "(int \<Rightarrow> string) \<Rightarrow> string \<Rightarrow> stdio \<Rightarrow> exit_reason + (ending \<times> stdio)" where
  "err_msg strerror message s = after Returns (err_doit strerror False 0 message s)"

definition err_quit :: "(int \<Rightarrow> string) \<Rightarrow> string \<Rightarrow> stdio \<Rightarrow> exit_reason + (ending \<times> stdio)" where
  "err_quit strerror message s = after (Exits 1) (err_doit strerror False 0 message s)"

text \<open>The routines of \<open>librlt/error.c\<close> leave the second half of the line to \<open>perror\<close>.\<close>

definition perr_doit :: "(int \<Rightarrow> string) \<Rightarrow> int \<Rightarrow> string \<Rightarrow> stdio \<Rightarrow> stdio" where
  "perr_doit strerror errno message s =
     (let buf = snprintf (MAXLINE - 1) message in
      fflush_stdout (fputs_stderr ((if buf = [] then [] else buf @ '': '') @ strerror errno @ [NEWLINE]) (fflush_stdout s)))"

definition my_perror_ret :: "(int \<Rightarrow> string) \<Rightarrow> int \<Rightarrow> string \<Rightarrow> stdio \<Rightarrow> exit_reason + (ending \<times> stdio)" where
  "my_perror_ret strerror errno message s = Inr (Returns, perr_doit strerror errno message s)"

definition my_perror :: "(int \<Rightarrow> string) \<Rightarrow> int \<Rightarrow> string \<Rightarrow> stdio \<Rightarrow> exit_reason + (ending \<times> stdio)" where
  "my_perror strerror errno message s = Inr (Exits 1, perr_doit strerror errno message s)"

definition my_perr_dump :: "(int \<Rightarrow> string) \<Rightarrow> int \<Rightarrow> string \<Rightarrow> stdio \<Rightarrow> exit_reason + (ending \<times> stdio)" where
  "my_perr_dump strerror errno message s = Inr (Dumps, perr_doit strerror errno message s)"

section \<open>Messages to the system log\<close>

definition log_open :: "string \<Rightarrow> stdio \<Rightarrow> stdio" where
  "log_open ident s = (if log_to_stderr s then s else s\<lparr>log_ident := Some ident\<rparr>)"

definition log_doit :: "(int \<Rightarrow> string) \<Rightarrow> bool \<Rightarrow> int \<Rightarrow> string \<Rightarrow> stdio \<Rightarrow> exit_reason + stdio" where
  "log_doit strerror errnoflag error message s =
     (case error_line strerror errnoflag error message of
        Inl e \<Rightarrow> Inl e
      | Inr l \<Rightarrow>
          if log_to_stderr s then Inr (fputs_stderr l (fflush_stdout s))
          else Inr (s\<lparr>so_syslog := so_syslog s @ [l]\<rparr>))"

definition log_ret :: "(int \<Rightarrow> string) \<Rightarrow> int \<Rightarrow> string \<Rightarrow> stdio \<Rightarrow> exit_reason + (ending \<times> stdio)" where
  "log_ret strerror errno message s = after Returns (log_doit strerror True errno message s)"

definition log_sys :: "(int \<Rightarrow> string) \<Rightarrow> int \<Rightarrow> string \<Rightarrow> stdio \<Rightarrow> exit_reason + (ending \<times> stdio)" where
  "log_sys strerror errno message s = after (Exits 2) (log_doit strerror True errno message s)"

definition log_msg :: "(int \<Rightarrow> string) \<Rightarrow> string \<Rightarrow> stdio \<Rightarrow> exit_reason + (ending \<times> stdio)" where
  "log_msg strerror message s = after Returns (log_doit strerror False 0 message s)"

definition log_quit :: "(int \<Rightarrow> string) \<Rightarrow> string \<Rightarrow> stdio \<Rightarrow> exit_reason + (ending \<times> stdio)" where
  "log_quit strerror message s = after (Exits 2) (log_doit strerror False 0 message s)"

definition log_exit :: "(int \<Rightarrow> string) \<Rightarrow> int \<Rightarrow> string \<Rightarrow> stdio \<Rightarrow> exit_reason + (ending \<times> stdio)" where
  "log_exit strerror error message s = after (Exits 2) (log_doit strerror True error message s)"

section \<open>Properties\<close>

text \<open>The line in full when it fits, and its form when it does not.\<close>

lemma error_line_form:
  "error_line strerror flag error message =
     Inr (take (MAXLINE - 2) (message @ (if flag then '': '' @ strerror error else [])) @ [NEWLINE])"
proof -
  have "MAXLINE - length (take (MAXLINE - 2) message) - 1 - 1 = MAXLINE - 2 - length message" by simp
  then show ?thesis by (auto simp: error_line_def snprintf_def Let_def)
qed

text \<open>What the reader of the message finds, on the terminal or in the log.\<close>

definition shown :: "string \<Rightarrow> stdio \<Rightarrow> stdio" where
  "shown line s = s\<lparr>so_buf := [], so_term := so_term s @ so_buf s @ line\<rparr>"

definition logged :: "string \<Rightarrow> stdio \<Rightarrow> stdio" where
  "logged line s = (if log_to_stderr s then shown line s else s\<lparr>so_syslog := so_syslog s @ [line]\<rparr>)"

text \<open>C27: every message function of \<open>error.c\<close> and \<open>errorlog.c\<close> delivers its message and ends as it
  should. For every message and every text of the error number, however long, the functions
  build a line that with its null byte fits the buffer of 4096 bytes: the message, a colon
  and the text of the error for the functions that report one, cut to 4094 bytes in all, and
  a newline, which is never lost. What standard output had buffered appears before it. Then
  \<open>err_ret\<close>, \<open>err_cont\<close>, \<open>err_msg\<close>, \<open>log_ret\<close> and \<open>log_msg\<close> return, \<open>err_dump\<close> dumps core, \<open>err_sys\<close>,
  \<open>err_exit\<close> and \<open>err_quit\<close> exit with status 1, and \<open>log_sys\<close>, \<open>log_quit\<close> and \<open>log_exit\<close> with
  status 2. The three functions added in \<open>librlt\<close> cut the message, not the text that \<open>perror\<close>
  appends, and return, exit with status 1 and dump core.\<close>

theorem error_messages_bounded:
  "let with_error = (\<lambda>e. take 4094 (message @ '': '' @ strerror e) @ [NEWLINE]); plain = take 4094 message @ [NEWLINE];
       perr = (if message = [] then [] else take 4094 message @ '': '') @ strerror errno @ [NEWLINE] in
   (\<forall>e. length (with_error e) + 1 \<le> 4096) \<and> length plain + 1 \<le> 4096 \<and>
   err_ret strerror errno message s = Inr (Returns, shown (with_error errno) s) \<and>
   err_sys strerror errno message s = Inr (Exits 1, shown (with_error errno) s) \<and>
   err_cont strerror error message s = Inr (Returns, shown (with_error error) s) \<and>
   err_exit strerror error message s = Inr (Exits 1, shown (with_error error) s) \<and>
   err_dump strerror errno message s = Inr (Dumps, shown (with_error errno) s) \<and>
   err_msg strerror message s = Inr (Returns, shown plain s) \<and>
   err_quit strerror message s = Inr (Exits 1, shown plain s) \<and>
   log_ret strerror errno message s = Inr (Returns, logged (with_error errno) s) \<and>
   log_sys strerror errno message s = Inr (Exits 2, logged (with_error errno) s) \<and>
   log_msg strerror message s = Inr (Returns, logged plain s) \<and>
   log_quit strerror message s = Inr (Exits 2, logged plain s) \<and>
   log_exit strerror error message s = Inr (Exits 2, logged (with_error error) s) \<and>
   my_perror_ret strerror errno message s = Inr (Returns, shown perr s) \<and>
   my_perror strerror errno message s = Inr (Exits 1, shown perr s) \<and>
   my_perr_dump strerror errno message s = Inr (Dumps, shown perr s)"
proof -
  have e: "err_doit strerror flag err message s =
      Inr (shown (take 4094 (message @ (if flag then '': '' @ strerror err else [])) @ [NEWLINE]) s)" for flag err
    by (simp add: err_doit_def error_line_form fputs_stderr_def fflush_stdout_def shown_def)
  have l: "log_doit strerror flag err message s =
      Inr (logged (take 4094 (message @ (if flag then '': '' @ strerror err else [])) @ [NEWLINE]) s)" for flag err
    by (simp add: log_doit_def error_line_form fputs_stderr_def fflush_stdout_def shown_def logged_def)
  have p: "perr_doit strerror errno message s =
      shown ((if message = [] then [] else take 4094 message @ '': '') @ strerror errno @ [NEWLINE]) s"
    by (simp add: perr_doit_def snprintf_def fputs_stderr_def fflush_stdout_def shown_def)
  have len: "length (take 4094 xs @ [NEWLINE]) + 1 \<le> 4096" for xs by simp
  show ?thesis
    unfolding Let_def err_ret_def err_sys_def err_cont_def err_exit_def err_dump_def err_msg_def err_quit_def
      log_ret_def log_sys_def log_msg_def log_quit_def log_exit_def my_perror_ret_def my_perror_def my_perr_dump_def e l p
    by (intro conjI allI len) (simp_all add: after_def)
qed

end
