(* ===== verification/Sem_V.thy ===== *)
theory Sem_V
  imports Step_System
begin

text \<open>
  The interface to System V semaphores (\<open>lib/semaph.c\<close>) for the processes that share one key.
  A set has three members: the value, a counter of the processes that do not use it, and a
  lock. Every function is a sequence of system calls; the model runs them one system call at a
  time, with any number of processes interleaved and exiting at any moment.
\<close>

section \<open>The kernel\<close>

text \<open>The three values of a set, and for each process what its exit adds to them (\<open>SEM_UNDO\<close>).\<close>

record semset =
  semval :: "nat \<Rightarrow> int"
  semadj :: "nat \<Rightarrow> nat \<Rightarrow> int"

text \<open>The set that the key names, with its identifier, and the next identifier.\<close>

record ksem =
  cur :: "(nat \<times> semset) option"
  nxt :: nat

abbreviation SEMVMX :: int where "SEMVMX \<equiv> 32767"
abbreviation EINVAL :: int where "EINVAL \<equiv> 22"
abbreviation ERANGE :: int where "ERANGE \<equiv> 34"
abbreviation EIDRM :: int where "EIDRM \<equiv> 43"
abbreviation BIGCOUNT :: int where "BIGCOUNT \<equiv> 10000"

text \<open>A \<open>struct sembuf\<close>: member, operation, \<open>SEM_UNDO\<close>.\<close>

type_synonym sembuf = "nat \<times> int \<times> bool"

definition op_lock :: "sembuf list" where "op_lock = [(2, 0, False), (2, 1, True)]"
definition op_endcreate :: "sembuf list" where "op_endcreate = [(1, -1, True), (2, -1, True)]"
definition op_open :: "sembuf list" where "op_open = [(1, -1, True)]"
definition op_close :: "sembuf list" where "op_close = [(2, 0, False), (2, 1, True), (1, 1, True)]"
definition op_unlock :: "sembuf list" where "op_unlock = [(2, -1, True)]"
definition op_op :: "int \<Rightarrow> sembuf list" where "op_op v = [(0, v, True)]"

datatype semres = Done semset | Wait | Fail int

text \<open>The operations of one \<open>semop\<close> call on a set: all of them at once, or none.\<close>

fun semop_set :: "nat \<Rightarrow> sembuf list \<Rightarrow> semset \<Rightarrow> semres" where
  "semop_set p [] s = Done s"
| "semop_set p ((n, v, undo) # ops) s =
     (if v = 0 then (if semval s n = 0 then semop_set p ops s else Wait)
      else if semval s n + v < 0 then Wait
      else if SEMVMX < semval s n + v then Fail ERANGE
      else semop_set p ops
        (s\<lparr>semval := (semval s)(n := semval s n + v),
           semadj := (if undo then (semadj s)(p := (semadj s p)(n := semadj s p n - v)) else semadj s)\<rparr>))"

datatype callres = Ok ksem | Sleeps | Error int

definition semop :: "nat \<Rightarrow> nat \<Rightarrow> sembuf list \<Rightarrow> ksem \<Rightarrow> callres" where
  "semop p sid ops k =
     (case cur k of
        None \<Rightarrow> Error EINVAL
      | Some (i, s) \<Rightarrow>
          if i \<noteq> sid then Error EINVAL
          else case semop_set p ops s of
            Done s' \<Rightarrow> Ok (k\<lparr>cur := Some (i, s')\<rparr>)
          | Wait \<Rightarrow> Sleeps
          | Fail e \<Rightarrow> Error e)"

definition getval :: "nat \<Rightarrow> nat \<Rightarrow> ksem \<Rightarrow> int option" where
  "getval sid n k = (case cur k of None \<Rightarrow> None | Some (i, s) \<Rightarrow> if i = sid then Some (semval s n) else None)"

text \<open>\<open>SETVAL\<close> also clears what the exits of processes would add to the member.\<close>

definition setval :: "nat \<Rightarrow> nat \<Rightarrow> int \<Rightarrow> ksem \<Rightarrow> ksem option" where
  "setval sid n v k =
     (case cur k of
        None \<Rightarrow> None
      | Some (i, s) \<Rightarrow>
          if i \<noteq> sid \<or> v < 0 \<or> SEMVMX < v then None
          else Some (k\<lparr>cur := Some (i, \<lparr>semval = (semval s)(n := v), semadj = (\<lambda>p. (semadj s p)(n := 0))\<rparr>)\<rparr>))"

definition zero_set :: semset where
  "zero_set = \<lparr>semval = (\<lambda>_. 0), semadj = (\<lambda>_ _. 0)\<rparr>"

text \<open>\<open>semget\<close> with and without \<open>IPC_CREAT\<close>.\<close>

definition semget_creat :: "ksem \<Rightarrow> nat \<times> ksem" where
  "semget_creat k =
     (case cur k of
        Some (i, s) \<Rightarrow> (i, k)
      | None \<Rightarrow> (nxt k, k\<lparr>cur := Some (nxt k, zero_set), nxt := Suc (nxt k)\<rparr>))"

definition semget :: "ksem \<Rightarrow> nat option" where
  "semget k = map_option fst (cur k)"

text \<open>The exit of a process.\<close>

definition undo_exit :: "nat \<Rightarrow> ksem \<Rightarrow> ksem" where
  "undo_exit p k =
     (case cur k of
        None \<Rightarrow> k
      | Some (i, s) \<Rightarrow>
          k\<lparr>cur := Some (i, \<lparr>semval = (\<lambda>n. max 0 (semval s n + semadj s p n)), semadj = (semadj s)(p := (\<lambda>_. 0))\<rparr>)\<rparr>)"

section \<open>The functions\<close>

text \<open>Where a process is: the call it is about to make, with the variables it needs.\<close>

datatype spc =
    Out                     \<comment> \<open>not using the semaphore\<close>
  | Create1 int             \<comment> \<open>in \<open>sem_create\<close>: \<open>semget\<close>\<close>
  | Create2 nat int         \<comment> \<open>the lock\<close>
  | CreateB nat int         \<comment> \<open>asleep in the lock\<close>
  | Create3 nat int         \<comment> \<open>\<open>GETVAL\<close> of the counter\<close>
  | Create4 nat int         \<comment> \<open>\<open>SETVAL\<close> of the value\<close>
  | Create5 nat             \<comment> \<open>\<open>SETVAL\<close> of the counter\<close>
  | Create6 nat             \<comment> \<open>the end of the creation\<close>
  | Open1                   \<comment> \<open>in \<open>sem_open\<close>: \<open>semget\<close>\<close>
  | Open2 nat               \<comment> \<open>the count\<close>
  | Using nat               \<comment> \<open>has the semaphore\<close>
  | Op nat int              \<comment> \<open>in \<open>sem_op\<close>\<close>
  | Close1 nat              \<comment> \<open>in \<open>sem_close\<close>: lock and count\<close>
  | Close2 nat              \<comment> \<open>\<open>GETVAL\<close> of the counter\<close>
  | Close3 nat              \<comment> \<open>in \<open>sem_rm\<close>\<close>
  | Close4 nat              \<comment> \<open>the unlocking\<close>
  | Failed string           \<comment> \<open>\<open>err_sys\<close> or \<open>err_dump\<close>\<close>
  | Exited

abbreviation (input) IPC_PRIVATE :: int where "IPC_PRIVATE \<equiv> 0"

text \<open>The tests of the key; \<open>None\<close> is the result -1.\<close>

definition sem_create_call :: "int \<Rightarrow> int \<Rightarrow> spc option" where
  "sem_create_call key initval = (if key = IPC_PRIVATE \<or> key = -1 then None else Some (Create1 initval))"

definition sem_open_call :: "int \<Rightarrow> spc option" where
  "sem_open_call key = (if key = IPC_PRIVATE \<or> key = -1 then None else Some Open1)"

text \<open>
  The next system call of a process and where it leads; \<open>None\<close>: it sleeps. A process that
  sleeps in the lock while the set is removed gets \<open>EIDRM\<close>, one that comes later \<open>EINVAL\<close>.
\<close>

fun sem_create :: "nat \<Rightarrow> spc \<Rightarrow> ksem \<Rightarrow> (spc \<times> ksem) option" where
  "sem_create p (Create1 initval) k = (case semget_creat k of (sid, k') \<Rightarrow> Some (Create2 sid initval, k'))"
| "sem_create p (Create2 sid initval) k =
     (case semop p sid op_lock k of
        Ok k' \<Rightarrow> Some (Create3 sid initval, k')
      | Sleeps \<Rightarrow> Some (CreateB sid initval, k)
      | Error errno \<Rightarrow> if errno = EINVAL then Some (Create1 initval, k) else Some (Failed ''can't lock'', k))"
| "sem_create p (CreateB sid initval) k =
     (case semop p sid op_lock k of
        Ok k' \<Rightarrow> Some (Create3 sid initval, k')
      | Sleeps \<Rightarrow> None
      | Error e \<Rightarrow>
          let errno = (if e = EINVAL then EIDRM else e) in
          if errno = EINVAL then Some (Create1 initval, k) else Some (Failed ''can't lock'', k))"
| "sem_create p (Create3 sid initval) k =
     (case getval sid 1 k of
        None \<Rightarrow> Some (Failed ''can't GETVAL'', k)
      | Some v \<Rightarrow> if v = 0 then Some (Create4 sid initval, k) else Some (Create6 sid, k))"
| "sem_create p (Create4 sid initval) k =
     (case setval sid 0 initval k of None \<Rightarrow> Some (Failed ''can SETVAL[0]'', k) | Some k' \<Rightarrow> Some (Create5 sid, k'))"
| "sem_create p (Create5 sid) k =
     (case setval sid 1 BIGCOUNT k of None \<Rightarrow> Some (Failed ''can SETVAL[1]'', k) | Some k' \<Rightarrow> Some (Create6 sid, k'))"
| "sem_create p (Create6 sid) k =
     (case semop p sid op_endcreate k of
        Ok k' \<Rightarrow> Some (Using sid, k')
      | Sleeps \<Rightarrow> None
      | Error e \<Rightarrow> Some (Failed ''can't end create'', k))"
| "sem_create p pc k = None"

fun sem_open :: "nat \<Rightarrow> spc \<Rightarrow> ksem \<Rightarrow> (spc \<times> ksem) option" where
  "sem_open p Open1 k = (case semget k of None \<Rightarrow> Some (Out, k) | Some sid \<Rightarrow> Some (Open2 sid, k))"
| "sem_open p (Open2 sid) k =
     (case semop p sid op_open k of
        Ok k' \<Rightarrow> Some (Using sid, k')
      | Sleeps \<Rightarrow> None
      | Error e \<Rightarrow> Some (Failed ''can't open'', k))"
| "sem_open p pc k = None"

definition sem_rm :: "nat \<Rightarrow> ksem \<Rightarrow> ksem option" where
  "sem_rm sid k = (case cur k of None \<Rightarrow> None | Some (i, s) \<Rightarrow> if i = sid then Some (k\<lparr>cur := None\<rparr>) else None)"

fun sem_close :: "nat \<Rightarrow> spc \<Rightarrow> ksem \<Rightarrow> (spc \<times> ksem) option" where
  "sem_close p (Close1 sid) k =
     (case semop p sid op_close k of
        Ok k' \<Rightarrow> Some (Close2 sid, k')
      | Sleeps \<Rightarrow> None
      | Error e \<Rightarrow> Some (Failed ''can't semop'', k))"
| "sem_close p (Close2 sid) k =
     (case getval sid 1 k of
        None \<Rightarrow> Some (Failed ''can't GETVAL'', k)
      | Some v \<Rightarrow>
          if BIGCOUNT < v then Some (Failed ''sem[1] > BIGCOUNT'', k)
          else if v = BIGCOUNT then Some (Close3 sid, k)
          else Some (Close4 sid, k))"
| "sem_close p (Close3 sid) k =
     (case sem_rm sid k of None \<Rightarrow> Some (Failed ''can't IPC_RMID'', k) | Some k' \<Rightarrow> Some (Out, k'))"
| "sem_close p (Close4 sid) k =
     (case semop p sid op_unlock k of
        Ok k' \<Rightarrow> Some (Out, k')
      | Sleeps \<Rightarrow> None
      | Error e \<Rightarrow> Some (Failed ''can't unlock'', k))"
| "sem_close p pc k = None"

text \<open>The operation is stored in a \<open>short\<close>, and it is the stored value that is tested.\<close>

definition short :: "int \<Rightarrow> int" where
  "short v = (v + 32768) mod 65536 - 32768"

fun sem_op :: "nat \<Rightarrow> spc \<Rightarrow> ksem \<Rightarrow> (spc \<times> ksem) option" where
  "sem_op p (Op sid value) k =
     (if short value = 0 then Some (Failed ''can't have value == 0'', k)
      else case semop p sid (op_op (short value)) k of
        Ok k' \<Rightarrow> Some (Using sid, k')
      | Sleeps \<Rightarrow> None
      | Error e \<Rightarrow> Some (Failed ''sem_op error'', k))"
| "sem_op p pc k = None"

definition sem_wait :: "nat \<Rightarrow> spc" where "sem_wait sid = Op sid (-1)"
definition sem_signal :: "nat \<Rightarrow> spc" where "sem_signal sid = Op sid 1"

definition sem_next :: "nat \<Rightarrow> spc \<Rightarrow> ksem \<Rightarrow> (spc \<times> ksem) option" where
  "sem_next p pc k =
     (case sem_create p pc k of
        Some r \<Rightarrow> Some r
      | None \<Rightarrow> (case sem_open p pc k of
          Some r \<Rightarrow> Some r
        | None \<Rightarrow> (case sem_close p pc k of Some r \<Rightarrow> Some r | None \<Rightarrow> sem_op p pc k)))"

section \<open>Processes\<close>

record sem_sys =
  ks :: ksem
  pcs :: "nat \<Rightarrow> spc"

text \<open>A process that fails exits at once.\<close>

definition failed :: "spc \<Rightarrow> bool" where
  "failed x \<longleftrightarrow> (\<exists>m. x = Failed m)"

definition settle :: "nat \<Rightarrow> spc \<Rightarrow> ksem \<Rightarrow> ksem" where
  "settle p x k = (if failed x then undo_exit p k else k)"

text \<open>
  \<open>n\<close> processes; \<open>opens\<close> says whether they use \<open>sem_open\<close>. \<open>semget\<close> can be refused at any time
  (no permission, no room); the functions then return -1.
\<close>

inductive sem_step :: "nat \<Rightarrow> bool \<Rightarrow> sem_sys \<Rightarrow> sem_sys \<Rightarrow> bool" for n opens where
  create: "p < n \<Longrightarrow> pcs s p = Out \<Longrightarrow> sem_create_call key v = Some x \<Longrightarrow> sem_step n opens s (s\<lparr>pcs := (pcs s)(p := x)\<rparr>)"
| openit: "p < n \<Longrightarrow> opens \<Longrightarrow> pcs s p = Out \<Longrightarrow> sem_open_call key = Some x \<Longrightarrow> sem_step n opens s (s\<lparr>pcs := (pcs s)(p := x)\<rparr>)"
| refused: "p < n \<Longrightarrow> pcs s p = Create1 v \<or> pcs s p = Open1 \<Longrightarrow> sem_step n opens s (s\<lparr>pcs := (pcs s)(p := Out)\<rparr>)"
| oper: "p < n \<Longrightarrow> pcs s p = Using sid \<Longrightarrow> sem_step n opens s (s\<lparr>pcs := (pcs s)(p := Op sid v)\<rparr>)"
| close: "p < n \<Longrightarrow> pcs s p = Using sid \<Longrightarrow> sem_step n opens s (s\<lparr>pcs := (pcs s)(p := Close1 sid)\<rparr>)"
| call: "p < n \<Longrightarrow> sem_next p (pcs s p) (ks s) = Some (x, k) \<Longrightarrow> sem_step n opens s (s\<lparr>ks := settle p x k, pcs := (pcs s)(p := x)\<rparr>)"
| leave: "p < n \<Longrightarrow> pcs s p \<noteq> Exited \<Longrightarrow> \<not> failed (pcs s p) \<Longrightarrow> sem_step n opens s (s\<lparr>ks := undo_exit p (ks s), pcs := (pcs s)(p := Exited)\<rparr>)"

definition sem_start :: "nat \<Rightarrow> sem_sys \<Rightarrow> bool" where
  "sem_start n s \<longleftrightarrow> cur (ks s) = None \<and> (\<forall>p. pcs s p = Out)"

abbreviation sem_reachable :: "nat \<Rightarrow> bool \<Rightarrow> sem_sys \<Rightarrow> bool" where
  "sem_reachable n opens \<equiv> reachable (sem_start n) (sem_step n opens)"

section \<open>Invariant\<close>

fun locked :: "spc \<Rightarrow> bool" where
  "locked (Create3 i v) = True" | "locked (Create4 i v) = True" | "locked (Create5 i) = True" | "locked (Create6 i) = True"
| "locked (Close2 i) = True" | "locked (Close3 i) = True" | "locked (Close4 i) = True" | "locked pc = False"

fun counted :: "spc \<Rightarrow> bool" where
  "counted (Using i) = True" | "counted (Op i v) = True" | "counted (Close1 i) = True" | "counted pc = False"

fun pc_id :: "spc \<Rightarrow> nat option" where
  "pc_id (Create3 i v) = Some i" | "pc_id (Create4 i v) = Some i" | "pc_id (Create5 i) = Some i" | "pc_id (Create6 i) = Some i"
| "pc_id (Close2 i) = Some i" | "pc_id (Close3 i) = Some i" | "pc_id (Close4 i) = Some i"
| "pc_id (Using i) = Some i" | "pc_id (Op i v) = Some i" | "pc_id (Close1 i) = Some i" | "pc_id pc = None"

fun initing :: "spc \<Rightarrow> bool" where
  "initing (Create4 i v) = True" | "initing (Create5 i) = True" | "initing pc = False"

fun inited :: "spc \<Rightarrow> bool" where
  "inited (Create6 i) = True" | "inited (Close2 i) = True" | "inited (Close3 i) = True" | "inited (Close4 i) = True" | "inited pc = False"

fun removing :: "spc \<Rightarrow> bool" where
  "removing (Close3 i) = True" | "removing pc = False"

definition cnt :: "nat \<Rightarrow> (spc \<Rightarrow> bool) \<Rightarrow> (nat \<Rightarrow> spc) \<Rightarrow> nat" where
  "cnt n P f = card {p. p < n \<and> P (f p)}"

definition set_ok :: "nat \<Rightarrow> semset \<Rightarrow> (nat \<Rightarrow> spc) \<Rightarrow> bool" where
  "set_ok n s f \<longleftrightarrow>
     semval s 2 = int (cnt n locked f) \<and> cnt n locked f \<le> 1 \<and>
     (\<forall>p < n. semadj s p 2 = (if locked (f p) then -1 else 0) \<and> semadj s p 1 = (if counted (f p) then 1 else 0)) \<and>
     (semval s 1 = BIGCOUNT - int (cnt n counted f) \<or> semval s 1 = 0 \<and> cnt n counted f = 0 \<and> cnt n inited f = 0) \<and>
     (0 < cnt n initing f \<longrightarrow> semval s 1 = 0) \<and> (0 < cnt n removing f \<longrightarrow> cnt n counted f = 0)"

definition sem_inv :: "nat \<Rightarrow> sem_sys \<Rightarrow> bool" where
  "sem_inv n s \<longleftrightarrow> (\<forall>p < n. pcs s p \<noteq> Open1 \<and> (\<forall>i. pcs s p \<noteq> Open2 i)) \<and>
     (case cur (ks s) of
        None \<Rightarrow> \<forall>p < n. pc_id (pcs s p) = None
      | Some (i, t) \<Rightarrow> (\<forall>p < n. pc_id (pcs s p) = None \<or> pc_id (pcs s p) = Some i) \<and> set_ok n t (pcs s))"

lemma cnt_upd:
  assumes "p < n"
  shows "cnt n P (f(p := x)) = cnt n P f - (if P (f p) then 1 else 0) + (if P x then 1 else 0)"
    and "P (f p) \<Longrightarrow> 0 < cnt n P f"
proof -
  let ?A = "{q. q < n \<and> q \<noteq> p \<and> P (f q)}"
  have fin: "finite ?A" by simp
  have "{q. q < n \<and> P (f q)} = ?A \<union> (if P (f p) then {p} else {})" using assms by auto
  then have 1: "cnt n P f = card ?A + (if P (f p) then 1 else 0)" using fin by (simp add: cnt_def)
  have "{q. q < n \<and> P ((f(p := x)) q)} = ?A \<union> (if P x then {p} else {})" using assms by auto
  then have "cnt n P (f(p := x)) = card ?A + (if P x then 1 else 0)" using fin by (simp add: cnt_def)
  with 1 show "cnt n P (f(p := x)) = cnt n P f - (if P (f p) then 1 else 0) + (if P x then 1 else 0)" by simp
  show "P (f p) \<Longrightarrow> 0 < cnt n P f" using 1 by simp
qed

lemma cnt_part:
  assumes "\<And>x. P x \<Longrightarrow> R x" "\<And>x. Q x \<Longrightarrow> R x" "\<And>x. P x \<Longrightarrow> \<not> Q x"
  shows "cnt n P f + cnt n Q f \<le> cnt n R f"
proof -
  have "card ({p. p < n \<and> P (f p)} \<union> {p. p < n \<and> Q (f p)}) \<le> card {p. p < n \<and> R (f p)}"
    by (rule card_mono) (use assms in auto)
  moreover have "card ({p. p < n \<and> P (f p)} \<union> {p. p < n \<and> Q (f p)}) = cnt n P f + cnt n Q f"
    unfolding cnt_def by (rule card_Un_disjoint) (use assms in auto)
  ultimately show ?thesis by (simp add: cnt_def)
qed

lemma cnt_facts:
  "cnt n initing f + cnt n inited f \<le> cnt n locked f" "cnt n removing f \<le> cnt n inited f" "cnt n counted f \<le> n"
proof -
  have "initing x \<Longrightarrow> locked x" "inited x \<Longrightarrow> locked x" "initing x \<Longrightarrow> \<not> inited x" "removing x \<Longrightarrow> inited x" for x
    by (cases x; simp)+
  then show "cnt n initing f + cnt n inited f \<le> cnt n locked f" "cnt n removing f \<le> cnt n inited f"
    using cnt_part [of initing locked inited n f] cnt_part [of removing inited "\<lambda>x. False" n f] by auto
  show "cnt n counted f \<le> n"
    unfolding cnt_def using card_mono [of "{..<n}" "{p. p < n \<and> counted (f p)}"] by auto
qed

lemmas cnt_moves = cnt_upd(1) [where P = locked] cnt_upd(1) [where P = counted] cnt_upd(1) [where P = initing]
  cnt_upd(1) [where P = inited] cnt_upd(1) [where P = removing]

lemma set_okD:
  assumes "set_ok n t f"
  shows "semval t 2 = int (cnt n locked f)" "cnt n locked f \<le> 1"
    "\<And>p. p < n \<Longrightarrow> semadj t p 2 = (if locked (f p) then -1 else 0)" "\<And>p. p < n \<Longrightarrow> semadj t p 1 = (if counted (f p) then 1 else 0)"
    "semval t 1 = BIGCOUNT - int (cnt n counted f) \<or> semval t 1 = 0 \<and> cnt n counted f = 0 \<and> cnt n inited f = 0"
    "0 < cnt n initing f \<Longrightarrow> semval t 1 = 0" "0 < cnt n removing f \<Longrightarrow> cnt n counted f = 0"
  using assms by (auto simp: set_ok_def)

text \<open>A new set, before any process has locked it.\<close>

lemma set_ok_zero:
  assumes "\<forall>q < n. \<not> locked (f q) \<and> \<not> counted (f q)"
  shows "set_ok n zero_set f"
proof -
  have "{q. q < n \<and> locked (f q)} = {}" "{q. q < n \<and> counted (f q)} = {}" using assms by auto
  then have "cnt n locked f = 0" "cnt n counted f = 0" by (simp_all only: cnt_def card.empty)
  with cnt_facts [of n f] assms show ?thesis by (auto simp: set_ok_def zero_set_def)
qed

text \<open>Taking the lock.\<close>

lemma set_ok_lock:
  assumes "set_ok n t f" "p < n" "semop_set p op_lock t = Done t'" "\<not> locked (f p)" "\<not> counted (f p)" "locked x" "\<not> counted x"
    "\<not> initing x" "\<not> inited x" "\<not> removing x"
  shows "set_ok n t' (f(p := x))"
proof -
  have z: "semval t 2 = 0" using assms(3) by (simp add: op_lock_def split: if_splits)
  then have t': "t' = t\<lparr>semval := (semval t)(2 := 1), semadj := (semadj t)(p := (semadj t p)(2 := semadj t p 2 - 1))\<rparr>"
    using assms(3) by (simp add: op_lock_def)
  note D = set_okD [OF assms(1)]
  have l: "cnt n locked f = 0" using D(1) z by simp
  then have i: "cnt n initing f = 0" "cnt n inited f = 0" "cnt n removing f = 0" using cnt_facts [of n f] by simp_all
  have "\<not> initing (f p)" "\<not> inited (f p)" "\<not> removing (f p)" using assms(4) by (cases "f p"; simp)+
  then have c: "cnt n locked (f(p := x)) = 1" "cnt n counted (f(p := x)) = cnt n counted f" "cnt n initing (f(p := x)) = 0"
    "cnt n inited (f(p := x)) = 0" "cnt n removing (f(p := x)) = 0"
    using assms l i by (simp_all add: cnt_moves)
  show ?thesis unfolding set_ok_def c t' using D(3-5) assms(2,4-7) i(2) by auto
qed

lemma set_ok_endcreate:
  assumes "set_ok n t f" "p < n" "int n < BIGCOUNT" "f p = Create6 i" "semop_set p op_endcreate t = Done t'"
  shows "set_ok n t' (f(p := Using i))"
proof -
  note D = set_okD [OF assms(1)]
  have pos: "0 < cnt n locked f" "0 < cnt n inited f" using cnt_upd(2) [OF assms(2), of _ f] assms(4) by simp_all
  then have l: "cnt n locked f = 1" "cnt n inited f = 1" "cnt n initing f = 0" using D(2) cnt_facts(1) [of n f] by simp_all
  have v: "semval t 1 = BIGCOUNT - int (cnt n counted f)" using D(5) pos(2) by simp
  have rm: "cnt n removing f = 0"
  proof -
    have "cnt n removing f \<le> cnt n inited (f(p := Out))"
    proof -
      have "cnt n removing (f(p := Out)) = cnt n removing f" using assms(2,4) by (simp add: cnt_moves)
      with cnt_facts(2) [of n "f(p := Out)"] show ?thesis by simp
    qed
    also have "\<dots> = 0" using assms(2,4) l(2) by (simp add: cnt_moves)
    finally show ?thesis by simp
  qed
  have t': "t' = t\<lparr>semval := (semval t)(1 := semval t 1 - 1, 2 := 0), semadj := (semadj t)(p := (semadj t p)(1 := semadj t p 1 + 1, 2 := semadj t p 2 + 1))\<rparr>"
    using assms(5) D(1) l(1) by (auto simp: op_endcreate_def split: if_splits)
  have c: "cnt n locked (f(p := Using i)) = 0" "cnt n counted (f(p := Using i)) = Suc (cnt n counted f)" "cnt n initing (f(p := Using i)) = 0"
    "cnt n inited (f(p := Using i)) = 0" "cnt n removing (f(p := Using i)) = 0"
    using assms(2,4) l rm by (simp_all add: cnt_moves)
  show ?thesis unfolding set_ok_def c t' using D(3,4) assms(2,4) v by auto
qed

lemma set_ok_close:
  assumes "set_ok n t f" "p < n" "int n < BIGCOUNT" "f p = Close1 i" "semop_set p op_close t = Done t'"
  shows "set_ok n t' (f(p := Close2 i))"
proof -
  note D = set_okD [OF assms(1)]
  have z: "semval t 2 = 0" using assms(5) by (simp add: op_close_def split: if_splits)
  then have t': "t' = t\<lparr>semval := (semval t)(2 := 1, 1 := semval t 1 + 1), semadj := (semadj t)(p := (semadj t p)(2 := semadj t p 2 - 1, 1 := semadj t p 1 - 1))\<rparr>"
    using assms(5) by (simp add: op_close_def split: if_splits)
  have l: "cnt n locked f = 0" using D(1) z by simp
  then have i: "cnt n initing f = 0" "cnt n inited f = 0" "cnt n removing f = 0" using cnt_facts [of n f] by simp_all
  have pos: "0 < cnt n counted f" using cnt_upd(2) [OF assms(2), of counted f] assms(4) by simp
  then have v: "semval t 1 = BIGCOUNT - int (cnt n counted f)" using D(5) by simp
  have c: "cnt n locked (f(p := Close2 i)) = 1" "cnt n counted (f(p := Close2 i)) = cnt n counted f - 1" "cnt n initing (f(p := Close2 i)) = 0"
    "cnt n inited (f(p := Close2 i)) = 1" "cnt n removing (f(p := Close2 i)) = 0"
    using assms(2,4) l i by (simp_all add: cnt_moves)
  show ?thesis unfolding set_ok_def c t' using D(3,4) assms(2,4) v pos by auto
qed

lemma set_ok_unlock:
  assumes "set_ok n t f" "p < n" "f p = Close4 i" "semop_set p op_unlock t = Done t'"
  shows "set_ok n t' (f(p := Out))"
proof -
  note D = set_okD [OF assms(1)]
  have pos: "0 < cnt n locked f" "0 < cnt n inited f" using cnt_upd(2) [OF assms(2), of _ f] assms(3) by simp_all
  then have l: "cnt n locked f = 1" "cnt n inited f = 1" "cnt n initing f = 0" using D(2) cnt_facts(1) [of n f] by simp_all
  have t': "t' = t\<lparr>semval := (semval t)(2 := 0), semadj := (semadj t)(p := (semadj t p)(2 := semadj t p 2 + 1))\<rparr>"
    using assms(4) D(1) l(1) by (auto simp: op_unlock_def split: if_splits)
  have c: "cnt n locked (f(p := Out)) = 0" "cnt n counted (f(p := Out)) = cnt n counted f" "cnt n initing (f(p := Out)) = 0"
    "cnt n inited (f(p := Out)) = 0" "cnt n removing (f(p := Out)) = cnt n removing f"
    using assms(2,3) l by (simp_all add: cnt_moves)
  show ?thesis unfolding set_ok_def c t' using D(3-5,7) assms(2,3) pos by auto
qed

text \<open>Calls that do not touch the lock and the counter: the value, and no call at all.\<close>

lemma set_ok_same:
  assumes "set_ok n t f" "p < n" "semval t' 1 = semval t 1" "semval t' 2 = semval t 2"
    "\<And>q. q < n \<Longrightarrow> semadj t' q 1 = semadj t q 1 \<and> semadj t' q 2 = semadj t q 2"
    "locked x = locked (f p)" "counted x = counted (f p)"
    "initing x \<Longrightarrow> semval t 1 = 0" "inited x \<Longrightarrow> semval t 1 \<noteq> 0" "removing x \<Longrightarrow> cnt n counted f = 0"
  shows "set_ok n t' (f(p := x))"
proof -
  note D = set_okD [OF assms(1)]
  have c: "cnt n locked (f(p := x)) = cnt n locked f" "cnt n counted (f(p := x)) = cnt n counted f"
    using assms(2,6,7) cnt_upd(2) [OF assms(2), of locked f] cnt_upd(2) [OF assms(2), of counted f] by (simp_all add: cnt_moves)
  have i: "0 < cnt n initing (f(p := x)) \<Longrightarrow> initing x \<or> 0 < cnt n initing f" "\<not> inited x \<Longrightarrow> cnt n inited f = 0 \<Longrightarrow> cnt n inited (f(p := x)) = 0"
    "0 < cnt n removing (f(p := x)) \<Longrightarrow> removing x \<or> 0 < cnt n removing f"
    using assms(2) by (auto simp: cnt_moves split: if_splits)
  show ?thesis unfolding set_ok_def c
    using D i assms(2-5,6,7,8,9,10) by (auto simp: fun_upd_apply)
qed

lemma set_ok_init:
  assumes "set_ok n t f" "p < n" "int n < BIGCOUNT" "f p = Create5 i"
  shows "set_ok n \<lparr>semval = (semval t)(1 := BIGCOUNT), semadj = (\<lambda>q. (semadj t q)(1 := 0))\<rparr> (f(p := Create6 i))"
proof -
  note D = set_okD [OF assms(1)]
  have pos: "0 < cnt n locked f" "0 < cnt n initing f" using cnt_upd(2) [OF assms(2), of _ f] assms(4) by simp_all
  then have l: "cnt n locked f = 1" "cnt n initing f = 1" "cnt n inited f = 0" "cnt n removing f = 0" using D(2) cnt_facts [of n f] by simp_all
  have "semval t 1 = 0" using D(6) pos(2) by simp
  then have k: "cnt n counted f = 0" using D(5) cnt_facts(3) [of n f] assms(3) by auto
  then have "\<And>q. q < n \<Longrightarrow> \<not> counted (f q)" using cnt_upd(2) [of _ n counted f] by fastforce
  then have a: "\<And>q. q < n \<Longrightarrow> semadj t q 1 = 0" using D(4) by simp
  have c: "cnt n locked (f(p := Create6 i)) = 1" "cnt n counted (f(p := Create6 i)) = 0" "cnt n initing (f(p := Create6 i)) = 0"
    "cnt n inited (f(p := Create6 i)) = 1" "cnt n removing (f(p := Create6 i)) = 0"
    using assms(2,4) l k by (simp_all add: cnt_moves)
  have "\<not> counted ((f(p := Create6 i)) q)" if "q < n" for q using that a D(4) [OF that] by (auto split: if_splits)
  then show ?thesis unfolding set_ok_def c using D(1,3) l(1) assms(2,4) by auto
qed

lemma set_ok_exit:
  assumes "set_ok n t f" "p < n" "int n < BIGCOUNT" "\<not> locked x" "\<not> counted x"
  shows "set_ok n \<lparr>semval = (\<lambda>m. max 0 (semval t m + semadj t p m)), semadj = (semadj t)(p := (\<lambda>_. 0))\<rparr> (f(p := x))"
proof -
  note D = set_okD [OF assms(1)]
  have x: "\<not> initing x" "\<not> inited x" "\<not> removing x" using assms(4) by (cases x; simp)+
  have c: "cnt n locked (f(p := x)) = cnt n locked f - (if locked (f p) then 1 else 0)"
    "cnt n counted (f(p := x)) = cnt n counted f - (if counted (f p) then 1 else 0)"
    using assms(2,4,5) by (simp_all add: cnt_moves)
  have le: "cnt n initing (f(p := x)) \<le> cnt n initing f" "cnt n inited (f(p := x)) \<le> cnt n inited f" "cnt n removing (f(p := x)) \<le> cnt n removing f"
    using assms(2) x by (simp_all add: cnt_moves)
  have pos: "locked (f p) \<Longrightarrow> 0 < cnt n locked f" "counted (f p) \<Longrightarrow> 0 < cnt n counted f" using cnt_upd(2) [OF assms(2)] by blast+
  have lc: "\<not> (locked (f p) \<and> counted (f p))" by (cases "f p") auto
  have k: "cnt n counted f \<le> n" by (rule cnt_facts(3))
  have v2: "max 0 (semval t 2 + semadj t p 2) = int (cnt n locked (f(p := x)))"
    using D(1,2) D(3) [OF assms(2)] pos(1) by (auto simp: c)
  have v1: "max 0 (semval t 1 + semadj t p 1) = BIGCOUNT - int (cnt n counted (f(p := x))) \<or>
      max 0 (semval t 1 + semadj t p 1) = 0 \<and> cnt n counted (f(p := x)) = 0 \<and> cnt n inited (f(p := x)) = 0"
    using D(5) D(4) [OF assms(2)] pos(2) k assms(3) le(2) by (auto simp: c)
  have i: "max 0 (semval t 1 + semadj t p 1) = 0" if "0 < cnt n initing (f(p := x))"
  proof -
    have "semval t 1 = 0" using D(6) le(1) that by simp
    moreover have "\<not> counted (f p)" using calculation D(5) pos(2) k assms(3) by auto
    ultimately show ?thesis using D(4) [OF assms(2)] by simp
  qed
  have "cnt n counted (f(p := x)) = 0" if "0 < cnt n removing (f(p := x))" using D(7) le(3) that by (simp add: c)
  with v1 v2 i D(2-4) assms(4,5) show ?thesis unfolding set_ok_def by (auto simp: c)
qed

text \<open>The counters of the states.\<close>

lemma locked_here: "set_ok n t f \<Longrightarrow> p < n \<Longrightarrow> locked (f p) \<Longrightarrow> semval t 2 = 1"
  using set_okD(1,2) [of n t f] cnt_upd(2) [of p n locked f] by simp

text \<open>What a call of a process has to show: the set that is left, or that the process fails and exits.\<close>

lemma sem_inv_some:
  assumes "sem_inv n s" "cur (ks s) = Some (i, t)" "p < n"
  shows "set_ok n t (pcs s)" "pc_id (pcs s p) = None \<or> pc_id (pcs s p) = Some i" "pcs s p \<noteq> Open1" "pcs s p \<noteq> Open2 j"
  using assms by (auto simp: sem_inv_def)

lemma sem_inv_call:
  assumes "sem_inv n s" "cur (ks s) = Some (i, t)" "\<not> failed x" "cur k = Some (i, t')" "set_ok n t' ((pcs s)(p := x))"
    "pc_id x = None \<or> pc_id x = Some i" "x \<noteq> Open1" "\<forall>j. x \<noteq> Open2 j"
  shows "sem_inv n (s\<lparr>ks := settle p x k, pcs := (pcs s)(p := x)\<rparr>)"
  using assms by (auto simp: sem_inv_def settle_def)

lemma sem_inv_die:
  assumes "sem_inv n s" "cur (ks s) = Some (i, t)" "p < n" "int n < BIGCOUNT" "failed x" "k = ks s"
  shows "sem_inv n (s\<lparr>ks := settle p x k, pcs := (pcs s)(p := x)\<rparr>)"
  using assms sem_inv_some(1) [OF assms(1-3)] set_ok_exit [OF _ assms(3,4), of t "pcs s" x]
  by (auto simp: sem_inv_def settle_def failed_def undo_exit_def)

lemma set_ok_pc:
  assumes "set_ok n t f" "p < n" "locked x = locked (f p)" "counted x = counted (f p)" "initing x \<Longrightarrow> semval t 1 = 0"
    "inited x \<Longrightarrow> semval t 1 \<noteq> 0" "removing x \<Longrightarrow> cnt n counted f = 0"
  shows "set_ok n t (f(p := x))"
  by (rule set_ok_same [OF assms(1,2) refl refl]) (use assms(3-) in auto)

lemma sem_none_inv:
  assumes inv: "sem_inv n s" and none: "cur (ks s) = None" and p: "p < n" and run: "sem_next p (pcs s p) (ks s) = Some (x, k)"
  shows "sem_inv n (s\<lparr>ks := settle p x k, pcs := (pcs s)(p := x)\<rparr>)"
proof -
  have np: "pc_id (pcs s p) = None" "pcs s p \<noteq> Open1" "\<forall>i. pcs s p \<noteq> Open2 i" using inv none p by (auto simp: sem_inv_def)
  have others: "\<forall>q < n. pc_id (pcs s q) = None \<and> pcs s q \<noteq> Open1 \<and> (\<forall>i. pcs s q \<noteq> Open2 i)" using inv none by (auto simp: sem_inv_def)
  show ?thesis
  proof (cases "pcs s p")
    case (Create1 v)
    with run none have x: "x = Create2 (nxt (ks s)) v" "k = (ks s)\<lparr>cur := Some (nxt (ks s), zero_set), nxt := Suc (nxt (ks s))\<rparr>"
      by (auto simp: sem_next_def semget_creat_def)
    have "\<not> locked (pcs s q) \<and> \<not> counted (pcs s q) \<and> \<not> initing (pcs s q) \<and> \<not> removing (pcs s q) \<and> \<not> inited (pcs s q)" if "q < n" for q
      using others that by (cases "pcs s q") auto
    then have no: "\<forall>q < n. \<not> locked (((pcs s)(p := x)) q) \<and> \<not> counted (((pcs s)(p := x)) q)" using x(1) by auto
    have "set_ok n zero_set ((pcs s)(p := x))" by (rule set_ok_zero [OF no])
    with x others show ?thesis by (auto simp: sem_inv_def settle_def failed_def)
  next
    case (Create2 i v)
    with run none have "x = Create1 v" "k = ks s" by (auto simp: sem_next_def semop_def)
    with others none show ?thesis by (auto simp: sem_inv_def settle_def failed_def)
  next
    case (CreateB i v)
    with run none have "x = Failed ''can't lock''" "k = ks s" by (auto simp: sem_next_def semop_def Let_def)
    with others none show ?thesis by (auto simp: sem_inv_def settle_def failed_def undo_exit_def)
  qed (use np run in \<open>simp_all add: sem_next_def\<close>)
qed

text \<open>Waiting for the lock.\<close>

lemma sem_lock_inv:
  assumes inv: "sem_inv n s" and c: "cur (ks s) = Some (i, t)" and p: "p < n" and n: "int n < BIGCOUNT"
    and run: "sem_next p (pcs s p) (ks s) = Some (x, k)"
    and at: "(\<exists>j v. pcs s p = Create2 j v) \<or> (\<exists>j v. pcs s p = CreateB j v)"
  shows "sem_inv n (s\<lparr>ks := settle p x k, pcs := (pcs s)(p := x)\<rparr>)"
proof -
  note ok = sem_inv_some(1) [OF inv c p] and idp = sem_inv_some(2) [OF inv c p]
  note fin = sem_inv_call [OF inv c] and die = sem_inv_die [OF inv c p n] and same = set_ok_pc [OF ok p] and D = set_okD [OF ok]
  show ?thesis
  proof (cases "pcs s p")
    case (Create2 j v)
    show ?thesis
    proof (cases "j = i")
      case True
      show ?thesis
      proof (cases "semop_set p op_lock t")
        case (Done t')
        with run c Create2 True have "x = Create3 i v" "cur k = Some (i, t')" by (auto simp: sem_next_def semop_def)
        with set_ok_lock [OF ok p Done] Create2 show ?thesis by (intro fin [where t' = t']) (auto simp: failed_def)
      next
        case Wait
        with run c Create2 True have "x = CreateB i v" "k = ks s" by (auto simp: sem_next_def semop_def)
        with c Create2 show ?thesis by (intro fin [where t' = t] same) (auto simp: failed_def)
      next
        case (Fail e)
        with run c Create2 True have "failed x \<or> x = Create1 v" "k = ks s" by (auto simp: sem_next_def semop_def failed_def split: if_splits)
        then show ?thesis
        proof (elim disjE)
          assume "failed x"
          then show ?thesis using \<open>k = ks s\<close> by (rule die)
        next
          assume "x = Create1 v"
          with \<open>k = ks s\<close> c Create2 show ?thesis by (intro fin [where t' = t] same) (auto simp: failed_def)
        qed
      qed
    next
      case False
      with run c Create2 have "x = Create1 v" "k = ks s" by (auto simp: sem_next_def semop_def)
      with c Create2 show ?thesis by (intro fin [where t' = t] same) (auto simp: failed_def)
    qed
  next
    case (CreateB j v)
    show ?thesis
    proof (cases "j = i")
      case True
      show ?thesis
      proof (cases "semop_set p op_lock t")
        case (Done t')
        with run c CreateB True have "x = Create3 i v" "cur k = Some (i, t')" by (auto simp: sem_next_def semop_def)
        with set_ok_lock [OF ok p Done] CreateB show ?thesis by (intro fin [where t' = t']) (auto simp: failed_def)
      next
        case Wait
        with run c CreateB True show ?thesis by (simp add: sem_next_def semop_def)
      next
        case (Fail e)
        with run c CreateB True have "failed x" "k = ks s" by (auto simp: sem_next_def semop_def failed_def Let_def split: if_splits)
        then show ?thesis by (rule die)
      qed
    next
      case False
      with run c CreateB have "failed x" "k = ks s" by (auto simp: sem_next_def semop_def failed_def Let_def)
      then show ?thesis by (rule die)
    qed
  qed (use at in simp_all)
qed

text \<open>The rest of \<open>sem_create\<close>.\<close>

lemma sem_setup_inv:
  assumes inv: "sem_inv n s" and c: "cur (ks s) = Some (i, t)" and p: "p < n" and n: "int n < BIGCOUNT"
    and run: "sem_next p (pcs s p) (ks s) = Some (x, k)"
    and at: "(\<exists>v. pcs s p = Create1 v) \<or> (\<exists>j v. pcs s p = Create3 j v \<or> pcs s p = Create4 j v) \<or> (\<exists>j. pcs s p = Create5 j \<or> pcs s p = Create6 j)"
  shows "sem_inv n (s\<lparr>ks := settle p x k, pcs := (pcs s)(p := x)\<rparr>)"
proof -
  note ok = sem_inv_some(1) [OF inv c p] and idp = sem_inv_some(2) [OF inv c p]
  note fin = sem_inv_call [OF inv c] and die = sem_inv_die [OF inv c p n] and same = set_ok_pc [OF ok p] and D = set_okD [OF ok]
  show ?thesis
  proof (cases "pcs s p")
    case (Create1 v)
    with run c have "x = Create2 i v" "k = ks s" by (auto simp: sem_next_def semget_creat_def)
    with c Create1 show ?thesis by (intro fin [where t' = t] same) (auto simp: failed_def)
  next
    case (Create3 j v)
    with idp have "j = i" by simp
    with run c Create3 have "x = (if semval t 1 = 0 then Create4 i v else Create6 i)" "k = ks s" by (auto simp: sem_next_def getval_def split: if_splits)
    with c Create3 show ?thesis by (intro fin [where t' = t] same) (auto simp: failed_def split: if_splits)
  next
    case (Create4 j v)
    with idp have j: "j = i" by simp
    have "semval t 1 = 0" using D(6) cnt_upd(2) [OF p, of initing "pcs s"] Create4 by simp
    show ?thesis
    proof (cases "v < 0 \<or> SEMVMX < v")
      case True
      with run c Create4 j have "failed x" "k = ks s" by (auto simp: sem_next_def setval_def failed_def)
      then show ?thesis by (rule die)
    next
      case False
      let ?t = "\<lparr>semval = (semval t)(0 := v), semadj = (\<lambda>q. (semadj t q)(0 := 0))\<rparr>"
      from False run c Create4 j have x: "x = Create5 i" "cur k = Some (i, ?t)" by (auto simp: sem_next_def setval_def)
      have "set_ok n ?t ((pcs s)(p := x))"
        by (rule set_ok_same [OF ok p]) (use x Create4 \<open>semval t 1 = 0\<close> in auto)
      with x show ?thesis by (intro fin [where t' = ?t]) (auto simp: failed_def)
    qed
  next
    case (Create5 j)
    with idp have j: "j = i" by simp
    let ?t = "\<lparr>semval = (semval t)(1 := BIGCOUNT), semadj = (\<lambda>q. (semadj t q)(1 := 0))\<rparr>"
    from run c Create5 j have x: "x = Create6 i" "cur k = Some (i, ?t)" by (auto simp: sem_next_def setval_def)
    with set_ok_init [OF ok p n, of i] Create5 j show ?thesis by (intro fin [where t' = ?t]) (auto simp: failed_def)
  next
    case (Create6 j)
    with idp have j: "j = i" by simp
    show ?thesis
    proof (cases "semop_set p op_endcreate t")
      case (Done t')
      with run c Create6 j have "x = Using i" "cur k = Some (i, t')" by (auto simp: sem_next_def semop_def)
      with set_ok_endcreate [OF ok p n _ Done, of i] Create6 j show ?thesis by (intro fin [where t' = t']) (auto simp: failed_def)
    next
      case Wait
      with run c Create6 j show ?thesis by (simp add: sem_next_def semop_def)
    next
      case (Fail e)
      with run c Create6 j have "failed x" "k = ks s" by (auto simp: sem_next_def semop_def failed_def)
      then show ?thesis by (rule die)
    qed
  qed (use at in simp_all)
qed

text \<open>An operation on the value.\<close>

lemma sem_op_inv:
  assumes inv: "sem_inv n s" and c: "cur (ks s) = Some (i, t)" and p: "p < n" and n: "int n < BIGCOUNT"
    and run: "sem_next p (pcs s p) (ks s) = Some (x, k)"
    and at: "\<exists>j v. pcs s p = Op j v"
  shows "sem_inv n (s\<lparr>ks := settle p x k, pcs := (pcs s)(p := x)\<rparr>)"
proof -
  note ok = sem_inv_some(1) [OF inv c p] and idp = sem_inv_some(2) [OF inv c p]
  note fin = sem_inv_call [OF inv c] and die = sem_inv_die [OF inv c p n] and same = set_ok_pc [OF ok p] and D = set_okD [OF ok]
  show ?thesis
  proof (cases "pcs s p")
    case (Op j v)
    with idp have j: "j = i" by simp
    show ?thesis
    proof (cases "short v = 0")
      case True
      with run c Op have "failed x" "k = ks s" by (auto simp: sem_next_def failed_def)
      then show ?thesis by (rule die)
    next
      case v: False
      show ?thesis
      proof (cases "semop_set p (op_op (short v)) t")
        case (Done t')
        with run c Op j v have x: "x = Using i" "cur k = Some (i, t')" by (auto simp: sem_next_def semop_def)
        have "set_ok n t' ((pcs s)(p := x))"
          by (rule set_ok_same [OF ok p]) (use x Op Done v in \<open>auto simp: op_op_def split: if_splits\<close>)
        with x show ?thesis by (intro fin [where t' = t']) (auto simp: failed_def)
      next
        case Wait
        with run c Op j v show ?thesis by (simp add: sem_next_def semop_def)
      next
        case (Fail e)
        with run c Op j v have "failed x" "k = ks s" by (auto simp: sem_next_def semop_def failed_def)
        then show ?thesis by (rule die)
      qed
    qed
  qed (use at in simp_all)
qed

text \<open>\<open>sem_close\<close>.\<close>

lemma sem_close_inv:
  assumes inv: "sem_inv n s" and c: "cur (ks s) = Some (i, t)" and p: "p < n" and n: "int n < BIGCOUNT"
    and run: "sem_next p (pcs s p) (ks s) = Some (x, k)"
    and at: "\<exists>j. pcs s p = Close1 j \<or> pcs s p = Close2 j \<or> pcs s p = Close3 j \<or> pcs s p = Close4 j"
  shows "sem_inv n (s\<lparr>ks := settle p x k, pcs := (pcs s)(p := x)\<rparr>)"
proof -
  note ok = sem_inv_some(1) [OF inv c p] and idp = sem_inv_some(2) [OF inv c p]
  note fin = sem_inv_call [OF inv c] and die = sem_inv_die [OF inv c p n] and same = set_ok_pc [OF ok p] and D = set_okD [OF ok]
  show ?thesis
  proof (cases "pcs s p")
    case (Close1 j)
    with idp have j: "j = i" by simp
    show ?thesis
    proof (cases "semop_set p op_close t")
      case (Done t')
      with run c Close1 j have "x = Close2 i" "cur k = Some (i, t')" by (auto simp: sem_next_def semop_def)
      with set_ok_close [OF ok p n _ Done, of i] Close1 j show ?thesis by (intro fin [where t' = t']) (auto simp: failed_def)
    next
      case Wait
      with run c Close1 j show ?thesis by (simp add: sem_next_def semop_def)
    next
      case (Fail e)
      with run c Close1 j have "failed x" "k = ks s" by (auto simp: sem_next_def semop_def failed_def)
      then show ?thesis by (rule die)
    qed
  next
    case (Close2 j)
    with idp have j: "j = i" by simp
    have "0 < cnt n inited (pcs s)" using cnt_upd(2) [OF p, of inited "pcs s"] Close2 by simp
    then have v: "semval t 1 = BIGCOUNT - int (cnt n counted (pcs s))" using D(5) by simp
    with run c Close2 j have "x = (if cnt n counted (pcs s) = 0 then Close3 i else Close4 i)" "k = ks s"
      by (auto simp: sem_next_def getval_def split: if_splits)
    moreover have "semval t 1 \<noteq> 0" using v cnt_facts(3) [of n "pcs s"] n by simp
    ultimately show ?thesis using c Close2 by (intro fin [where t' = t] same) (auto simp: failed_def split: if_splits)
  next
    case (Close3 j)
    with idp have j: "j = i" by simp
    with run c Close3 have x: "x = Out" "cur k = None" by (auto simp: sem_next_def sem_rm_def)
    have l: "0 < cnt n locked (pcs s)" "0 < cnt n removing (pcs s)" using cnt_upd(2) [OF p] Close3 by auto
    then have "cnt n locked ((pcs s)(p := Out)) = 0" "cnt n counted (pcs s) = 0" using D(2,7) p Close3 by (simp_all add: cnt_moves)
    then have none: "\<not> locked (pcs s q) \<or> q = p" "\<not> counted (pcs s q)" if "q < n" for q
      using that cnt_upd(2) [OF that, of locked "(pcs s)(p := Out)"] cnt_upd(2) [OF that, of counted "pcs s"] by (cases "q = p"; auto)+
    have "pc_id (pcs s q) = None" if "q < n" "q \<noteq> p" for q
      using none [OF that(1)] that(2) by (cases "pcs s q") auto
    with x inv show ?thesis by (auto simp: sem_inv_def settle_def failed_def split: option.splits)
  next
    case (Close4 j)
    with idp have j: "j = i" by simp
    show ?thesis
    proof (cases "semop_set p op_unlock t")
      case (Done t')
      with run c Close4 j have "x = Out" "cur k = Some (i, t')" by (auto simp: sem_next_def semop_def)
      with set_ok_unlock [OF ok p _ Done, of i] Close4 j show ?thesis by (intro fin [where t' = t']) (auto simp: failed_def)
    next
      case Wait
      with run c Close4 j show ?thesis by (simp add: sem_next_def semop_def)
    next
      case (Fail e)
      with run c Close4 j have "failed x" "k = ks s" by (auto simp: sem_next_def semop_def failed_def)
      then show ?thesis by (rule die)
    qed
  qed (use at in simp_all)
qed

lemma sem_call_inv:
  assumes inv: "sem_inv n s" and p: "p < n" and n: "int n < BIGCOUNT" and run: "sem_next p (pcs s p) (ks s) = Some (x, k)"
  shows "sem_inv n (s\<lparr>ks := settle p x k, pcs := (pcs s)(p := x)\<rparr>)"
proof (cases "cur (ks s)")
  case None
  then show ?thesis by (rule sem_none_inv [OF inv _ p run])
next
  case (Some it)
  then obtain i t where c: "cur (ks s) = Some (i, t)" by (cases it) auto
  note part = sem_lock_inv [OF inv c p n run] sem_setup_inv [OF inv c p n run] sem_op_inv [OF inv c p n run] sem_close_inv [OF inv c p n run]
  show ?thesis
    by (cases "pcs s p") (use run sem_inv_some(3,4) [OF inv c p] in \<open>auto intro: part simp: sem_next_def\<close>)
qed

lemma sem_step_inv:
  assumes "sem_step n opens s s'" "\<not> opens" "sem_inv n s" "int n < BIGCOUNT"
  shows "sem_inv n s'"
  using assms(1)
proof cases
  case (call p x k)
  with sem_call_inv [OF assms(3) call(2) assms(4) call(3)] show ?thesis by simp
next
  case (leave p)
  show ?thesis
  proof (cases "cur (ks s)")
    case None
    with leave assms(3) show ?thesis by (auto simp: sem_inv_def undo_exit_def)
  next
    case (Some it)
    then obtain i t where c: "cur (ks s) = Some (i, t)" by (cases it) auto
    then have "set_ok n t (pcs s)" using assms(3) by (simp add: sem_inv_def)
    from set_ok_exit [OF this leave(2) assms(4), of Exited] c leave assms(3) show ?thesis
      by (auto simp: sem_inv_def undo_exit_def)
  qed
next
  case (openit p key x)
  with assms(2) show ?thesis by simp
qed (use assms(3) in \<open>auto simp: sem_create_call_def sem_inv_def intro: set_ok_same split: option.splits if_splits\<close>)

interpretation sem_sys: step_invariant "sem_start n" "sem_step n False" "\<lambda>s. int n < BIGCOUNT \<longrightarrow> sem_inv n s" for n
proof (unfold_locales, goal_cases)
  case (1 s)
  then show ?case by (simp add: sem_start_def sem_inv_def)
next
  case (2 s s')
  then show ?case using sem_step_inv by blast
qed

section \<open>What the counter and the lock promise\<close>

text \<open>Every run of the calls of the model, as a function on schedules: which process moves, and how.\<close>

datatype move = Begin spc | Call | Leave

definition sem_move :: "nat \<Rightarrow> bool \<Rightarrow> sem_sys \<Rightarrow> nat \<times> move \<Rightarrow> sem_sys option" where
  "sem_move n opens s pm =
     (case pm of
        (p, Begin x) \<Rightarrow>
          if p < n \<and> (pcs s p = Out \<and> (\<exists>v. x = Create1 v) \<or> pcs s p = Out \<and> opens \<and> x = Open1 \<or>
            (\<exists>i. pcs s p = Using i \<and> (x = Close1 i \<or> (\<exists>v. x = Op i v))))
          then Some (s\<lparr>pcs := (pcs s)(p := x)\<rparr>) else None
      | (p, Call) \<Rightarrow>
          if p < n then (case sem_next p (pcs s p) (ks s) of
             None \<Rightarrow> None
           | Some (x, k) \<Rightarrow> Some (s\<lparr>ks := settle p x k, pcs := (pcs s)(p := x)\<rparr>)) else None
      | (p, Leave) \<Rightarrow>
          if p < n \<and> pcs s p \<noteq> Exited \<and> \<not> failed (pcs s p)
          then Some (s\<lparr>ks := undo_exit p (ks s), pcs := (pcs s)(p := Exited)\<rparr>) else None)"

lemma sem_move_step: "sem_move n opens s pm = Some s' \<Longrightarrow> sem_step n opens s s'"
proof (cases pm)
  case (Pair p m)
  assume run: "sem_move n opens s pm = Some s'"
  have c: "sem_create_call 1 v = Some (Create1 v)" "sem_open_call 1 = Some Open1" for v
    by (simp_all add: sem_create_call_def sem_open_call_def)
  show ?thesis using run Pair
    by (cases m) (auto simp: sem_move_def split: if_splits option.splits prod.splits
      intro: sem_step.create [OF _ _ c(1)] sem_step.openit [OF _ _ _ c(2)] sem_step.oper sem_step.close sem_step.call sem_step.leave)
qed

interpretation sem_runs: schedules "sem_step n opens" "\<lambda>m s. sem_move n opens s m" for n opens
  by unfold_locales (rule sem_move_step)

abbreviation sem_moves :: "nat \<Rightarrow> bool \<Rightarrow> sem_sys \<Rightarrow> (nat \<times> move) list \<Rightarrow> sem_sys option" where
  "sem_moves n opens s ms \<equiv> run_moves (\<lambda>m s. sem_move n opens s m) ms s"

definition sem_fresh :: sem_sys where
  "sem_fresh = \<lparr>ks = \<lparr>cur = None, nxt = 0\<rparr>, pcs = (\<lambda>_. Out)\<rparr>"

lemma sem_fresh_reachable: "sem_reachable n opens sem_fresh"
  by (rule reachable.start) (simp add: sem_fresh_def sem_start_def)

text \<open>C23: processes that use \<open>sem_create\<close>, \<open>sem_op\<close> (so \<open>sem_wait\<close> and \<open>sem_signal\<close>) and \<open>sem_close\<close>,
  interleaved one system call at a time, any of them exiting or failing at any moment. When one
  of them has the semaphore, its set is there, the counter is \<open>BIGCOUNT\<close> less the number
  of processes that have it, at most one process holds the lock, and the value of the lock is the
  number of its holders: no set is removed while it is in use, and the exit of a process
  gives back its lock and its count.
\<close>

theorem sem_users_counted:
  assumes "sem_reachable n False s" "int n < BIGCOUNT" "p < n" "counted (pcs s p)"
  shows "\<exists>i t. pc_id (pcs s p) = Some i \<and> cur (ks s) = Some (i, t) \<and>
    semval t 1 = BIGCOUNT - int (card {q. q < n \<and> counted (pcs s q)}) \<and>
    semval t 2 = int (card {q. q < n \<and> locked (pcs s q)}) \<and> card {q. q < n \<and> locked (pcs s q)} \<le> 1"
proof -
  have inv: "sem_inv n s" using sem_sys.reachable_inv [OF assms(1)] assms(2) by simp
  obtain i where i: "pc_id (pcs s p) = Some i" using assms(4) by (cases "pcs s p") auto
  with inv assms(3) obtain t where c: "cur (ks s) = Some (i, t)" "set_ok n t (pcs s)"
    by (cases "cur (ks s)") (auto simp: sem_inv_def)
  note D = set_okD [OF c(2)]
  have "0 < cnt n counted (pcs s)" using cnt_upd(2) [OF assms(3), of counted "pcs s"] assms(4) by simp
  with D(5) have "semval t 1 = BIGCOUNT - int (cnt n counted (pcs s))" by simp
  with D(1,2) i c(1) show ?thesis by (simp add: cnt_def)
qed

text \<open>One process creates the semaphore with the value 5 and has it.\<close>

definition sem_created :: "(nat \<times> move) list" where
  "sem_created = [(0, Begin (Create1 5)), (0, Call), (0, Call), (0, Call), (0, Call), (0, Call), (0, Call)]"

lemmas sem_run_simps = sem_fresh_def sem_created_def sem_move_def sem_next_def semop_def semget_def semget_creat_def zero_set_def getval_def
  setval_def sem_rm_def settle_def failed_def undo_exit_def op_lock_def op_endcreate_def op_open_def op_close_def op_unlock_def op_op_def

lemma sem_created_run:
  "\<exists>s. sem_moves 2 False sem_fresh sem_created = Some s \<and> pcs s 0 = Using 0 \<and> pcs s 1 = Out"
  by (simp add: sem_run_simps)

theorem sem_users_counted_witness:
  "\<exists>s :: sem_sys. pcs s 0 = Using 0 \<and> (\<exists>i t. pc_id (pcs s 0) = Some i \<and> cur (ks s) = Some (i, t) \<and>
    semval t 1 = BIGCOUNT - int (card {q. q < 2 \<and> counted (pcs s q)}) \<and>
    semval t 2 = int (card {q. q < 2 \<and> locked (pcs s q)}) \<and> card {q. q < 2 \<and> locked (pcs s q)} \<le> 1)"
proof -
  obtain s where s: "sem_moves 2 False sem_fresh sem_created = Some s" "pcs s 0 = Using 0" using sem_created_run by blast
  have "sem_reachable 2 False s" by (rule sem_runs.run_reachable [OF sem_fresh_reachable s(1)])
  from sem_users_counted [OF this, of 0] s(2) have "\<exists>i t. pc_id (pcs s 0) = Some i \<and> cur (ks s) = Some (i, t) \<and>
    semval t 1 = BIGCOUNT - int (card {q. q < 2 \<and> counted (pcs s q)}) \<and>
    semval t 2 = int (card {q. q < 2 \<and> locked (pcs s q)}) \<and> card {q. q < 2 \<and> locked (pcs s q)} \<le> 1" by simp
  with s(2) show ?thesis by blast
qed

text \<open>The two windows that remain. \<open>sem_open\<close> takes no lock: a process can have the semaphore
  while the set it has is gone, when the last other user is between reading the counter and
  removing the set. And \<open>sem_create\<close> answers \<open>EINVAL\<close> only: a process that sleeps for the
  lock of a set that is then removed gets \<open>EIDRM\<close> and dies in \<open>err_sys\<close>.
\<close>

theorem sem_open_race:
  "(\<exists>s. sem_reachable 2 True s \<and> pcs s 1 = Using 0 \<and> cur (ks s) = None) \<and>
   (\<exists>s. sem_reachable 2 False s \<and> pcs s 1 = Failed ''can't lock'' \<and> cur (ks s) = None)"
proof -
  have "\<exists>s. sem_moves 2 True sem_fresh (sem_created @ [(1, Begin Open1), (1, Call), (0, Begin (Close1 0)), (0, Call), (0, Call), (1, Call), (0, Call)]) = Some s \<and>
      pcs s 1 = Using 0 \<and> cur (ks s) = None"
    by (simp add: sem_run_simps)
  moreover have "\<exists>s. sem_moves 2 False sem_fresh (sem_created @ [(0, Begin (Close1 0)), (0, Call), (1, Begin (Create1 5)), (1, Call), (1, Call),
      (0, Call), (0, Call), (1, Call)]) = Some s \<and> pcs s 1 = Failed ''can't lock'' \<and> cur (ks s) = None"
    by (simp add: sem_run_simps)
  ultimately show ?thesis using sem_runs.run_reachable [OF sem_fresh_reachable] by blast
qed

end
