(* ===== verification/Mem_Stream.thy ===== *)
theory Mem_Stream
  imports Apue_Prelude "HOL-Library.Word"
begin

text \<open>
  The stream on a buffer in memory of \<open>exercises/fmemopen.c\<close>: the functions that \<open>funopen\<close> is
  given to read, write, position and close it, and \<open>fmemopen\<close>, which sets it up. A stream that
  can be read behaves like a file with a bounded size; this is a refinement.
\<close>

unbundle bit_operations_syntax

section \<open>State\<close>

record memstream =
  ms_buf :: string
  rsize :: nat
  vsize :: nat
  curpos :: nat
  ms_flags :: "32 word"
  ms_errno :: int

abbreviation MS_READ :: "32 word" where "MS_READ \<equiv> 1"
abbreviation MS_WRITE :: "32 word" where "MS_WRITE \<equiv> 2"
abbreviation MS_APPEND :: "32 word" where "MS_APPEND \<equiv> 4"
abbreviation MS_TRUNCATE :: "32 word" where "MS_TRUNCATE \<equiv> 8"
abbreviation MS_MYBUF :: "32 word" where "MS_MYBUF \<equiv> 16"

abbreviation MS_EBADF :: int where "MS_EBADF \<equiv> 9"
abbreviation MS_ENOMEM :: int where "MS_ENOMEM \<equiv> 12"
abbreviation MS_EINVAL :: int where "MS_EINVAL \<equiv> 22"
abbreviation INT_MAX :: int where "INT_MAX \<equiv> 2147483647"

section \<open>Opening\<close>

fun type_flags_from :: "32 word \<Rightarrow> string \<Rightarrow> 32 word" where
  "type_flags_from flags [] = flags"
| "type_flags_from flags (c # cp) =
     (if c = CHR ''r'' then (if flags \<noteq> 0 then 0 else type_flags_from (flags OR MS_READ) cp)
      else if c = CHR ''w'' then (if flags \<noteq> 0 then 0 else type_flags_from (flags OR (MS_WRITE OR MS_TRUNCATE)) cp)
      else if c = CHR ''a'' then (if flags \<noteq> 0 then 0 else type_flags_from (flags OR MS_APPEND) cp)
      else if c = CHR ''+'' then (if flags = 0 then 0 else type_flags_from (flags OR (MS_READ OR MS_WRITE)) cp)
      else if c = CHR ''b'' then (if flags = 0 then 0 else type_flags_from flags cp)
      else 0)"

definition type_to_flags :: "string \<Rightarrow> 32 word" where
  "type_to_flags type = type_flags_from 0 type"

text \<open>The loop of \<open>find_end\<close> from \<open>off\<close> on.\<close>

function end_from :: "string \<Rightarrow> nat \<Rightarrow> nat \<Rightarrow> nat" where
  "end_from buf len off = (if off < len then (if buf ! off = NUL then off else end_from buf len (Suc off)) else off)"
  by pat_completeness auto
termination
  by (relation "measure (\<lambda>(buf, len, off). len - off)") auto

declare end_from.simps [simp del]

definition ms_find_end :: "string \<Rightarrow> nat \<Rightarrow> nat" where
  "ms_find_end buf len = end_from buf len 0"

text \<open>
  \<open>malloc1\<close> and \<open>malloc2\<close> say whether the allocations succeed, \<open>junk\<close> is what the second
  one contains, and \<open>funopen\<close> the error of \<open>funopen\<close>, if any.
\<close>

definition fmemopen :: "bool \<Rightarrow> bool \<Rightarrow> string \<Rightarrow> int option \<Rightarrow> string option \<Rightarrow> nat \<Rightarrow> string \<Rightarrow> int + memstream" where
  "fmemopen malloc1 malloc2 junk funopen buf sz type =
     (if sz = 0 then Inl MS_EINVAL
      else if \<not> malloc1 then Inl MS_ENOMEM
      else let flags = type_to_flags type in
      if flags = 0 then Inl MS_EINVAL
      else
        (case (case buf of
           None \<Rightarrow>
             if flags AND (MS_READ OR MS_WRITE) \<noteq> MS_READ OR MS_WRITE then Inl MS_EINVAL
             else if \<not> malloc2 then Inl MS_ENOMEM
             else Inr (junk, flags OR MS_MYBUF, 0)
         | Some b \<Rightarrow> Inr (b, flags, if flags AND MS_APPEND \<noteq> 0 then ms_find_end b sz else 0)) of
           Inl e \<Rightarrow> Inl e
         | Inr (b, flags, pos) \<Rightarrow>
             let v = (if flags AND MS_APPEND \<noteq> 0 then pos else if flags AND MS_TRUNCATE \<noteq> 0 then 0 else sz) in
             (case funopen of
                Some e \<Rightarrow> Inl e
              | None \<Rightarrow> Inr \<lparr>ms_buf = b, rsize = sz, vsize = v, curpos = pos, ms_flags = flags, ms_errno = 0\<rparr>)))"

section \<open>Reading, writing, positioning\<close>

text \<open>The conversion to \<open>int\<close> of a larger integer.\<close>

definition to_int :: "int \<Rightarrow> int" where
  "to_int x = (x + 2147483648) mod 4294967296 - 2147483648"

definition mstream_read :: "nat \<Rightarrow> (memstream, string option) io" where
  "mstream_read len ms =
     (if ms_flags ms AND MS_READ = 0 then Inr (None, ms\<lparr>ms_errno := MS_EBADF\<rparr>)
      else if vsize ms \<le> curpos ms then Inr (Some [], ms)
      else
        let nr = min len (vsize ms - curpos ms) in
        if length (ms_buf ms) < curpos ms + nr then Inl (Undefined ''read past the buffer'')
        else Inr (Some (take nr (drop (curpos ms) (ms_buf ms))), ms\<lparr>curpos := curpos ms + nr\<rparr>))"

text \<open>Storing a byte and copying bytes into the buffer.\<close>

definition poke :: "nat \<Rightarrow> char \<Rightarrow> (memstream, unit) io" where
  "poke i c ms = (if i < length (ms_buf ms) then Inr ((), ms\<lparr>ms_buf := (ms_buf ms)[i := c]\<rparr>) else Inl (Undefined ''write past the buffer''))"

definition memcpy_in :: "int \<Rightarrow> string \<Rightarrow> (memstream, unit) io" where
  "memcpy_in off bs ms =
     (if off < 0 \<or> int (length (ms_buf ms)) < off + int (length bs) then Inl (Undefined ''write outside the buffer'')
      else Inr ((), ms\<lparr>ms_buf := take (nat off) (ms_buf ms) @ bs @ drop (nat off + length bs) (ms_buf ms)\<rparr>))"

text \<open>
  The number of bytes is computed in \<open>size_t\<close>: with \<open>off\<close> beyond the buffer it would wrap, which
  the copy turns into undefined behaviour.
\<close>

definition ms_grow :: "(memstream, unit) io" where
  "ms_grow ms =
     (if vsize ms < curpos ms then
        if ms_flags ms AND (MS_READ OR MS_WRITE) = MS_READ OR MS_WRITE \<and> curpos ms < rsize ms
        then poke (curpos ms) NUL (ms\<lparr>vsize := curpos ms\<rparr>)
        else Inr ((), ms\<lparr>vsize := curpos ms\<rparr>)
      else Inr ((), ms))"

definition ms_terminate :: "(memstream, unit) io" where
  "ms_terminate ms =
     (if ms_flags ms AND (MS_WRITE OR MS_APPEND) \<noteq> 0 \<and> ms_flags ms AND MS_READ = 0 then
        if curpos ms < rsize ms then poke (curpos ms) NUL ms else poke (rsize ms - 1) NUL ms
      else Inr ((), ms))"

definition mstream_write :: "string \<Rightarrow> (memstream, int) io" where
  "mstream_write buf ms =
     (if ms_flags ms AND (MS_APPEND OR MS_WRITE) = 0 then Inr (-1, ms\<lparr>ms_errno := MS_EBADF\<rparr>)
      else
        let off = to_int (if ms_flags ms AND MS_APPEND \<noteq> 0 then int (vsize ms) else int (curpos ms));
            nw = min (int (length buf)) ((int (rsize ms) - off) mod 2 ^ 64) in
        seq_io (memcpy_in off (take (nat nw) buf))
       (seq_io (modify_io (\<lambda>ms. ms\<lparr>curpos := nat (off + nw)\<rparr>))
       (seq_io ms_grow
       (seq_io ms_terminate
        (ret_io nw)))) ms)"

datatype ms_whence = MS_SET | MS_END | MS_CUR

definition mstream_seek :: "int \<Rightarrow> ms_whence \<Rightarrow> (memstream, int) io" where
  "mstream_seek pos whence ms =
     (let off = to_int (case whence of MS_SET \<Rightarrow> pos | MS_END \<Rightarrow> int (vsize ms) + pos | MS_CUR \<Rightarrow> int (curpos ms) + pos) in
      if off < 0 \<or> int (vsize ms) < off then Inr (-1, ms\<lparr>ms_errno := MS_EINVAL\<rparr>)
      else Inr (off, ms\<lparr>curpos := nat off\<rparr>))"

section \<open>Well-formed streams\<close>

definition ms_ok :: "memstream \<Rightarrow> bool" where
  "ms_ok ms \<longleftrightarrow> length (ms_buf ms) = rsize ms \<and> 0 < rsize ms \<and> int (rsize ms) \<le> INT_MAX \<and> curpos ms \<le> vsize ms \<and> vsize ms \<le> rsize ms"

lemma to_int_id: "- 2147483648 \<le> x \<Longrightarrow> x \<le> INT_MAX \<Longrightarrow> to_int x = x"
  by (simp add: to_int_def)

lemma to_int_mod: "to_int (x + k * 4294967296) = to_int x"
proof -
  have "x + k * 4294967296 + 2147483648 = (x + 2147483648) + k * 4294967296" by simp
  then show ?thesis unfolding to_int_def by (simp only: mod_mult_self1)
qed

lemma end_from_bound: "off \<le> len \<Longrightarrow> off \<le> end_from buf len off \<and> end_from buf len off \<le> len"
proof (induction buf len off rule: end_from.induct)
  case (1 buf len off)
  then show ?case by (subst (1 2) end_from.simps) auto
qed

lemma fmemopen_ok:
  assumes "fmemopen m1 m2 junk f buf sz type = Inr ms" "int sz \<le> INT_MAX" "length junk = sz" "\<forall>b. buf = Some b \<longrightarrow> length b = sz"
  shows "ms_ok ms"
  using assms end_from_bound [of 0 sz] by (auto simp: fmemopen_def ms_ok_def Let_def ms_find_end_def split: if_splits option.splits)

section \<open>Writing\<close>

text \<open>What a write does to a well-formed stream.\<close>

definition write_at :: "memstream \<Rightarrow> nat" where
  "write_at ms = (if ms_flags ms AND MS_APPEND \<noteq> 0 then vsize ms else curpos ms)"

definition overlay :: "nat \<Rightarrow> string \<Rightarrow> string \<Rightarrow> string" where
  "overlay off bs buf = take off buf @ bs @ drop (off + length bs) buf"

lemma overlay_length: "off + length bs \<le> length buf \<Longrightarrow> length (overlay off bs buf) = length buf"
  by (simp add: overlay_def)

lemma mstream_write_run:
  fixes buf :: string
  assumes ok: "ms_ok ms" and w: "ms_flags ms AND (MS_APPEND OR MS_WRITE) \<noteq> 0"
  defines "off \<equiv> write_at ms"
  defines "bs \<equiv> take (rsize ms - off) buf"
  defines "pos \<equiv> off + length bs"
  shows "\<exists>b. mstream_write buf ms = Inr (int (length bs), ms\<lparr>ms_buf := b, curpos := pos, vsize := max (vsize ms) pos\<rparr>) \<and>
     length b = rsize ms \<and> (ms_flags ms AND MS_READ \<noteq> 0 \<longrightarrow> take (max (vsize ms) pos) b = take (max (vsize ms) pos) (overlay off bs (ms_buf ms)))"
proof -
  note ok' = ok [unfolded ms_ok_def]
  have off: "off \<le> vsize ms" "off \<le> rsize ms" using ok' by (auto simp: off_def write_at_def)
  have o: "to_int (if ms_flags ms AND MS_APPEND \<noteq> 0 then int (vsize ms) else int (curpos ms)) = int off"
    using ok' by (auto simp: off_def write_at_def intro: to_int_id)
  have "(int (rsize ms) - int off) mod 2 ^ 64 = int (rsize ms) - int off" using ok' off by (intro mod_pos_pos_trivial) auto
  then have n: "min (int (length buf)) ((int (rsize ms) - int off) mod 2 ^ 64) = int (length bs)" using off by (auto simp: bs_def)
  have t: "take (length bs) buf = bs" by (auto simp: bs_def min_def)
  have pos: "pos \<le> rsize ms" using off by (auto simp: pos_def bs_def)
  let ?b = "overlay off bs (ms_buf ms)"
  let ?v = "max (vsize ms) pos"
  have lb: "length ?b = rsize ms" using pos ok' by (simp add: overlay_length pos_def)
  have cp: "memcpy_in (int off) bs ms = Inr ((), ms\<lparr>ms_buf := ?b\<rparr>)" using pos ok' by (auto simp: memcpy_in_def overlay_def pos_def)
  have "nat (int off + int (length bs)) = pos" by (simp add: pos_def)
  with w cp have run: "mstream_write buf ms = seq_io ms_grow (seq_io ms_terminate (ret_io (int (length bs)))) (ms\<lparr>ms_buf := ?b, curpos := pos\<rparr>)"
    unfolding mstream_write_def o n Let_def by (simp add: t io_simps)
  define g where "g = (if ms_flags ms AND (MS_READ OR MS_WRITE) = MS_READ OR MS_WRITE \<and> pos < rsize ms \<and> vsize ms < pos then ?b[pos := NUL] else ?b)"
  have grow: "ms_grow (ms\<lparr>ms_buf := ?b, curpos := pos\<rparr>) = Inr ((), ms\<lparr>ms_buf := g, curpos := pos, vsize := ?v\<rparr>)"
    using lb by (auto simp: g_def ms_grow_def poke_def max_def)
  have lg: "length g = rsize ms" "take ?v g = take ?v ?b" using lb by (auto simp: g_def)
  show ?thesis
  proof (cases "ms_flags ms AND MS_READ = 0")
    case True
    let ?h = "g[(if pos < rsize ms then pos else rsize ms - 1) := NUL]"
    have "ms_terminate (ms\<lparr>ms_buf := g, curpos := pos, vsize := ?v\<rparr>) = Inr ((), ms\<lparr>ms_buf := ?h, curpos := pos, vsize := ?v\<rparr>)"
      using True w lg ok' by (auto simp: ms_terminate_def poke_def or.commute)
    then show ?thesis using True run grow lg by (intro exI [of _ ?h]) (simp add: io_simps)
  next
    case False
    then have "ms_terminate (ms\<lparr>ms_buf := g, curpos := pos, vsize := ?v\<rparr>) = Inr ((), ms\<lparr>ms_buf := g, curpos := pos, vsize := ?v\<rparr>)"
      by (simp add: ms_terminate_def)
    then show ?thesis using run grow lg by (intro exI [of _ g]) (simp add: io_simps)
  qed
qed

section \<open>The stream as a bounded file\<close>

record afile =
  a_data :: string
  a_pos :: nat
  a_cap :: nat
  a_app :: bool
  a_wr :: bool

datatype ms_op = MRead nat | MWrite string | MSeek int ms_whence
datatype ms_res = Got "string option" | Ret int

text \<open>
  The abstract file: a seek goes to the offset that is asked for, an integer of any size, or is
  refused when this is before the start or behind the end of the data.
\<close>

definition seek_target :: "int \<Rightarrow> ms_whence \<Rightarrow> afile \<Rightarrow> int" where
  "seek_target pos whence f =
     (case whence of MS_SET \<Rightarrow> pos | MS_END \<Rightarrow> int (length (a_data f)) + pos | MS_CUR \<Rightarrow> int (a_pos f) + pos)"

fun afile_op :: "ms_op \<Rightarrow> afile \<Rightarrow> ms_res \<times> afile" where
  "afile_op (MRead n) f =
     (let bs = take n (drop (a_pos f) (a_data f)) in (Got (Some bs), f\<lparr>a_pos := a_pos f + length bs\<rparr>))"
| "afile_op (MWrite buf) f =
     (if \<not> a_wr f then (Ret (-1), f)
      else
        let off = (if a_app f then length (a_data f) else a_pos f); bs = take (a_cap f - off) buf in
        (Ret (int (length bs)), f\<lparr>a_data := overlay off bs (a_data f), a_pos := off + length bs\<rparr>))"
| "afile_op (MSeek pos whence) f =
     (let off = seek_target pos whence f in
      if off < 0 \<or> int (length (a_data f)) < off then (Ret (-1), f) else (Ret off, f\<lparr>a_pos := nat off\<rparr>))"

fun afile_ops :: "ms_op list \<Rightarrow> afile \<Rightarrow> ms_res list \<times> afile" where
  "afile_ops [] f = ([], f)"
| "afile_ops (x # xs) f = (let (r, f1) = afile_op x f; (rs, f2) = afile_ops xs f1 in (r # rs, f2))"

text \<open>The condition on the arguments: the offset that a seek asks for is an \<open>int\<close>.\<close>

fun seek_fits :: "ms_op \<Rightarrow> afile \<Rightarrow> bool" where
  "seek_fits (MSeek pos whence) f \<longleftrightarrow> - 2147483648 \<le> seek_target pos whence f \<and> seek_target pos whence f \<le> INT_MAX"
| "seek_fits _ f \<longleftrightarrow> True"

fun seeks_fit :: "ms_op list \<Rightarrow> afile \<Rightarrow> bool" where
  "seeks_fit [] f \<longleftrightarrow> True"
| "seeks_fit (x # xs) f \<longleftrightarrow> seek_fits x f \<and> seeks_fit xs (snd (afile_op x f))"

fun ms_run :: "ms_op \<Rightarrow> (memstream, ms_res) io" where
  "ms_run (MRead n) = bind_io (mstream_read n) (\<lambda>r. ret_io (Got r))"
| "ms_run (MWrite buf) = bind_io (mstream_write buf) (\<lambda>r. ret_io (Ret r))"
| "ms_run (MSeek pos whence) = bind_io (mstream_seek pos whence) (\<lambda>r. ret_io (Ret r))"

fun ms_runs :: "ms_op list \<Rightarrow> (memstream, ms_res list) io" where
  "ms_runs [] = ret_io []"
| "ms_runs (x # xs) = bind_io (ms_run x) (\<lambda>r. bind_io (ms_runs xs) (\<lambda>rs. ret_io (r # rs)))"

definition afile_of :: "memstream \<Rightarrow> afile" where
  "afile_of ms = \<lparr>a_data = take (vsize ms) (ms_buf ms), a_pos = curpos ms, a_cap = rsize ms,
     a_app = (ms_flags ms AND MS_APPEND \<noteq> 0), a_wr = (ms_flags ms AND (MS_APPEND OR MS_WRITE) \<noteq> 0)\<rparr>"

lemma overlay_prefix:
  assumes "off \<le> v" "v \<le> length buf" "off + length bs \<le> length buf"
  shows "overlay off bs (take v buf) = take (max v (off + length bs)) (overlay off bs buf)"
proof -
  have "max v (off + length bs) - off - length bs = v - (off + length bs)" by simp
  with assms show ?thesis by (simp add: overlay_def drop_take min_absorb1)
qed

lemma ms_run_ok:
  assumes "ms_ok ms"
  shows "\<exists>r ms'. ms_run x ms = Inr (r, ms') \<and> ms_ok ms' \<and> rsize ms' = rsize ms \<and> ms_flags ms' = ms_flags ms \<and>
    (ms_flags ms AND MS_READ \<noteq> 0 \<and> seek_fits x (afile_of ms) \<longrightarrow> afile_op x (afile_of ms) = (r, afile_of ms'))"
proof (cases x)
  case (MRead n)
  show ?thesis
  proof (cases "ms_flags ms AND MS_READ = 0 \<or> vsize ms \<le> curpos ms")
    case True
    with MRead assms show ?thesis by (auto simp: mstream_read_def io_simps ms_ok_def afile_of_def)
  next
    case False
    with assms have "take n (drop (curpos ms) (take (vsize ms) (ms_buf ms))) = take (min n (vsize ms - curpos ms)) (drop (curpos ms) (ms_buf ms))"
      by (simp add: drop_take)
    with MRead False assms show ?thesis by (auto simp: mstream_read_def io_simps ms_ok_def afile_of_def Let_def)
  qed
next
  case (MWrite buf)
  show ?thesis
  proof (cases "ms_flags ms AND (MS_APPEND OR MS_WRITE) = 0")
    case True
    with MWrite assms show ?thesis by (auto simp: mstream_write_def io_simps ms_ok_def afile_of_def)
  next
    case False
    let ?off = "write_at ms" and ?bs = "take (rsize ms - write_at ms) buf"
    have o: "?off \<le> vsize ms" "vsize ms \<le> rsize ms" "length (ms_buf ms) = rsize ms" using assms by (auto simp: write_at_def ms_ok_def)
    obtain b where b: "mstream_write buf ms = Inr (int (length ?bs), ms\<lparr>ms_buf := b, curpos := ?off + length ?bs, vsize := max (vsize ms) (?off + length ?bs)\<rparr>)"
      "length b = rsize ms" "ms_flags ms AND MS_READ \<noteq> 0 \<Longrightarrow>
        take (max (vsize ms) (?off + length ?bs)) b = take (max (vsize ms) (?off + length ?bs)) (overlay ?off ?bs (ms_buf ms))"
      using mstream_write_run [OF assms False, of buf] by blast
    have l: "?off + length ?bs \<le> rsize ms" using o by simp
    have a: "overlay ?off ?bs (take (vsize ms) (ms_buf ms)) = take (max (vsize ms) (?off + length ?bs)) (overlay ?off ?bs (ms_buf ms))"
      by (rule overlay_prefix) (use o l in auto)
    let ?ms = "ms\<lparr>ms_buf := b, curpos := ?off + length ?bs, vsize := max (vsize ms) (?off + length ?bs)\<rparr>"
    have "ms_ok ?ms" using assms b(2) o l by (auto simp: ms_ok_def)
    moreover have "afile_op x (afile_of ms) = (Ret (int (length ?bs)), afile_of ?ms)" if "ms_flags ms AND MS_READ \<noteq> 0"
    proof -
      have e: "(if a_app (afile_of ms) then length (a_data (afile_of ms)) else a_pos (afile_of ms)) = ?off"
        using o by (simp add: afile_of_def write_at_def)
      have f: "a_wr (afile_of ms)" "a_cap (afile_of ms) = rsize ms" "a_data (afile_of ms) = take (vsize ms) (ms_buf ms)"
        using False by (simp_all add: afile_of_def)
      show ?thesis unfolding MWrite afile_op.simps Let_def unfolding e unfolding f(2,3) a using f(1) b(3) [OF that] by (simp add: afile_of_def)
    qed
    ultimately show ?thesis using MWrite b(1) by (auto simp: io_simps)
  qed
next
  case (MSeek pos whence)
  let ?t = "seek_target pos whence (afile_of ms)"
  have l: "length (a_data (afile_of ms)) = vsize ms" using assms by (simp add: afile_of_def ms_ok_def)
  then have t: "(case whence of MS_SET \<Rightarrow> pos | MS_END \<Rightarrow> int (vsize ms) + pos | MS_CUR \<Rightarrow> int (curpos ms) + pos) = ?t"
    by (cases whence) (simp_all add: seek_target_def afile_of_def)
  have run: "mstream_seek pos whence ms = (if to_int ?t < 0 \<or> int (vsize ms) < to_int ?t then Inr (-1, ms\<lparr>ms_errno := MS_EINVAL\<rparr>)
      else Inr (to_int ?t, ms\<lparr>curpos := nat (to_int ?t)\<rparr>))"
    unfolding mstream_seek_def t Let_def ..
  have "to_int ?t = ?t" if "seek_fits x (afile_of ms)" using that MSeek by (simp add: to_int_id)
  moreover have "afile_of (ms\<lparr>curpos := n\<rparr>) = (afile_of ms)\<lparr>a_pos := n\<rparr>" for n by (simp add: afile_of_def)
  moreover have "afile_of (ms\<lparr>ms_errno := n\<rparr>) = afile_of ms" for n by (simp add: afile_of_def)
  ultimately show ?thesis using assms l
    by (cases "seek_fits x (afile_of ms)") (auto simp: MSeek run io_simps ms_ok_def Let_def nat_le_iff)
qed

lemma ms_runs_ok:
  assumes "ms_ok ms"
  shows "\<exists>rs ms'. ms_runs xs ms = Inr (rs, ms') \<and> ms_ok ms' \<and> rsize ms' = rsize ms \<and> ms_flags ms' = ms_flags ms \<and>
    (ms_flags ms AND MS_READ \<noteq> 0 \<and> seeks_fit xs (afile_of ms) \<longrightarrow> afile_ops xs (afile_of ms) = (rs, afile_of ms'))"
  using assms
proof (induction xs arbitrary: ms)
  case (Cons x xs)
  obtain r ms1 where 1: "ms_run x ms = Inr (r, ms1)" "ms_ok ms1" "rsize ms1 = rsize ms" "ms_flags ms1 = ms_flags ms"
    "ms_flags ms AND MS_READ \<noteq> 0 \<and> seek_fits x (afile_of ms) \<longrightarrow> afile_op x (afile_of ms) = (r, afile_of ms1)" using ms_run_ok [OF Cons.prems] by blast
  with Cons.IH [OF 1(2)] show ?case by (auto simp: io_simps)
qed (simp add: io_simps)

section \<open>Properties\<close>

text \<open>No operation leaves the buffer. A stream that \<open>fmemopen\<close> opens on a buffer of the size it
  is given (at most \<open>INT_MAX\<close>) is well formed, and whatever is then read, written and positioned,
  in whatever order, nothing is read or stored outside the buffer, the position never passes
  the end of the data, and the data never the end of the buffer.\<close>

theorem fmemopen_bounds:
  assumes "fmemopen m1 m2 junk f buf sz type = Inr ms" "int sz \<le> INT_MAX" "length junk = sz" "\<forall>b. buf = Some b \<longrightarrow> length b = sz"
  shows "\<exists>rs ms'. ms_runs xs ms = Inr (rs, ms') \<and> length (ms_buf ms') = sz \<and> curpos ms' \<le> vsize ms' \<and> vsize ms' \<le> sz"
proof -
  have "rsize ms = sz" using assms(1) by (auto simp: fmemopen_def Let_def split: if_splits option.splits)
  with ms_runs_ok [OF fmemopen_ok [OF assms], of xs] show ?thesis by (auto simp: ms_ok_def)
qed

theorem fmemopen_bounds_witness:
  "\<exists>rs ms'. (case fmemopen True True [] None (Some ''abcd'') 4 ''a'' of Inr ms \<Rightarrow> ms_runs [MWrite ''xy'', MSeek 0 MS_SET] ms | Inl e \<Rightarrow> Inl Blocked) = Inr (rs, ms') \<and>
     curpos ms' \<le> vsize ms' \<and> vsize ms' \<le> 4"
proof -
  let ?ms = "\<lparr>ms_buf = ''abcd'', rsize = 4, vsize = 4, curpos = 4, ms_flags = 4, ms_errno = 0\<rparr>"
  have o: "fmemopen True True (replicate 4 NUL) None (Some ''abcd'') 4 ''a'' = Inr ?ms"
    "fmemopen True True [] None (Some ''abcd'') 4 ''a'' = Inr ?ms"
    by (simp_all add: fmemopen_def type_to_flags_def ms_find_end_def end_from.simps)
  from fmemopen_bounds [OF o(1), of "[MWrite ''xy'', MSeek 0 MS_SET]"] o(2) show ?thesis by auto
qed

text \<open>C29: a stream that can be read is a file of bounded size. Every sequence of reads, writes and
  seeks on a well-formed stream whose type allows reading, in which every seek asks for an
  offset that an \<open>int\<close> can hold (\<open>seeks_fit\<close>), returns what the same sequence returns
  on a file with the same contents, position and mode that cannot grow beyond the buffer, and
  leaves the stream in the state that represents the resulting file: what was written is read
  back, bytes that do not fit are not counted as written, and a seek out of the data is refused.
  A seek by an offset beyond an \<open>int\<close> does not leave the buffer either, but goes to the
  offset modulo 2 to the 32, where the file refuses it.\<close>

theorem memstream_refines_file:
  assumes "ms_ok ms" "ms_flags ms AND MS_READ \<noteq> 0"
  shows "(seeks_fit xs (afile_of ms) \<longrightarrow>
       (\<exists>rs ms'. ms_runs xs ms = Inr (rs, ms') \<and> ms_ok ms' \<and> afile_ops xs (afile_of ms) = (rs, afile_of ms'))) \<and>
     (p \<le> vsize ms \<and> 0 < k \<longrightarrow>
       (\<exists>ms'. ms_runs [MSeek (int p + int k * 2 ^ 32) MS_SET] ms = Inr ([Ret (int p)], ms') \<and>
         afile_ops [MSeek (int p + int k * 2 ^ 32) MS_SET] (afile_of ms) = ([Ret (-1)], afile_of ms)))"
proof (intro conjI impI)
  assume "seeks_fit xs (afile_of ms)"
  then show "\<exists>rs ms'. ms_runs xs ms = Inr (rs, ms') \<and> ms_ok ms' \<and> afile_ops xs (afile_of ms) = (rs, afile_of ms')"
    using ms_runs_ok [OF assms(1), of xs] assms(2) by blast
next
  assume p: "p \<le> vsize ms \<and> 0 < k"
  have b: "int (vsize ms) \<le> INT_MAX" "length (a_data (afile_of ms)) = vsize ms" using assms(1) by (auto simp: ms_ok_def afile_of_def)
  have "to_int (int p + int k * 2 ^ 32) = to_int (int p)" by (simp add: to_int_mod)
  also have "\<dots> = int p" using p b by (intro to_int_id) auto
  finally have "to_int (int p + int k * 2 ^ 32) = int p" .
  moreover have "int (vsize ms) < int p + int k * 2 ^ 32" using p b by simp
  ultimately show "\<exists>ms'. ms_runs [MSeek (int p + int k * 2 ^ 32) MS_SET] ms = Inr ([Ret (int p)], ms') \<and>
      afile_ops [MSeek (int p + int k * 2 ^ 32) MS_SET] (afile_of ms) = ([Ret (-1)], afile_of ms)"
    using p b(2) by (simp add: mstream_seek_def io_simps seek_target_def)
qed

theorem memstream_refines_file_witness:
  "(\<exists>ms'. ms_runs [MWrite ''hello'', MSeek 1 MS_SET, MRead 9, MSeek (-1) MS_SET] \<lparr>ms_buf = ''....'', rsize = 4, vsize = 0, curpos = 0, ms_flags = 11, ms_errno = 0\<rparr>
     = Inr ([Ret 4, Ret 1, Got (Some ''ell''), Ret (-1)], ms')) \<and>
   (\<exists>ms'. ms_runs [MSeek (int 3 + int 1 * 2 ^ 32) MS_SET] \<lparr>ms_buf = ''abcd'', rsize = 4, vsize = 4, curpos = 0, ms_flags = 11, ms_errno = 0\<rparr>
     = Inr ([Ret 3], ms'))"
proof
  show "\<exists>ms'. ms_runs [MWrite ''hello'', MSeek 1 MS_SET, MRead 9, MSeek (-1) MS_SET] \<lparr>ms_buf = ''....'', rsize = 4, vsize = 0, curpos = 0, ms_flags = 11, ms_errno = 0\<rparr>
     = Inr ([Ret 4, Ret 1, Got (Some ''ell''), Ret (-1)], ms')"
    using memstream_refines_file [of "\<lparr>ms_buf = ''....'', rsize = 4, vsize = 0, curpos = 0, ms_flags = 11, ms_errno = 0\<rparr>"
        "[MWrite ''hello'', MSeek 1 MS_SET, MRead 9, MSeek (-1) MS_SET]" 0 0]
    by (auto simp: ms_ok_def afile_of_def overlay_def seek_target_def)
  show "\<exists>ms'. ms_runs [MSeek (int 3 + int 1 * 2 ^ 32) MS_SET] \<lparr>ms_buf = ''abcd'', rsize = 4, vsize = 4, curpos = 0, ms_flags = 11, ms_errno = 0\<rparr>
     = Inr ([Ret 3], ms')"
    using memstream_refines_file [of "\<lparr>ms_buf = ''abcd'', rsize = 4, vsize = 4, curpos = 0, ms_flags = 11, ms_errno = 0\<rparr>" "[]" 3 1]
    by (auto simp: ms_ok_def)
qed

text \<open>
  A stream that can only be written loses the last byte when the buffer is full: the terminating
  null byte is stored over it, although the write returns that it was written.
\<close>

lemma full_write_loses_byte:
  assumes "0 < n" "int n \<le> INT_MAX" "length buf = n"
  shows "mstream_write buf \<lparr>ms_buf = replicate n c, rsize = n, vsize = 0, curpos = 0, ms_flags = type_to_flags ''w'', ms_errno = 0\<rparr> =
    Inr (int n, \<lparr>ms_buf = butlast buf @ [NUL], rsize = n, vsize = n, curpos = n, ms_flags = type_to_flags ''w'', ms_errno = 0\<rparr>)"
proof -
  have n: "(int n) mod 2 ^ 64 = int n" using assms by simp
  have "buf[n - 1 := NUL] = butlast buf @ [NUL]" using assms by (cases buf rule: rev_cases) auto
  with n assms show ?thesis
    by (simp add: mstream_write_def to_int_id io_simps memcpy_in_def ms_grow_def ms_terminate_def poke_def type_to_flags_def Let_def)
qed

end
