(* ===== verification/Bit_Ops.thy ===== *)
theory Bit_Ops
  imports Apue_Prelude "HOL-Library.Word"
begin

text \<open>
  The bit operations of \<open>librlt/bitops.c\<close> on \<open>uint32_t\<close>.
\<close>

unbundle bit_operations_syntax

section \<open>Operations\<close>

text \<open>\<open>1U << n\<close>, undefined for \<open>n\<close> beyond the width.\<close>

definition shifted_one :: "8 word \<Rightarrow> exit_reason + 32 word" where
  "shifted_one n = (if 32 \<le> unat n then Inl (Undefined ''shift'') else Inr (push_bit (unat n) 1))"

definition bit_set :: "32 word \<Rightarrow> 8 word \<Rightarrow> exit_reason + 32 word" where
  "bit_set value n = map_sum id (\<lambda>m. value OR m) (shifted_one n)"

definition bit_clear :: "32 word \<Rightarrow> 8 word \<Rightarrow> exit_reason + 32 word" where
  "bit_clear value n = map_sum id (\<lambda>m. value AND NOT m) (shifted_one n)"

definition bit_toggle :: "32 word \<Rightarrow> 8 word \<Rightarrow> exit_reason + 32 word" where
  "bit_toggle value n = map_sum id (\<lambda>m. value XOR m) (shifted_one n)"

definition bit_test :: "32 word \<Rightarrow> 8 word \<Rightarrow> exit_reason + bool" where
  "bit_test value n = map_sum id (\<lambda>m. value AND m \<noteq> 0) (shifted_one n)"

definition bit_lsb_value :: "32 word \<Rightarrow> 32 word" where
  "bit_lsb_value value = (- value) AND value"

text \<open>The compiler's \<open>__builtin_ffs\<close>: one more than the index of the lowest set bit, 0 for 0.\<close>

definition builtin_ffs :: "32 word \<Rightarrow> nat" where
  "builtin_ffs value = (if value = 0 then 0 else Suc (length (takeWhile (\<lambda>i. \<not> bit value i) [0..<32])))"

definition bit_lsb_position :: "32 word \<Rightarrow> int" where
  "bit_lsb_position value = (if value = 0 then -1 else int (builtin_ffs value) - 1)"

definition bit_clear_lsb :: "32 word \<Rightarrow> 32 word" where
  "bit_clear_lsb value = value AND (value - 1)"

definition bit_is_power_of_two :: "32 word \<Rightarrow> bool" where
  "bit_is_power_of_two value \<longleftrightarrow> value \<noteq> 0 \<and> value AND (value - 1) = 0"

lemma clear_lsb_less:
  fixes v :: "32 word"
  assumes "0 < v"
  shows "unat (v AND (v - 1)) < unat v"
proof -
  have "v AND (v - 1) \<le> v - 1" by (simp add: word_and_le1)
  moreover have "v \<noteq> 0" using assms by auto
  then have "v - 1 < v" using measure_unat [of v] by (simp add: word_less_nat_alt)
  ultimately show ?thesis by (simp add: word_less_nat_alt word_le_nat_alt)
qed

function count_loop :: "8 word \<Rightarrow> 32 word \<Rightarrow> 8 word" where
  "count_loop count value = (if value > 0 then count_loop (count + 1) (value AND (value - 1)) else count)"
  by pat_completeness auto
termination
  by (relation "measure (\<lambda>(count, value). unat value)") (simp_all add: clear_lsb_less)

declare count_loop.simps [simp del]

definition bit_count_set :: "32 word \<Rightarrow> 8 word" where
  "bit_count_set value = count_loop 0 value"

definition bit_align_up :: "32 word \<Rightarrow> 32 word \<Rightarrow> 32 word" where
  "bit_align_up value alignment =
     (if alignment = 0 \<and> \<not> bit_is_power_of_two alignment then -1
      else (value + alignment - 1) AND NOT (alignment - 1))"

definition bit_align_down :: "32 word \<Rightarrow> 32 word \<Rightarrow> 32 word" where
  "bit_align_down value alignment =
     (if \<not> bit_is_power_of_two alignment then -1 else value AND (- alignment))"

section \<open>Population count\<close>

text \<open>The reference: the number of odd quotients by powers of two.\<close>

fun popcount :: "nat \<Rightarrow> nat" where
  "popcount 0 = 0"
| "popcount (Suc n) = Suc n mod 2 + popcount (Suc n div 2)"

lemma popcount_rec: "popcount n = n mod 2 + popcount (n div 2)"
  by (cases n) simp_all

lemma nat_and_half: "(a AND b) div 2 = a div 2 AND b div 2" for a b :: nat
  using drop_bit_and [of 1 a b] by (simp add: drop_bit_eq_div)

lemma nat_clear_lsb:
  "0 < n \<Longrightarrow> popcount n = Suc (popcount (n AND (n - 1)))"
proof (induction n rule: less_induct)
  case (less n)
  show ?case
  proof (cases "even n")
    case True
    then obtain m where m: "n = 2 * m" by blast
    with less.prems have m0: "0 < m" "m < n" by auto
    have d: "(n - 1) div 2 = m - 1" "odd (n - 1)" using m m0 by auto
    have "(n AND (n - 1)) div 2 = m AND (m - 1)" using m d by (simp add: nat_and_half)
    moreover have "(n AND (n - 1)) mod 2 = 0" using True by (simp add: even_and_iff mod_2_eq_odd)
    ultimately have "popcount (n AND (n - 1)) = popcount (m AND (m - 1))" using popcount_rec [of "n AND (n - 1)"] by simp
    with less.IH [OF m0(2,1)] m popcount_rec [of n] show ?thesis by simp
  next
    case False
    then obtain m where m: "n = 2 * m + 1" by (meson oddE)
    have "(n AND (n - 1)) div 2 = m" using m by (simp add: nat_and_half)
    moreover have "(n AND (n - 1)) mod 2 = 0" using m by (simp add: even_and_iff mod_2_eq_odd)
    ultimately have "popcount (n AND (n - 1)) = popcount m" using popcount_rec [of "n AND (n - 1)"] by simp
    with m popcount_rec [of n] show ?thesis by simp
  qed
qed

lemma unat_clear_lsb: "0 < v \<Longrightarrow> unat (v AND (v - 1)) = unat v AND (unat v - 1)" for v :: "32 word"
  by (simp add: unsigned_and_eq unat_minus_one)

lemma count_loop_popcount: "count_loop c v = c + of_nat (popcount (unat v))"
proof (induction c v rule: count_loop.induct)
  case (1 c v)
  show ?case
  proof (cases "v > 0")
    case True
    then have "0 < unat v" by (simp add: word_less_nat_alt)
    from nat_clear_lsb [OF this] 1 [OF True] True show ?thesis by (simp add: count_loop.simps [of c v] unat_clear_lsb)
  next
    case False
    then have "v = 0" by (simp add: word_gt_0)
    then show ?thesis by (simp add: count_loop.simps)
  qed
qed

lemma popcount_bits: "finite {i. bit n i} \<and> popcount n = card {i. bit n i}" for n :: nat
proof (induction n rule: less_induct)
  case (less n)
  show ?case
  proof (cases "n = 0")
    case False
    have e: "{i. bit n i} = (if odd n then {0} else {}) \<union> Suc ` {i. bit (n div 2) i}"
      by (auto simp: bit_0 image_iff bit_Suc split: nat.splits) (metis bit_0 bit_Suc not0_implies_Suc)+
    have "n div 2 < n" using False by simp
    from less.IH [OF this] have "finite {i. bit (n div 2) i}" "popcount (n div 2) = card {i. bit (n div 2) i}" by auto
    then show ?thesis using popcount_rec [of n] by (simp add: e card_image mod_2_eq_odd)
  qed simp
qed

lemma popcount_one: "popcount n = Suc 0 \<Longrightarrow> \<exists>k. n = 2 ^ k"
proof (induction n rule: less_induct)
  case (less n)
  then have n0: "n \<noteq> 0" by (cases n) auto
  show ?case
  proof (cases "even n")
    case True
    with n0 less.prems popcount_rec [of n] less.IH [of "n div 2"] obtain k where "n div 2 = 2 ^ k" by auto
    with True show ?thesis by (intro exI [of _ "Suc k"]) auto
  next
    case False
    have z: "popcount m = 0 \<Longrightarrow> m = 0" for m using nat_clear_lsb [of m] by (cases m) auto
    from False less.prems popcount_rec [of n] have "popcount (n div 2) = 0" by (simp add: odd_iff_mod_2_eq_one)
    with z have "n div 2 = 0" by blast
    with False show ?thesis by (intro exI [of _ 0]) (auto elim: oddE)
  qed
qed

section \<open>Alignment\<close>

lemma unat_bound: "unat v < 2 ^ 32" for v :: "32 word"
  using unsigned_less [of v] by simp

lemma power_of_two_iff: "bit_is_power_of_two a \<longleftrightarrow> (\<exists>k < 32. a = 2 ^ k)"
proof
  assume a: "bit_is_power_of_two a"
  then have "0 < unat a" "unat (a AND (a - 1)) = 0" by (auto simp: bit_is_power_of_two_def unat_gt_0)
  with nat_clear_lsb [of "unat a"] unat_clear_lsb [of a] have "popcount (unat a) = Suc 0" by (simp add: word_less_nat_alt)
  then obtain k where k: "unat a = 2 ^ k" using popcount_one by blast
  then have "(2::nat) ^ k < 2 ^ 32" using unat_bound [of a] by simp
  then have "k < 32" using power_less_imp_less_exp [of 2 k 32] by simp
  moreover have "a = of_nat (unat a)" by simp
  then have "a = 2 ^ k" by (simp only: k of_nat_power of_nat_numeral)
  ultimately show "\<exists>k < 32. a = 2 ^ k" by blast
next
  assume "\<exists>k < 32. a = 2 ^ k"
  then obtain k where k: "k < 32" "a = 2 ^ k" by blast
  have "a AND (a - 1) = 0" unfolding k(2) mask_eq_exp_minus_1 [symmetric]
    by (rule bit_word_eqI) (auto simp: bit_simps)
  with k show "bit_is_power_of_two a" by (simp add: bit_is_power_of_two_def)
qed

lemma unat_two_power: "k < 32 \<Longrightarrow> unat (2 ^ k :: 32 word) = 2 ^ k"
proof -
  assume k: "k < 32"
  have "(2 ^ k :: 32 word) = of_nat (2 ^ k)" by simp
  then have "unat (2 ^ k :: 32 word) = 2 ^ k mod 2 ^ 32" by (simp only: unat_of_nat) simp
  also have "(2::nat) ^ k mod 2 ^ 32 = 2 ^ k" using power_strict_increasing [OF k, of "2::nat"] by simp
  finally show ?thesis .
qed

lemma align_and: "unat (v AND NOT (mask k)) = unat v div 2 ^ k * 2 ^ k" for v :: "32 word"
proof -
  have "v AND NOT (mask k) = push_bit k (drop_bit k v)" by (rule bit_word_eqI) (auto simp: bit_simps)
  moreover have "unat (push_bit k (drop_bit k v)) = take_bit 32 (push_bit k (drop_bit k (unat v)))"
    using unat_bound [of v] by (simp only: unsigned_push_bit_eq unsigned_drop_bit_eq) (simp add: take_bit_nat_eq_self)
  moreover have "unat v div 2 ^ k * 2 ^ k < 2 ^ 32" by (rule le_less_trans [OF div_times_less_eq_dividend unat_bound])
  then have "take_bit 32 (push_bit k (drop_bit k (unat v))) = unat v div 2 ^ k * 2 ^ k"
    by (simp only: push_bit_eq_mult drop_bit_eq_div take_bit_eq_mod mod_less)
  ultimately show ?thesis by simp
qed

section \<open>Properties\<close>

text \<open>The loop that clears the lowest bit counts the bits, for every value and without overflow of
  its 8-bit counter.\<close>

theorem bit_count_set_counts: "unat (bit_count_set v) = card {i. bit v i}"
proof -
  have b: "{i. bit (unat v) i} = {i. bit v i}" by (auto simp: bit_simps dest: bit_imp_le_length)
  have "{i. bit v i} \<subseteq> {..<32}" by (auto dest: bit_imp_le_length)
  then have "card {i. bit v i} \<le> card {..<32::nat}" by (rule card_mono [OF finite_lessThan])
  then have le: "card {i. bit v i} \<le> 32" by simp
  have "bit_count_set v = of_nat (card {i. bit v i})"
    using count_loop_popcount [of 0 v] popcount_bits [of "unat v"] by (simp add: bit_count_set_def b)
  moreover have "unat (of_nat (card {i. bit v i}) :: 8 word) = card {i. bit v i}" using le by (simp add: unat_of_nat)
  ultimately show ?thesis by simp
qed

text \<open>Alignment. For an alignment that \<open>bit_is_power_of_two\<close> accepts, which are exactly the powers
  of two, \<open>bit_align_down\<close> gives the largest multiple that is not above the value and
  \<open>bit_align_up\<close> the smallest that is not below it, unless the sum wraps. For every other
  alignment \<open>bit_align_down\<close> gives -1, but \<open>bit_align_up\<close> does so only for 0.\<close>

theorem bit_align_correct:
  assumes "bit_is_power_of_two a"
  shows "unat (bit_align_down v a) = unat v div unat a * unat a \<and>
    (unat v + unat a \<le> 2 ^ 32 \<longrightarrow> unat (bit_align_up v a) = (unat v + unat a - 1) div unat a * unat a)"
proof (intro conjI impI)
  obtain k where k: "k < 32" "a = 2 ^ k" using assms power_of_two_iff by blast
  have u: "unat a = 2 ^ k" by (simp only: k unat_two_power)
  have m: "- a = NOT (mask k)" "a - 1 = mask k" unfolding k(2)
    by (rule minus_exp_eq_not_mask) (rule mask_eq_exp_minus_1 [symmetric])
  show "unat (bit_align_down v a) = unat v div unat a * unat a"
    using assms align_and [of v k] by (simp only: bit_align_down_def m u if_False not_True_eq_False)
  assume le: "unat v + unat a \<le> 2 ^ 32"
  have a0: "0 < unat a" by (simp add: u)
  then have "a \<noteq> 0" by auto
  then have "unat (mask k :: 32 word) = unat a - 1" by (simp add: m(2) [symmetric] unat_minus_one)
  with le a0 have sum: "unat (v + mask k) = unat v + unat a - 1" by (simp add: unat_add_lem [THEN iffD1])
  have e: "v + a - 1 = v + mask k" by (simp add: m(2) [symmetric])
  show "unat (bit_align_up v a) = (unat v + unat a - 1) div unat a * unat a"
    unfolding bit_align_up_def e m(2) using \<open>a \<noteq> 0\<close> align_and [of "v + mask k" k] sum by (simp add: u)
qed

theorem bit_align_correct_witness: "unat (bit_align_down 5000 4096) = 4096 \<and> unat (bit_align_up 5000 4096) = 8192"
  using bit_align_correct [of 4096 5000] by (simp add: bit_is_power_of_two_def)

lemma bit_align_up_unguarded: "bit_align_up 5 3 = 5 \<and> bit_align_down 5 3 = -1"
  by (simp add: bit_align_up_def bit_align_down_def bit_is_power_of_two_def)

end
