(* ===== verification/Tty_Modes.thy ===== *)
theory Tty_Modes
  imports Apue_Prelude "HOL-Library.Word"
begin

text \<open>
  The terminal modes of \<open>lib/ttymodes.c\<close>: a terminal is put into cbreak or raw mode and back.
  The kernel may refuse a call, or make only some of the changes that \<open>tcsetattr\<close> asks for and
  report success; the functions look at what it did and undo it.
\<close>

unbundle bit_operations_syntax

section \<open>Terminals\<close>

record termios =
  c_iflag :: "32 word"
  c_oflag :: "32 word"
  c_cflag :: "32 word"
  c_lflag :: "32 word"
  c_vmin :: "8 word"
  c_vtime :: "8 word"

abbreviation ISIG :: "32 word" where "ISIG \<equiv> 0x1"
abbreviation ICANON :: "32 word" where "ICANON \<equiv> 0x2"
abbreviation ECHO :: "32 word" where "ECHO \<equiv> 0x8"
abbreviation IEXTEN :: "32 word" where "IEXTEN \<equiv> 0x8000"
abbreviation BRKINT :: "32 word" where "BRKINT \<equiv> 0x2"
abbreviation INPCK :: "32 word" where "INPCK \<equiv> 0x10"
abbreviation ISTRIP :: "32 word" where "ISTRIP \<equiv> 0x20"
abbreviation ICRNL :: "32 word" where "ICRNL \<equiv> 0x100"
abbreviation IXON :: "32 word" where "IXON \<equiv> 0x400"
abbreviation CSIZE :: "32 word" where "CSIZE \<equiv> 0x30"
abbreviation CS8 :: "32 word" where "CS8 \<equiv> 0x30"
abbreviation PARENB :: "32 word" where "PARENB \<equiv> 0x100"
abbreviation OPOST :: "32 word" where "OPOST \<equiv> 0x1"
abbreviation TTY_EINVAL :: int where "TTY_EINVAL \<equiv> 22"

datatype ttymode = RESET | RAW | CBREAK

text \<open>
  How the kernel answers the next calls: it does what it is asked, fails with an error, or, for
  \<open>tcsetattr\<close>, succeeds with other settings than those asked for. With no answer left it does
  what it is asked.
\<close>

datatype ttyans = Does | Refuses int | Sets termios

record tty =
  dev :: "int \<Rightarrow> termios"
  save_termios :: termios
  ttysavefd :: int
  ttystate :: ttymode
  tty_errno :: int
  answers :: "ttyans list"

definition next_ans :: "(tty, ttyans) io" where
  "next_ans s = (case answers s of [] \<Rightarrow> Inr (Does, s) | a # as \<Rightarrow> Inr (a, s\<lparr>answers := as\<rparr>))"

definition set_tty_errno :: "int \<Rightarrow> (tty, unit) io" where
  "set_tty_errno e = modify_io (\<lambda>s. s\<lparr>tty_errno := e\<rparr>)"

definition tcgetattr :: "int \<Rightarrow> (tty, termios option) io" where
  "tcgetattr fd =
     bind_io next_ans (\<lambda>a. case a of
        Refuses e \<Rightarrow> seq_io (set_tty_errno e) (ret_io None)
      | _ \<Rightarrow> gets_io (\<lambda>s. Some (dev s fd)))"

definition tcsetattr :: "int \<Rightarrow> termios \<Rightarrow> (tty, int) io" where
  "tcsetattr fd t =
     bind_io next_ans (\<lambda>a. case a of
        Refuses e \<Rightarrow> seq_io (set_tty_errno e) (ret_io (-1))
      | Does \<Rightarrow> seq_io (modify_io (\<lambda>s. s\<lparr>dev := (dev s)(fd := t)\<rparr>)) (ret_io 0)
      | Sets t' \<Rightarrow> seq_io (modify_io (\<lambda>s. s\<lparr>dev := (dev s)(fd := t')\<rparr>)) (ret_io 0))"

section \<open>The functions\<close>

definition cbreak_edit :: "termios \<Rightarrow> termios" where
  "cbreak_edit t = t\<lparr>c_lflag := c_lflag t AND NOT (ECHO OR ICANON), c_vmin := 1, c_vtime := 0\<rparr>"

definition cbreak_stuck :: "termios \<Rightarrow> bool" where
  "cbreak_stuck t \<longleftrightarrow> \<not> (c_lflag t AND (ECHO OR ICANON) \<noteq> 0 \<or> c_vmin t \<noteq> 1 \<or> c_vtime t \<noteq> 0)"

definition raw_edit :: "termios \<Rightarrow> termios" where
  "raw_edit t = t\<lparr>c_lflag := c_lflag t AND NOT (ECHO OR ICANON OR IEXTEN OR ISIG),
     c_iflag := c_iflag t AND NOT (BRKINT OR ICRNL OR INPCK OR ISTRIP OR IXON),
     c_cflag := (c_cflag t AND NOT (CSIZE OR PARENB)) OR CS8,
     c_oflag := c_oflag t AND NOT OPOST, c_vmin := 1, c_vtime := 0\<rparr>"

definition raw_stuck :: "termios \<Rightarrow> bool" where
  "raw_stuck t \<longleftrightarrow> \<not> (c_lflag t AND (ECHO OR ICANON OR IEXTEN OR ISIG) \<noteq> 0 \<or>
     c_iflag t AND (BRKINT OR ICRNL OR INPCK OR ISTRIP OR IXON) \<noteq> 0 \<or>
     c_cflag t AND (CSIZE OR PARENB OR CS8) \<noteq> CS8 \<or>
     c_oflag t AND OPOST \<noteq> 0 \<or> c_vmin t \<noteq> 1 \<or> c_vtime t \<noteq> 0)"

text \<open>The common part: change the settings, verify them, restore the old ones if they did not stick.\<close>

definition tty_change :: "(termios \<Rightarrow> termios) \<Rightarrow> (termios \<Rightarrow> bool) \<Rightarrow> ttymode \<Rightarrow> int \<Rightarrow> (tty, int) io" where
  "tty_change edit stuck mode fd =
     bind_io (gets_io ttystate) (\<lambda>st.
     if st \<noteq> RESET then seq_io (set_tty_errno TTY_EINVAL) (ret_io (-1))
     else bind_io (tcgetattr fd) (\<lambda>r. case r of
       None \<Rightarrow> ret_io (-1)
     | Some buf \<Rightarrow>
         seq_io (modify_io (\<lambda>s. s\<lparr>save_termios := buf\<rparr>))
        (bind_io (tcsetattr fd (edit buf)) (\<lambda>rc.
         if rc < 0 then ret_io (-1)
         else bind_io (tcgetattr fd) (\<lambda>r. case r of
           None \<Rightarrow>
             bind_io (gets_io tty_errno) (\<lambda>err.
             bind_io (gets_io save_termios) (\<lambda>old.
             seq_io (tcsetattr fd old) (seq_io (set_tty_errno err) (ret_io (-1)))))
         | Some buf \<Rightarrow>
             if \<not> stuck buf then
               bind_io (gets_io save_termios) (\<lambda>old.
               seq_io (tcsetattr fd old) (seq_io (set_tty_errno TTY_EINVAL) (ret_io (-1))))
             else seq_io (modify_io (\<lambda>s. s\<lparr>ttystate := mode, ttysavefd := fd\<rparr>)) (ret_io 0))))))"

definition tty_cbreak :: "int \<Rightarrow> (tty, int) io" where
  "tty_cbreak fd = tty_change cbreak_edit cbreak_stuck CBREAK fd"

definition tty_raw :: "int \<Rightarrow> (tty, int) io" where
  "tty_raw fd = tty_change raw_edit raw_stuck RAW fd"

definition tty_reset :: "int \<Rightarrow> (tty, int) io" where
  "tty_reset fd =
     bind_io (gets_io ttystate) (\<lambda>st.
     if st = RESET then ret_io 0
     else bind_io (gets_io save_termios) (\<lambda>old.
       bind_io (tcsetattr fd old) (\<lambda>rc.
       if rc < 0 then ret_io (-1)
       else seq_io (modify_io (\<lambda>s. s\<lparr>ttystate := RESET\<rparr>)) (ret_io 0))))"

definition tty_atexit :: "(tty, unit) io" where
  "tty_atexit = bind_io (gets_io ttysavefd) (\<lambda>fd. if 0 \<le> fd then seq_io (tty_reset fd) (ret_io ()) else ret_io ())"

definition tty_termios :: "(tty, termios) io" where
  "tty_termios = gets_io save_termios"

section \<open>What a change does\<close>

lemmas tty_defs = next_ans_def set_tty_errno_def tcgetattr_def tcsetattr_def

text \<open>
  The two modes as their names say, flag by flag: which flags are off, which stay as they were,
  and a read that returns as soon as there is one byte.
\<close>

definition flags_off :: "32 word set \<Rightarrow> 32 word \<Rightarrow> bool" where
  "flags_off fs w \<longleftrightarrow> (\<forall>f\<in>fs. w AND f = 0)"

definition flags_kept :: "32 word set \<Rightarrow> 32 word \<Rightarrow> 32 word \<Rightarrow> bool" where
  "flags_kept fs w w' \<longleftrightarrow> (\<forall>n<32. 2 ^ n \<notin> fs \<longrightarrow> bit w' n = bit w n)"

definition in_cbreak_mode :: "termios \<Rightarrow> bool" where
  "in_cbreak_mode t \<longleftrightarrow> flags_off {ECHO, ICANON} (c_lflag t) \<and> c_vmin t = 1 \<and> c_vtime t = 0"

definition in_raw_mode :: "termios \<Rightarrow> bool" where
  "in_raw_mode t \<longleftrightarrow> flags_off {ECHO, ICANON, IEXTEN, ISIG} (c_lflag t) \<and>
     flags_off {BRKINT, ICRNL, INPCK, ISTRIP, IXON} (c_iflag t) \<and>
     flags_off {PARENB} (c_cflag t) \<and> c_cflag t AND CSIZE = CS8 \<and>
     flags_off {OPOST} (c_oflag t) \<and> c_vmin t = 1 \<and> c_vtime t = 0"

definition cbreak_keeps :: "termios \<Rightarrow> termios \<Rightarrow> bool" where
  "cbreak_keeps t t' \<longleftrightarrow> flags_kept {ECHO, ICANON} (c_lflag t) (c_lflag t') \<and>
     c_iflag t' = c_iflag t \<and> c_cflag t' = c_cflag t \<and> c_oflag t' = c_oflag t"

definition raw_keeps :: "termios \<Rightarrow> termios \<Rightarrow> bool" where
  "raw_keeps t t' \<longleftrightarrow> flags_kept {ECHO, ICANON, IEXTEN, ISIG} (c_lflag t) (c_lflag t') \<and>
     flags_kept {BRKINT, ICRNL, INPCK, ISTRIP, IXON} (c_iflag t) (c_iflag t') \<and>
     flags_kept {0x10, 0x20, PARENB} (c_cflag t) (c_cflag t') \<and> flags_kept {OPOST} (c_oflag t) (c_oflag t')"

lemma and_eq_0_sub:
  fixes w m f :: "32 word"
  assumes "w AND m = 0" "m AND f = f"
  shows "w AND f = 0"
proof -
  have "w AND f = (w AND m) AND f" using assms(2) by (simp add: and.assoc)
  with assms(1) show ?thesis by simp
qed

lemma stuck_in_mode:
  "cbreak_stuck t \<Longrightarrow> in_cbreak_mode t" "raw_stuck t \<Longrightarrow> in_raw_mode t"
proof -
  show "cbreak_stuck t \<Longrightarrow> in_cbreak_mode t"
    using and_eq_0_sub [of "c_lflag t" "ECHO OR ICANON"] by (auto simp: cbreak_stuck_def in_cbreak_mode_def flags_off_def)
  assume r: "raw_stuck t"
  have "(c_cflag t AND (CSIZE OR PARENB OR CS8)) AND m = CS8 AND m" for m using r by (simp add: raw_stuck_def)
  from this [of CSIZE] this [of PARENB] have "c_cflag t AND CSIZE = CS8" "c_cflag t AND PARENB = 0" by (simp_all add: and.assoc)
  then show "in_raw_mode t"
    using r and_eq_0_sub [of "c_lflag t" "ECHO OR ICANON OR IEXTEN OR ISIG"]
      and_eq_0_sub [of "c_iflag t" "BRKINT OR ICRNL OR INPCK OR ISTRIP OR IXON"]
    by (auto simp: raw_stuck_def in_raw_mode_def flags_off_def)
qed

text \<open>The bits of a mask are those of its flags.\<close>

lemma flag_bit:
  fixes f :: "32 word"
  assumes "f = 2 ^ k" "2 ^ n \<noteq> f"
  shows "\<not> bit f n"
  using assms by (auto simp: bit_exp_iff)

lemma flag_bits:
  fixes n :: nat
  shows "2 ^ n \<noteq> ECHO \<Longrightarrow> \<not> bit ECHO n" "2 ^ n \<noteq> ICANON \<Longrightarrow> \<not> bit ICANON n"
    "2 ^ n \<noteq> IEXTEN \<Longrightarrow> \<not> bit IEXTEN n" "2 ^ n \<noteq> ISIG \<Longrightarrow> \<not> bit ISIG n"
    "2 ^ n \<noteq> ICRNL \<Longrightarrow> \<not> bit ICRNL n" "2 ^ n \<noteq> INPCK \<Longrightarrow> \<not> bit INPCK n"
    "2 ^ n \<noteq> ISTRIP \<Longrightarrow> \<not> bit ISTRIP n" "2 ^ n \<noteq> IXON \<Longrightarrow> \<not> bit IXON n"
  using flag_bit [of ECHO 3 n] flag_bit [of ICANON 1 n] flag_bit [of IEXTEN 15 n] flag_bit [of ISIG 0 n]
    flag_bit [of ICRNL 8 n] flag_bit [of INPCK 4 n] flag_bit [of ISTRIP 5 n] flag_bit [of IXON 10 n]
  by simp_all

lemma kept_clear:
  assumes "\<And>n. 2 ^ n \<notin> fs \<Longrightarrow> \<not> bit m n"
  shows "flags_kept fs w (w AND NOT m)"
  using assms by (auto simp: flags_kept_def bit_and_iff bit_not_iff)

lemma kept_set:
  assumes "\<And>n. 2 ^ n \<notin> fs \<Longrightarrow> \<not> bit m n"
  shows "flags_kept fs w w' \<Longrightarrow> flags_kept fs w (w' OR m)"
  using assms by (auto simp: flags_kept_def bit_or_iff)

lemma size_bits: "(CSIZE :: 32 word) = INPCK OR ISTRIP" by simp

lemma edit_keeps: "cbreak_keeps t (cbreak_edit t)" "raw_keeps t (raw_edit t)"
proof -
  have l: "flags_kept {ECHO, ICANON} w (w AND NOT (ECHO OR ICANON))" for w
    by (rule kept_clear) (unfold bit_or_iff, use flag_bits in blast)
  then show "cbreak_keeps t (cbreak_edit t)" by (simp add: cbreak_keeps_def cbreak_edit_def)
  have "flags_kept {ECHO, ICANON, IEXTEN, ISIG} w (w AND NOT (ECHO OR ICANON OR IEXTEN OR ISIG))" for w
    by (rule kept_clear) (unfold bit_or_iff, use flag_bits in blast)
  moreover have "flags_kept {BRKINT, ICRNL, INPCK, ISTRIP, IXON} w (w AND NOT (BRKINT OR ICRNL OR INPCK OR ISTRIP OR IXON))" for w
    by (rule kept_clear) (unfold bit_or_iff, use flag_bits in blast)
  moreover have "flags_kept {0x10, 0x20, PARENB} w ((w AND NOT (CSIZE OR PARENB)) OR CS8)" for w
  proof -
    have 1: "\<not> bit CSIZE n" "\<not> bit PARENB n" if "2 ^ n \<notin> {0x10 :: 32 word, 0x20, PARENB}" for n
      using that flag_bits(5,6,7) [of n] unfolding size_bits bit_or_iff by auto
    then have "\<not> bit (CSIZE OR PARENB) n" if "2 ^ n \<notin> {0x10 :: 32 word, 0x20, PARENB}" for n
      using that unfolding bit_or_iff by blast
    from kept_set [OF 1(1) kept_clear [OF this]] show ?thesis .
  qed
  moreover have "flags_kept {OPOST} w (w AND NOT OPOST)" for w
    by (rule kept_clear) (use flag_bits in blast)
  ultimately show "raw_keeps t (raw_edit t)" by (simp add: raw_keeps_def raw_edit_def)
qed

lemma edit_stuck: "cbreak_stuck (cbreak_edit t)" "raw_stuck (raw_edit t)"
  by (simp_all add: cbreak_stuck_def cbreak_edit_def raw_stuck_def raw_edit_def and.assoc bit.conj_disj_distrib2)

definition restores :: "tty \<Rightarrow> bool" where
  "restores s \<longleftrightarrow> length (answers s) \<le> 3 \<or> answers s ! 3 = Does"

lemma tty_change_run:
  "\<exists>r s'. tty_change edit stuck mode fd s = Inr (r, s') \<and> (\<forall>fd'. fd' \<noteq> fd \<longrightarrow> dev s' fd' = dev s fd') \<and>
     (r = 0 \<and> ttystate s = RESET \<and> ttystate s' = mode \<and> ttysavefd s' = fd \<and> save_termios s' = dev s fd \<and> stuck (dev s' fd) \<or>
      r = -1 \<and> ttystate s' = ttystate s \<and> ttysavefd s' = ttysavefd s \<and> (restores s \<longrightarrow> dev s' = dev s))"
  by (auto simp: tty_change_def tty_defs io_simps restores_def fun_eq_iff split: list.splits ttyans.splits)

text \<open>The kernel does what the three calls of a change ask.\<close>

definition obeys :: "tty \<Rightarrow> bool" where
  "obeys s \<longleftrightarrow> (\<forall>a\<in>set (take 3 (answers s)). a = Does)"

lemma tty_change_obeyed:
  assumes "ttystate s = RESET" "obeys s" "\<And>t. stuck (edit t)"
  shows "\<exists>s'. tty_change edit stuck mode fd s = Inr (0, s') \<and> dev s' fd = edit (dev s fd)"
  using assms by (auto simp: obeys_def tty_change_def tty_defs io_simps split: list.splits)

lemma tty_change_ok:
  assumes "\<And>t. stuck t \<Longrightarrow> in_mode t" "\<And>t. stuck (edit t)" "\<And>t. keeps t (edit t)"
  shows "\<exists>r s'. tty_change edit stuck mode fd s = Inr (r, s') \<and> (\<forall>fd'. fd' \<noteq> fd \<longrightarrow> dev s' fd' = dev s fd') \<and>
     (r = 0 \<and> ttystate s = RESET \<and> ttystate s' = mode \<and> ttysavefd s' = fd \<and> save_termios s' = dev s fd \<and> in_mode (dev s' fd) \<or>
      r = -1 \<and> ttystate s' = ttystate s \<and> ttysavefd s' = ttysavefd s \<and> (restores s \<longrightarrow> dev s' = dev s)) \<and>
     (ttystate s = RESET \<and> obeys s \<longrightarrow> r = 0 \<and> keeps (dev s fd) (dev s' fd))"
proof -
  obtain r s' where 1: "tty_change edit stuck mode fd s = Inr (r, s')" "\<forall>fd'. fd' \<noteq> fd \<longrightarrow> dev s' fd' = dev s fd'"
     "r = 0 \<and> ttystate s = RESET \<and> ttystate s' = mode \<and> ttysavefd s' = fd \<and> save_termios s' = dev s fd \<and> stuck (dev s' fd) \<or>
      r = -1 \<and> ttystate s' = ttystate s \<and> ttysavefd s' = ttysavefd s \<and> (restores s \<longrightarrow> dev s' = dev s)"
    using tty_change_run [of edit stuck mode fd s] by blast
  have "r = 0 \<and> dev s' fd = edit (dev s fd)" if "ttystate s = RESET" "obeys s"
    using tty_change_obeyed [of s stuck edit mode fd] that assms(2) 1(1) by auto
  with 1 assms show ?thesis by (intro exI [of _ r] exI [of _ s']) auto
qed

lemma tty_change_does:
  assumes "ttystate s = RESET" "answers s = []" "\<And>t. stuck (edit t)"
  shows "tty_change edit stuck mode fd s =
    Inr (0, s\<lparr>save_termios := dev s fd, dev := (dev s)(fd := edit (dev s fd)), ttystate := mode, ttysavefd := fd\<rparr>)"
  using assms by (simp add: tty_change_def tty_defs io_simps)

lemma tty_reset_does:
  assumes "answers s = []" "ttystate s \<noteq> RESET"
  shows "tty_reset fd s = Inr (0, s\<lparr>dev := (dev s)(fd := save_termios s), ttystate := RESET\<rparr>)"
  using assms by (simp add: tty_reset_def tty_defs io_simps)

section \<open>Properties\<close>

text \<open>C33: a terminal is put into raw or cbreak mode entirely or not at all. However the kernel
  answers, \<open>tty_raw\<close> and \<open>tty_cbreak\<close> return 0 or -1 and touch no other terminal. When they
  return 0, no mode was set before, the settings saved are those from before the call, and
  every flag of the mode is in force: for cbreak mode echo and canonical input off; for raw
  mode also extended input and signal characters off, no SIGINT on break, no translation of CR,
  no parity check, no stripping of the eighth bit, no output flow control, 8 bits without
  parity, no output processing; for both, reads of at least one byte without timer. When they
  return -1, the recorded mode is unchanged, and so are the settings of the terminal if the
  call that restores them works. They do return 0 when no mode was set and the kernel does what
  it is asked, and then change no other flag.\<close>

theorem tty_modes_all_or_nothing:
  "(\<exists>r s'. tty_raw fd s = Inr (r, s') \<and> (\<forall>fd'. fd' \<noteq> fd \<longrightarrow> dev s' fd' = dev s fd') \<and>
     (r = 0 \<and> ttystate s = RESET \<and> ttystate s' = RAW \<and> ttysavefd s' = fd \<and> save_termios s' = dev s fd \<and> in_raw_mode (dev s' fd) \<or>
      r = -1 \<and> ttystate s' = ttystate s \<and> ttysavefd s' = ttysavefd s \<and> (restores s \<longrightarrow> dev s' = dev s)) \<and>
     (ttystate s = RESET \<and> obeys s \<longrightarrow> r = 0 \<and> raw_keeps (dev s fd) (dev s' fd))) \<and>
   (\<exists>r s'. tty_cbreak fd s = Inr (r, s') \<and> (\<forall>fd'. fd' \<noteq> fd \<longrightarrow> dev s' fd' = dev s fd') \<and>
     (r = 0 \<and> ttystate s = RESET \<and> ttystate s' = CBREAK \<and> ttysavefd s' = fd \<and> save_termios s' = dev s fd \<and> in_cbreak_mode (dev s' fd) \<or>
      r = -1 \<and> ttystate s' = ttystate s \<and> ttysavefd s' = ttysavefd s \<and> (restores s \<longrightarrow> dev s' = dev s)) \<and>
     (ttystate s = RESET \<and> obeys s \<longrightarrow> r = 0 \<and> cbreak_keeps (dev s fd) (dev s' fd)))"
  unfolding tty_raw_def tty_cbreak_def
  by (intro conjI tty_change_ok stuck_in_mode edit_stuck edit_keeps)

definition sample_tty :: tty where
  "sample_tty = \<lparr>dev = (\<lambda>_. \<lparr>c_iflag = 0x500, c_oflag = 5, c_cflag = 0xbf, c_lflag = 0x8a3b, c_vmin = 4, c_vtime = 0\<rparr>),
     save_termios = \<lparr>c_iflag = 0, c_oflag = 0, c_cflag = 0, c_lflag = 0, c_vmin = 0, c_vtime = 0\<rparr>,
     ttysavefd = -1, ttystate = RESET, tty_errno = 0, answers = []\<rparr>"

text \<open>
  The kernel leaves echoing on: the terminal is not in raw mode, and its settings are restored. A
  kernel that obeys puts the terminal into cbreak mode.
\<close>

theorem tty_modes_all_or_nothing_witness:
  "(\<exists>s'. tty_raw 0 (sample_tty\<lparr>answers := [Does, Sets \<lparr>c_iflag = 0, c_oflag = 0, c_cflag = 0x30, c_lflag = 8, c_vmin = 1, c_vtime = 0\<rparr>]\<rparr>) = Inr (-1, s') \<and>
     dev s' = dev sample_tty \<and> ttystate s' = RESET) \<and>
   (\<exists>s'. tty_cbreak 0 sample_tty = Inr (0, s') \<and> in_cbreak_mode (dev s' 0) \<and> cbreak_keeps (dev sample_tty 0) (dev s' 0))"
proof
  let ?s = "sample_tty\<lparr>answers := [Does, Sets \<lparr>c_iflag = 0, c_oflag = 0, c_cflag = 0x30, c_lflag = 8, c_vmin = 1, c_vtime = 0\<rparr>]\<rparr>"
  obtain r s' where r: "tty_raw 0 ?s = Inr (r, s')" "r = 0 \<or> r = -1 \<and> ttystate s' = ttystate ?s \<and> (restores ?s \<longrightarrow> dev s' = dev ?s)"
    using tty_modes_all_or_nothing [of 0 ?s] by blast
  have "r = -1" using r(1) by (simp add: sample_tty_def tty_raw_def tty_change_def tty_defs io_simps raw_stuck_def)
  with r show "\<exists>s'. tty_raw 0 ?s = Inr (-1, s') \<and> dev s' = dev sample_tty \<and> ttystate s' = RESET" by (simp add: restores_def sample_tty_def)
  have "ttystate sample_tty = RESET \<and> obeys sample_tty" by (simp add: sample_tty_def obeys_def)
  then show "\<exists>s'. tty_cbreak 0 sample_tty = Inr (0, s') \<and> in_cbreak_mode (dev s' 0) \<and> cbreak_keeps (dev sample_tty 0) (dev s' 0)"
    using tty_modes_all_or_nothing [of 0 sample_tty] by fastforce
qed

text \<open>Resetting gives back the old settings. When the kernel does what it is asked, \<open>tty_raw\<close> and
  \<open>tty_cbreak\<close> succeed, and \<open>tty_reset\<close> or \<open>tty_atexit\<close> then restore all terminals to the
  settings they had, in the state in which a mode can be set again.\<close>

theorem tty_reset_roundtrip:
  assumes "ttystate s = RESET" "answers s = []" "change = tty_raw \<or> change = tty_cbreak"
  shows "\<exists>s1 s2. change fd s = Inr (0, s1) \<and> ttystate s1 \<noteq> RESET \<and> tty_reset fd s1 = Inr (0, s2) \<and> dev s2 = dev s \<and> ttystate s2 = RESET \<and>
    (0 \<le> fd \<longrightarrow> tty_atexit s1 = Inr ((), s2))"
proof -
  obtain edit stuck mode where c: "change fd = tty_change edit stuck mode fd" "mode \<noteq> RESET" "\<And>t. stuck (edit t)"
    using assms(3) edit_stuck by (auto simp: tty_raw_def tty_cbreak_def)
  let ?s = "s\<lparr>save_termios := dev s fd, dev := (dev s)(fd := edit (dev s fd)), ttystate := mode, ttysavefd := fd\<rparr>"
  have 1: "change fd s = Inr (0, ?s)" unfolding c(1) by (rule tty_change_does [OF assms(1,2)]) (rule c(3))
  have 2: "tty_reset fd ?s = Inr (0, ?s\<lparr>dev := dev s, ttystate := RESET\<rparr>)"
    by (subst tty_reset_does) (use assms(2) c(2) in simp_all)
  then have "0 \<le> fd \<longrightarrow> tty_atexit ?s = Inr ((), ?s\<lparr>dev := dev s, ttystate := RESET\<rparr>)" by (simp add: tty_atexit_def io_simps)
  with 1 2 c(2) show ?thesis by (intro exI [of _ ?s] exI [of _ "?s\<lparr>dev := dev s, ttystate := RESET\<rparr>"]) simp
qed

theorem tty_reset_roundtrip_witness:
  "\<exists>s1 s2. tty_raw 0 sample_tty = Inr (0, s1) \<and> tty_reset 0 s1 = Inr (0, s2) \<and> dev s2 = dev sample_tty \<and> tty_atexit s1 = Inr ((), s2)"
  using tty_reset_roundtrip [of sample_tty tty_raw 0] by (auto simp: sample_tty_def)

end
