(* ===== verification/Ref_Hash.thy ===== *)
theory Ref_Hash
  imports Step_System
begin

text \<open>
  Objects with reference counts that are found through a hash table: \<open>threads/mutex3.c\<close>, where
  one lock protects table and counts, and \<open>threads/mutex2.c\<close>, where every object has a lock of its
  own for its count, which is released and taken again in the middle of \<open>foo_rele\<close>. Every
  access to the table and to a count is made under its lock; the critical sections are single
  steps, in any order that the threads can give them.
\<close>

section \<open>State\<close>

type_synonym faddr = nat

record foo =
  f_count :: int
  f_id :: int
  f_next :: "faddr option"

text \<open>
  The allocated objects, the heads of the chains, the next free address, and what goes wrong in
  the coming allocations: \<open>malloc\<close> or \<open>pthread_mutex_init\<close> fails.
\<close>

datatype afail = Fine | NoMem | NoMutex

record foos =
  fheap :: "faddr \<rightharpoonup> foo"
  fh :: "nat \<Rightarrow> faddr option"
  fbrk :: nat
  ffail :: "afail list"

abbreviation NHASH_FOO :: nat where "NHASH_FOO \<equiv> 29"

text \<open>\<open>id\<close> is converted to \<open>unsigned long\<close>.\<close>

definition HASH :: "int \<Rightarrow> nat" where
  "HASH i = nat (i mod 2 ^ 64) mod NHASH_FOO"

definition get_foo :: "faddr option \<Rightarrow> (foos, foo) io" where
  "get_foo p s = (case p of None \<Rightarrow> Inl (Undefined ''null'') | Some a \<Rightarrow>
     (case fheap s a of None \<Rightarrow> Inl (Undefined ''dangling'') | Some f \<Rightarrow> Inr (f, s)))"

definition put_foo :: "faddr option \<Rightarrow> (foo \<Rightarrow> foo) \<Rightarrow> (foos, unit) io" where
  "put_foo p g = bind_io (get_foo p) (\<lambda>f. modify_io (\<lambda>s. s\<lparr>fheap := (fheap s)(the p \<mapsto> g f)\<rparr>))"

definition free_foo :: "faddr option \<Rightarrow> (foos, unit) io" where
  "free_foo p = bind_io (get_foo p) (\<lambda>f. modify_io (\<lambda>s. s\<lparr>fheap := (fheap s)(the p := None)\<rparr>))"

section \<open>Operations\<close>

definition foo_alloc :: "int \<Rightarrow> (foos, faddr option) io" where
  "foo_alloc i s =
     (let r = (case ffail s of [] \<Rightarrow> Fine | x # _ \<Rightarrow> x); s1 = s\<lparr>ffail := tl (ffail s)\<rparr>; a = fbrk s in
      case r of
        NoMem \<Rightarrow> Inr (None, s1)
      | NoMutex \<Rightarrow> Inr (None, s1\<lparr>fbrk := Suc a\<rparr>)
      | Fine \<Rightarrow>
          Inr (Some a, s1\<lparr>fbrk := Suc a, fheap := (fheap s)(a \<mapsto> \<lparr>f_count = 1, f_id = i, f_next = fh s (HASH i)\<rparr>),
                          fh := (fh s)(HASH i := Some a)\<rparr>))"

text \<open>The count is an \<open>int\<close>: to increment the largest one is undefined behaviour.\<close>

abbreviation COUNT_MAX :: nat where "COUNT_MAX \<equiv> 2147483647"

definition foo_hold :: "faddr option \<Rightarrow> (foos, unit) io" where
  "foo_hold fp =
     bind_io (get_foo fp) (\<lambda>f.
     if f_count f = int COUNT_MAX then fail_io (Undefined ''f_count'')
     else put_foo fp (\<lambda>f. f\<lparr>f_count := f_count f + 1\<rparr>))"

text \<open>The walks along a chain; the number of addresses in use bounds them.\<close>

fun foo_walk :: "nat \<Rightarrow> int \<Rightarrow> faddr option \<Rightarrow> (foos, faddr option) io" where
  "foo_walk fuel i None = ret_io None"
| "foo_walk 0 i (Some a) = fail_io Diverges"
| "foo_walk (Suc n) i (Some a) =
     bind_io (get_foo (Some a)) (\<lambda>f.
     if f_id f = i then seq_io (foo_hold (Some a)) (ret_io (Some a)) else foo_walk n i (f_next f))"

definition foo_find :: "int \<Rightarrow> (foos, faddr option) io" where
  "foo_find i s = foo_walk (fbrk s) i (fh s (HASH i)) s"

fun foo_pred :: "nat \<Rightarrow> faddr option \<Rightarrow> faddr option \<Rightarrow> (foos, faddr option) io" where
  "foo_pred 0 fp tfp = fail_io Diverges"
| "foo_pred (Suc n) fp tfp =
     bind_io (get_foo tfp) (\<lambda>t. if f_next t = fp then ret_io tfp else foo_pred n fp (f_next t))"

text \<open>Taking an object out of its chain.\<close>

definition foo_unlink :: "faddr option \<Rightarrow> (foos, unit) io" where
  "foo_unlink fp =
     bind_io (get_foo fp) (\<lambda>f.
     bind_io (gets_io (\<lambda>s. fh s (HASH (f_id f)))) (\<lambda>tfp.
     if tfp = fp then modify_io (\<lambda>s. s\<lparr>fh := (fh s)(HASH (f_id f) := f_next f)\<rparr>)
     else bind_io (\<lambda>s. foo_pred (fbrk s) fp tfp s) (\<lambda>tfp. put_foo tfp (\<lambda>t. t\<lparr>f_next := f_next f\<rparr>))))"

text \<open>\<open>foo_rele\<close> of \<open>mutex3.c\<close>.\<close>

definition foo_rele :: "faddr option \<Rightarrow> (foos, unit) io" where
  "foo_rele fp =
     seq_io (put_foo fp (\<lambda>f. f\<lparr>f_count := f_count f - 1\<rparr>))
     (bind_io (get_foo fp) (\<lambda>f.
      if f_count f = 0 then seq_io (foo_unlink fp) (free_foo fp) else ret_io ()))"

text \<open>
  \<open>foo_rele\<close> of \<open>mutex2.c\<close>: up to the first release of the object's lock, with the result
  whether the count was 1; and from the second time the locks are taken.
\<close>

definition foo_rele_first :: "faddr option \<Rightarrow> (foos, bool) io" where
  "foo_rele_first fp =
     bind_io (get_foo fp) (\<lambda>f.
     if f_count f = 1 then ret_io True
     else seq_io (put_foo fp (\<lambda>f. f\<lparr>f_count := f_count f - 1\<rparr>)) (ret_io False))"

definition foo_rele_last :: "faddr option \<Rightarrow> (foos, unit) io" where
  "foo_rele_last fp =
     bind_io (get_foo fp) (\<lambda>f.
     if f_count f \<noteq> 1 then put_foo fp (\<lambda>f. f\<lparr>f_count := f_count f - 1\<rparr>)
     else seq_io (foo_unlink fp) (free_foo fp))"

section \<open>Well-formed tables\<close>

fun fchain :: "(faddr \<rightharpoonup> foo) \<Rightarrow> faddr option \<Rightarrow> faddr list \<Rightarrow> bool" where
  "fchain h p [] \<longleftrightarrow> p = None"
| "fchain h p (a # as) \<longleftrightarrow> p = Some a \<and> (case h a of None \<Rightarrow> False | Some f \<Rightarrow> fchain h (f_next f) as)"

text \<open>
  \<open>ch b\<close> are the addresses on chain \<open>b\<close>; \<open>refs\<close> counts for every address the references that
  threads have.
\<close>

definition ftab_ok :: "foos \<Rightarrow> (nat \<Rightarrow> faddr list) \<Rightarrow> (faddr \<Rightarrow> nat) \<Rightarrow> bool" where
  "ftab_ok s ch refs \<longleftrightarrow>
     (\<forall>b. fchain (fheap s) (fh s b) (ch b) \<and> distinct (ch b)) \<and>
     (\<forall>b. \<forall>a \<in> set (ch b). \<forall>f. fheap s a = Some f \<longrightarrow> HASH (f_id f) = b) \<and>
     (\<forall>a f. fheap s a = Some f \<longrightarrow> a \<in> set (ch (HASH (f_id f))) \<and> f_count f = int (refs a)) \<and>
     (\<forall>a. fheap s a = None \<longleftrightarrow> refs a = 0) \<and> (\<forall>a. fbrk s \<le> a \<longrightarrow> fheap s a = None)"

lemma fchain_alloc: "fchain h p as \<Longrightarrow> a \<in> set as \<Longrightarrow> \<exists>f. h a = Some f"
  by (induction as arbitrary: p) (auto split: option.splits)

text \<open>A chain depends only on the links of its members.\<close>

lemma fchain_cong:
  assumes "\<forall>a \<in> set as. map_option f_next (h' a) = map_option f_next (h a)"
  shows "fchain h' p as = fchain h p as"
  using assms
proof (induction as arbitrary: p)
  case (Cons a as)
  then show ?case by (cases "h a"; cases "h' a") auto
qed simp

lemma foo_pred_run:
  assumes "fchain (fheap s) p (xs @ c # a # ys)" "distinct (xs @ c # a # ys)" "length xs < n"
  shows "foo_pred n (Some a) p s = Inr (Some c, s)"
  using assms
proof (induction xs arbitrary: p n)
  case Nil
  then obtain k f where "n = Suc k" "p = Some c" "fheap s c = Some f" "f_next f = Some a" by (cases n) (auto split: option.splits)
  then show ?case by (simp add: get_foo_def io_simps)
next
  case (Cons x xs)
  then obtain k f where k: "n = Suc k" "p = Some x" "fheap s x = Some f" "fchain (fheap s) (f_next f) (xs @ c # a # ys)"
    by (cases n) (auto split: option.splits)
  have "f_next f \<noteq> Some a" using k(4) Cons.prems(2) by (cases xs) auto
  moreover have "foo_pred k (Some a) (f_next f) s = Inr (Some c, s)" by (rule Cons.IH [OF k(4)]) (use Cons.prems k(1) in auto)
  ultimately show ?case using k by (simp add: get_foo_def io_simps)
qed

lemma fchain_unlink:
  assumes "fchain h p (xs @ c # a # ys)" "distinct (xs @ c # a # ys)" "h a = Some f" "h c = Some g"
  shows "fchain (h(c \<mapsto> g\<lparr>f_next := f_next f\<rparr>)) p (xs @ c # ys)"
  using assms
proof (induction xs arbitrary: p)
  case Nil
  then have "fchain h (f_next f) ys" "p = Some c" by auto
  moreover have "fchain (h(c \<mapsto> g\<lparr>f_next := f_next f\<rparr>)) (f_next f) ys = fchain h (f_next f) ys"
    by (rule fchain_cong) (use Nil in auto)
  ultimately show ?case by (simp add: fun_upd_def)
next
  case (Cons x xs)
  then show ?case by (auto split: option.splits)
qed

lemma fchain_split:
  assumes "fchain h p as" "distinct as" "a \<in> set as"
  obtains (first) ys where "as = a # ys" "p = Some a"
  | (later) xs c ys where "as = xs @ c # a # ys" "p \<noteq> Some a"
proof -
  obtain us ys where as: "as = us @ a # ys" using assms(3) by (meson split_list)
  show thesis
  proof (cases us rule: rev_cases)
    case Nil
    with as assms(1) first show thesis by auto
  next
    case (snoc xs c)
    then have "p \<noteq> Some a" using as assms by (cases xs) auto
    with snoc as later show thesis by auto
  qed
qed

text \<open>Taking an object out of its chain changes one link.\<close>

lemma foo_unlink_run:
  assumes ch: "fchain (fheap s) (fh s b) as" "distinct as" "length as \<le> fbrk s"
    and a: "a \<in> set as" "fheap s a = Some f" "HASH (f_id f) = b"
  shows "\<exists>h' q. foo_unlink (Some a) s = Inr ((), s\<lparr>fheap := h', fh := (fh s)(b := q)\<rparr>) \<and> fchain h' q (remove1 a as) \<and>
    (\<forall>x. x \<notin> set (remove1 a as) \<longrightarrow> h' x = fheap s x) \<and>
    (\<forall>x. map_option (\<lambda>f. (f_count f, f_id f)) (h' x) = map_option (\<lambda>f. (f_count f, f_id f)) (fheap s x))"
  using ch(1,2) a(1)
proof (cases rule: fchain_split)
  case (first ys)
  with a ch show ?thesis
    by (intro exI [of _ "fheap s"] exI [of _ "f_next f"]) (simp add: foo_unlink_def get_foo_def io_simps)
next
  case (later xs c ys)
  obtain g where g: "fheap s c = Some g" using fchain_alloc [OF ch(1), of c] later(1) by auto
  let ?h = "(fheap s)(c \<mapsto> g\<lparr>f_next := f_next f\<rparr>)"
  have "foo_pred (fbrk s) (Some a) (fh s b) s = Inr (Some c, s)"
    by (rule foo_pred_run) (use ch later in auto)
  then have "foo_unlink (Some a) s = Inr ((), s\<lparr>fheap := ?h\<rparr>)"
    using a later(2) g by (simp add: foo_unlink_def put_foo_def get_foo_def io_simps)
  moreover have "fchain ?h (fh s b) (xs @ c # ys)" by (rule fchain_unlink) (use ch later a g in auto)
  moreover have "remove1 a as = xs @ c # ys" using later ch(2) by (auto simp: remove1_append)
  moreover have "s\<lparr>fheap := ?h\<rparr> = s\<lparr>fheap := ?h, fh := (fh s)(b := fh s b)\<rparr>" by simp
  ultimately show ?thesis using g by (intro exI [of _ ?h] exI [of _ "fh s b"]) auto
qed

section \<open>The operations keep the table\<close>

lemma ftab_okD:
  assumes "ftab_ok s ch refs"
  shows "fchain (fheap s) (fh s b) (ch b)" "distinct (ch b)"
    "a \<in> set (ch b) \<Longrightarrow> fheap s a = Some f \<Longrightarrow> HASH (f_id f) = b"
    "fheap s a = Some f \<Longrightarrow> a \<in> set (ch (HASH (f_id f)))" "fheap s a = Some f \<Longrightarrow> f_count f = int (refs a)"
    "fheap s a = None \<longleftrightarrow> refs a = 0" "fbrk s \<le> a \<Longrightarrow> fheap s a = None"
  using assms by (auto simp: ftab_ok_def)

lemma ftab_ok_live: "ftab_ok s ch refs \<Longrightarrow> 0 < refs a \<Longrightarrow> \<exists>f. fheap s a = Some f \<and> f_count f = int (refs a)"
  using ftab_okD(5,6) [of s ch refs a] by (cases "fheap s a") auto

lemma ftab_ok_length:
  assumes "ftab_ok s ch refs"
  shows "length (ch b) \<le> fbrk s"
proof -
  have "set (ch b) \<subseteq> {..<fbrk s}"
    using fchain_alloc [OF ftab_okD(1) [OF assms]] ftab_okD(7) [OF assms] by (fastforce simp: not_le [symmetric])
  then have "card (set (ch b)) \<le> fbrk s" using card_mono [of "{..<fbrk s}"] by fastforce
  with distinct_card [OF ftab_okD(2) [OF assms, of b]] show ?thesis by simp
qed

lemma ftab_ok_alloc:
  assumes "ftab_ok s ch refs"
  shows "\<exists>p s'. foo_alloc i s = Inr (p, s') \<and>
    (case p of None \<Rightarrow> ftab_ok s' ch refs
     | Some a \<Rightarrow> fheap s a = None \<and> ftab_ok s' (ch(HASH i := a # ch (HASH i))) (refs(a := 1)))"
proof -
  let ?a = "fbrk s" and ?b = "HASH i"
  let ?h = "(fheap s)(fbrk s \<mapsto> \<lparr>f_count = 1, f_id = i, f_next = fh s (HASH i)\<rparr>)"
  note D = ftab_okD [OF assms]
  have new: "fheap s ?a = None" using D(7) by simp
  then have out: "?a \<notin> set (ch b)" for b using fchain_alloc [OF D(1), of ?a b] by auto
  have "fchain ?h (fh s b) (ch b)" for b
    using D(1) [of b] fchain_cong [of "ch b" ?h "fheap s" "fh s b"] out [of b] by auto
  then have "ftab_ok (s\<lparr>ffail := tl (ffail s), fbrk := Suc ?a, fheap := ?h, fh := (fh s)(?b := Some ?a)\<rparr>) (ch(?b := ?a # ch ?b)) (refs(?a := 1))"
    using assms new out by (auto simp: ftab_ok_def) metis
  moreover have "ftab_ok (s\<lparr>ffail := tl (ffail s)\<rparr>) ch refs" "ftab_ok (s\<lparr>ffail := tl (ffail s), fbrk := Suc ?a\<rparr>) ch refs"
    using assms by (auto simp: ftab_ok_def)
  ultimately show ?thesis using new by (auto simp: foo_alloc_def Let_def split: afail.splits)
qed

lemma ftab_ok_count:
  assumes "ftab_ok s ch refs" "fheap s a = Some f" "0 < n"
  shows "ftab_ok (s\<lparr>fheap := (fheap s)(a \<mapsto> f\<lparr>f_count := int n\<rparr>)\<rparr>) ch (refs(a := n))"
proof -
  have "fchain ((fheap s)(a \<mapsto> f\<lparr>f_count := int n\<rparr>)) (fh s b) (ch b)" for b
    using ftab_okD(1) [OF assms(1), of b] fchain_cong [of "ch b" "(fheap s)(a \<mapsto> f\<lparr>f_count := int n\<rparr>)" "fheap s" "fh s b"] assms(2) by auto
  then show ?thesis using assms by (auto simp: ftab_ok_def)
qed

lemma ftab_ok_hold:
  assumes "ftab_ok s ch refs" "0 < refs a"
  shows "if refs a = COUNT_MAX then foo_hold (Some a) s = Inl (Undefined ''f_count'')
    else \<exists>s'. foo_hold (Some a) s = Inr ((), s') \<and> ftab_ok s' ch (refs(a := Suc (refs a))) \<and>
      (\<forall>x. map_option f_id (fheap s' x) = map_option f_id (fheap s x))"
proof -
  obtain f where f: "fheap s a = Some f" "f_count f = int (refs a)" using ftab_ok_live [OF assms] by blast
  then show ?thesis using ftab_ok_count [OF assms(1) f(1), of "Suc (refs a)"]
    by (auto simp: foo_hold_def put_foo_def get_foo_def io_simps add.commute)
qed

text \<open>Removing an object whose count may be wrong already.\<close>

lemma ftab_ok_remove:
  assumes ok: "ftab_ok (s\<lparr>fheap := (fheap s)(a \<mapsto> f\<lparr>f_count := n\<rparr>)\<rparr>) ch refs" and a: "fheap s a = Some f"
  shows "\<exists>s'. seq_io (foo_unlink (Some a)) (free_foo (Some a)) s = Inr ((), s') \<and> ftab_ok s' (ch(HASH (f_id f) := remove1 a (ch (HASH (f_id f))))) (refs(a := 0))"
proof -
  let ?b = "HASH (f_id f)" and ?as = "remove1 a (ch (HASH (f_id f)))"
  note E = ftab_okD [OF ok, simplified]
  have D1: "fchain (fheap s) (fh s b) (ch b)" for b
    using E(1) [of b] fchain_cong [of "ch b" "(fheap s)(a \<mapsto> f\<lparr>f_count := n\<rparr>)" "fheap s" "fh s b"] a by auto
  have D3: "HASH (f_id g) = b" if "x \<in> set (ch b)" "fheap s x = Some g" for x b g
    using E(3) [OF that(1)] that(2) a by (cases "x = a") auto
  have D4: "x \<in> set (ch (HASH (f_id g)))" if "fheap s x = Some g" for x g
    using E(4) [of x] that a by (cases "x = a") auto
  have D5: "f_count g = int (refs x)" if "fheap s x = Some g" "x \<noteq> a" for x g using E(5) [of x g] that by simp
  have D6: "fheap s x = None \<longleftrightarrow> refs x = 0" for x using E(6) [of x] a by (cases "x = a") auto
  have D7: "fheap s x = None" if "fbrk s \<le> x" for x using E(7) [OF that] a by (cases "x = a") auto
  have len: "length (ch b) \<le> fbrk s" for b using ftab_ok_length [OF ok, of b] by simp
  obtain h' q where u: "foo_unlink (Some a) s = Inr ((), s\<lparr>fheap := h', fh := (fh s)(?b := q)\<rparr>)" "fchain h' q ?as"
    "\<And>x. x \<notin> set ?as \<Longrightarrow> h' x = fheap s x"
    "\<And>x. map_option (\<lambda>f. (f_count f, f_id f)) (h' x) = map_option (\<lambda>f. (f_count f, f_id f)) (fheap s x)"
    using foo_unlink_run [OF D1 E(2) len D4 [OF a] a refl] by blast
  have da: "a \<notin> set ?as" using E(2) by simp
  let ?s = "s\<lparr>fheap := h'(a := None), fh := (fh s)(?b := q)\<rparr>"
  have same: "\<exists>g'. fheap s x = Some g' \<and> f_count g' = f_count g \<and> f_id g' = f_id g" if "h' x = Some g" for x g
    using u(4) [of x] that by (cases "fheap s x") auto
  have other: "a \<notin> set (ch b)" "\<forall>x \<in> set (ch b). x \<notin> set ?as" if "b \<noteq> ?b" for b
    using D3 [of _ b] D3 [of _ ?b] a that fchain_alloc [OF D1] by (fastforce dest: notin_set_remove1)+
  have "fchain (h'(a := None)) q ?as" using u(2) fchain_cong [of ?as "h'(a := None)" h' q] da by auto
  moreover have "fchain (h'(a := None)) (fh s b) (ch b)" if "b \<noteq> ?b" for b
  proof -
    have "map_option f_next ((h'(a := None)) x) = map_option f_next (fheap s x)" if "x \<in> set (ch b)" for x
      using other [OF \<open>b \<noteq> ?b\<close>] u(3) [of x] that by auto
    then show ?thesis using D1 [of b] fchain_cong [of "ch b" "h'(a := None)" "fheap s" "fh s b"] by blast
  qed
  moreover have "x \<in> set (ch (HASH (f_id g)))" "x \<noteq> a \<Longrightarrow> f_count g = int (refs x)" if "h' x = Some g" for x g
    using same [OF that] D4 D5 by metis+
  moreover have "h' x = None \<longleftrightarrow> refs x = 0" for x using u(4) [of x] D6 [of x] by (cases "h' x"; cases "fheap s x") auto
  moreover have "h' x = None" if "fbrk s \<le> x" for x using u(4) [of x] D7 [OF that] by (cases "h' x") auto
  moreover have "HASH (f_id g) = b" if "x \<in> set (ch b)" "h' x = Some g" for x b g
    using same [OF that(2)] D3 [OF that(1)] by metis
  ultimately have "ftab_ok ?s (ch(?b := ?as)) (refs(a := 0))"
    using E(2) unfolding ftab_ok_def by (auto dest: notin_set_remove1) metis
  moreover have "free_foo (Some a) (s\<lparr>fheap := h', fh := (fh s)(?b := q)\<rparr>) = Inr ((), ?s)"
    using u(3) [OF da] a by (simp add: free_foo_def get_foo_def io_simps)
  ultimately show ?thesis using u(1) by (simp add: io_simps)
qed

lemma ftab_ok_drop:
  assumes "ftab_ok s ch refs" "fheap s a = Some f" "Suc 0 < refs a"
  shows "\<exists>s'. put_foo (Some a) (\<lambda>f. f\<lparr>f_count := f_count f - 1\<rparr>) s = Inr ((), s') \<and> ftab_ok s' ch (refs(a := refs a - 1))"
proof -
  have "f_count f = int (refs a)" by (rule ftab_okD(5) [OF assms(1,2)])
  then have "f_count f - 1 = int (refs a - 1)" using assms(3) by simp
  with assms(2) ftab_ok_count [OF assms(1,2), of "refs a - 1"] assms(3) show ?thesis
    by (simp add: put_foo_def get_foo_def io_simps)
qed

lemma ftab_ok_last:
  assumes "ftab_ok s ch refs" "fheap s a = Some f"
  shows "\<exists>s' ch'. seq_io (foo_unlink (Some a)) (free_foo (Some a)) s = Inr ((), s') \<and> ftab_ok s' ch' (refs(a := 0))"
proof -
  have "s\<lparr>fheap := (fheap s)(a \<mapsto> f\<lparr>f_count := f_count f\<rparr>)\<rparr> = s" using assms(2) by (simp add: fun_upd_idem)
  with ftab_ok_remove [where s = s and a = a and f = f and n = "f_count f" and ch = ch and refs = refs] assms show ?thesis by auto
qed

lemma ftab_ok_rele:
  assumes ok: "ftab_ok s ch refs" and a: "0 < refs a"
  shows "\<exists>s' ch'. foo_rele (Some a) s = Inr ((), s') \<and> ftab_ok s' ch' (refs(a := refs a - 1))"
proof -
  obtain f where f: "fheap s a = Some f" "f_count f = int (refs a)" using ftab_ok_live [OF assms] by blast
  let ?s = "s\<lparr>fheap := (fheap s)(a \<mapsto> f\<lparr>f_count := f_count f - 1\<rparr>)\<rparr>"
  have put: "put_foo (Some a) (\<lambda>f. f\<lparr>f_count := f_count f - 1\<rparr>) s = Inr ((), ?s)" using f by (simp add: put_foo_def get_foo_def io_simps)
  show ?thesis
  proof (cases "refs a = 1")
    case True
    have "?s\<lparr>fheap := (fheap ?s)(a \<mapsto> (f\<lparr>f_count := f_count f - 1\<rparr>)\<lparr>f_count := f_count f\<rparr>)\<rparr> = s" using f(1) by (simp add: fun_upd_idem)
    with ok have "ftab_ok (?s\<lparr>fheap := (fheap ?s)(a \<mapsto> (f\<lparr>f_count := f_count f - 1\<rparr>)\<lparr>f_count := f_count f\<rparr>)\<rparr>) ch refs" by simp
    from ftab_ok_remove [OF this] obtain s' ch' where
      "seq_io (foo_unlink (Some a)) (free_foo (Some a)) ?s = Inr ((), s')" "ftab_ok s' ch' (refs(a := 0))" by auto
    with put f True show ?thesis by (auto simp: foo_rele_def io_simps get_foo_def)
  next
    case False
    with a have "Suc 0 < refs a" by simp
    from ftab_ok_drop [OF ok f(1) this] put f False show ?thesis by (auto simp: foo_rele_def io_simps get_foo_def)
  qed
qed

text \<open>The release in two parts.\<close>

lemma ftab_ok_rele_first:
  assumes "ftab_ok s ch refs" "0 < refs a"
  shows "\<exists>r s'. foo_rele_first (Some a) s = Inr (r, s') \<and> ftab_ok s' ch (if r then refs else refs(a := refs a - 1)) \<and> (r \<longrightarrow> s' = s)"
proof -
  obtain f where f: "fheap s a = Some f" "f_count f = int (refs a)" using ftab_ok_live [OF assms] by blast
  show ?thesis
  proof (cases "refs a = 1")
    case False
    then have "Suc 0 < refs a" using assms(2) by simp
    from ftab_ok_drop [OF assms(1) f(1) this] obtain s' where
      "put_foo (Some a) (\<lambda>f. f\<lparr>f_count := f_count f - 1\<rparr>) s = Inr ((), s')" "ftab_ok s' ch (refs(a := refs a - 1))" by blast
    with f False show ?thesis by (intro exI [of _ False] exI [of _ s']) (simp add: foo_rele_first_def get_foo_def io_simps)
  next
    case True
    with assms f show ?thesis by (intro exI [of _ True] exI [of _ s]) (simp add: foo_rele_first_def get_foo_def io_simps)
  qed
qed

lemma ftab_ok_rele_last:
  assumes "ftab_ok s ch refs" "0 < refs a"
  shows "\<exists>s' ch'. foo_rele_last (Some a) s = Inr ((), s') \<and> ftab_ok s' ch' (refs(a := refs a - 1))"
proof -
  obtain f where f: "fheap s a = Some f" "f_count f = int (refs a)" using ftab_ok_live [OF assms] by blast
  show ?thesis
  proof (cases "refs a = 1")
    case True
    with ftab_ok_last [OF assms(1) f(1)] f show ?thesis by (auto simp: foo_rele_last_def get_foo_def io_simps)
  next
    case False
    then have "Suc 0 < refs a" using assms(2) by simp
    from ftab_ok_drop [OF assms(1) f(1) this] f False show ?thesis by (auto simp: foo_rele_last_def get_foo_def io_simps)
  qed
qed

lemma foo_walk_run:
  assumes "ftab_ok s ch refs" "fchain (fheap s) p as" "length as \<le> n"
  shows "foo_walk n i p s =
    (case find (\<lambda>a. map_option f_id (fheap s a) = Some i) as of
       None \<Rightarrow> Inr (None, s)
     | Some a \<Rightarrow> seq_io (foo_hold (Some a)) (ret_io (Some a)) s)"
  using assms(2,3)
proof (induction as arbitrary: p n)
  case (Cons x as)
  then obtain f k where f: "p = Some x" "fheap s x = Some f" "fchain (fheap s) (f_next f) as" "n = Suc k" "length as \<le> k"
    by (cases n) (auto split: option.splits)
  with Cons.IH [OF f(3,5)] show ?case by (auto simp: get_foo_def io_simps split: option.splits)
qed (simp add: io_simps)

lemma ftab_ok_find:
  assumes "ftab_ok s ch refs"
  shows "foo_find i s = Inr (None, s) \<and> (\<forall>a f. fheap s a = Some f \<longrightarrow> f_id f \<noteq> i) \<or>
    (\<exists>a f. fheap s a = Some f \<and> f_id f = i \<and>
      (if refs a = COUNT_MAX then foo_find i s = Inl (Undefined ''f_count'')
       else \<exists>s'. foo_find i s = Inr (Some a, s') \<and> ftab_ok s' ch (refs(a := Suc (refs a)))))"
proof -
  let ?P = "\<lambda>a. map_option f_id (fheap s a) = Some i"
  note w = foo_walk_run [OF assms ftab_okD(1) [OF assms] ftab_ok_length [OF assms], of i "HASH i"]
  show ?thesis
  proof (cases "find ?P (ch (HASH i))")
    case None
    then have "\<forall>a f. fheap s a = Some f \<longrightarrow> f_id f \<noteq> i" using ftab_okD(4) [OF assms] by (fastforce simp: find_None_iff)
    with None w show ?thesis by (simp add: foo_find_def)
  next
    case (Some a)
    then obtain f where f: "fheap s a = Some f" "f_id f = i" by (auto simp: find_Some_iff)
    then have "0 < refs a" using ftab_okD(6) [OF assms, of a] by simp
    note h = ftab_ok_hold [OF assms this]
    have find: "foo_find i s = seq_io (foo_hold (Some a)) (ret_io (Some a)) s" using w Some by (simp add: foo_find_def)
    have "if refs a = COUNT_MAX then foo_find i s = Inl (Undefined ''f_count'')
       else \<exists>s'. foo_find i s = Inr (Some a, s') \<and> ftab_ok s' ch (refs(a := Suc (refs a)))"
      using h unfolding find by (auto simp: io_simps split: if_splits)
    with f show ?thesis by blast
  qed
qed

section \<open>Threads\<close>

text \<open>
  The critical sections of the threads. \<open>pend\<close> counts, for every object, the threads that are in
  the middle of a release in \<open>mutex2.c\<close>; such a thread still has its reference. A thread uses an
  object only through a reference that it has and is not releasing.
\<close>

record fsys =
  tbl :: foos
  refs :: "faddr \<Rightarrow> nat"
  pend :: "faddr \<Rightarrow> nat"

inductive foo_step :: "fsys \<Rightarrow> fsys \<Rightarrow> bool" where
  alloc_none: "foo_alloc i (tbl s) = Inr (None, t) \<Longrightarrow> foo_step s (s\<lparr>tbl := t\<rparr>)"
| alloc: "foo_alloc i (tbl s) = Inr (Some a, t) \<Longrightarrow> foo_step s (s\<lparr>tbl := t, refs := (refs s)(a := Suc (refs s a))\<rparr>)"
| hold: "pend s a < refs s a \<Longrightarrow> foo_hold (Some a) (tbl s) = Inr ((), t) \<Longrightarrow> foo_step s (s\<lparr>tbl := t, refs := (refs s)(a := Suc (refs s a))\<rparr>)"
| find_none: "foo_find i (tbl s) = Inr (None, t) \<Longrightarrow> foo_step s (s\<lparr>tbl := t\<rparr>)"
| find_some: "foo_find i (tbl s) = Inr (Some a, t) \<Longrightarrow> foo_step s (s\<lparr>tbl := t, refs := (refs s)(a := Suc (refs s a))\<rparr>)"
| rele: "pend s a < refs s a \<Longrightarrow> foo_rele (Some a) (tbl s) = Inr ((), t) \<Longrightarrow> foo_step s (s\<lparr>tbl := t, refs := (refs s)(a := refs s a - 1)\<rparr>)"
| rele_more: "pend s a < refs s a \<Longrightarrow> foo_rele_first (Some a) (tbl s) = Inr (False, t) \<Longrightarrow>
    foo_step s (s\<lparr>tbl := t, refs := (refs s)(a := refs s a - 1)\<rparr>)"
| rele_one: "pend s a < refs s a \<Longrightarrow> foo_rele_first (Some a) (tbl s) = Inr (True, t) \<Longrightarrow>
    foo_step s (s\<lparr>tbl := t, pend := (pend s)(a := Suc (pend s a))\<rparr>)"
| rele_rest: "0 < pend s a \<Longrightarrow> foo_rele_last (Some a) (tbl s) = Inr ((), t) \<Longrightarrow>
    foo_step s (s\<lparr>tbl := t, refs := (refs s)(a := refs s a - 1), pend := (pend s)(a := pend s a - 1)\<rparr>)"

definition foo_init :: "fsys \<Rightarrow> bool" where
  "foo_init s \<longleftrightarrow> fheap (tbl s) = Map.empty \<and> fh (tbl s) = (\<lambda>_. None) \<and> refs s = (\<lambda>_. 0) \<and> pend s = (\<lambda>_. 0)"

abbreviation foo_reachable :: "fsys \<Rightarrow> bool" where
  "foo_reachable \<equiv> reachable foo_init foo_step"

definition foo_inv :: "fsys \<Rightarrow> bool" where
  "foo_inv s \<longleftrightarrow> (\<exists>ch. ftab_ok (tbl s) ch (refs s)) \<and> (\<forall>a. pend s a \<le> refs s a) \<and> (\<forall>a. refs s a \<le> COUNT_MAX)"

lemma foo_step_inv:
  assumes "foo_step s s'" "foo_inv s"
  shows "foo_inv s'"
proof -
  obtain ch where ok: "ftab_ok (tbl s) ch (refs s)" and p: "\<And>a. pend s a \<le> refs s a" and m: "\<And>a. refs s a \<le> COUNT_MAX"
    using assms(2) by (auto simp: foo_inv_def)
  have m': "refs s a - 1 \<le> COUNT_MAX" for a using m [of a] by simp
  from assms(1) show ?thesis
  proof cases
    case (alloc_none i t)
    with ftab_ok_alloc [OF ok, of i] p m show ?thesis by (auto simp: foo_inv_def)
  next
    case (alloc i a t)
    have "refs s a = 0" "ftab_ok t (ch(HASH i := a # ch (HASH i))) ((refs s)(a := 1))"
      using ftab_ok_alloc [OF ok, of i] alloc ftab_okD(6) [OF ok, of a] by auto
    moreover have "pend s a = 0" using p [of a] calculation(1) by simp
    ultimately show ?thesis using alloc p m by (auto simp: foo_inv_def)
  next
    case (hold a t)
    then have "0 < refs s a" by simp
    with ftab_ok_hold [OF ok this] hold have "refs s a \<noteq> COUNT_MAX" "ftab_ok t ch ((refs s)(a := Suc (refs s a)))"
      by (auto split: if_splits)
    moreover have "Suc (refs s a) \<le> COUNT_MAX" using m [of a] calculation(1) by simp
    ultimately show ?thesis using hold p m by (auto simp: foo_inv_def le_Suc_eq)
  next
    case (find_none i t)
    with ftab_ok_find [OF ok, of i] p ok m show ?thesis by (auto simp: foo_inv_def split: if_splits)
  next
    case (find_some i a t)
    with ftab_ok_find [OF ok, of i] have "refs s a \<noteq> COUNT_MAX" "ftab_ok t ch ((refs s)(a := Suc (refs s a)))"
      by (auto split: if_splits)
    moreover have "Suc (refs s a) \<le> COUNT_MAX" using m [of a] calculation(1) by simp
    ultimately show ?thesis using find_some p m by (auto simp: foo_inv_def le_Suc_eq)
  next
    case (rele a t)
    then have "0 < refs s a" by simp
    from ftab_ok_rele [OF ok this] rele p m m' show ?thesis by (auto simp: foo_inv_def)
  next
    case (rele_more a t)
    then have "0 < refs s a" by simp
    from ftab_ok_rele_first [OF ok this] rele_more p m m' show ?thesis by (auto simp: foo_inv_def)
  next
    case (rele_one a t)
    then have "0 < refs s a" by simp
    from ftab_ok_rele_first [OF ok this] rele_one p m show ?thesis by (auto simp: foo_inv_def)
  next
    case (rele_rest a t)
    then have "0 < refs s a" using p [of a] by simp
    from ftab_ok_rele_last [OF ok this] rele_rest p m m' show ?thesis by (auto simp: foo_inv_def intro: diff_le_mono)
  qed
qed

interpretation foo_sys: step_invariant foo_init foo_step foo_inv
proof (unfold_locales, goal_cases)
  case (1 s)
  then have "ftab_ok (tbl s) (\<lambda>_. []) (refs s)" by (simp add: foo_init_def ftab_ok_def)
  with 1 show ?case by (auto simp: foo_init_def foo_inv_def)
next
  case (2 s s')
  then show ?case using foo_step_inv by blast
qed

section \<open>Property\<close>

text \<open>C28: reference counts are exact, and nobody follows a dangling pointer, as long as no count
  overflows. In every state that threads can reach with the functions of \<open>mutex3.c\<close>, or with
  those of \<open>mutex2.c\<close>, whose release gives up the lock in the middle: the objects that exist are
  those that some thread has a reference to, the count of each is the number of these
  references, at most \<open>INT_MAX\<close>, and each is found in its chain. Every release that a thread can
  make through a reference it has then returns, following the pointers of the table never
  fails, and so do \<open>foo_hold\<close> and \<open>foo_find\<close> return, except at an object with \<open>INT_MAX\<close>
  references: there the increment overflows, which the code does not exclude.\<close>

theorem ref_counts_exact:
  assumes "foo_reachable s"
  shows "(\<forall>a. fheap (tbl s) a = None \<longleftrightarrow> refs s a = 0) \<and>
    (\<forall>a f. fheap (tbl s) a = Some f \<longrightarrow> f_count f = int (refs s a) \<and> refs s a \<le> COUNT_MAX) \<and>
    (\<forall>a. pend s a < refs s a \<longrightarrow>
       (if refs s a = COUNT_MAX then foo_hold (Some a) (tbl s) = Inl (Undefined ''f_count'')
        else \<exists>t. foo_hold (Some a) (tbl s) = Inr ((), t)) \<and>
       (\<exists>t. foo_rele (Some a) (tbl s) = Inr ((), t)) \<and> (\<exists>r t. foo_rele_first (Some a) (tbl s) = Inr (r, t))) \<and>
    (\<forall>a. 0 < pend s a \<longrightarrow> (\<exists>t. foo_rele_last (Some a) (tbl s) = Inr ((), t))) \<and>
    (\<forall>i. (\<forall>a f. fheap (tbl s) a = Some f \<longrightarrow> f_id f \<noteq> i) \<and> foo_find i (tbl s) = Inr (None, tbl s) \<or>
       (\<exists>a f. fheap (tbl s) a = Some f \<and> f_id f = i \<and>
          (if refs s a = COUNT_MAX then foo_find i (tbl s) = Inl (Undefined ''f_count'')
           else \<exists>t. foo_find i (tbl s) = Inr (Some a, t))))"
proof -
  obtain ch where ok: "ftab_ok (tbl s) ch (refs s)" and p: "\<And>a. pend s a \<le> refs s a" and m: "\<And>a. refs s a \<le> COUNT_MAX"
    using foo_sys.reachable_inv [OF assms] by (auto simp: foo_inv_def)
  have h: "(if refs s a = COUNT_MAX then foo_hold (Some a) (tbl s) = Inl (Undefined ''f_count'')
        else \<exists>t. foo_hold (Some a) (tbl s) = Inr ((), t))" if "0 < refs s a" for a
    using ftab_ok_hold [OF ok that] by (auto split: if_splits)
  have r: "(\<exists>t. foo_rele (Some a) (tbl s) = Inr ((), t)) \<and>
      (\<exists>r t. foo_rele_first (Some a) (tbl s) = Inr (r, t)) \<and> (\<exists>t. foo_rele_last (Some a) (tbl s) = Inr ((), t))" if "0 < refs s a" for a
    using ftab_ok_rele [OF ok that] ftab_ok_rele_first [OF ok that] ftab_ok_rele_last [OF ok that] by blast
  have pos: "0 < refs s a" if "pend s a < refs s a \<or> 0 < pend s a" for a using that p [of a] by auto
  have "(\<forall>a f. fheap (tbl s) a = Some f \<longrightarrow> f_id f \<noteq> i) \<and> foo_find i (tbl s) = Inr (None, tbl s) \<or>
       (\<exists>a f. fheap (tbl s) a = Some f \<and> f_id f = i \<and>
          (if refs s a = COUNT_MAX then foo_find i (tbl s) = Inl (Undefined ''f_count'')
           else \<exists>t. foo_find i (tbl s) = Inr (Some a, t)))" for i
    using ftab_ok_find [OF ok, of i] by (auto split: if_splits)
  with h r pos m ftab_okD(5,6) [OF ok] show ?thesis by blast
qed

definition sample_fsys :: fsys where
  "sample_fsys = \<lparr>tbl = \<lparr>fheap = Map.empty, fh = (\<lambda>_. None), fbrk = 0, ffail = []\<rparr>, refs = (\<lambda>_. 0), pend = (\<lambda>_. 0)\<rparr>"

theorem ref_counts_exact_witness:
  "\<exists>s. foo_step sample_fsys s \<and> refs s 0 = 1 \<and> (\<exists>t. foo_rele (Some 0) (tbl s) = Inr ((), t))"
proof -
  obtain t where "foo_alloc 5 (tbl sample_fsys) = Inr (Some 0, t)" by (auto simp: foo_alloc_def sample_fsys_def Let_def)
  then have st: "foo_step sample_fsys (sample_fsys\<lparr>tbl := t, refs := (refs sample_fsys)(0 := Suc (refs sample_fsys 0))\<rparr>)" (is "foo_step _ ?s")
    by (rule foo_step.alloc)
  have "foo_reachable sample_fsys" by (rule reachable.start) (simp add: foo_init_def sample_fsys_def)
  then have "foo_reachable ?s" using st by (rule reachable.step)
  from ref_counts_exact [OF this] have "\<exists>t. foo_rele (Some 0) (tbl ?s) = Inr ((), t)" by (simp add: sample_fsys_def)
  with st show ?thesis by (intro exI [of _ ?s]) (simp add: sample_fsys_def)
qed

end
