(* ===== verification/Sort_Merge.thy ===== *)
theory Sort_Merge
  imports Apue_Prelude "HOL-Library.Multiset"
begin

text \<open>
  The sort of \<open>threads/barrier.c\<close>: threads sort the parts of an array, meet at a barrier, and the
  main thread merges the parts. The numbers of threads and of elements for each are parameters
  (\<open>NTHR\<close> and \<open>TNUM\<close> in the source); the library's \<open>heapsort\<close> is a parameter as well.
\<close>

section \<open>Program\<close>

abbreviation LONG_MAX :: int where "LONG_MAX \<equiv> 9223372036854775807"

definition complong :: "int \<Rightarrow> int \<Rightarrow> int" where
  "complong l1 l2 = (if l1 = l2 then 0 else if l1 < l2 then -1 else 1)"

text \<open>A thread sorts the part that starts at \<open>idx\<close>.\<close>

definition thr_fn :: "((int \<Rightarrow> int \<Rightarrow> int) \<Rightarrow> int list \<Rightarrow> int list) \<Rightarrow> nat \<Rightarrow> nat \<Rightarrow> int list \<Rightarrow> int list" where
  "thr_fn heapsort tnum idx nums =
     take idx nums @ heapsort complong (take tnum (drop idx nums)) @ drop (idx + tnum) nums"

text \<open>
  The inner loop of \<open>merge\<close>: the smallest of the first elements of the parts, and its part. The
  variable \<open>minidx\<close> keeps its value from turn to turn and has none before the first.
\<close>

fun merge_min :: "int list \<Rightarrow> nat \<Rightarrow> nat list \<Rightarrow> nat \<Rightarrow> int \<times> nat option \<Rightarrow> int \<times> nat option" where
  "merge_min nums tnum idx 0 st = st"
| "merge_min nums tnum idx (Suc i) st =
     (let (num, minidx) = merge_min nums tnum idx i st in
      if idx ! i < (i + 1) * tnum \<and> nums ! (idx ! i) < num then (nums ! (idx ! i), Some i) else (num, minidx))"

text \<open>The outer loop, with \<open>n\<close> turns to go; \<open>snums\<close> is what it has written.\<close>

fun merge_loop :: "int list \<Rightarrow> nat \<Rightarrow> nat \<Rightarrow> nat \<Rightarrow> nat list \<Rightarrow> nat option \<Rightarrow> int list \<Rightarrow> exit_reason + int list" where
  "merge_loop nums nthr tnum 0 idx minidx snums = Inr snums"
| "merge_loop nums nthr tnum (Suc n) idx minidx snums =
     (case merge_min nums tnum idx nthr (LONG_MAX, minidx) of
        (num, None) \<Rightarrow> Inl (Undefined ''minidx'')
      | (num, Some m) \<Rightarrow>
          if length nums \<le> idx ! m then Inl (Undefined ''nums'')
          else merge_loop nums nthr tnum n (idx[m := Suc (idx ! m)]) (Some m) (snums @ [nums ! (idx ! m)]))"

definition merge_parts :: "nat \<Rightarrow> nat \<Rightarrow> int list \<Rightarrow> exit_reason + int list" where
  "merge_parts nthr tnum nums = merge_loop nums nthr tnum (nthr * tnum) (map (\<lambda>i. i * tnum) [0..<nthr]) None []"

text \<open>
  The program: the threads, in the order in which they finish, and after the barrier the merge.
  They work on disjoint parts of the array.
\<close>

definition barrier_main :: "((int \<Rightarrow> int \<Rightarrow> int) \<Rightarrow> int list \<Rightarrow> int list) \<Rightarrow> nat \<Rightarrow> nat \<Rightarrow> nat list \<Rightarrow> int list \<Rightarrow> exit_reason + int list" where
  "barrier_main heapsort nthr tnum order nums =
     merge_parts nthr tnum (fold (\<lambda>i. thr_fn heapsort tnum (i * tnum)) order nums)"

section \<open>The merge\<close>

definition part :: "int list \<Rightarrow> nat \<Rightarrow> nat \<Rightarrow> int list" where
  "part nums tnum i = take tnum (drop (i * tnum) nums)"

text \<open>What is left of part \<open>i\<close>.\<close>

definition left_of :: "int list \<Rightarrow> nat \<Rightarrow> nat list \<Rightarrow> nat \<Rightarrow> int list" where
  "left_of nums tnum idx i = drop (idx ! i) (take ((i + 1) * tnum) nums)"

definition idx_ok :: "nat \<Rightarrow> nat \<Rightarrow> nat list \<Rightarrow> bool" where
  "idx_ok nthr tnum idx \<longleftrightarrow> length idx = nthr \<and> (\<forall>i < nthr. i * tnum \<le> idx ! i \<and> idx ! i \<le> (i + 1) * tnum)"

lemma left_of_part:
  assumes "i * tnum \<le> idx ! i"
  shows "left_of nums tnum idx i = drop (idx ! i - i * tnum) (part nums tnum i)"
  using assms by (simp add: left_of_def part_def drop_take add.commute)

lemma left_of_hd:
  assumes "idx ! i < (i + 1) * tnum" "(i + 1) * tnum \<le> length nums"
  shows "left_of nums tnum idx i = nums ! (idx ! i) # drop (Suc (idx ! i)) (take ((i + 1) * tnum) nums)"
proof -
  have "idx ! i < length (take ((i + 1) * tnum) nums)" using assms by simp
  from Cons_nth_drop_Suc [OF this] show ?thesis using assms by (simp add: left_of_def del: take_append)
qed

lemma left_of_empty: "(i + 1) * tnum \<le> idx ! i \<Longrightarrow> left_of nums tnum idx i = []"
  by (simp add: left_of_def)

lemma merge_min_spec:
  fixes idx :: "nat list" and tnum :: nat and nums :: "int list"
  assumes "\<forall>x \<in> set nums. x < LONG_MAX" "n * tnum \<le> length nums"
  defines "ne \<equiv> \<lambda>i. idx ! i < (i + 1) * tnum"
  shows "case merge_min nums tnum idx n (LONG_MAX, mi) of (num, m) \<Rightarrow>
     if \<exists>i < n. ne i then (\<exists>k < n. m = Some k \<and> ne k \<and> num = nums ! (idx ! k) \<and> (\<forall>i < n. ne i \<longrightarrow> num \<le> nums ! (idx ! i)))
     else num = LONG_MAX \<and> m = mi"
  using assms(2)
proof (induction n)
  case (Suc n)
  obtain num m where m: "merge_min nums tnum idx n (LONG_MAX, mi) = (num, m)" by fastforce
  have IH: "if \<exists>i < n. ne i then (\<exists>k < n. m = Some k \<and> ne k \<and> num = nums ! (idx ! k) \<and> (\<forall>i < n. ne i \<longrightarrow> num \<le> nums ! (idx ! i)))
     else num = LONG_MAX \<and> m = mi" using Suc m by simp
  show ?case
  proof (cases "ne n")
    case True
    then have "idx ! n < length nums" using Suc.prems by (auto simp: ne_def)
    then have v: "nums ! (idx ! n) < LONG_MAX" using assms(1) by simp
    have run: "merge_min nums tnum idx (Suc n) (LONG_MAX, mi) = (if nums ! (idx ! n) < num then (nums ! (idx ! n), Some n) else (num, m))"
      using m True by (simp add: ne_def)
    show ?thesis
    proof (cases "nums ! (idx ! n) < num")
      case less: True
      have "\<forall>i < Suc n. ne i \<longrightarrow> nums ! (idx ! n) \<le> nums ! (idx ! i)"
        using IH less by (fastforce simp: less_Suc_eq split: if_splits)
      with True less run show ?thesis by auto
    next
      case False
      with v have "num \<noteq> LONG_MAX" by auto
      with IH obtain k where "k < n" "m = Some k" "ne k" "num = nums ! (idx ! k)" "\<forall>i < n. ne i \<longrightarrow> num \<le> nums ! (idx ! i)"
        by (meson)
      with True False run show ?thesis by (auto simp: less_Suc_eq)
    qed
  next
    case False
    then have "\<not> idx ! n < (n + 1) * tnum" by (simp add: ne_def)
    with m IH False show ?thesis by (auto simp: less_Suc_eq split: if_splits)
  qed
qed simp

text \<open>The invariant of the merge: what is written is sorted, is below what is left, and nothing is lost.\<close>

definition merge_inv :: "int list \<Rightarrow> nat \<Rightarrow> nat \<Rightarrow> nat list \<Rightarrow> int list \<Rightarrow> bool" where
  "merge_inv nums nthr tnum idx snums \<longleftrightarrow> idx_ok nthr tnum idx \<and> sorted snums \<and>
     (\<forall>x \<in> set snums. \<forall>i < nthr. \<forall>y \<in> set (left_of nums tnum idx i). x \<le> y) \<and>
     mset snums + (\<Sum>i<nthr. mset (left_of nums tnum idx i)) = mset nums"

lemma sum_single_upd:
  fixes f g :: "nat \<Rightarrow> 'a multiset"
  assumes "m < n" "f m = add_mset x (g m)" "\<And>i. i \<noteq> m \<Longrightarrow> g i = f i"
  shows "(\<Sum>i<n. f i) = add_mset x (\<Sum>i<n. g i)"
proof -
  have "(\<Sum>i \<in> {..<n} - {m}. g i) = (\<Sum>i \<in> {..<n} - {m}. f i)" by (rule sum.cong) (use assms(3) in auto)
  with assms(1,2) show ?thesis using sum.remove [of "{..<n}" m f] sum.remove [of "{..<n}" m g] by simp
qed

lemma left_of_sorted:
  assumes "idx_ok nthr tnum idx" "i < nthr" "\<forall>i < nthr. sorted (part nums tnum i)"
  shows "sorted (left_of nums tnum idx i)"
  using assms by (simp add: idx_ok_def left_of_part)

lemma merge_inv_step:
  assumes inv: "merge_inv nums nthr tnum idx snums" and len: "length nums = nthr * tnum"
    and small: "\<forall>x \<in> set nums. x < LONG_MAX" and parts: "\<forall>i < nthr. sorted (part nums tnum i)"
    and more: "length snums < length nums"
  shows "\<exists>num m. merge_min nums tnum idx nthr (LONG_MAX, mi) = (num, Some m) \<and> idx ! m < length nums \<and>
    merge_inv nums nthr tnum (idx[m := Suc (idx ! m)]) (snums @ [nums ! (idx ! m)])"
proof -
  let ?L = "left_of nums tnum idx"
  have ok: "idx_ok nthr tnum idx" using inv by (simp add: merge_inv_def)
  have bound: "(i + 1) * tnum \<le> length nums" if "i < nthr" for i
    unfolding len by (rule mult_le_mono1) (use that in simp)
  have ms: "mset snums + (\<Sum>i<nthr. mset (?L i)) = mset nums" using inv by (simp add: merge_inv_def)
  have "\<exists>i < nthr. idx ! i < (i + 1) * tnum"
  proof (rule ccontr)
    assume "\<not> (\<exists>i < nthr. idx ! i < (i + 1) * tnum)"
    then have "(\<Sum>i<nthr. mset (?L i)) = {#}" using left_of_empty by (auto intro!: sum.neutral)
    with ms have "size (mset snums) = size (mset nums)" by simp
    with more show False by simp
  qed
  with merge_min_spec [OF small, of nthr tnum idx mi] obtain num m where
    m: "merge_min nums tnum idx nthr (LONG_MAX, mi) = (num, Some m)" "m < nthr" "idx ! m < (m + 1) * tnum" "num = nums ! (idx ! m)"
      "\<forall>i < nthr. idx ! i < (i + 1) * tnum \<longrightarrow> num \<le> nums ! (idx ! i)"
    using len by (auto split: prod.splits)
  let ?idx = "idx[m := Suc (idx ! m)]" and ?L' = "left_of nums tnum (idx[m := Suc (idx ! m)])"
  have lm: "?L m = num # ?L' m"
    using left_of_hd [OF m(3) bound [OF m(2)]] m(2,4) ok by (simp add: left_of_def idx_ok_def)
  have lo: "?L' i = ?L i" if "i \<noteq> m" for i using that by (simp add: left_of_def)
  have least: "num \<le> y" if "i < nthr" "y \<in> set (?L i)" for i y
  proof -
    have i: "idx ! i < (i + 1) * tnum" using that(2) left_of_empty [of i tnum idx nums] by (cases "(i + 1) * tnum \<le> idx ! i") auto
    have "sorted (?L i)" by (rule left_of_sorted [OF ok that(1) parts])
    with left_of_hd [OF i bound [OF that(1)]] that(2) have "nums ! (idx ! i) \<le> y" by auto
    with m(5) that(1) i show ?thesis by force
  qed
  have sub: "set (?L' i) \<subseteq> set (?L i)" for i using lm lo [of i] by (cases "i = m") auto
  have "(\<Sum>i<nthr. mset (?L i)) = add_mset num (\<Sum>i<nthr. mset (?L' i))"
    by (rule sum_single_upd [OF m(2)]) (use lm lo in auto)
  with ms have "mset (snums @ [num]) + (\<Sum>i<nthr. mset (?L' i)) = mset nums" by simp
  moreover have "idx_ok nthr tnum ?idx" using ok m(2,3) by (auto simp: idx_ok_def nth_list_update)
  moreover have "sorted (snums @ [num])"
  proof -
    have "\<forall>x \<in> set snums. x \<le> num" using inv m(2) lm by (auto simp: merge_inv_def)
    with inv show ?thesis by (simp add: merge_inv_def sorted_append)
  qed
  moreover have "\<forall>x \<in> set (snums @ [num]). \<forall>i < nthr. \<forall>y \<in> set (?L' i). x \<le> y"
    using inv least sub by (fastforce simp: merge_inv_def)
  ultimately have "merge_inv nums nthr tnum ?idx (snums @ [nums ! (idx ! m)])" unfolding merge_inv_def m(4) by blast
  moreover have "idx ! m < length nums" using m(3) bound [OF m(2)] by simp
  ultimately show ?thesis using m(1) by blast
qed

lemma merge_loop_sorts:
  assumes "merge_inv nums nthr tnum idx snums" "length nums = nthr * tnum" "\<forall>x \<in> set nums. x < LONG_MAX"
    "\<forall>i < nthr. sorted (part nums tnum i)" "length snums + n = length nums"
  shows "\<exists>out. merge_loop nums nthr tnum n idx mi snums = Inr out \<and> sorted out \<and> mset out = mset nums"
  using assms(1,5)
proof (induction n arbitrary: idx mi snums)
  case 0
  have "size (mset snums + (\<Sum>i<nthr. mset (left_of nums tnum idx i))) = size (mset nums)" using 0 by (simp add: merge_inv_def)
  then have "size (\<Sum>i<nthr. mset (left_of nums tnum idx i)) = 0" using 0(2) by simp
  then have "(\<Sum>i<nthr. mset (left_of nums tnum idx i)) = {#}" by (simp only: size_eq_0_iff_empty)
  with 0 show ?case by (simp add: merge_inv_def)
next
  case (Suc n)
  then have "length snums < length nums" by simp
  from merge_inv_step [OF Suc.prems(1) assms(2-4) this, of mi] obtain num m where
    m: "merge_min nums tnum idx nthr (LONG_MAX, mi) = (num, Some m)" "idx ! m < length nums"
      "merge_inv nums nthr tnum (idx[m := Suc (idx ! m)]) (snums @ [nums ! (idx ! m)])" by blast
  from Suc.IH [OF m(3), of "Some m"] Suc.prems(2) m(1,2) show ?case by simp
qed

lemma parts_whole: "n * tnum \<le> length nums \<Longrightarrow> (\<Sum>i<n. mset (part nums tnum i)) = mset (take (n * tnum) nums)"
proof (induction n)
  case (Suc n)
  have "take (Suc n * tnum) nums = take (n * tnum) nums @ part nums tnum n"
    using take_add [of "n * tnum" tnum nums] by (simp add: part_def add.commute)
  with Suc show ?case by simp
qed simp

lemma merge_parts_sorts:
  assumes "length nums = nthr * tnum" "\<forall>x \<in> set nums. x < LONG_MAX" "\<forall>i < nthr. sorted (part nums tnum i)"
  shows "merge_parts nthr tnum nums = Inr (sort nums)"
proof -
  let ?idx = "map (\<lambda>i. i * tnum) [0..<nthr]"
  have ok: "idx_ok nthr tnum ?idx" by (simp add: idx_ok_def)
  have "left_of nums tnum ?idx i = part nums tnum i" if "i < nthr" for i using that by (simp add: left_of_part)
  then have "(\<Sum>i<nthr. mset (left_of nums tnum ?idx i)) = mset nums" using parts_whole [of nthr tnum nums] assms(1) by simp
  with ok have "merge_inv nums nthr tnum ?idx []" by (simp add: merge_inv_def)
  from merge_loop_sorts [OF this assms, of "nthr * tnum" None] assms(1) obtain out where
    out: "merge_parts nthr tnum nums = Inr out" "sorted out" "mset out = mset nums" by (auto simp: merge_parts_def)
  have "sort nums = out" by (rule properties_for_sort [OF out(3,2)])
  with out(1) show ?thesis by simp
qed

section \<open>The threads\<close>

text \<open>What the program relies on of \<open>heapsort\<close>: it sorts by the comparison it is given.\<close>

definition sorts :: "((int \<Rightarrow> int \<Rightarrow> int) \<Rightarrow> int list \<Rightarrow> int list) \<Rightarrow> bool" where
  "sorts heapsort \<longleftrightarrow> (\<forall>xs. mset (heapsort complong xs) = mset xs \<and> sorted_wrt (\<lambda>a b. complong a b \<le> 0) (heapsort complong xs))"

lemma sortsD:
  assumes "sorts heapsort"
  shows "mset (heapsort complong xs) = mset xs" "sorted (heapsort complong xs)" "length (heapsort complong xs) = length xs"
proof -
  show m: "mset (heapsort complong xs) = mset xs" using assms by (simp add: sorts_def)
  show "length (heapsort complong xs) = length xs" using arg_cong [OF m, of size] by simp
  have "complong a b \<le> 0 \<longleftrightarrow> a \<le> b" for a b by (auto simp: complong_def)
  with assms show "sorted (heapsort complong xs)" by (simp add: sorts_def)
qed

lemma thr_fn_props:
  assumes "sorts heapsort" "length nums = nthr * tnum" "i < nthr"
  shows "length (thr_fn heapsort tnum (i * tnum) nums) = length nums" "mset (thr_fn heapsort tnum (i * tnum) nums) = mset nums"
    "j < nthr \<Longrightarrow> part (thr_fn heapsort tnum (i * tnum) nums) tnum j = (if j = i then heapsort complong (part nums tnum i) else part nums tnum j)"
proof -
  let ?a = "take (i * tnum) nums" and ?b = "take tnum (drop (i * tnum) nums)" and ?c = "drop (i * tnum + tnum) nums"
  have le: "Suc i * tnum \<le> nthr * tnum" by (rule mult_le_mono1) (use assms(3) in simp)
  have nums: "nums = ?a @ ?b @ ?c" by (metis add.commute append_take_drop_id drop_drop)
  have l: "length ?a = i * tnum" "length ?b = tnum" using assms(2) le by auto
  note h = sortsD [OF assms(1), of ?b]
  have t: "thr_fn heapsort tnum (i * tnum) nums = ?a @ heapsort complong ?b @ ?c" by (simp add: thr_fn_def)
  show "length (thr_fn heapsort tnum (i * tnum) nums) = length nums" unfolding t by (subst (4) nums) (use h(3) in simp)
  show "mset (thr_fn heapsort tnum (i * tnum) nums) = mset nums" unfolding t by (subst (4) nums) (use h(1) in simp)
  assume j: "j < nthr"
  show "part (thr_fn heapsort tnum (i * tnum) nums) tnum j = (if j = i then heapsort complong (part nums tnum i) else part nums tnum j)"
  proof (cases j i rule: linorder_cases)
    case less
    then have "Suc j * tnum \<le> i * tnum" by (intro mult_le_mono1) simp
    then have le: "j * tnum + tnum \<le> i * tnum" by simp
    then have "tnum \<le> length (drop (j * tnum) ?a)" using l(1) by simp
    then have "part (thr_fn heapsort tnum (i * tnum) nums) tnum j = take tnum (drop (j * tnum) ?a)"
      unfolding t part_def using l(1) le by simp
    also have "\<dots> = part nums tnum j" using le by (simp add: part_def drop_take min_absorb1)
    finally show ?thesis using less by simp
  next
    case equal
    then show ?thesis unfolding t part_def using l h(3) by simp
  next
    case greater
    then have "Suc i * tnum \<le> j * tnum" by (intro mult_le_mono1) simp
    then have "drop (j * tnum) (?a @ heapsort complong ?b @ ?c) = drop (j * tnum) nums" using l h(3) greater by simp
    then show ?thesis unfolding t part_def using greater by simp
  qed
qed

lemma threads_sort_parts:
  assumes "sorts heapsort" "length nums = nthr * tnum" "distinct order" "set order \<subseteq> {..<nthr}"
  defines "res \<equiv> fold (\<lambda>i. thr_fn heapsort tnum (i * tnum)) order nums"
  shows "length res = length nums \<and> mset res = mset nums \<and>
    (\<forall>j < nthr. part res tnum j = (if j \<in> set order then heapsort complong (part nums tnum j) else part nums tnum j))"
  using assms(2-4) unfolding res_def
proof (induction order arbitrary: nums)
  case (Cons i order)
  let ?n = "thr_fn heapsort tnum (i * tnum) nums"
  have i: "i < nthr" using Cons.prems by simp
  note p = thr_fn_props [OF assms(1) Cons.prems(1) i]
  have "length ?n = nthr * tnum" "distinct order" "set order \<subseteq> {..<nthr}" using p(1) Cons.prems by auto
  from Cons.IH [OF this] p Cons.prems(2) show ?case by auto
qed simp

section \<open>Property\<close>

text \<open>C32: the program sorts. Whatever order the threads finish in, and for every library \<open>heapsort\<close> that
  sorts by the comparison it is given and does not fail: when all numbers are below \<open>LONG_MAX\<close>, the
  merge ends without reading outside the array or an unset variable, and its result is the
  sorted array. The barrier is the library's: the merge starts when all threads have reached it.\<close>

theorem barrier_sorts:
  assumes "sorts heapsort" "length nums = nthr * tnum" "distinct order" "set order = {..<nthr}" "\<forall>x \<in> set nums. x < LONG_MAX"
  shows "barrier_main heapsort nthr tnum order nums = Inr (sort nums)"
proof -
  let ?r = "fold (\<lambda>i. thr_fn heapsort tnum (i * tnum)) order nums"
  have p: "length ?r = length nums" "mset ?r = mset nums" "\<forall>j < nthr. part ?r tnum j = heapsort complong (part nums tnum j)"
    using threads_sort_parts [OF assms(1-3)] assms(4) by auto
  have "set ?r = set nums" using p(2) by (rule mset_eq_setD)
  then have "merge_parts nthr tnum ?r = Inr (sort ?r)"
    by (intro merge_parts_sorts) (use p assms(2,5) sortsD(2) [OF assms(1)] in auto)
  moreover have "sort ?r = sort nums" by (rule properties_for_sort) (simp_all add: p(2))
  ultimately show ?thesis by (simp add: barrier_main_def)
qed

lemma insertion_sorts: "sorts (\<lambda>cmp. sort)"
proof -
  have "sorted_wrt (\<lambda>a b. complong a b \<le> 0) (sort xs)" for xs
    by (rule sorted_wrt_mono_rel [OF _ sorted_sort]) (auto simp: complong_def)
  then show ?thesis by (simp add: sorts_def)
qed

theorem barrier_sorts_witness: "barrier_main (\<lambda>cmp. sort) 3 2 [2, 0, 1] [5, 3, 9, -1, 7, 3] = Inr [-1, 3, 3, 5, 7, 9]"
  using barrier_sorts [OF insertion_sorts, of "[5, 3, 9, -1, 7, 3]" 3 2 "[2, 0, 1]"] by (auto simp: lessThan_nat_numeral lessThan_Suc)

text \<open>With \<open>LONG_MAX\<close> among the numbers the comparison never chooses its part.\<close>

lemma merge_long_max: "merge_parts 2 1 [LONG_MAX, 5] = Inl (Undefined ''nums'')" "merge_parts 1 1 [LONG_MAX] = Inl (Undefined ''minidx'')"
  by (simp_all add: merge_parts_def upt_rec eval_nat_numeral)

end
