(* ===== verification/My_Barrier.thy ===== *)
theory My_Barrier
  imports Step_System "HOL-Library.Word"
begin

text \<open>
  The barrier of \<open>mytests/threads/Ex11_5.barrier_wait.c\<close>: a counter of the threads that have not
  arrived, with a mutex and a condition variable. The threads are interleaved between their
  critical sections, which end where \<open>pthread_cond_wait\<close> releases the mutex.
\<close>

section \<open>Program\<close>

abbreviation MY_BARRIER_SERIAL_THREAD :: int where "MY_BARRIER_SERIAL_THREAD \<equiv> -1"
abbreviation BAR_EINVAL :: int where "BAR_EINVAL \<equiv> 22"

text \<open>Where a thread is: before the call, asleep, awake but not yet with the mutex again, returned.\<close>

datatype bpc = Arrive | BAsleep | BWoken | BRet int

record my_barrier =
  b_count :: "32 word"
  b_pc :: "nat \<Rightarrow> bpc"

text \<open>\<open>mrc\<close> and \<open>crc\<close> are the results of \<open>pthread_mutex_init\<close> and \<open>pthread_cond_init\<close>.\<close>

definition my_barrier_init :: "int \<Rightarrow> int \<Rightarrow> bool \<Rightarrow> 32 word \<Rightarrow> my_barrier \<Rightarrow> int \<times> my_barrier" where
  "my_barrier_init mrc crc isnull count b =
     (if isnull \<or> count = 0 then (BAR_EINVAL, b)
      else if mrc \<noteq> 0 then (mrc, b)
      else if crc \<noteq> 0 then (crc, b)
      else (0, b\<lparr>b_count := count\<rparr>))"

definition bar_broadcast :: "my_barrier \<Rightarrow> my_barrier" where
  "bar_broadcast b = b\<lparr>b_pc := (\<lambda>p. if b_pc b p = BAsleep then BWoken else b_pc b p)\<rparr>"

text \<open>
  \<open>my_barrier_wait\<close> by thread \<open>p\<close>: from the call to the first sleep or to the return, and from
  an awakening to the next sleep or to the return.
\<close>

definition my_barrier_wait :: "nat \<Rightarrow> my_barrier \<Rightarrow> my_barrier" where
  "my_barrier_wait p b =
     (let b1 = b\<lparr>b_count := b_count b - 1\<rparr> in
      if b_count b1 = 0 then (bar_broadcast b1)\<lparr>b_pc := (b_pc (bar_broadcast b1))(p := BRet MY_BARRIER_SERIAL_THREAD)\<rparr>
      else if b_count b1 > 0 then b1\<lparr>b_pc := (b_pc b1)(p := BAsleep)\<rparr>
      else b1\<lparr>b_pc := (b_pc b1)(p := BRet 0)\<rparr>)"

definition my_barrier_awake :: "nat \<Rightarrow> my_barrier \<Rightarrow> my_barrier" where
  "my_barrier_awake p b = (if b_count b > 0 then b\<lparr>b_pc := (b_pc b)(p := BAsleep)\<rparr> else b\<lparr>b_pc := (b_pc b)(p := BRet 0)\<rparr>)"

definition my_barrier_destroy :: "int \<Rightarrow> int \<Rightarrow> my_barrier \<Rightarrow> int \<times> my_barrier" where
  "my_barrier_destroy crc mrc b = (if crc \<noteq> 0 then (crc, b) else if mrc \<noteq> 0 then (mrc, b) else (0, b\<lparr>b_count := 0\<rparr>))"

inductive bar_step :: "nat \<Rightarrow> my_barrier \<Rightarrow> my_barrier \<Rightarrow> bool" for n where
  arrive: "p < n \<Longrightarrow> b_pc b p = Arrive \<Longrightarrow> bar_step n b (my_barrier_wait p b)"
| awake: "p < n \<Longrightarrow> b_pc b p = BWoken \<Longrightarrow> bar_step n b (my_barrier_awake p b)"
| spurious: "p < n \<Longrightarrow> b_pc b p = BAsleep \<Longrightarrow> bar_step n b (b\<lparr>b_pc := (b_pc b)(p := BWoken)\<rparr>)"

definition bar_init :: "nat \<Rightarrow> my_barrier \<Rightarrow> bool" where
  "bar_init n b \<longleftrightarrow> (\<exists>b0. my_barrier_init 0 0 False (of_nat n) b0 = (0, b)) \<and> (\<forall>p. b_pc b p = Arrive)"

abbreviation bar_reachable :: "nat \<Rightarrow> my_barrier \<Rightarrow> bool" where
  "bar_reachable n \<equiv> reachable (bar_init n) (bar_step n)"

section \<open>Invariant\<close>

definition waiting_for :: "nat \<Rightarrow> my_barrier \<Rightarrow> nat set" where
  "waiting_for n b = {p. p < n \<and> b_pc b p = Arrive}"

definition serial :: "nat \<Rightarrow> my_barrier \<Rightarrow> nat set" where
  "serial n b = {p. p < n \<and> b_pc b p = BRet MY_BARRIER_SERIAL_THREAD}"

definition bar_inv :: "nat \<Rightarrow> my_barrier \<Rightarrow> bool" where
  "bar_inv n b \<longleftrightarrow> unat (b_count b) = card (waiting_for n b) \<and>
     (b_count b > 0 \<longrightarrow> (\<forall>p < n. \<forall>r. b_pc b p \<noteq> BRet r)) \<and>
     (b_count b = 0 \<longrightarrow> (\<forall>p < n. b_pc b p \<noteq> BAsleep) \<and> card (serial n b) = 1)"

lemma waiting_arrived:
  assumes "p < n" "b_pc b p = Arrive" "x \<noteq> Arrive" "\<And>q. q \<noteq> p \<Longrightarrow> b_pc b' q = Arrive \<longleftrightarrow> b_pc b q = Arrive" "b_pc b' p = x"
  shows "card (waiting_for n b) = Suc (card (waiting_for n b'))"
proof -
  have "waiting_for n b = insert p (waiting_for n b')" "p \<notin> waiting_for n b'" "finite (waiting_for n b')"
    using assms by (auto simp: waiting_for_def) (metis assms(4))+
  then show ?thesis by simp
qed

lemma bar_step_inv:
  assumes "bar_step n b b'" "bar_inv n b"
  shows "bar_inv n b'"
  using assms(1)
proof cases
  case (arrive p)
  have c: "card (waiting_for n b) = Suc (card (waiting_for n b'))"
    by (rule waiting_arrived [OF arrive(2,3)]) (auto simp: arrive(1) my_barrier_wait_def bar_broadcast_def Let_def)
  then have u: "unat (b_count b) = Suc (card (waiting_for n b'))" using assms(2) by (simp add: bar_inv_def)
  then have ne: "b_count b \<noteq> 0" by auto
  then have u': "unat (b_count b - 1) = card (waiting_for n b')" using u by (simp add: unat_minus_one)
  have pos: "b_count b > 0" using ne by (simp add: word_gt_0)
  then have noret: "\<forall>q < n. \<forall>r. b_pc b q \<noteq> BRet r" using assms(2) by (simp add: bar_inv_def)
  show ?thesis
  proof (cases "b_count b - 1 = 0")
    case True
    then have b': "b_count b' = 0" "b_pc b' = (\<lambda>q. if b_pc b q = BAsleep then BWoken else b_pc b q)(p := BRet (-1))"
      by (simp_all add: arrive(1) my_barrier_wait_def bar_broadcast_def Let_def cong: if_cong)
    have "serial n b' = {p}" using noret arrive(2) by (auto simp: serial_def b'(2))
    with b' u' True show ?thesis by (auto simp: bar_inv_def)
  next
    case False
    then have "b_count b' = b_count b - 1" "b_pc b' = (b_pc b)(p := BAsleep)" "b_count b - 1 > 0"
      by (simp_all add: arrive(1) my_barrier_wait_def word_gt_0)
    with False u' noret show ?thesis by (auto simp: bar_inv_def)
  qed
next
  case (awake p)
  then have "b_pc b' = (b_pc b)(p := (if b_count b > 0 then BAsleep else BRet 0))" "b_count b' = b_count b"
    by (simp_all add: my_barrier_awake_def)
  moreover from this awake have "waiting_for n b' = waiting_for n b" "serial n b' = serial n b"
    by (auto simp: waiting_for_def serial_def)
  ultimately show ?thesis using assms(2) awake(2,3) by (auto simp: bar_inv_def word_gt_0)
next
  case (spurious p)
  then have "waiting_for n b' = waiting_for n b" "serial n b' = serial n b" by (auto simp: waiting_for_def serial_def)
  with assms(2) spurious show ?thesis by (auto simp: bar_inv_def)
qed

interpretation bar_sys: step_invariant "bar_init n" "bar_step n" "\<lambda>b. n < 2 ^ 32 \<longrightarrow> bar_inv n b" for n
proof (unfold_locales, goal_cases)
  case (1 b)
  then have "b_count b = of_nat n" "b_count b \<noteq> 0" by (auto simp: bar_init_def my_barrier_init_def split: if_splits)
  moreover have "waiting_for n b = {..<n}" using 1 by (auto simp: bar_init_def waiting_for_def)
  ultimately show ?case using 1 by (simp add: bar_inv_def bar_init_def unat_of_nat)
next
  case (2 b b')
  then show ?case using bar_step_inv by blast
qed

section \<open>Property\<close>

text \<open>C34: the barrier holds everybody back and then lets everybody go. With \<open>n\<close> threads, in any
  interleaving and with any spurious wake-ups: no thread returns before all have arrived; once
  all have arrived no thread sleeps, so that each has returned or returns when it gets the
  mutex, with the result 0; and exactly one thread has returned as the serial thread.\<close>

theorem barrier_all_together:
  assumes "bar_reachable n b" "n < 2 ^ 32"
  shows "((\<exists>p < n. \<exists>r. b_pc b p = BRet r) \<longrightarrow> (\<forall>p < n. b_pc b p \<noteq> Arrive)) \<and>
    ((\<forall>p < n. b_pc b p \<noteq> Arrive) \<longrightarrow>
      (\<forall>p < n. (\<exists>r. b_pc b p = BRet r) \<or> b_pc b p = BWoken \<and> b_pc (my_barrier_awake p b) p = BRet 0) \<and>
      (\<exists>!p. p < n \<and> b_pc b p = BRet MY_BARRIER_SERIAL_THREAD))"
proof -
  have inv: "bar_inv n b" using bar_sys.reachable_inv [OF assms(1)] assms(2) by blast
  show ?thesis
  proof (intro conjI impI)
    assume "\<exists>p < n. \<exists>r. b_pc b p = BRet r"
    with inv have "b_count b = 0" by (auto simp: bar_inv_def word_gt_0)
    with inv have "card (waiting_for n b) = 0" by (simp add: bar_inv_def)
    then show "\<forall>p < n. b_pc b p \<noteq> Arrive" by (auto simp: waiting_for_def)
  next
    assume all: "\<forall>p < n. b_pc b p \<noteq> Arrive"
    then have "waiting_for n b = {}" by (auto simp: waiting_for_def)
    with inv have z: "b_count b = 0" by (simp add: bar_inv_def unat_eq_0)
    show "\<forall>p < n. (\<exists>r. b_pc b p = BRet r) \<or> b_pc b p = BWoken \<and> b_pc (my_barrier_awake p b) p = BRet 0"
    proof (intro allI impI)
      fix p
      assume "p < n"
      with inv z all have "b_pc b p \<noteq> Arrive" "b_pc b p \<noteq> BAsleep" by (auto simp: bar_inv_def)
      with z show "(\<exists>r. b_pc b p = BRet r) \<or> b_pc b p = BWoken \<and> b_pc (my_barrier_awake p b) p = BRet 0"
        by (cases "b_pc b p") (simp_all add: my_barrier_awake_def)
    qed
    have "card (serial n b) = 1" using inv z by (simp add: bar_inv_def)
    then obtain p where "serial n b = {p}" by (rule card_1_singletonE)
    then have "\<And>q. q < n \<and> b_pc b q = BRet MY_BARRIER_SERIAL_THREAD \<longleftrightarrow> q = p" unfolding serial_def by blast
    then show "\<exists>!p. p < n \<and> b_pc b p = BRet MY_BARRIER_SERIAL_THREAD" by simp
  qed
qed

theorem barrier_all_together_witness:
  "\<exists>b. bar_reachable 2 b \<and> (\<forall>p < 2. b_pc b p \<noteq> Arrive) \<and> (\<exists>!p. p < 2 \<and> b_pc b p = BRet MY_BARRIER_SERIAL_THREAD)"
proof -
  let ?b0 = "\<lparr>b_count = 2, b_pc = (\<lambda>_. Arrive)\<rparr>"
  let ?b1 = "my_barrier_wait 0 ?b0"
  let ?b2 = "my_barrier_wait 1 ?b1"
  have "bar_reachable 2 ?b0" by (rule reachable.start) (auto simp: bar_init_def my_barrier_init_def intro: exI [of _ ?b0])
  then have "bar_reachable 2 ?b1" by (rule reachable.step) (rule bar_step.arrive; simp)
  then have r: "bar_reachable 2 ?b2" by (rule reachable.step) (rule bar_step.arrive; simp add: my_barrier_wait_def)
  have all: "\<forall>p < 2. b_pc ?b2 p \<noteq> Arrive"
    by (auto simp: my_barrier_wait_def bar_broadcast_def Let_def less_2_cases_iff)
  with barrier_all_together [OF r] have "\<exists>!p. p < 2 \<and> b_pc ?b2 p = BRet MY_BARRIER_SERIAL_THREAD" by simp
  with r all show ?thesis by blast
qed

text \<open>A used barrier cannot be used again: the counter wraps and the caller sleeps.\<close>

lemma barrier_not_reusable:
  "b_count b = 0 \<Longrightarrow> my_barrier_wait p b = b\<lparr>b_count := - 1, b_pc := (b_pc b)(p := BAsleep)\<rparr>"
  by (simp add: my_barrier_wait_def word_gt_0)

end
