(* ===== verification/Popen.thy ===== *)
theory Popen
  imports Apue_Prelude
begin

text \<open>
  \<open>popen\<close> and \<open>pclose\<close> of \<open>lib/popen.c\<close>: the descriptor tables of the caller and of the child, the
  array that remembers which child belongs to which descriptor, and the waiting for it.
\<close>

section \<open>State\<close>

text \<open>What a descriptor refers to: an end of the \<open>k\<close>-th pipe, or something else.\<close>

datatype fdref = PipeRead nat | PipeWrite nat | OtherFile nat

type_synonym fdtab = "nat \<rightharpoonup> fdref"

text \<open>
  \<open>kids\<close> are the children that have not been waited for, with the status with which they end.
  The results of the coming system calls are given by the other components: \<open>openmax\<close> is what
  \<open>open_max\<close> returns, \<open>callocs\<close> whether \<open>calloc\<close> succeeds, \<open>pipes\<close> whether \<open>pipe\<close> does, \<open>forks\<close> the
  process ID that \<open>fork\<close> returns with the status of the child, \<open>fdopens\<close> whether \<open>fdopen\<close> succeeds,
  \<open>fcloses\<close> whether \<open>fclose\<close> does, \<open>intrs\<close> how often \<open>waitpid\<close> is interrupted.
\<close>

record popen_state =
  fds :: fdtab
  npipes :: nat
  childpid :: "int list option"
  maxfd :: nat
  p_errno :: int
  kids :: "int \<rightharpoonup> int"
  openmax :: nat
  calloc_ok :: bool
  pipe_ok :: bool
  fork_res :: "(int \<times> int) option"
  fdopen_ok :: bool
  fclose_ok :: bool
  intrs :: nat

abbreviation PO_EINVAL :: int where "PO_EINVAL \<equiv> 22"
abbreviation PO_EMFILE :: int where "PO_EMFILE \<equiv> 24"
abbreviation PO_ECHILD :: int where "PO_ECHILD \<equiv> 10"
abbreviation PO_EAGAIN :: int where "PO_EAGAIN \<equiv> 11"
abbreviation STDIN :: nat where "STDIN \<equiv> 0"
abbreviation STDOUT :: nat where "STDOUT \<equiv> 1"

definition set_perrno :: "int \<Rightarrow> (popen_state, unit) io" where
  "set_perrno e = modify_io (\<lambda>s. s\<lparr>p_errno := e\<rparr>)"

definition close_fd :: "nat \<Rightarrow> (popen_state, unit) io" where
  "close_fd fd = modify_io (\<lambda>s. s\<lparr>fds := (fds s)(fd := None)\<rparr>)"

text \<open>\<open>pipe\<close> takes the two lowest descriptors that are free.\<close>

definition pipe_fds :: "nat \<Rightarrow> (popen_state, (nat \<times> nat) option) io" where
  "pipe_fds limit s =
     (if \<not> pipe_ok s then Inr (None, s\<lparr>p_errno := PO_EMFILE\<rparr>)
      else case free_from (fds s) limit 0 of
        None \<Rightarrow> Inr (None, s\<lparr>p_errno := PO_EMFILE\<rparr>)
      | Some r \<Rightarrow>
          (case free_from (fds s) limit (Suc r) of
             None \<Rightarrow> Inr (None, s\<lparr>p_errno := PO_EMFILE\<rparr>)
           | Some w \<Rightarrow>
               Inr (Some (r, w), s\<lparr>fds := (fds s)(r \<mapsto> PipeRead (npipes s), w \<mapsto> PipeWrite (npipes s)), npipes := Suc (npipes s)\<rparr>)))"

section \<open>The functions\<close>

text \<open>What the child does to its copy of the table before it runs the command.\<close>

definition dup2_close :: "nat \<Rightarrow> nat \<Rightarrow> fdtab \<Rightarrow> fdtab" where
  "dup2_close fd target t = (if fd \<noteq> target then (t(target := t fd))(fd := None) else t)"

fun close_children :: "int list \<Rightarrow> nat \<Rightarrow> fdtab \<Rightarrow> fdtab" where
  "close_children [] i t = t"
| "close_children (c # cs) i t = close_children cs (Suc i) (if c > 0 then t(i := None) else t)"

definition popen_child :: "char \<Rightarrow> nat \<times> nat \<Rightarrow> int list \<Rightarrow> fdtab \<Rightarrow> fdtab" where
  "popen_child type pfd cp t =
     close_children cp 0
       (if type = CHR ''r'' then dup2_close (snd pfd) STDOUT (t(fst pfd := None))
        else dup2_close (fst pfd) STDIN (t(snd pfd := None)))"

text \<open>The array is allocated by the first call.\<close>

definition popen_array :: "(popen_state, bool) io" where
  "popen_array s =
     (if childpid s = None then
        let s1 = s\<lparr>maxfd := openmax s\<rparr> in
        if calloc_ok s then Inr (True, s1\<lparr>childpid := Some (replicate (openmax s) 0)\<rparr>) else Inr (False, s1)
      else Inr (True, s))"

text \<open>
  The caller: the descriptor of the stream, with the table that the child runs the command
  with. \<open>popen_parent\<close> is the caller after the \<open>fork\<close>.
\<close>

definition popen_parent :: "string \<Rightarrow> nat \<times> nat \<Rightarrow> int \<Rightarrow> (popen_state, nat option) io" where
  "popen_parent type pfd pid =
     (let (other, mine) = (if type = ''r'' then (snd pfd, fst pfd) else pfd) in
      seq_io (close_fd other)
     (bind_io (gets_io fdopen_ok) (\<lambda>ok.
      if \<not> ok then ret_io None
      else seq_io (modify_io (\<lambda>s. s\<lparr>childpid := Some ((the (childpid s))[mine := pid])\<rparr>)) (ret_io (Some mine)))))"

definition popen :: "nat \<Rightarrow> string \<Rightarrow> (popen_state, (nat \<times> fdtab) option) io" where
  "popen limit type =
     (if type \<noteq> ''r'' \<and> type \<noteq> ''w'' then seq_io (set_perrno PO_EINVAL) (ret_io None)
      else
        bind_io popen_array (\<lambda>ok.
        if \<not> ok then ret_io None
        else bind_io (pipe_fds limit) (\<lambda>p. case p of
          None \<Rightarrow> ret_io None
        | Some (r, w) \<Rightarrow>
            bind_io (gets_io maxfd) (\<lambda>mx.
            if mx \<le> r \<or> mx \<le> w then seq_io (close_fd r) (seq_io (close_fd w) (seq_io (set_perrno PO_EMFILE) (ret_io None)))
            else bind_io (gets_io fork_res) (\<lambda>f. case f of
              None \<Rightarrow> seq_io (set_perrno PO_EAGAIN) (ret_io None)
            | Some (pid, status) \<Rightarrow>
                bind_io (gets_io (\<lambda>s. popen_child (hd type) (r, w) (the (childpid s)) (fds s))) (\<lambda>child.
                seq_io (modify_io (\<lambda>s. s\<lparr>kids := (kids s)(pid \<mapsto> status)\<rparr>))
               (bind_io (popen_parent type (r, w) pid) (\<lambda>fd. ret_io (map_option (\<lambda>fd. (fd, child)) fd)))))))))"

text \<open>The loop around \<open>waitpid\<close>, which is interrupted \<open>n\<close> times.\<close>

fun wait_child :: "nat \<Rightarrow> int \<Rightarrow> (popen_state, int) io" where
  "wait_child (Suc n) pid = wait_child n pid"
| "wait_child 0 pid = (\<lambda>s. case kids s pid of
     None \<Rightarrow> Inr (-1, s\<lparr>p_errno := PO_ECHILD\<rparr>)
   | Some status \<Rightarrow> Inr (status, s\<lparr>kids := (kids s)(pid := None)\<rparr>))"

definition pclose :: "nat \<Rightarrow> (popen_state, int) io" where
  "pclose fd =
     bind_io (gets_io childpid) (\<lambda>cp. case cp of
       None \<Rightarrow> seq_io (set_perrno PO_EINVAL) (ret_io (-1))
     | Some arr \<Rightarrow>
         bind_io (gets_io maxfd) (\<lambda>mx.
         if mx \<le> fd then seq_io (set_perrno PO_EINVAL) (ret_io (-1))
         else let pid = arr ! fd in
         if pid = 0 then seq_io (set_perrno PO_EINVAL) (ret_io (-1))
         else
           seq_io (modify_io (\<lambda>s. s\<lparr>childpid := Some (arr[fd := 0])\<rparr>))
          (seq_io (close_fd fd)
          (bind_io (gets_io fclose_ok) (\<lambda>fc.
           if \<not> fc then ret_io (-1)
           else bind_io (gets_io intrs) (\<lambda>n. wait_child n pid))))))"

section \<open>What the functions do\<close>

definition children :: "popen_state \<Rightarrow> int list" where
  "children s = (case childpid s of None \<Rightarrow> replicate (openmax s) 0 | Some arr \<Rightarrow> arr)"

text \<open>Every descriptor that the array remembers is open, and the array has its size.\<close>

definition po_ok :: "popen_state \<Rightarrow> bool" where
  "po_ok s \<longleftrightarrow> (childpid s \<noteq> None \<longrightarrow> length (children s) = maxfd s) \<and>
     (\<forall>i < length (children s). children s ! i = 0 \<or> 0 < children s ! i \<and> fds s i \<noteq> None)"

lemma close_children_apply:
  "close_children cs i t x = (if i \<le> x \<and> x < i + length cs \<and> 0 < cs ! (x - i) then None else t x)"
proof (induction cs i t rule: close_children.induct)
  case (2 c cs i t)
  then show ?case by (cases "x = i") (auto simp: nth_Cons' Suc_diff_le)
qed auto

lemma pipe_fds_run:
  assumes "pipe_fds limit s = Inr (Some (r, w), s')"
  shows "r < w" "fds s r = None" "fds s w = None"
    "s' = s\<lparr>fds := (fds s)(r \<mapsto> PipeRead (npipes s), w \<mapsto> PipeWrite (npipes s)), npipes := Suc (npipes s)\<rparr>"
  using assms by (auto simp: pipe_fds_def split: if_splits option.splits dest!: free_from_free)

lemma wait_child_run: "kids s pid = Some status \<Longrightarrow> wait_child n pid s = Inr (status, s\<lparr>kids := (kids s)(pid := None)\<rparr>)"
  by (induction n) auto

definition array_size :: "popen_state \<Rightarrow> nat" where
  "array_size s = (if childpid s = None then openmax s else maxfd s)"

definition both_ends :: "popen_state \<Rightarrow> nat \<Rightarrow> nat \<Rightarrow> fdtab" where
  "both_ends s r w = (fds s)(r \<mapsto> PipeRead (npipes s), w \<mapsto> PipeWrite (npipes s))"

lemma popen_run:
  assumes "popen limit type s = Inr (Some (fd, child), s1)" "fork_res s = Some (pid, status)"
  obtains r w where "type = ''r'' \<and> fd = r \<or> type = ''w'' \<and> fd = w" "r < w" "fds s r = None" "fds s w = None" "w < array_size s"
    "child = popen_child (hd type) (r, w) (children s) (both_ends s r w)"
    "fds s1 = (both_ends s r w)((if type = ''r'' then w else r) := None)" "childpid s1 = Some ((children s)[fd := pid])"
    "kids s1 = (kids s)(pid \<mapsto> status)" "maxfd s1 = array_size s" "fclose_ok s1 = fclose_ok s" "intrs s1 = intrs s"
proof -
  have ty: "type = ''r'' \<or> type = ''w''" using assms(1) by (auto simp: popen_def set_perrno_def io_simps split: if_splits)
  let ?s = "s\<lparr>maxfd := array_size s, childpid := Some (children s)\<rparr>"
  have arr: "popen_array s = Inr (True, ?s)"
    using assms(1) ty by (auto simp: popen_def popen_array_def io_simps array_size_def children_def Let_def split: if_splits)
  obtain r w s2 where p: "pipe_fds limit ?s = Inr (Some (r, w), s2)"
    using assms(1) ty arr by (auto simp: popen_def io_simps split: sum.splits option.splits)
  note q = pipe_fds_run [OF p]
  have size: "r < array_size s" "w < array_size s"
    using assms(1) ty arr p q(4) by (auto simp: popen_def io_simps close_fd_def set_perrno_def split: if_splits)
  have fo: "fdopen_ok s" using assms ty arr p q(4) size
    by (auto simp: popen_def popen_parent_def io_simps close_fd_def split: if_splits)
  have "type = ''r'' \<and> fd = r \<or> type = ''w'' \<and> fd = w" "child = popen_child (hd type) (r, w) (children s) (both_ends s r w)"
    "fds s1 = (both_ends s r w)((if type = ''r'' then w else r) := None)" "childpid s1 = Some ((children s)[fd := pid])"
    "kids s1 = (kids s)(pid \<mapsto> status)" "maxfd s1 = array_size s" "fclose_ok s1 = fclose_ok s" "intrs s1 = intrs s"
    using assms ty arr p q(4) size fo by (auto simp: popen_def popen_parent_def io_simps close_fd_def both_ends_def)
  with q(1-3) size show thesis by (intro that [of r w]) auto
qed

text \<open>The table of the child, when the caller's standard streams do not come from \<open>popen\<close>.\<close>

lemma popen_child_read:
  fixes a b :: fdref and r w :: nat
  assumes "r < w" "length cp > 1" "cp ! 0 = 0" "cp ! 1 = 0" "\<forall>i < length cp. cp ! i = 0 \<or> 0 < cp ! i \<and> t i \<noteq> None" "t r = None" "t w = None"
  defines "c \<equiv> popen_child CHR ''r'' (r, w) cp (t(r \<mapsto> a, w \<mapsto> b))"
  shows "c STDOUT = Some b" "\<forall>fd. fd \<noteq> STDOUT \<longrightarrow> c fd = (if fd < length cp \<and> cp ! fd \<noteq> 0 then None else t fd)"
proof -
  have n: "r < length cp \<Longrightarrow> cp ! r = 0" "w < length cp \<Longrightarrow> cp ! w = 0" using assms(5-7) by auto
  have z: "cp ! Suc 0 = 0" using assms(4) by simp
  show "c STDOUT = Some b" using assms(1-4) z by (auto simp: c_def popen_child_def close_children_apply dup2_close_def)
  show "\<forall>fd. fd \<noteq> STDOUT \<longrightarrow> c fd = (if fd < length cp \<and> cp ! fd \<noteq> 0 then None else t fd)"
    using assms(1,5-7) n by (auto simp: c_def popen_child_def close_children_apply dup2_close_def)
qed

lemma popen_child_write:
  fixes a b :: fdref and r w :: nat
  assumes "r < w" "length cp > 1" "cp ! 0 = 0" "cp ! 1 = 0" "\<forall>i < length cp. cp ! i = 0 \<or> 0 < cp ! i \<and> t i \<noteq> None" "t r = None" "t w = None"
  defines "c \<equiv> popen_child CHR ''w'' (r, w) cp (t(r \<mapsto> a, w \<mapsto> b))"
  shows "c STDIN = Some a" "\<forall>fd. fd \<noteq> STDIN \<longrightarrow> c fd = (if fd < length cp \<and> cp ! fd \<noteq> 0 then None else t fd)"
proof -
  have n: "r < length cp \<Longrightarrow> cp ! r = 0" "w < length cp \<Longrightarrow> cp ! w = 0" using assms(5-7) by auto
  show "c STDIN = Some a" using assms(1-4) by (auto simp: c_def popen_child_def close_children_apply dup2_close_def)
  show "\<forall>fd. fd \<noteq> STDIN \<longrightarrow> c fd = (if fd < length cp \<and> cp ! fd \<noteq> 0 then None else t fd)"
    using assms(1,5-7) n by (auto simp: c_def popen_child_def close_children_apply dup2_close_def)
qed

section \<open>Property\<close>

text \<open>C30: \<open>popen\<close> connects, and \<open>pclose\<close> undoes it. When \<open>popen\<close> returns a stream, the child has the
  other end of the pipe as its standard output or input, none of the descriptors of other
  streams from \<open>popen\<close>, and otherwise the caller's descriptors (provided that the standard
  streams do not come from \<open>popen\<close> themselves). \<open>pclose\<close> then returns the status of that
  child, however often the wait is interrupted, and leaves the descriptors, the array
  and the other children as they were before.\<close>

theorem popen_pclose_roundtrip:
  assumes run: "popen limit type s = Inr (Some (fd, child), s1)" and f: "fork_res s = Some (pid, status)" "0 < pid" "kids s pid = None"
    and ok: "po_ok s" "1 < array_size s" "children s ! STDIN = 0" "children s ! STDOUT = 0" and fc: "fclose_ok s"
  shows "(if type = ''r'' then fds s1 fd = Some (PipeRead (npipes s)) \<and> child STDOUT = Some (PipeWrite (npipes s))
      else fds s1 fd = Some (PipeWrite (npipes s)) \<and> child STDIN = Some (PipeRead (npipes s))) \<and>
    (\<forall>x. x \<noteq> (if type = ''r'' then STDOUT else STDIN) \<longrightarrow> child x = (if x < array_size s \<and> children s ! x \<noteq> 0 then None else fds s x)) \<and>
    (\<exists>s2. pclose fd s1 = Inr (status, s2) \<and> fds s2 = fds s \<and> kids s2 = kids s \<and> childpid s2 = Some (children s))"
proof -
  obtain r w where p: "type = ''r'' \<and> fd = r \<or> type = ''w'' \<and> fd = w" "r < w" "fds s r = None" "fds s w = None" "w < array_size s"
    "child = popen_child (hd type) (r, w) (children s) (both_ends s r w)"
    "fds s1 = (both_ends s r w)((if type = ''r'' then w else r) := None)" "childpid s1 = Some ((children s)[fd := pid])"
    "kids s1 = (kids s)(pid \<mapsto> status)" "maxfd s1 = array_size s" "fclose_ok s1 = fclose_ok s" "intrs s1 = intrs s"
    by (rule popen_run [OF run f(1)])
  have len: "length (children s) = array_size s" using ok(1) by (auto simp: po_ok_def array_size_def children_def)
  have all: "\<forall>i < length (children s). children s ! i = 0 \<or> 0 < children s ! i \<and> fds s i \<noteq> None" using ok(1) by (simp add: po_ok_def)
  have l1: "1 < length (children s)" using ok(2) len by simp
  note pr = popen_child_read [OF p(2) l1 ok(3,4) all p(3,4), of "PipeRead (npipes s)" "PipeWrite (npipes s)"]
    and pw = popen_child_write [OF p(2) l1 ok(3,4) all p(3,4), of "PipeRead (npipes s)" "PipeWrite (npipes s)"]
  have fd: "fd < array_size s" "fds s fd = None" using p(1-5) by auto
  then have z: "children s ! fd = 0" using all len by auto
  have undo: "(fds s1)(fd := None) = fds s" using p(1-4,7) by (auto simp: both_ends_def fun_eq_iff)
  have "pclose fd s1 = Inr (status, s1\<lparr>childpid := Some (children s), fds := fds s, kids := kids s\<rparr>)" (is "_ = Inr (status, ?s2)")
    using p(8-12) fd len z f(2,3) fc undo list_update_id [of "children s" fd]
    by (simp add: pclose_def io_simps close_fd_def wait_child_run fun_upd_idem)
  moreover have "if type = ''r'' then fds s1 fd = Some (PipeRead (npipes s)) \<and> child STDOUT = Some (PipeWrite (npipes s))
      else fds s1 fd = Some (PipeWrite (npipes s)) \<and> child STDIN = Some (PipeRead (npipes s))"
    using p(1,2,6,7) pr(1) pw(1) by (auto simp: both_ends_def)
  moreover have "\<forall>x. x \<noteq> (if type = ''r'' then STDOUT else STDIN) \<longrightarrow> child x = (if x < array_size s \<and> children s ! x \<noteq> 0 then None else fds s x)"
    using p(1,6) pr(2) pw(2) len by (auto simp: both_ends_def)
  ultimately show ?thesis by (intro conjI exI [of _ ?s2]) simp_all
qed

text \<open>
  A program without standard input whose stream from \<open>popen\<close> has descriptor 0: the next child
  closes what it has just made its standard input.
\<close>

definition sample_popen :: "fdtab \<Rightarrow> int list \<Rightarrow> popen_state" where
  "sample_popen t cp = \<lparr>fds = t, npipes = 7, childpid = Some cp, maxfd = length cp, p_errno = 0, kids = Map.empty, openmax = length cp,
     calloc_ok = True, pipe_ok = True, fork_res = Some (41, 256), fdopen_ok = True, fclose_ok = True, intrs = 2\<rparr>"

theorem popen_pclose_roundtrip_witness:
  "\<exists>s1 s2 child. popen 5 ''r'' (sample_popen [0 \<mapsto> OtherFile 0, 1 \<mapsto> OtherFile 1] [0, 0, 0, 0]) = Inr (Some (2, child), s1) \<and>
     child STDOUT = Some (PipeWrite 7) \<and> pclose 2 s1 = Inr (256, s2) \<and> fds s2 = [0 \<mapsto> OtherFile 0, 1 \<mapsto> OtherFile 1]"
proof -
  let ?s = "sample_popen [0 \<mapsto> OtherFile 0, 1 \<mapsto> OtherFile 1] [0, 0, 0, 0]"
  have "\<exists>child s1. popen 5 ''r'' ?s = Inr (Some (2, child), s1)"
    by (simp add: popen_def sample_popen_def popen_array_def pipe_fds_def io_simps popen_parent_def close_fd_def eval_nat_numeral)
  then obtain child s1 where r: "popen 5 ''r'' ?s = Inr (Some (2, child), s1)" by blast
  from popen_pclose_roundtrip [OF r, of 41 256] show ?thesis using r
    by (auto simp: sample_popen_def po_ok_def children_def array_size_def eval_nat_numeral less_Suc_eq)
qed

lemma popen_closes_stdin:
  "\<exists>s1 child. popen 5 ''w'' (sample_popen [0 \<mapsto> PipeRead 3, 1 \<mapsto> OtherFile 1] [40, 0, 0, 0]) = Inr (Some (3, child), s1) \<and> child STDIN = None"
  by (simp add: popen_def sample_popen_def popen_array_def pipe_fds_def io_simps popen_parent_def popen_child_def dup2_close_def close_fd_def eval_nat_numeral)

text \<open>When \<open>fork\<close> fails, both ends of the pipe stay open.\<close>

lemma popen_fork_leaks:
  "\<exists>s1. popen 5 ''r'' ((sample_popen [0 \<mapsto> OtherFile 0] [0, 0, 0, 0])\<lparr>fork_res := None\<rparr>) = Inr (None, s1) \<and>
     fds s1 = [0 \<mapsto> OtherFile 0, 1 \<mapsto> PipeRead 7, 2 \<mapsto> PipeWrite 7]"
  by (simp add: popen_def sample_popen_def popen_array_def pipe_fds_def io_simps set_perrno_def eval_nat_numeral)

end
