(* ===== verification/My_Dup2.thy ===== *)
theory My_Dup2
  imports Popen
begin

text \<open>
  \<open>dup2\<close> built from \<open>dup\<close> and \<open>close\<close> (\<open>mytests/fileio/Ex3_2_dup2_recur.c\<close>): descriptors are
  duplicated until the wanted one comes up, and the others are closed on the way back.
\<close>

section \<open>Program\<close>

abbreviation DUP_EBADF :: int where "DUP_EBADF \<equiv> 9"

text \<open>\<open>dup\<close> takes the lowest free descriptor below the limit \<open>lim\<close>.\<close>

definition sys_dup :: "nat \<Rightarrow> nat \<Rightarrow> fdtab \<Rightarrow> nat option \<times> fdtab" where
  "sys_dup lim fd t =
     (if t fd = None then (None, t)
      else case free_from t lim 0 of None \<Rightarrow> (None, t) | Some d \<Rightarrow> (Some d, t(d := t fd)))"

definition free_count :: "nat \<Rightarrow> fdtab \<Rightarrow> nat" where
  "free_count lim t = card {i. i < lim \<and> t i = None}"

lemma sys_dup_less:
  assumes "sys_dup lim fd t = (Some d, t1)"
  shows "free_count lim t1 < free_count lim t"
proof -
  obtain f where d: "t fd = Some f" "free_from t lim 0 = Some d" "t1 = t(d \<mapsto> f)"
    using assms by (auto simp: sys_dup_def split: if_splits option.splits)
  have "{i. i < lim \<and> t1 i = None} \<subset> {i. i < lim \<and> t i = None}"
    using free_from_free [OF d(2)] free_from_lim [OF d(2)] d(3) by auto
  then show ?thesis by (simp add: free_count_def psubset_card_mono)
qed

text \<open>
  \<open>close\<close>: 0 or an error number. The list says how the coming calls on open descriptors end, without
  failure when it is empty; as on Linux, the descriptor is released even when the call reports an error.
\<close>

definition sys_close_fd :: "nat \<Rightarrow> fdtab \<Rightarrow> int list \<Rightarrow> int \<times> fdtab \<times> int list" where
  "sys_close_fd fd t cl =
     (if t fd = None then (DUP_EBADF, t, cl)
      else case cl of [] \<Rightarrow> (0, t(fd := None), []) | e # es \<Rightarrow> (e, t(fd := None), es))"

text \<open>\<open>recur\<close> on the result of a \<open>dup\<close>; \<open>None\<close> is -1.\<close>

function recur :: "nat \<Rightarrow> nat option \<Rightarrow> nat \<Rightarrow> fdtab \<Rightarrow> int list \<Rightarrow> nat option \<times> fdtab \<times> int list" where
  "recur lim fdo newfd t cl =
     (case fdo of
        None \<Rightarrow> (None, t, cl)
      | Some fd \<Rightarrow>
          if fd = newfd then (Some fd, t, cl)
          else case sys_dup lim fd t of
            (d, t1) \<Rightarrow>
              (case recur lim d newfd t1 cl of
                 (ret, t2, cl2) \<Rightarrow>
                   (case sys_close_fd fd t2 cl2 of
                      (e, t3, cl3) \<Rightarrow> if e \<noteq> 0 then (None, t3, cl3) else (ret, t3, cl3))))"
  by pat_completeness auto
termination
  by (relation "measure (\<lambda>(lim, fdo, newfd, t, cl). (case fdo of None \<Rightarrow> 0 | Some _ \<Rightarrow> Suc (free_count lim t)))")
    (auto split: option.splits dest: sys_dup_less [OF sym])

declare recur.simps [simp del]

text \<open>
  The result, the table and what is left of the schedule; \<open>open_max\<close> returns the limit. \<open>Inl\<close> is a
  return of -1 with that \<open>errno\<close>, \<open>Inr None\<close> one from \<open>recur\<close>.
\<close>

definition mydup2 :: "nat \<Rightarrow> nat \<Rightarrow> int \<Rightarrow> fdtab \<Rightarrow> int list \<Rightarrow> (int + nat option) \<times> fdtab \<times> int list" where
  "mydup2 lim fd newfd t cl =
     (case sys_dup lim fd t of
        (None, t1) \<Rightarrow> (Inl DUP_EBADF, t1, cl)
      | (Some tmpfd, t1) \<Rightarrow>
          (case sys_close_fd tmpfd t1 cl of
             (e, t2, cl2) \<Rightarrow>
               if e \<noteq> 0 then (Inl e, t2, cl2)
               else if newfd < 0 \<or> int lim < newfd then (Inl DUP_EBADF, t2, cl2)
               else if nat newfd = fd then (Inr (Some fd), t2, cl2)
               else
                 (case sys_close_fd (nat newfd) t2 cl2 of
                    (e, t3, cl3) \<Rightarrow>
                      if e \<noteq> 0 \<and> e \<noteq> DUP_EBADF then (Inl e, t3, cl3)
                      else case sys_dup lim fd t3 of
                        (d, t4) \<Rightarrow> (case recur lim d (nat newfd) t4 cl3 of (r, t5, cl5) \<Rightarrow> (Inr r, t5, cl5)))))"

section \<open>What it does\<close>

lemma sys_dup_some:
  assumes "t fd = Some f" "r < lim" "t r = None"
  obtains d where "sys_dup lim fd t = (Some d, t(d \<mapsto> f))" "d \<le> r" "t d = None"
proof -
  obtain d where "free_from t lim 0 = Some d" "d \<le> r" using free_from_exists [of 0 r lim t] assms by auto
  with assms free_from_free [of t lim 0 d] that show thesis by (auto simp: sys_dup_def)
qed

lemma sys_close_fd_open:
  assumes "t fd = Some f"
  obtains e cl' where "sys_close_fd fd t cl = (e, t(fd := None), cl')" "set cl \<subseteq> {0} \<Longrightarrow> e = 0 \<and> set cl' \<subseteq> {0}"
proof (cases cl)
  case Nil
  with assms show thesis by (intro that [of 0 "[]"]) (simp_all add: sys_close_fd_def)
next
  case (Cons e es)
  with assms show thesis by (intro that [of e es]) (auto simp: sys_close_fd_def)
qed

text \<open>
  The recursion reaches the wanted descriptor and closes the others, whatever the calls of \<open>close\<close>
  report; it returns -1 just when one of them reports an error.
\<close>

lemma recur_reaches:
  assumes "t x = Some f" "x \<noteq> newfd" "t newfd = None" "newfd < lim"
  shows "\<exists>r cl'. recur lim (Some x) newfd t cl = (r, t(newfd \<mapsto> f, x := None), cl') \<and> (r = Some newfd \<or> r = None) \<and>
    (set cl \<subseteq> {0} \<longrightarrow> r = Some newfd \<and> set cl' \<subseteq> {0})"
  using assms(1-3)
proof (induction "free_count lim t" arbitrary: x t rule: less_induct)
  case less
  obtain d where d: "sys_dup lim x t = (Some d, t(d \<mapsto> f))" "d \<le> newfd" "t d = None"
    using sys_dup_some [where t = t and fd = x, OF less.prems(1) assms(4) less.prems(3)] by blast
  have "\<exists>r cl'. recur lim (Some d) newfd (t(d \<mapsto> f)) cl = (r, t(newfd \<mapsto> f), cl') \<and> (r = Some newfd \<or> r = None) \<and>
    (set cl \<subseteq> {0} \<longrightarrow> r = Some newfd \<and> set cl' \<subseteq> {0})"
  proof (cases "d = newfd")
    case True
    then show ?thesis by (simp add: recur.simps)
  next
    case False
    have "(t(d \<mapsto> f))(newfd \<mapsto> f, d := None) = t(newfd \<mapsto> f)" using d(3) False by (auto simp: fun_eq_iff)
    with less.hyps [OF sys_dup_less [OF d(1)], of d] False less.prems(3) show ?thesis by simp
  qed
  then obtain r cl' where r: "recur lim (Some d) newfd (t(d \<mapsto> f)) cl = (r, t(newfd \<mapsto> f), cl')" "r = Some newfd \<or> r = None"
    "set cl \<subseteq> {0} \<longrightarrow> r = Some newfd \<and> set cl' \<subseteq> {0}" by blast
  have "(t(newfd \<mapsto> f)) x = Some f" using less.prems(1,2) by simp
  then obtain e cl2 where c: "sys_close_fd x (t(newfd \<mapsto> f)) cl' = (e, t(newfd \<mapsto> f, x := None), cl2)" "set cl' \<subseteq> {0} \<Longrightarrow> e = 0 \<and> set cl2 \<subseteq> {0}"
    by (rule sys_close_fd_open [where cl = cl']) blast
  have "recur lim (Some x) newfd t cl = (if e \<noteq> 0 then None else r, t(newfd \<mapsto> f, x := None), cl2)"
    using d(1) r(1) c(1) less.prems(2) by (subst recur.simps) simp
  with r c show ?case by auto
qed

lemma recur_none_schedule: "recur lim fdo newfd t cl = (r, t', cl') \<Longrightarrow> cl = [] \<Longrightarrow> cl' = []"
proof (induction lim fdo newfd t cl arbitrary: r t' cl' rule: recur.induct)
  case (1 lim fdo newfd t cl)
  show ?case
  proof (cases "fdo = None \<or> fdo = Some newfd")
    case True
    with "1.prems" show ?thesis by (auto simp: recur.simps)
  next
    case False
    then obtain fd where f: "fdo = Some fd" "fd \<noteq> newfd" by auto
    obtain d t1 where d: "sys_dup lim fd t = (d, t1)" by fastforce
    obtain r2 t2 cl2 where r: "recur lim d newfd t1 cl = (r2, t2, cl2)" by (cases "recur lim d newfd t1 cl")
    have "cl2 = []" using "1.IH" [OF f(1,2) d [symmetric] r "1.prems"(2)] .
    with "1.prems" f d r show ?thesis by (auto simp: recur.simps [of lim "Some fd"] sys_close_fd_def split: if_splits)
  qed
qed

lemma mydup2_no_schedule: "mydup2 lim fd newfd t [] = (r, t', cl') \<Longrightarrow> cl' = []"
  by (auto simp: mydup2_def sys_close_fd_def split: prod.splits option.splits if_splits dest: recur_none_schedule)

lemma mydup2_cases:
  assumes "t fd = Some f" "newfd < lim" "\<exists>i < lim. t i = None"
  shows "\<exists>r t' cl'. mydup2 lim fd (int newfd) t cl = (r, t', cl') \<and> (\<forall>i. i \<noteq> newfd \<longrightarrow> t' i = t i) \<and>
      (r = Inr (Some newfd) \<and> t' = t(newfd \<mapsto> f) \<or> r = Inr None \<or> (\<exists>e. r = Inl e)) \<and>
      (set cl \<subseteq> {0} \<longrightarrow> r = Inr (Some newfd))"
proof -
  obtain i where "i < lim" "t i = None" using assms(3) by blast
  then obtain d where d: "sys_dup lim fd t = (Some d, t(d \<mapsto> f))" "t d = None" using sys_dup_some [where t = t and fd = fd, OF assms(1)] by metis
  have t2: "(t(d \<mapsto> f))(d := None) = t" using d(2) by (auto simp: fun_eq_iff)
  obtain e cl2 where c: "sys_close_fd d (t(d \<mapsto> f)) cl = (e, t, cl2)" "set cl \<subseteq> {0} \<Longrightarrow> e = 0 \<and> set cl2 \<subseteq> {0}"
    using sys_close_fd_open [of "t(d \<mapsto> f)" d f cl] t2 by auto
  show ?thesis
  proof (cases "e \<noteq> 0 \<or> newfd = fd")
    case True
    with d(1) c assms(1,2) show ?thesis by (auto simp: mydup2_def fun_upd_idem)
  next
    case False
    let ?t = "t(newfd := None)"
    obtain e' cl3 where n: "sys_close_fd newfd t cl2 = (e', ?t, cl3)" "set cl2 \<subseteq> {0} \<Longrightarrow> (e' = 0 \<or> e' = DUP_EBADF) \<and> set cl3 \<subseteq> {0}"
    proof (cases "t newfd")
      case None
      then have "?t = t" by (auto simp: fun_eq_iff)
      with None show ?thesis by (intro that [of DUP_EBADF cl2]) (simp_all add: sys_close_fd_def)
    next
      case (Some f')
      then show ?thesis by (rule sys_close_fd_open [where t = t and fd = newfd and f = f' and cl = cl2]) (use that in blast)
    qed
    have "?t fd = Some f" using assms(1) False by simp
    then obtain x where x: "sys_dup lim fd ?t = (Some x, ?t(x \<mapsto> f))" "?t x = None"
      using sys_dup_some [where t = ?t and fd = fd and f = f and r = newfd, OF _ assms(2)] by auto
    have "\<exists>r cl'. recur lim (Some x) newfd (?t(x \<mapsto> f)) cl3 = (r, t(newfd \<mapsto> f), cl') \<and> (r = Some newfd \<or> r = None) \<and>
      (set cl3 \<subseteq> {0} \<longrightarrow> r = Some newfd)"
    proof (cases "x = newfd")
      case True
      then show ?thesis by (simp add: recur.simps)
    next
      case x': False
      have "(?t(x \<mapsto> f))(newfd \<mapsto> f, x := None) = t(newfd \<mapsto> f)" using x(2) x' by (auto simp: fun_eq_iff)
      with recur_reaches [of "?t(x \<mapsto> f)" x f newfd lim cl3] x' assms(2) show ?thesis by auto
    qed
    then obtain r cl' where r: "recur lim (Some x) newfd (?t(x \<mapsto> f)) cl3 = (r, t(newfd \<mapsto> f), cl')" "r = Some newfd \<or> r = None"
      "set cl3 \<subseteq> {0} \<longrightarrow> r = Some newfd" by blast
    have "mydup2 lim fd (int newfd) t cl =
        (if e' \<noteq> 0 \<and> e' \<noteq> DUP_EBADF then (Inl e', ?t, cl3) else (Inr r, t(newfd \<mapsto> f), cl'))"
      using d(1) c(1) n(1) x(1) r(1) False assms(2) by (simp add: mydup2_def)
    with c(2) n(2) r show ?thesis by (cases "e' \<noteq> 0 \<and> e' \<noteq> DUP_EBADF") auto
  qed
qed

section \<open>Property\<close>

text \<open>C35: \<open>mydup2\<close> is \<open>dup2\<close>. When at least one descriptor is free, both descriptors are valid and no
  call of \<open>close\<close> reports an error, \<open>mydup2\<close> returns \<open>newfd\<close>, which then refers to what \<open>fd\<close> refers to;
  no other descriptor changes, whatever the descriptors that had to be opened on the way, and
  the recursion ends. However the calls of \<open>close\<close> end, it returns \<open>newfd\<close> or -1, returns \<open>newfd\<close> only
  when it has this effect, and never changes another descriptor.\<close>

theorem mydup2_is_dup2:
  assumes "t fd = Some f" "newfd < lim" "\<exists>i < lim. t i = None"
  shows "mydup2 lim fd (int newfd) t [] = (Inr (Some newfd), t(newfd \<mapsto> f), []) \<and>
    (\<exists>r t' cl'. mydup2 lim fd (int newfd) t cl = (r, t', cl') \<and> (\<forall>i. i \<noteq> newfd \<longrightarrow> t' i = t i) \<and>
      (r = Inr (Some newfd) \<and> t' = t(newfd \<mapsto> f) \<or> r = Inr None \<or> (\<exists>e. r = Inl e)) \<and>
      (set cl \<subseteq> {0} \<longrightarrow> r = Inr (Some newfd)))"
proof
  have all: "\<exists>r t' cl'. mydup2 lim fd (int newfd) t cl = (r, t', cl') \<and> (\<forall>i. i \<noteq> newfd \<longrightarrow> t' i = t i) \<and>
      (r = Inr (Some newfd) \<and> t' = t(newfd \<mapsto> f) \<or> r = Inr None \<or> (\<exists>e. r = Inl e)) \<and>
      (set cl \<subseteq> {0} \<longrightarrow> r = Inr (Some newfd))" for cl
    by (rule mydup2_cases [OF assms])
  then show "\<exists>r t' cl'. mydup2 lim fd (int newfd) t cl = (r, t', cl') \<and> (\<forall>i. i \<noteq> newfd \<longrightarrow> t' i = t i) \<and>
      (r = Inr (Some newfd) \<and> t' = t(newfd \<mapsto> f) \<or> r = Inr None \<or> (\<exists>e. r = Inl e)) \<and>
      (set cl \<subseteq> {0} \<longrightarrow> r = Inr (Some newfd))" .
  from all [of "[]"] show "mydup2 lim fd (int newfd) t [] = (Inr (Some newfd), t(newfd \<mapsto> f), [])"
    using mydup2_no_schedule [of lim fd "int newfd" t] by auto
qed

theorem mydup2_is_dup2_witness:
  "mydup2 9 0 7 [0 \<mapsto> OtherFile 0, 2 \<mapsto> OtherFile 2, 7 \<mapsto> OtherFile 3] [] = (Inr (Some 7), [0 \<mapsto> OtherFile 0, 2 \<mapsto> OtherFile 2, 7 \<mapsto> OtherFile 0], [])"
proof -
  have "\<exists>i < 9 :: nat. [0 \<mapsto> OtherFile 0, 2 \<mapsto> OtherFile 2, 7 \<mapsto> OtherFile 3] i = None" by (rule exI [of _ "1 :: nat"]) simp
  with mydup2_is_dup2 [of "[0 \<mapsto> OtherFile 0, 2 \<mapsto> OtherFile 2, 7 \<mapsto> OtherFile 3]" 0 "OtherFile 0" 7 9] show ?thesis by simp
qed

text \<open>With no free descriptor the test of \<open>fd\<close> fails, although \<open>dup2\<close> would succeed.\<close>

lemma mydup2_full: "mydup2 2 0 1 [0 \<mapsto> OtherFile 0, 1 \<mapsto> OtherFile 1] [] = (Inl DUP_EBADF, [0 \<mapsto> OtherFile 0, 1 \<mapsto> OtherFile 1], [])"
  by (simp add: mydup2_def sys_dup_def eval_nat_numeral)

end
