(* ===== verification/Tell_Wait.thy ===== *)
theory Tell_Wait
  imports Step_System
begin

text \<open>
  Synchronisation of parent and child by signals (\<open>lib/tellwait.c\<close>) in the program that tests it
  (\<open>mytests/signals/Ex10_6_procsync.c\<close>): both increment a counter in a file, in turns. The
  processes are interleaved at every access to the file, every test and every system call; a
  signal that is not blocked is handled at once.
\<close>

section \<open>State\<close>

datatype who = Parent | Child

fun peer :: "who \<Rightarrow> who" where
  "peer Parent = Child" | "peer Child = Parent"

text \<open>Where a process is.\<close>

datatype twpc =
    Rd          \<comment> \<open>about to read the counter, in \<open>incre_file\<close>\<close>
  | Wr int      \<comment> \<open>about to write it\<close>
  | Tell        \<comment> \<open>\<open>TELL_CHILD\<close> or \<open>TELL_PARENT\<close>\<close>
  | Test        \<comment> \<open>the test of the loop in \<open>WAIT_CHILD\<close> or \<open>WAIT_PARENT\<close>\<close>
  | Enter       \<comment> \<open>about to call \<open>sigsuspend\<close>\<close>
  | Susp        \<comment> \<open>suspended\<close>
  | Clear       \<comment> \<open>about to clear \<open>sigflag\<close>\<close>
  | Unmask      \<comment> \<open>about to reset the signal mask\<close>
  | Fin

text \<open>A process: \<open>sigflag\<close>, the signals pending and whether they are blocked, the turns that are left.\<close>

record proc =
  pc :: twpc
  sigflag :: bool
  sigpend :: bool
  sigblocked :: bool
  turns :: nat

record twsys =
  proc :: "who \<Rightarrow> proc"
  fvalue :: int              \<comment> \<open>the counter in the file\<close>
  incs :: "who list"        \<comment> \<open>who has incremented it\<close>

section \<open>The functions\<close>

definition set_proc :: "who \<Rightarrow> proc \<Rightarrow> twsys \<Rightarrow> twsys" where
  "set_proc w p s = s\<lparr>proc := (proc s)(w := p)\<rparr>"

definition sig_usr :: "proc \<Rightarrow> proc" where
  "sig_usr p = p\<lparr>sigflag := True\<rparr>"

text \<open>
  A signal for a process: it ends \<open>sigsuspend\<close>, which lets every signal through; otherwise it is
  handled now, or remains pending when it is blocked.
\<close>

definition kill_proc :: "proc \<Rightarrow> proc" where
  "kill_proc p =
     (if pc p = Susp then (sig_usr p)\<lparr>pc := Test\<rparr>
      else if sigblocked p then p\<lparr>sigpend := True\<rparr>
      else sig_usr p)"

text \<open>\<open>TELL_WAIT\<close>: both signals are caught and blocked; it is called before the \<open>fork\<close>.\<close>

definition TELL_WAIT :: "proc \<Rightarrow> proc" where
  "TELL_WAIT p = p\<lparr>sigblocked := True\<rparr>"

definition TELL :: "who \<Rightarrow> twsys \<Rightarrow> twsys" where
  "TELL w s = set_proc (peer w) (kill_proc (proc s (peer w))) s"

text \<open>The steps of \<open>WAIT_PARENT\<close> and \<open>WAIT_CHILD\<close>, which are the same code.\<close>

definition sigsuspend_zero :: "proc \<Rightarrow> proc" where
  "sigsuspend_zero p = (if sigpend p then (sig_usr p)\<lparr>sigpend := False, pc := Test\<rparr> else p\<lparr>pc := Susp\<rparr>)"

definition sig_setmask_old :: "proc \<Rightarrow> proc" where
  "sig_setmask_old p = (if sigpend p then sig_usr (p\<lparr>sigpend := False, sigblocked := False\<rparr>) else p\<lparr>sigblocked := False\<rparr>)"

text \<open>What the process does after it has waited, and after it has told the other.\<close>

definition after_wait :: "who \<Rightarrow> proc \<Rightarrow> proc" where
  "after_wait w p =
     (case w of
        Child \<Rightarrow> p\<lparr>pc := Rd\<rparr>
      | Parent \<Rightarrow> if turns p = 0 then p\<lparr>pc := Fin\<rparr> else p\<lparr>pc := Rd\<rparr>)"

definition after_tell :: "who \<Rightarrow> proc \<Rightarrow> proc" where
  "after_tell w p =
     (case w of
        Parent \<Rightarrow> p\<lparr>pc := Test\<rparr>
      | Child \<Rightarrow> if turns p = 0 then p\<lparr>pc := Fin\<rparr> else p\<lparr>pc := Test\<rparr>)"

inductive tw_step :: "twsys \<Rightarrow> twsys \<Rightarrow> bool" where
  reads: "proc s w = p \<Longrightarrow> pc p = Rd \<Longrightarrow> tw_step s (set_proc w (p\<lparr>pc := Wr (fvalue s)\<rparr>) s)"
| writes: "proc s w = p \<Longrightarrow> pc p = Wr v \<Longrightarrow>
    tw_step s ((set_proc w (p\<lparr>pc := Tell, turns := turns p - 1\<rparr>) s)\<lparr>fvalue := v + 1, incs := incs s @ [w]\<rparr>)"
| tells: "proc s w = p \<Longrightarrow> pc p = Tell \<Longrightarrow> tw_step s (set_proc w (after_tell w p) (TELL w s))"
| tests: "proc s w = p \<Longrightarrow> pc p = Test \<Longrightarrow> tw_step s (set_proc w (p\<lparr>pc := (if sigflag p then Clear else Enter)\<rparr>) s)"
| suspends: "proc s w = p \<Longrightarrow> pc p = Enter \<Longrightarrow> tw_step s (set_proc w (sigsuspend_zero p) s)"
| clears: "proc s w = p \<Longrightarrow> pc p = Clear \<Longrightarrow> tw_step s (set_proc w (p\<lparr>sigflag := False, pc := Unmask\<rparr>) s)"
| unmasks: "proc s w = p \<Longrightarrow> pc p = Unmask \<Longrightarrow> tw_step s (set_proc w (after_wait w (sig_setmask_old p)) s)"

text \<open>The state after \<open>init_file\<close>, \<open>TELL_WAIT\<close> and \<open>fork\<close>, for \<open>n\<close> turns each.\<close>

definition tw_start :: "nat \<Rightarrow> twsys" where
  "tw_start n =
     \<lparr>proc = (\<lambda>w. TELL_WAIT \<lparr>pc = (case w of Parent \<Rightarrow> Rd | Child \<Rightarrow> Test), sigflag = False, sigpend = False, sigblocked = False, turns = n\<rparr>),
      fvalue = 0, incs = []\<rparr>"

abbreviation tw_reachable :: "nat \<Rightarrow> twsys \<Rightarrow> bool" where
  "tw_reachable n \<equiv> reachable (\<lambda>s. 0 < n \<and> s = tw_start n) tw_step"

section \<open>The turn\<close>

text \<open>A process has the turn when it works, or has been told and not yet noticed.\<close>

definition has_turn :: "proc \<Rightarrow> bool" where
  "has_turn p \<longleftrightarrow> (pc p = Rd \<or> (\<exists>v. pc p = Wr v) \<or> pc p = Tell \<or> pc p = Unmask) \<and> \<not> sigflag p \<and> \<not> sigpend p \<or>
     pc p = Clear \<and> sigflag p \<and> \<not> sigpend p \<or>
     (pc p = Test \<or> pc p = Enter \<or> pc p = Susp) \<and> sigflag p \<noteq> sigpend p"

definition waits :: "proc \<Rightarrow> bool" where
  "waits p \<longleftrightarrow> (pc p = Test \<or> pc p = Enter \<or> pc p = Susp \<or> pc p = Fin) \<and> \<not> sigflag p \<and> \<not> sigpend p"

fun turns_list :: "who \<Rightarrow> nat \<Rightarrow> who list" where
  "turns_list w 0 = []" | "turns_list w (Suc n) = w # turns_list (peer w) n"

definition alternate :: "who list \<Rightarrow> bool" where
  "alternate ws \<longleftrightarrow> ws = turns_list Parent (length ws)"

text \<open>Whose turn it is, after \<open>k\<close> increments.\<close>

definition tw_turn :: "proc \<Rightarrow> proc \<Rightarrow> nat \<Rightarrow> bool" where
  "tw_turn a b k \<longleftrightarrow>
     has_turn a \<and> waits b \<and> (even k \<longleftrightarrow> pc a \<noteq> Tell) \<or>
     has_turn b \<and> waits a \<and> pc a \<noteq> Fin \<and> (odd k \<longleftrightarrow> pc b \<noteq> Tell) \<or>
     waits b \<and> waits a \<and> pc a = Fin \<and> turns a = 0 \<and> even k"

definition tw_inv :: "nat \<Rightarrow> twsys \<Rightarrow> bool" where
  "tw_inv n s \<longleftrightarrow> alternate (incs s) \<and> fvalue s = int (length (incs s)) \<and>
     (\<forall>w v. pc (proc s w) = Wr v \<longrightarrow> v = fvalue s) \<and>
     turns (proc s Parent) + (length (incs s) + 1) div 2 = n \<and> turns (proc s Child) + length (incs s) div 2 = n \<and>
     (pc (proc s Parent) = Rd \<or> (\<exists>v. pc (proc s Parent) = Wr v) \<longrightarrow> 0 < turns (proc s Parent)) \<and>
     (pc (proc s Child) = Fin \<longrightarrow> turns (proc s Child) = 0) \<and>
     tw_turn (proc s Parent) (proc s Child) (length (incs s))"

lemma turns_list_snoc: "turns_list w (Suc n) = turns_list w n @ [if even n then w else peer w]"
proof (induction n arbitrary: w)
  case (Suc n)
  have "peer (peer w) = w" by (cases w) auto
  with Suc [of "peer w"] show ?case by simp
qed simp

lemma alternate_snoc: "alternate ws \<Longrightarrow> alternate (ws @ [w]) \<longleftrightarrow> w = (if even (length ws) then Parent else Child)"
  using turns_list_snoc [of Parent "length ws"] by (auto simp: alternate_def)

text \<open>How the steps of a process change whether it has the turn.\<close>

lemma no_wait [simp]: "pc p = Rd \<Longrightarrow> \<not> waits p" "pc p = Wr v \<Longrightarrow> \<not> waits p" "pc p = Tell \<Longrightarrow> \<not> waits p" "pc p = Clear \<Longrightarrow> \<not> waits p" "pc p = Unmask \<Longrightarrow> \<not> waits p"
  by (auto simp: waits_def)

lemma turn_work:
  "pc p = Rd \<Longrightarrow> has_turn (p\<lparr>pc := Wr v\<rparr>) = has_turn p"
  "pc p = Wr v \<Longrightarrow> has_turn (p\<lparr>pc := Tell, turns := k\<rparr>) = has_turn p"
  by (auto simp: has_turn_def)

lemma turn_wait:
  "pc p = Test \<Longrightarrow> has_turn (p\<lparr>pc := (if sigflag p then Clear else Enter)\<rparr>) = has_turn p"
  "pc p = Test \<Longrightarrow> waits p \<Longrightarrow> waits (p\<lparr>pc := (if sigflag p then Clear else Enter)\<rparr>)"
  "pc p = Enter \<Longrightarrow> has_turn p \<Longrightarrow> has_turn (sigsuspend_zero p)" "pc p = Enter \<Longrightarrow> waits p \<Longrightarrow> waits (sigsuspend_zero p)"
  "pc p = Clear \<Longrightarrow> has_turn p \<Longrightarrow> has_turn (p\<lparr>sigflag := False, pc := Unmask\<rparr>)"
  by (auto simp: has_turn_def waits_def sigsuspend_zero_def sig_usr_def)

lemma turn_passes:
  "pc p = Unmask \<Longrightarrow> has_turn p \<Longrightarrow> has_turn (after_wait Child (sig_setmask_old p))"
  "pc p = Unmask \<Longrightarrow> has_turn p \<Longrightarrow> 0 < turns p \<Longrightarrow> has_turn (after_wait Parent (sig_setmask_old p))"
  "pc p = Unmask \<Longrightarrow> has_turn p \<Longrightarrow> turns p = 0 \<Longrightarrow> waits (after_wait Parent (sig_setmask_old p))"
  "waits p \<Longrightarrow> pc p \<noteq> Fin \<Longrightarrow> has_turn (kill_proc p)"
  "pc p = Tell \<Longrightarrow> has_turn p \<Longrightarrow> waits (after_tell w p)"
  by (auto simp: has_turn_def waits_def after_wait_def after_tell_def sig_setmask_old_def kill_proc_def sig_usr_def split: who.splits)

lemma turn_fields:
  "turns (sigsuspend_zero p) = turns p" "pc (sigsuspend_zero p) = Test \<or> pc (sigsuspend_zero p) = Susp"
  "turns (after_wait w (sig_setmask_old p)) = turns p"
  "pc (after_wait w (sig_setmask_old p)) = (if w = Parent \<and> turns p = 0 then Fin else Rd)"
  "turns (kill_proc p) = turns p" "pc (kill_proc p) = (if pc p = Susp then Test else pc p)"
  "turns (after_tell w p) = turns p" "pc (after_tell w p) = (if w = Child \<and> turns p = 0 then Fin else Test)"
  by (auto simp: sigsuspend_zero_def after_wait_def after_tell_def sig_setmask_old_def kill_proc_def sig_usr_def split: who.splits)

lemmas turn_rules = set_proc_def TELL_def turn_work turn_wait turn_passes turn_fields

lemma all_who: "(\<forall>w. P w) \<longleftrightarrow> P Parent \<and> P Child"
  by (metis who.exhaust)

lemma tw_inv_start: "0 < n \<Longrightarrow> tw_inv n (tw_start n)"
  by (simp add: tw_inv_def tw_turn_def alternate_def tw_start_def TELL_WAIT_def has_turn_def waits_def all_who)

text \<open>A step of a process while it waits.\<close>

lemma tw_turn_keep:
  "tw_turn a b k \<Longrightarrow> pc a \<noteq> Tell \<Longrightarrow> pc a' \<noteq> Tell \<Longrightarrow> pc a \<noteq> Fin \<Longrightarrow> pc a' \<noteq> Fin \<Longrightarrow> (has_turn a \<Longrightarrow> has_turn a') \<Longrightarrow>
    (waits a \<Longrightarrow> waits a') \<Longrightarrow> tw_turn a' b k"
  "tw_turn a b k \<Longrightarrow> pc b \<noteq> Tell \<Longrightarrow> pc b' \<noteq> Tell \<Longrightarrow> (has_turn b \<Longrightarrow> has_turn b') \<Longrightarrow> (waits b \<Longrightarrow> waits b') \<Longrightarrow> tw_turn a b' k"
  unfolding tw_turn_def by blast+

lemma tw_inv_keep:
  assumes "tw_inv n s" "proc s w = p" "turns p' = turns p" "pc p \<noteq> Tell" "pc p \<noteq> Fin"
    "pc p' = Test \<or> pc p' = Enter \<or> pc p' = Susp \<or> pc p' = Clear \<or> pc p' = Unmask"
    "has_turn p \<Longrightarrow> has_turn p'" "waits p \<Longrightarrow> waits p'"
  shows "tw_inv n (set_proc w p' s)"
proof (cases w)
  case Parent
  then have "tw_turn p' (proc s Child) (length (incs s))"
    using assms tw_turn_keep(1) [of p "proc s Child" "length (incs s)" p'] by (auto simp: tw_inv_def)
  with Parent assms(1-3,6) show ?thesis by (auto simp: tw_inv_def set_proc_def all_who)
next
  case Child
  then have "tw_turn (proc s Parent) p' (length (incs s))"
    using assms tw_turn_keep(2) [of "proc s Parent" p "length (incs s)" p'] by (auto simp: tw_inv_def)
  with Child assms(1-3,6) show ?thesis by (auto simp: tw_inv_def set_proc_def all_who)
qed

lemma tw_step_inv:
  assumes "tw_step s s'" "tw_inv n s"
  shows "tw_inv n s'"
  using assms(1)
proof cases
  case (reads w p)
  then show ?thesis using assms(2) by (cases w) (auto simp: tw_inv_def tw_turn_def turn_rules all_who)
next
  case (writes w p v)
  have v: "v = fvalue s" using writes assms(2) by (cases w) (auto simp: tw_inv_def)
  show ?thesis
  proof (cases w)
    case Parent
    have i: "alternate (incs s)" "fvalue s = int (length (incs s))" "turns (proc s Parent) + (length (incs s) + 1) div 2 = n"
      "turns (proc s Child) + length (incs s) div 2 = n" "0 < turns (proc s Parent)" "pc (proc s Child) = Fin \<longrightarrow> turns (proc s Child) = 0"
      "has_turn (proc s Parent)" "waits (proc s Child)" "even (length (incs s))" "pc (proc s Child) \<noteq> Wr u" for u
      using writes Parent assms(2) by (auto simp: tw_inv_def tw_turn_def)
    have "turns (proc s Parent) - 1 + (length (incs s) + 2) div 2 = n" "turns (proc s Child) + (length (incs s) + 1) div 2 = n"
      using i(3-5,9) by (auto elim!: evenE)
    then show ?thesis using writes Parent v i
      by (simp add: tw_inv_def tw_turn_def turn_rules all_who alternate_snoc)
  next
    case Child
    have i: "alternate (incs s)" "fvalue s = int (length (incs s))" "turns (proc s Parent) + (length (incs s) + 1) div 2 = n"
      "turns (proc s Child) + length (incs s) div 2 = n" "pc (proc s Parent) \<noteq> Fin"
      "has_turn (proc s Child)" "waits (proc s Parent)" "odd (length (incs s))" "pc (proc s Parent) \<noteq> Wr u" "pc (proc s Parent) \<noteq> Rd" for u
      using writes Child assms(2) by (auto simp: tw_inv_def tw_turn_def)
    have "turns (proc s Parent) + (length (incs s) + 2) div 2 = n" "turns (proc s Child) - 1 + (length (incs s) + 1) div 2 = n"
      using i(3,4,8) by (auto elim!: oddE)
    then show ?thesis using writes Child v i
      by (simp add: tw_inv_def tw_turn_def turn_rules all_who alternate_snoc)
  qed
next
  case (tests w p)
  then show ?thesis using assms(2) turn_wait(1,2) [of p] by (auto intro!: tw_inv_keep)
next
  case (suspends w p)
  then show ?thesis using assms(2) turn_fields(2) [of p] by (auto intro!: tw_inv_keep turn_wait simp: turn_fields(1))
next
  case (clears w p)
  then show ?thesis using assms(2) turn_wait(5) [of p] by (auto intro!: tw_inv_keep)
next
  case (unmasks w p)
  then show ?thesis using assms(2) by (cases w) (auto simp: tw_inv_def tw_turn_def turn_rules all_who)
next
  case (tells w p)
  then show ?thesis using assms(2) by (cases w) (auto simp: tw_inv_def tw_turn_def turn_rules all_who)
qed

interpretation tw_sys: step_invariant "\<lambda>s. 0 < n \<and> s = tw_start n" tw_step "tw_inv n" for n
  by unfold_locales (auto intro: tw_inv_start tw_step_inv)

section \<open>Schedules\<close>

text \<open>The step that process \<open>w\<close> can take, if any.\<close>

definition tw_next :: "who \<Rightarrow> twsys \<Rightarrow> twsys option" where
  "tw_next w s =
     (let p = proc s w in
      case pc p of
        Rd \<Rightarrow> Some (set_proc w (p\<lparr>pc := Wr (fvalue s)\<rparr>) s)
      | Wr v \<Rightarrow> Some ((set_proc w (p\<lparr>pc := Tell, turns := turns p - 1\<rparr>) s)\<lparr>fvalue := v + 1, incs := incs s @ [w]\<rparr>)
      | Tell \<Rightarrow> Some (set_proc w (after_tell w p) (TELL w s))
      | Test \<Rightarrow> Some (set_proc w (p\<lparr>pc := (if sigflag p then Clear else Enter)\<rparr>) s)
      | Enter \<Rightarrow> Some (set_proc w (sigsuspend_zero p) s)
      | Clear \<Rightarrow> Some (set_proc w (p\<lparr>sigflag := False, pc := Unmask\<rparr>) s)
      | Unmask \<Rightarrow> Some (set_proc w (after_wait w (sig_setmask_old p)) s)
      | Susp \<Rightarrow> None
      | Fin \<Rightarrow> None)"

lemma tw_next_step: "tw_next w s = Some s' \<Longrightarrow> tw_step s s'"
  by (cases "pc (proc s w)") (auto simp: tw_next_def Let_def intro: tw_step.intros tw_step.writes [simplified])

lemma tw_step_moves: "tw_step s s' \<Longrightarrow> \<exists>w. pc (proc s w) \<noteq> Susp \<and> pc (proc s w) \<noteq> Fin"
  by (induction rule: tw_step.induct) (metis twpc.distinct)+

text \<open>A normal form for the two processes.\<close>

lemma case_who_upd: "(case_who a b)(Parent := x) = case_who x b" "(case_who a b)(Child := x) = case_who a x"
  by (auto simp: fun_eq_iff split: who.splits)

lemma tw_start_case:
  "tw_start n = \<lparr>proc = case_who \<lparr>pc = Rd, sigflag = False, sigpend = False, sigblocked = True, turns = n\<rparr>
     \<lparr>pc = Test, sigflag = False, sigpend = False, sigblocked = True, turns = n\<rparr>, fvalue = 0, incs = []\<rparr>"
  by (auto simp: tw_start_def TELL_WAIT_def fun_eq_iff split: who.splits)

lemmas tw_eval = tw_next_def tw_start_case case_who_upd set_proc_def sig_usr_def kill_proc_def TELL_def sigsuspend_zero_def sig_setmask_old_def
  after_wait_def after_tell_def

interpretation tw_runs: schedules tw_step tw_next
  by unfold_locales (rule tw_next_step)

abbreviation tw_run :: "who list \<Rightarrow> twsys \<Rightarrow> twsys option" where
  "tw_run \<equiv> run_moves tw_next"

section \<open>Properties\<close>

text \<open>C31: parent and child take turns. In every state that the two processes can reach, with \<open>n\<close> turns
  each: the increments so far were made alternately, beginning with the parent; none was lost,
  so that the counter is their number; the two are never both between reading and writing the
  counter; and when the parent has finished, each has had its \<open>n\<close> turns.\<close>

theorem procsync_alternates:
  assumes "tw_reachable n s"
  shows "incs s = turns_list Parent (length (incs s)) \<and> fvalue s = int (length (incs s)) \<and>
    \<not> (\<exists>u v. (pc (proc s Parent) = Rd \<or> pc (proc s Parent) = Wr u) \<and> (pc (proc s Child) = Rd \<or> pc (proc s Child) = Wr v)) \<and>
    (pc (proc s Parent) = Fin \<longrightarrow> fvalue s = 2 * int n)"
proof -
  have inv: "tw_inv n s" by (rule tw_sys.reachable_inv [OF assms])
  have "fvalue s = 2 * int n" if "pc (proc s Parent) = Fin"
  proof -
    have "turns (proc s Parent) = 0" "even (length (incs s))" "(length (incs s) + 1) div 2 = n" "fvalue s = int (length (incs s))"
      using inv that by (auto simp: tw_inv_def tw_turn_def has_turn_def)
    then show ?thesis by (auto elim!: evenE)
  qed
  moreover have "waits (proc s Parent) \<or> waits (proc s Child)" using inv unfolding tw_inv_def tw_turn_def by blast
  then have "\<not> (\<exists>u v. (pc (proc s Parent) = Rd \<or> pc (proc s Parent) = Wr u) \<and> (pc (proc s Child) = Rd \<or> pc (proc s Child) = Wr v))"
    by (auto simp: waits_def)
  moreover have "incs s = turns_list Parent (length (incs s))" "fvalue s = int (length (incs s))" using inv unfolding tw_inv_def alternate_def by blast+
  ultimately show ?thesis by blast
qed

theorem procsync_alternates_witness:
  "\<exists>s. tw_run (replicate 5 Parent @ replicate 8 Child) (tw_start 13) = Some s \<and> incs s = [Parent, Child] \<and> fvalue s = 2"
proof -
  have "\<exists>s. tw_run (replicate 5 Parent @ replicate 8 Child) (tw_start 13) = Some s \<and> length (incs s) = 2"
    by (simp add: numeral_eq_Suc tw_eval)
  then obtain s where s: "tw_run (replicate 5 Parent @ replicate 8 Child) (tw_start 13) = Some s" "length (incs s) = 2" by blast
  have "tw_reachable 13 (tw_start 13)" by (rule reachable.start) simp
  from procsync_alternates [OF tw_runs.run_reachable [OF this s(1)]] s show ?thesis by (simp add: eval_nat_numeral)
qed

text \<open>The program can stop for ever. \<open>WAIT_PARENT\<close> and \<open>WAIT_CHILD\<close> leave the signals unblocked, so
  that from the second turn on a signal can arrive between the test of \<open>sigflag\<close> and
  \<open>sigsuspend\<close>: a state is reachable in which the parent is suspended although it has been told,
  and neither process can take a step.\<close>

theorem procsync_can_deadlock:
  "\<exists>s. tw_reachable 13 s \<and> pc (proc s Parent) = Susp \<and> sigflag (proc s Parent) \<and> length (incs s) = 4 \<and> \<not> (\<exists>s'. tw_step s s')"
proof -
  let ?ws = "replicate 5 Parent @ replicate 8 Child @ replicate 7 Parent @ replicate 6 Child @ [Parent, Child, Child]"
  have "\<exists>s. tw_run ?ws (tw_start 13) = Some s \<and> pc (proc s Parent) = Susp \<and> sigflag (proc s Parent) \<and> pc (proc s Child) = Susp \<and> length (incs s) = 4"
    by (simp add: numeral_eq_Suc tw_eval)
  then obtain s where s: "tw_run ?ws (tw_start 13) = Some s" "pc (proc s Parent) = Susp" "sigflag (proc s Parent)" "pc (proc s Child) = Susp"
    "length (incs s) = 4" by blast
  have "tw_reachable 13 (tw_start 13)" by (rule reachable.start) simp
  then have "tw_reachable 13 s" using s(1) by (rule tw_runs.run_reachable)
  moreover have "pc (proc s w) = Susp" for w using s(2,4) by (cases w) simp_all
  then have "\<not> (\<exists>s'. tw_step s s')" using tw_step_moves by blast
  ultimately show ?thesis using s by blast
qed

end
