(* ===== verification/Unix_Conn.thy ===== *)
theory Unix_Conn
  imports Apue_Prelude
begin

text \<open>
  Connections over Unix domain sockets (\<open>lib/servlisten.c\<close>, \<open>lib/cliconn.c\<close>, \<open>lib/servaccept.c\<close>),
  by which the clients of the open server reach it and the server learns who they are: the client
  binds a name of its own, and the server takes the owner of that name for its user. Any system
  call may fail.
\<close>

unbundle bit_operations_syntax

section \<open>State\<close>

text \<open>What the server sees of a file.\<close>

record inode =
  i_sock :: bool
  i_perm :: "32 word"
  i_uid :: "32 word"
  i_atime :: int
  i_mtime :: int
  i_ctime :: int

text \<open>What a descriptor refers to; the peer of a connection is given by its address.\<close>

datatype sock = Unbound | Bound string | Listening string | Connected string

text \<open>
  A process, with the errors that its coming calls meet (\<open>None\<close> for a call that meets none), and
  what its functions share with others: the names of files, the connections that wait to be
  accepted at each name, and the time.
\<close>

record uproc =
  up_pid :: nat
  up_uid :: "32 word"
  up_umask :: "32 word"
  up_fds :: "nat \<rightharpoonup> sock"
  up_limit :: nat
  up_errno :: int
  up_faults :: "int option list"
  up_out :: string

record usys =
  us_names :: "string \<rightharpoonup> inode"
  us_pending :: "string \<rightharpoonup> string list"
  us_now :: int
  me :: uproc

abbreviation UC_ENOENT :: int where "UC_ENOENT \<equiv> 2"
abbreviation UC_EMFILE :: int where "UC_EMFILE \<equiv> 24"
abbreviation UC_ENAMETOOLONG :: int where "UC_ENAMETOOLONG \<equiv> 36"
abbreviation UC_EADDRINUSE :: int where "UC_EADDRINUSE \<equiv> 98"
abbreviation UC_ECONNREFUSED :: int where "UC_ECONNREFUSED \<equiv> 111"

text \<open>The size of \<open>sun_path\<close>, the permission bits, and the age in seconds of a name that is too old.\<close>

abbreviation SUN_PATH :: nat where "SUN_PATH \<equiv> 108"
abbreviation S_IRWXU :: "32 word" where "S_IRWXU \<equiv> 448"
abbreviation S_IRWXGO :: "32 word" where "S_IRWXGO \<equiv> 63"
abbreviation STALE :: int where "STALE \<equiv> 30"

section \<open>System calls\<close>

definition set_uerrno :: "int \<Rightarrow> (usys, unit) io" where
  "set_uerrno e = modify_io (\<lambda>s. s\<lparr>me := (me s)\<lparr>up_errno := e\<rparr>\<rparr>)"

text \<open>A call that fails with the next error, if there is one, and otherwise does its work.\<close>

definition or_fault :: "'a \<Rightarrow> (usys, 'a) io \<Rightarrow> (usys, 'a) io" where
  "or_fault r m s =
     (case up_faults (me s) of
        [] \<Rightarrow> m s
      | f # fs \<Rightarrow>
          (case f of
             None \<Rightarrow> m (s\<lparr>me := (me s)\<lparr>up_faults := fs\<rparr>\<rparr>)
           | Some e \<Rightarrow> Inr (r, s\<lparr>me := (me s)\<lparr>up_faults := fs, up_errno := e\<rparr>\<rparr>)))"

definition open_sock :: "sock \<Rightarrow> (usys, nat option) io" where
  "open_sock k s =
     (case free_from (up_fds (me s)) (up_limit (me s)) 0 of
        None \<Rightarrow> Inr (None, s\<lparr>me := (me s)\<lparr>up_errno := UC_EMFILE\<rparr>\<rparr>)
      | Some fd \<Rightarrow> Inr (Some fd, s\<lparr>me := (me s)\<lparr>up_fds := (up_fds (me s))(fd \<mapsto> k)\<rparr>\<rparr>))"

definition sys_socket :: "(usys, nat option) io" where
  "sys_socket = or_fault None (open_sock Unbound)"

text \<open>\<open>close\<close> releases the descriptor even when it reports an error.\<close>

definition sys_close :: "nat \<Rightarrow> (usys, unit) io" where
  "sys_close fd = seq_io (modify_io (\<lambda>s. s\<lparr>me := (me s)\<lparr>up_fds := (up_fds (me s))(fd := None)\<rparr>\<rparr>)) (or_fault () (ret_io ()))"

definition sys_unlink :: "string \<Rightarrow> (usys, unit) io" where
  "sys_unlink name = or_fault () (\<lambda>s.
     if us_names s name = None then Inr ((), s\<lparr>me := (me s)\<lparr>up_errno := UC_ENOENT\<rparr>\<rparr>)
     else Inr ((), s\<lparr>us_names := (us_names s)(name := None)\<rparr>))"

definition sys_bind :: "nat \<Rightarrow> string \<Rightarrow> (usys, bool) io" where
  "sys_bind fd name = or_fault False (\<lambda>s.
     if us_names s name \<noteq> None then Inr (False, s\<lparr>me := (me s)\<lparr>up_errno := UC_EADDRINUSE\<rparr>\<rparr>)
     else Inr (True, s\<lparr>us_names := (us_names s)(name \<mapsto>
         \<lparr>i_sock = True, i_perm = 511 AND NOT (up_umask (me s)), i_uid = up_uid (me s), i_atime = us_now s, i_mtime = us_now s, i_ctime = us_now s\<rparr>),
       me := (me s)\<lparr>up_fds := (up_fds (me s))(fd \<mapsto> Bound name)\<rparr>\<rparr>))"

definition sys_listen :: "nat \<Rightarrow> (usys, bool) io" where
  "sys_listen fd = or_fault False (\<lambda>s.
     case up_fds (me s) fd of
       Some (Bound name) \<Rightarrow> Inr (True, s\<lparr>us_pending := (us_pending s)(name \<mapsto> []), me := (me s)\<lparr>up_fds := (up_fds (me s))(fd \<mapsto> Listening name)\<rparr>\<rparr>)
     | _ \<Rightarrow> Inl (Undefined ''listen on another kind of descriptor''))"

definition sys_chmod :: "string \<Rightarrow> 32 word \<Rightarrow> (usys, bool) io" where
  "sys_chmod name m = or_fault False (\<lambda>s.
     case us_names s name of
       None \<Rightarrow> Inr (False, s\<lparr>me := (me s)\<lparr>up_errno := UC_ENOENT\<rparr>\<rparr>)
     | Some i \<Rightarrow> Inr (True, s\<lparr>us_names := (us_names s)(name \<mapsto> i\<lparr>i_perm := m, i_ctime := us_now s\<rparr>)\<rparr>))"

text \<open>A connection waits at the server's name under the name that the client has bound.\<close>

definition addr_of :: "sock option \<Rightarrow> string" where
  "addr_of k = (case k of Some (Bound name) \<Rightarrow> name | _ \<Rightarrow> '''')"

definition sys_connect :: "nat \<Rightarrow> string \<Rightarrow> (usys, bool) io" where
  "sys_connect fd name = or_fault False (\<lambda>s.
     case us_names s name of
       None \<Rightarrow> Inr (False, s\<lparr>me := (me s)\<lparr>up_errno := UC_ENOENT\<rparr>\<rparr>)
     | Some i \<Rightarrow>
         (case us_pending s name of
            None \<Rightarrow> Inr (False, s\<lparr>me := (me s)\<lparr>up_errno := UC_ECONNREFUSED\<rparr>\<rparr>)
          | Some q \<Rightarrow> Inr (True, s\<lparr>us_pending := (us_pending s)(name \<mapsto> q @ [addr_of (up_fds (me s) fd)]),
              me := (me s)\<lparr>up_fds := (up_fds (me s))(fd \<mapsto> Connected name)\<rparr>\<rparr>)))"

definition sys_accept :: "nat \<Rightarrow> (usys, (nat \<times> string) option) io" where
  "sys_accept lfd = or_fault None (\<lambda>s.
     case up_fds (me s) lfd of
       Some (Listening name) \<Rightarrow>
         (case us_pending s name of
            Some (a # q) \<Rightarrow>
              bind_io (open_sock (Connected a)) (\<lambda>r.
              case r of
                None \<Rightarrow> ret_io None
              | Some fd \<Rightarrow> seq_io (modify_io (\<lambda>s. s\<lparr>us_pending := (us_pending s)(name \<mapsto> q)\<rparr>)) (ret_io (Some (fd, a)))) s
          | _ \<Rightarrow> Inl Blocked)
     | _ \<Rightarrow> Inl (Undefined ''accept on another kind of descriptor''))"

definition sys_stat :: "string \<Rightarrow> (usys, inode option) io" where
  "sys_stat name = or_fault None (\<lambda>s.
     case us_names s name of
       None \<Rightarrow> Inr (None, s\<lparr>me := (me s)\<lparr>up_errno := UC_ENOENT\<rparr>\<rparr>)
     | Some i \<Rightarrow> Inr (Some i, s))"

section \<open>The functions\<close>

text \<open>The end of each function on an error: \<open>errno\<close> survives the clean-up.\<close>

definition errout :: "nat \<Rightarrow> string option \<Rightarrow> int \<Rightarrow> (usys, int) io" where
  "errout fd do_unlink rval =
     bind_io (gets_io (\<lambda>s. up_errno (me s))) (\<lambda>err.
     seq_io (sys_close fd)
    (seq_io (case do_unlink of None \<Rightarrow> ret_io () | Some name \<Rightarrow> sys_unlink name)
    (seq_io (set_uerrno err)
     (ret_io rval))))"

definition serv_listen :: "string \<Rightarrow> (usys, int) io" where
  "serv_listen name =
     (if SUN_PATH \<le> length name then seq_io (set_uerrno UC_ENAMETOOLONG) (ret_io (-1))
      else
        bind_io sys_socket (\<lambda>r.
        case r of
          None \<Rightarrow> ret_io (-2)
        | Some fd \<Rightarrow>
            seq_io (sys_unlink name)
           (bind_io (sys_bind fd name) (\<lambda>ok.
            if \<not> ok then errout fd None (-3)
            else
              bind_io (sys_listen fd) (\<lambda>ok.
              if \<not> ok then errout fd None (-4)
              else ret_io (int fd))))))"

definition CLI_PATH :: string where
  "CLI_PATH = ''/var/tmp/''"

text \<open>The client's name: \<open>%s%05ld\<close> of \<open>CLI_PATH\<close> and the process ID.\<close>

definition cli_name :: "nat \<Rightarrow> string" where
  "cli_name pid = CLI_PATH @ replicate (5 - length (dec pid)) (CHR ''0'') @ dec pid"

definition cli_conn :: "string \<Rightarrow> (usys, int) io" where
  "cli_conn name =
     (if SUN_PATH \<le> length name then seq_io (set_uerrno UC_ENAMETOOLONG) (ret_io (-1))
      else
        bind_io sys_socket (\<lambda>r.
        case r of
          None \<Rightarrow> ret_io (-1)
        | Some fd \<Rightarrow>
            bind_io (gets_io (\<lambda>s. cli_name (up_pid (me s)))) (\<lambda>path.
            seq_io (modify_io (\<lambda>s. s\<lparr>me := (me s)\<lparr>up_out := up_out (me s) @ ''file is '' @ path @ [NEWLINE]\<rparr>\<rparr>))
           (seq_io (sys_unlink path)
           (bind_io (sys_bind fd path) (\<lambda>ok.
            if \<not> ok then errout fd None (-2)
            else
              bind_io (sys_chmod path S_IRWXU) (\<lambda>ok.
              if \<not> ok then errout fd (Some path) (-3)
              else
                bind_io (sys_connect fd name) (\<lambda>ok.
                if \<not> ok then errout fd (Some path) (-4)
                else ret_io (int fd)))))))))"

text \<open>The tests of the client's name, with the result on failure.\<close>

definition serv_check :: "int \<Rightarrow> inode \<Rightarrow> int option" where
  "serv_check t i =
     (if \<not> i_sock i then Some (-4)
      else if i_perm i AND S_IRWXGO \<noteq> 0 \<or> i_perm i AND S_IRWXU \<noteq> S_IRWXU then Some (-5)
      else if i_atime i < t - STALE \<or> i_ctime i < t - STALE \<or> i_mtime i < t - STALE then Some (-6)
      else None)"

text \<open>What follows on \<open>accept\<close>; the result carries the user ID stored through \<open>uidptr\<close>, if any.\<close>

definition serv_admit :: "nat \<Rightarrow> string \<Rightarrow> (usys, int \<times> 32 word option) io" where
  "serv_admit clifd name =
     bind_io (sys_stat name) (\<lambda>st.
     case st of
       None \<Rightarrow> bind_io (errout clifd None (-3)) (\<lambda>r. ret_io (r, None))
     | Some i \<Rightarrow>
         bind_io (gets_io us_now) (\<lambda>t.
         case serv_check t i of
           Some rval \<Rightarrow> bind_io (errout clifd None rval) (\<lambda>r. ret_io (r, None))
         | None \<Rightarrow> seq_io (sys_unlink name) (ret_io (int clifd, Some (i_uid i)))))"

definition serv_accept :: "nat \<Rightarrow> (usys, int \<times> 32 word option) io" where
  "serv_accept listenfd =
     bind_io (or_fault False (ret_io True)) (\<lambda>malloc_ok.
     if \<not> malloc_ok then ret_io (-1, None)
     else
       bind_io (sys_accept listenfd) (\<lambda>r.
       case r of
         None \<Rightarrow> ret_io (-2, None)
       | Some (clifd, name) \<Rightarrow> serv_admit clifd name))"

section \<open>What the calls keep\<close>

text \<open>States that differ at most in \<open>errno\<close>, the errors to come and the output.\<close>

definition usame :: "usys \<Rightarrow> usys \<Rightarrow> bool" where
  "usame s t \<longleftrightarrow> us_names t = us_names s \<and> us_pending t = us_pending s \<and> us_now t = us_now s \<and> up_fds (me t) = up_fds (me s) \<and>
     up_pid (me t) = up_pid (me s) \<and> up_uid (me t) = up_uid (me s) \<and> up_limit (me t) = up_limit (me s)"

lemma or_fault_cases:
  assumes "or_fault r m s = Inr (x, s')"
  obtains "x = r" "usame s s'" | t where "usame s t" "m t = Inr (x, s')"
proof (cases "up_faults (me s)")
  case Nil
  with assms that(2) [of s] show thesis by (simp add: or_fault_def usame_def)
next
  case (Cons f fs)
  with assms that(1) that(2) [of "s\<lparr>me := (me s)\<lparr>up_faults := fs\<rparr>\<rparr>"] show thesis
    by (cases f) (auto simp: or_fault_def usame_def)
qed

lemma sys_socket_keeps:
  assumes "sys_socket s = Inr (r, s')"
  shows "case r of None \<Rightarrow> usame s s' | Some fd \<Rightarrow> up_fds (me s) fd = None \<and> up_fds (me s') = (up_fds (me s))(fd \<mapsto> Unbound)"
  using assms free_from_free unfolding sys_socket_def
  by (elim or_fault_cases) (fastforce simp: open_sock_def usame_def split: option.splits)+

lemma sys_close_keeps: "sys_close fd s = Inr (u, s') \<Longrightarrow> up_fds (me s') = (up_fds (me s))(fd := None)"
  by (auto simp: sys_close_def io_simps or_fault_def split: list.splits option.splits)

lemma sys_unlink_keeps: "sys_unlink name s = Inr (u, s') \<Longrightarrow> up_fds (me s') = up_fds (me s)"
  unfolding sys_unlink_def by (elim or_fault_cases) (auto simp: usame_def split: if_splits)

lemma sys_bind_keeps:
  "sys_bind fd name s = Inr (ok, s') \<Longrightarrow> up_fds (me s') = (if ok then (up_fds (me s))(fd \<mapsto> Bound name) else up_fds (me s))"
  unfolding sys_bind_def by (elim or_fault_cases) (auto simp: usame_def split: if_splits)

lemma sys_listen_keeps:
  "sys_listen fd s = Inr (ok, s') \<Longrightarrow> up_fds (me s) fd = Some (Bound name) \<Longrightarrow>
    up_fds (me s') = (if ok then (up_fds (me s))(fd \<mapsto> Listening name) else up_fds (me s))"
  unfolding sys_listen_def by (elim or_fault_cases) (auto simp: usame_def split: if_splits)

lemma sys_chmod_keeps: "sys_chmod name p s = Inr (ok, s') \<Longrightarrow> up_fds (me s') = up_fds (me s)"
  unfolding sys_chmod_def by (elim or_fault_cases) (auto simp: usame_def split: option.splits)

lemma sys_connect_keeps:
  "sys_connect fd name s = Inr (ok, s') \<Longrightarrow> up_fds (me s') = (if ok then (up_fds (me s))(fd \<mapsto> Connected name) else up_fds (me s))"
  unfolding sys_connect_def by (elim or_fault_cases) (auto simp: usame_def split: option.splits)

lemma sys_stat_keeps:
  assumes "sys_stat name s = Inr (r, s')"
  shows "usame s s' \<and> (r = None \<or> us_names s name = r)"
  using assms unfolding sys_stat_def by (elim or_fault_cases) (auto simp: usame_def split: option.splits)

lemma sys_accept_keeps:
  assumes "sys_accept lfd s = Inr (r, s')" "up_fds (me s) lfd = Some (Listening name)"
  shows "case r of
      None \<Rightarrow> usame s s'
    | Some (fd, a) \<Rightarrow> (\<exists>q. us_pending s name = Some (a # q)) \<and> up_fds (me s) fd = None \<and> up_fds (me s') = (up_fds (me s))(fd \<mapsto> Connected a) \<and>
        us_names s' = us_names s \<and> us_now s' = us_now s"
  using assms(1) unfolding sys_accept_def
proof (cases rule: or_fault_cases)
  case (2 t)
  then obtain a q where p: "us_pending s name = Some (a # q)"
    using assms(2) by (auto simp: usame_def split: option.splits list.splits)
  with 2 assms(2) free_from_free [of "up_fds (me s)" "up_limit (me s)" 0] show ?thesis
    by (auto simp: usame_def open_sock_def io_simps split: option.splits)
qed simp

lemma errout_keeps: "errout fd u rval s = Inr (r, s') \<Longrightarrow> r = rval \<and> up_fds (me s') = (up_fds (me s))(fd := None)"
  by (auto simp: errout_def io_simps set_uerrno_def split: option.splits sum.splits dest!: sys_close_keeps sys_unlink_keeps)

lemmas conn_keeps = sys_unlink_keeps sys_bind_keeps sys_chmod_keeps sys_connect_keeps errout_keeps

text \<open>Each function opens one descriptor or none.\<close>

lemma serv_listen_fds:
  assumes "serv_listen name s = Inr (r, s')"
  shows "if 0 \<le> r then up_fds (me s) (nat r) = None \<and> up_fds (me s') = (up_fds (me s))(nat r \<mapsto> Listening name) else up_fds (me s') = up_fds (me s)"
  using assms
  by (auto simp: serv_listen_def set_uerrno_def io_simps usame_def fun_upd_idem split: if_splits sum.splits option.splits
      dest!: sys_socket_keeps conn_keeps sys_listen_keeps [where name = name])

lemma cli_conn_fds:
  assumes "cli_conn name s = Inr (r, s')"
  shows "if 0 \<le> r then up_fds (me s) (nat r) = None \<and> up_fds (me s') = (up_fds (me s))(nat r \<mapsto> Connected name) else up_fds (me s') = up_fds (me s)"
  using assms
  by (auto simp: cli_conn_def set_uerrno_def io_simps usame_def fun_upd_idem split: if_splits sum.splits option.splits dest!: sys_socket_keeps conn_keeps)

lemma serv_check_error: "serv_check t i = Some r \<Longrightarrow> r < 0"
  by (auto simp: serv_check_def split: if_splits)

lemma serv_admit_fds:
  assumes "serv_admit fd a s = Inr ((r, uid), s')"
  shows "if 0 \<le> r then r = int fd \<and> (\<exists>i. us_names s a = Some i \<and> serv_check (us_now s) i = None \<and> uid = Some (i_uid i)) \<and> up_fds (me s') = up_fds (me s)
    else uid = None \<and> up_fds (me s') = (up_fds (me s))(fd := None)"
  using assms
  by (auto simp: serv_admit_def io_simps usame_def split: sum.splits option.splits dest!: sys_stat_keeps conn_keeps serv_check_error)

lemma serv_accept_fds:
  assumes "serv_accept lfd s = Inr ((r, uid), s')" "up_fds (me s) lfd = Some (Listening name)"
  shows "if 0 \<le> r then \<exists>a q i. us_pending s name = Some (a # q) \<and> us_names s a = Some i \<and> serv_check (us_now s) i = None \<and> uid = Some (i_uid i) \<and>
        up_fds (me s) (nat r) = None \<and> up_fds (me s') = (up_fds (me s))(nat r \<mapsto> Connected a)
    else uid = None \<and> up_fds (me s') = up_fds (me s)"
proof -
  obtain ok t where ok: "or_fault False (ret_io True) s = Inr (ok, t)"
    using assms(1) by (auto simp: serv_accept_def io_simps split: sum.splits)
  then have t: "usame s t" by (elim or_fault_cases) (auto simp: io_simps)
  show ?thesis
  proof (cases ok)
    case True
    with assms(1) ok obtain p t' where p: "sys_accept lfd t = Inr (p, t')" by (auto simp: serv_accept_def io_simps split: sum.splits)
    with assms(1) ok True have rest: "(case p of None \<Rightarrow> Inr ((-2, None), t') | Some (fd, a) \<Rightarrow> serv_admit fd a t') = Inr ((r, uid), s')"
      by (auto simp: serv_accept_def io_simps split: option.splits)
    have "up_fds (me t) lfd = Some (Listening name)" using t assms(2) by (simp add: usame_def)
    from sys_accept_keeps [OF p this] rest t show ?thesis
      by (auto simp: usame_def fun_upd_idem split: option.splits if_splits dest!: serv_admit_fds)
  qed (use assms(1) ok t in \<open>auto simp: serv_accept_def io_simps usame_def\<close>)
qed

lemma perm_split: "(p :: 32 word) AND 511 = (p AND S_IRWXGO) OR (p AND S_IRWXU)"
proof -
  have "(511 :: 32 word) = S_IRWXGO OR S_IRWXU" by simp
  then show ?thesis by (simp only: bit.conj_disj_distrib)
qed

section \<open>Properties\<close>

text \<open>The client's descriptor and name after \<open>cli_conn\<close> when nothing fails.\<close>

lemma cli_conn_run:
  assumes "up_faults (me s) = []" "free_from (up_fds (me s)) (up_limit (me s)) 0 = Some fd" "length name < SUN_PATH"
    "us_names s name \<noteq> None" "us_pending s name = Some q" "name \<noteq> cli_name (up_pid (me s))"
  shows "\<exists>s1. cli_conn name s = Inr (int fd, s1) \<and>
      us_names s1 = (us_names s)(cli_name (up_pid (me s)) \<mapsto>
        \<lparr>i_sock = True, i_perm = S_IRWXU, i_uid = up_uid (me s), i_atime = us_now s, i_mtime = us_now s, i_ctime = us_now s\<rparr>) \<and>
      us_pending s1 = (us_pending s)(name \<mapsto> q @ [cli_name (up_pid (me s))]) \<and> us_now s1 = us_now s \<and>
      up_fds (me s1) = (up_fds (me s))(fd \<mapsto> Connected name)"
  using assms
  by (cases "us_names s (cli_name (up_pid (me s)))")
     (auto simp: cli_conn_def io_simps sys_socket_def open_sock_def sys_unlink_def sys_bind_def sys_chmod_def sys_connect_def or_fault_def addr_of_def)

text \<open>A server that does not listen: the client's name is removed again, and \<open>errno\<close> tells why.\<close>

lemma cli_conn_refused:
  assumes "up_faults (me s) = []" "free_from (up_fds (me s)) (up_limit (me s)) 0 = Some fd" "length name < SUN_PATH"
    "us_names s name \<noteq> None" "us_pending s name = None" "name \<noteq> cli_name (up_pid (me s))"
  shows "\<exists>s'. cli_conn name s = Inr (-4, s') \<and> up_errno (me s') = UC_ECONNREFUSED \<and> us_names s' = (us_names s)(cli_name (up_pid (me s)) := None)"
  using assms
  by (cases "us_names s (cli_name (up_pid (me s)))")
     (auto simp: cli_conn_def io_simps sys_socket_def open_sock_def sys_unlink_def sys_bind_def sys_chmod_def sys_connect_def or_fault_def addr_of_def
       errout_def set_uerrno_def sys_close_def)

text \<open>C36: the server learns who its client is. When a client has connected to a listening server with
  \<open>cli_conn\<close> and the server calls \<open>serv_accept\<close> at most \<open>STALE\<close> seconds later, the server gets a
  descriptor that is connected to this client, and the client's user ID; nothing waits to be
  accepted any more, and the client's name is gone from the file system.\<close>

theorem unix_conn_identifies_client:
  assumes "up_faults (me s) = []" "free_from (up_fds (me s)) (up_limit (me s)) 0 = Some fd" "length name < SUN_PATH"
    "us_names s name \<noteq> None" "us_pending s name = Some []" "name \<noteq> cli_name (up_pid (me s))"
    "up_faults v = []" "free_from (up_fds v) (up_limit v) 0 = Some sfd" "up_fds v lfd = Some (Listening name)" "0 \<le> d" "d \<le> STALE"
  shows "\<exists>s1 s2. cli_conn name s = Inr (int fd, s1) \<and> up_fds (me s1) = (up_fds (me s))(fd \<mapsto> Connected name) \<and>
    serv_accept lfd (s1\<lparr>me := v, us_now := us_now s1 + d\<rparr>) = Inr ((int sfd, Some (up_uid (me s))), s2) \<and>
    up_fds (me s2) = (up_fds v)(sfd \<mapsto> Connected (cli_name (up_pid (me s)))) \<and>
    us_names s2 = (us_names s)(cli_name (up_pid (me s)) := None) \<and> us_pending s2 = us_pending s"
proof -
  from cli_conn_run [OF assms(1-6)] obtain s1 where c: "cli_conn name s = Inr (int fd, s1)"
    "us_names s1 = (us_names s)(cli_name (up_pid (me s)) \<mapsto>
      \<lparr>i_sock = True, i_perm = S_IRWXU, i_uid = up_uid (me s), i_atime = us_now s, i_mtime = us_now s, i_ctime = us_now s\<rparr>)"
    "us_pending s1 = (us_pending s)(name \<mapsto> [cli_name (up_pid (me s))])" "us_now s1 = us_now s"
    "up_fds (me s1) = (up_fds (me s))(fd \<mapsto> Connected name)" by auto
  have "\<exists>s2. serv_accept lfd (s1\<lparr>me := v, us_now := us_now s1 + d\<rparr>) = Inr ((int sfd, Some (up_uid (me s))), s2) \<and>
    up_fds (me s2) = (up_fds v)(sfd \<mapsto> Connected (cli_name (up_pid (me s)))) \<and>
    us_names s2 = (us_names s)(cli_name (up_pid (me s)) := None) \<and> us_pending s2 = us_pending s"
    using assms(5,7-11) c(2-4)
    by (simp add: serv_accept_def serv_admit_def io_simps or_fault_def sys_accept_def open_sock_def sys_stat_def serv_check_def sys_unlink_def fun_upd_idem)
  with c(1,5) show ?thesis by blast
qed

definition sample_proc :: "nat \<Rightarrow> 32 word \<Rightarrow> (nat \<rightharpoonup> sock) \<Rightarrow> uproc" where
  "sample_proc pid uid fds = \<lparr>up_pid = pid, up_uid = uid, up_umask = 18, up_fds = fds, up_limit = 8, up_errno = 0, up_faults = [], up_out = []\<rparr>"

definition sample_usys :: "uproc \<Rightarrow> usys" where
  "sample_usys p = \<lparr>us_names = [''/tmp/opend'' \<mapsto> \<lparr>i_sock = True, i_perm = 493, i_uid = 0, i_atime = 0, i_mtime = 0, i_ctime = 0\<rparr>],
     us_pending = [''/tmp/opend'' \<mapsto> []], us_now = 1000, me = p\<rparr>"

theorem unix_conn_identifies_client_witness:
  "\<exists>s1 s2. cli_conn ''/tmp/opend'' (sample_usys (sample_proc 77 500 Map.empty)) = Inr (0, s1) \<and>
    serv_accept 3 (s1\<lparr>me := sample_proc 5 0 [3 \<mapsto> Listening ''/tmp/opend''], us_now := us_now s1 + 2\<rparr>) = Inr ((0, Some 500), s2) \<and>
    up_fds (me s2) 0 = Some (Connected ''/var/tmp/00077'')"
proof -
  have n: "cli_name 77 = ''/var/tmp/00077''" by code_simp
  have f: "free_from (Map.empty :: nat \<rightharpoonup> sock) 8 0 = Some 0" "free_from [3 \<mapsto> Listening ''/tmp/opend''] 8 0 = Some 0" by (simp_all add: numeral_eq_Suc)
  show ?thesis
    using unix_conn_identifies_client [of "sample_usys (sample_proc 77 500 Map.empty)" 0 "''/tmp/opend''" "sample_proc 5 0 [3 \<mapsto> Listening ''/tmp/opend'']" 0 3 2] f n
    by (auto simp: sample_usys_def sample_proc_def)
qed

text \<open>C38: whichever calls fail, no descriptor leaks and no client is accepted unchecked. A call of
  \<open>serv_listen\<close>, \<open>cli_conn\<close> or \<open>serv_accept\<close> that returns a descriptor has opened just this one, in
  the state it should have; one that fails leaves the descriptors as they were. \<open>serv_accept\<close>
  returns a user ID only with a descriptor, and only the owner of the name that the client has
  bound, which is a socket that only its owner can use and that is not too old.\<close>

theorem unix_conn_errors_clean:
  assumes "up_fds (me s) lfd = Some (Listening own)"
  shows "(\<forall>r s'. serv_listen name s = Inr (r, s') \<longrightarrow>
      (if 0 \<le> r then up_fds (me s) (nat r) = None \<and> up_fds (me s') = (up_fds (me s))(nat r \<mapsto> Listening name) else up_fds (me s') = up_fds (me s))) \<and>
    (\<forall>r s'. cli_conn name s = Inr (r, s') \<longrightarrow>
      (if 0 \<le> r then up_fds (me s) (nat r) = None \<and> up_fds (me s') = (up_fds (me s))(nat r \<mapsto> Connected name) else up_fds (me s') = up_fds (me s))) \<and>
    (\<forall>r uid s'. serv_accept lfd s = Inr ((r, uid), s') \<longrightarrow>
      (if 0 \<le> r then \<exists>a q i. us_pending s own = Some (a # q) \<and> us_names s a = Some i \<and> i_sock i \<and> i_perm i AND 511 = S_IRWXU \<and>
          us_now s - STALE \<le> i_ctime i \<and> uid = Some (i_uid i) \<and>
          up_fds (me s) (nat r) = None \<and> up_fds (me s') = (up_fds (me s))(nat r \<mapsto> Connected a)
       else uid = None \<and> up_fds (me s') = up_fds (me s)))"
proof -
  have i: "i_sock i \<and> i_perm i AND 511 = S_IRWXU \<and> us_now s - STALE \<le> i_ctime i" if "serv_check (us_now s) i = None" for i
    using that perm_split [of "i_perm i"] by (auto simp: serv_check_def split: if_splits)
  have "if 0 \<le> r then \<exists>a q i. us_pending s own = Some (a # q) \<and> us_names s a = Some i \<and> i_sock i \<and>
        i_perm i AND 511 = S_IRWXU \<and> us_now s - STALE \<le> i_ctime i \<and> uid = Some (i_uid i) \<and>
        up_fds (me s) (nat r) = None \<and> up_fds (me s') = (up_fds (me s))(nat r \<mapsto> Connected a)
      else uid = None \<and> up_fds (me s') = up_fds (me s)" if "serv_accept lfd s = Inr ((r, uid), s')" for r uid s'
    using serv_accept_fds [OF that assms] i by (cases "0 \<le> r") (simp, blast, simp)
  with serv_listen_fds [of name s] cli_conn_fds [of name s] show ?thesis by blast
qed

theorem unix_conn_errors_clean_witness:
  "\<exists>r s'. serv_accept 3 ((sample_usys (sample_proc 5 0 [3 \<mapsto> Listening ''/tmp/opend'']))\<lparr>us_pending := [''/tmp/opend'' \<mapsto> [''/tmp/opend'']]\<rparr>) = Inr ((r, None), s') \<and>
     r < 0 \<and> up_fds (me s') = [3 \<mapsto> Listening ''/tmp/opend'']"
proof -
  let ?s = "(sample_usys (sample_proc 5 0 [3 \<mapsto> Listening ''/tmp/opend'']))\<lparr>us_pending := [''/tmp/opend'' \<mapsto> [''/tmp/opend'']]\<rparr>"
  have l: "up_fds (me ?s) 3 = Some (Listening ''/tmp/opend'')" by (simp add: sample_usys_def sample_proc_def)
  have f: "free_from [3 \<mapsto> Listening ''/tmp/opend''] 8 0 = Some 0" by (simp add: numeral_eq_Suc)
  have "\<exists>s'. serv_accept 3 ?s = Inr ((-5, None), s')"
    using f by (simp add: serv_accept_def serv_admit_def io_simps or_fault_def sys_accept_def open_sock_def sys_stat_def serv_check_def errout_def sys_close_def
        set_uerrno_def sample_usys_def sample_proc_def)
  then obtain s' where s': "serv_accept 3 ?s = Inr ((-5, None), s')" by blast
  with unix_conn_errors_clean [OF l, of "''x''"] have "up_fds (me s') = up_fds (me ?s)" by fastforce
  with s' show ?thesis by (auto simp: sample_usys_def sample_proc_def)
qed

end
