(* ===== verification/Ftw.thy ===== *)
theory Ftw
  imports Apue_Prelude
begin

text \<open>
  The walk through a file hierarchy of \<open>filedir/ftw8.c\<close>, which calls a function for every file and
  counts the files of each type, with the buffer for path names of \<open>lib/pathalloc.c\<close>. The walk
  works on path names in one buffer; its specification is the preorder of the tree that the
  path names denote. The file system is given by what \<open>lstat\<close> and \<open>opendir\<close> with \<open>readdir\<close> return.
\<close>

section \<open>The buffer for a path name\<close>

text \<open>\<open>pathalloc.c\<close>; \<open>pc_conf\<close> is what \<open>pathconf\<close> returns: a limit, or no limit, or an error.\<close>

record path_conf =
  pathmax :: int
  posix_version :: int
  xsi_version :: int

datatype limit = Limit int | NoLimit | LimitError

abbreviation PATH_MAX_GUESS :: int where "PATH_MAX_GUESS \<equiv> 1024"

definition path_alloc :: "int \<Rightarrow> int \<Rightarrow> limit \<Rightarrow> bool \<Rightarrow> (path_conf, nat) io" where
  "path_alloc sc_version sc_xopen pc_conf malloc_ok =
     seq_io (modify_io (\<lambda>s. if posix_version s = 0 then s\<lparr>posix_version := sc_version\<rparr> else s))
    (seq_io (modify_io (\<lambda>s. if xsi_version s = 0 then s\<lparr>xsi_version := sc_xopen\<rparr> else s))
    (bind_io (gets_io pathmax) (\<lambda>m.
     seq_io (when_io (m = 0)
       (case pc_conf of
          LimitError \<Rightarrow> fail_io (SysExit ''pathconf error for _PC_PATH_MAX'')
        | NoLimit \<Rightarrow> modify_io (\<lambda>s. s\<lparr>pathmax := PATH_MAX_GUESS\<rparr>)
        | Limit k \<Rightarrow> modify_io (\<lambda>s. s\<lparr>pathmax := k + 1\<rparr>)))
    (bind_io (gets_io (\<lambda>s. if posix_version s < 200112 \<and> xsi_version s < 4 then pathmax s + 1 else pathmax s)) (\<lambda>sz.
     if \<not> malloc_ok then fail_io (SysExit ''malloc error for pathname'')
     else ret_io (nat sz))))))"

section \<open>State\<close>

text \<open>
  The buffer \<open>fullpath\<close>, whose size is \<open>pathlen\<close>, the state of the function that is called, the
  directories that are open, the messages of the walk itself, and whether the coming calls
  of \<open>realloc\<close> succeed.
\<close>

record 'u ftw =
  fullpath :: string
  ustate :: 'u
  nopen :: nat
  fmsgs :: "string list"
  reallocs :: "bool list"

datatype ftype = S_IFREG | S_IFDIR | S_IFBLK | S_IFCHR | S_IFIFO | S_IFLNK | S_IFSOCK | S_OTHER

datatype ftwarg = FTW_F | FTW_D | FTW_DNR | FTW_NS

text \<open>The function to call; it gets no file type when there is none.\<close>

type_synonym 'u myfunc = "string \<Rightarrow> ftype option \<Rightarrow> ftwarg \<Rightarrow> ('u, int) io"

record hier =
  lstat :: "string \<Rightarrow> ftype option"
  opendir :: "string \<Rightarrow> string list option"
  closedir_ok :: "string \<Rightarrow> bool"

abbreviation NAME_MAX :: nat where "NAME_MAX \<equiv> 255"

section \<open>The walk\<close>

definition call_func :: "'u myfunc \<Rightarrow> ftype option \<Rightarrow> ftwarg \<Rightarrow> ('u ftw, int) io" where
  "call_func func st a s =
     (case func (cstr (fullpath s)) st a (ustate s) of
        Inl e \<Rightarrow> Inl e
      | Inr (r, u) \<Rightarrow> Inr (r, s\<lparr>ustate := u\<rparr>))"

definition grow_path :: "nat \<Rightarrow> ('u ftw, unit) io" where
  "grow_path n s =
     (let (ok, rest) = (case reallocs s of [] \<Rightarrow> (True, []) | r # rs \<Rightarrow> (r, rs)) in
      if ok then Inr ((), s\<lparr>fullpath := take n (fullpath s) @ replicate (n - length (fullpath s)) (CHR ''?''), reallocs := rest\<rparr>)
      else Inl (SysExit ''realloc failed''))"

definition put_char :: "nat \<Rightarrow> char \<Rightarrow> ('u ftw, unit) io" where
  "put_char i c s =
     (if i < length (fullpath s) then Inr ((), s\<lparr>fullpath := (fullpath s)[i := c]\<rparr>) else Inl (Undefined ''write past the path buffer''))"

definition strcpy_at :: "nat \<Rightarrow> string \<Rightarrow> ('u ftw, unit) io" where
  "strcpy_at i str s =
     (if i + length str < length (fullpath s)
      then Inr ((), s\<lparr>fullpath := take i (fullpath s) @ str @ NUL # drop (i + length str + 1) (fullpath s)\<rparr>)
      else Inl (Undefined ''write past the path buffer''))"

text \<open>The loop over the names that \<open>readdir\<close> returns; \<open>visit\<close> is the recursive call.\<close>

fun dir_loop :: "('u ftw, int) io \<Rightarrow> nat \<Rightarrow> string list \<Rightarrow> int \<Rightarrow> ('u ftw, int) io" where
  "dir_loop visit n [] ret = ret_io ret"
| "dir_loop visit n (d # ds) ret =
     (if d = ''.'' \<or> d = ''..'' then dir_loop visit n ds ret
      else
        seq_io (strcpy_at n d)
       (bind_io visit (\<lambda>ret.
        if ret \<noteq> 0 then ret_io ret else dir_loop visit n ds ret)))"

text \<open>A directory whose name, with a slash, is in the buffer: from \<open>opendir\<close> to \<open>closedir\<close>.\<close>

definition read_dir :: "('u ftw, int) io \<Rightarrow> hier \<Rightarrow> 'u myfunc \<Rightarrow> ftype \<Rightarrow> nat \<Rightarrow> int \<Rightarrow> ('u ftw, int) io" where
  "read_dir visit fs func st n ret =
     bind_io (gets_io (\<lambda>s. cstr (fullpath s))) (\<lambda>dir.
     case opendir fs dir of
       None \<Rightarrow> call_func func (Some st) FTW_DNR
     | Some names \<Rightarrow>
         seq_io (modify_io (\<lambda>s. s\<lparr>nopen := nopen s + 1\<rparr>))
        (bind_io (dir_loop visit n names ret) (\<lambda>ret.
         seq_io (put_char (n - 1) NUL)
        (seq_io (modify_io (\<lambda>s. s\<lparr>nopen := nopen s - 1,
           fmsgs := fmsgs s @ (if closedir_ok fs (cstr (fullpath s)) then [] else [''can't close directory '' @ cstr (fullpath s)])\<rparr>))
         (ret_io ret)))))"

text \<open>The recursion is bounded by \<open>fuel\<close>, which has to exceed the height of the tree.\<close>

fun dopath :: "nat \<Rightarrow> hier \<Rightarrow> 'u myfunc \<Rightarrow> ('u ftw, int) io" where
  "dopath 0 fs func = fail_io Diverges"
| "dopath (Suc fuel) fs func =
     bind_io (gets_io (\<lambda>s. cstr (fullpath s))) (\<lambda>path.
     case lstat fs path of
       None \<Rightarrow> call_func func None FTW_NS
     | Some st \<Rightarrow>
         if st \<noteq> S_IFDIR then call_func func (Some st) FTW_F
         else
           bind_io (call_func func (Some st) FTW_D) (\<lambda>ret.
           if ret \<noteq> 0 then ret_io ret
           else
             (let n = length path in
              bind_io (gets_io (\<lambda>s. length (fullpath s))) (\<lambda>pathlen.
              seq_io (when_io (pathlen < n + NAME_MAX + 2) (grow_path (pathlen * 2)))
             (seq_io (seq_io (put_char n (CHR ''/'')) (put_char (n + 1) NUL))
              (read_dir (dopath fuel fs func) fs func st (n + 1) ret))))))"

definition myftw :: "nat \<Rightarrow> hier \<Rightarrow> nat \<Rightarrow> string \<Rightarrow> 'u myfunc \<Rightarrow> ('u ftw, int) io" where
  "myftw fuel fs pathlen pathname func =
     seq_io (modify_io (\<lambda>s. s\<lparr>fullpath := replicate pathlen (CHR ''?'')\<rparr>))
    (seq_io (when_io (pathlen \<le> length pathname) (grow_path (length pathname * 2)))
    (seq_io (strcpy_at 0 pathname)
     (dopath fuel fs func)))"

section \<open>Counting\<close>

record counts =
  nreg :: int
  ndir :: int
  nblk :: int
  nchr :: int
  nfifo :: int
  nslink :: int
  nsock :: int
  cmsgs :: "string list"

definition count_file :: "string \<Rightarrow> ftype option \<Rightarrow> (counts, unit) io" where
  "count_file pathname st =
     (case st of
        Some S_IFREG \<Rightarrow> modify_io (\<lambda>c. c\<lparr>nreg := nreg c + 1\<rparr>)
      | Some S_IFBLK \<Rightarrow> modify_io (\<lambda>c. c\<lparr>nblk := nblk c + 1\<rparr>)
      | Some S_IFCHR \<Rightarrow> modify_io (\<lambda>c. c\<lparr>nchr := nchr c + 1\<rparr>)
      | Some S_IFIFO \<Rightarrow> modify_io (\<lambda>c. c\<lparr>nfifo := nfifo c + 1\<rparr>)
      | Some S_IFLNK \<Rightarrow> modify_io (\<lambda>c. c\<lparr>nslink := nslink c + 1\<rparr>)
      | Some S_IFSOCK \<Rightarrow> modify_io (\<lambda>c. c\<lparr>nsock := nsock c + 1\<rparr>)
      | Some S_OTHER \<Rightarrow> ret_io ()
      | Some S_IFDIR \<Rightarrow> fail_io (Dump (''for S_IFDIR for '' @ pathname))
      | None \<Rightarrow> fail_io (Undefined ''file type unset''))"

definition myfunc :: "counts myfunc" where
  "myfunc pathname st a =
     seq_io (case a of
        FTW_F \<Rightarrow> count_file pathname st
      | FTW_D \<Rightarrow> modify_io (\<lambda>c. c\<lparr>ndir := ndir c + 1\<rparr>)
      | FTW_DNR \<Rightarrow> modify_io (\<lambda>c. c\<lparr>cmsgs := cmsgs c @ [''can't read directory '' @ pathname]\<rparr>)
      | FTW_NS \<Rightarrow> modify_io (\<lambda>c. c\<lparr>cmsgs := cmsgs c @ [''stat error for '' @ pathname]\<rparr>))
     (ret_io 0)"

text \<open>\<open>main\<close> up to the printing of the table: the exit status, the counters, and their sum.\<close>

definition ftw_main :: "nat \<Rightarrow> hier \<Rightarrow> nat \<Rightarrow> string list \<Rightarrow> (counts ftw, int \<times> int) io" where
  "ftw_main fuel fs pathlen argv =
     (if length argv \<noteq> 2 then fail_io (QuitExit ''usage:  ftw  <starting-pathname>'')
      else
        bind_io (myftw fuel fs pathlen (argv ! 1) myfunc) (\<lambda>ret.
        bind_io (gets_io ustate) (\<lambda>c.
        let ntot = nreg c + ndir c + nblk c + nchr c + nfifo c + nslink c + nsock c in
        ret_io (ret, if ntot = 0 then 1 else ntot))))"

section \<open>The tree\<close>

text \<open>A file that cannot be examined, one that is no directory, a directory that cannot be read, a directory.\<close>

datatype ftree = NoStat | Plain ftype | Unreadable | Dir "(string \<times> ftree) list"

lemma ftree_size [termination_simp]: "e \<in> set es \<Longrightarrow> size (snd e) < Suc (size_list (size_prod (\<lambda>_. 0) size) es)"
  by (induction es) auto

fun height :: "ftree \<Rightarrow> nat" where
  "height (Dir es) = Suc (foldr max (map (\<lambda>e. height (snd e)) es) 0)"
| "height t = 1"

text \<open>The path name \<open>p\<close> denotes the tree.\<close>

fun denotes :: "hier \<Rightarrow> string \<Rightarrow> ftree \<Rightarrow> bool" where
  "denotes fs p NoStat \<longleftrightarrow> lstat fs p = None"
| "denotes fs p (Plain st) \<longleftrightarrow> lstat fs p = Some st \<and> st \<noteq> S_IFDIR"
| "denotes fs p Unreadable \<longleftrightarrow> lstat fs p = Some S_IFDIR \<and> opendir fs (p @ ''/'') = None"
| "denotes fs p (Dir es) \<longleftrightarrow> lstat fs p = Some S_IFDIR \<and>
     (case opendir fs (p @ ''/'') of None \<Rightarrow> False | Some ns \<Rightarrow> filter (\<lambda>d. d \<noteq> ''.'' \<and> d \<noteq> ''..'') ns = map fst es) \<and>
     (\<forall>e \<in> set es. length (fst e) \<le> NAME_MAX \<and> NUL \<notin> set (fst e) \<and> denotes fs (p @ ''/'' @ fst e) (snd e))"

text \<open>The calls that a walk in preorder makes, and making them until one returns nonzero.\<close>

fun walk :: "string \<Rightarrow> ftree \<Rightarrow> (string \<times> ftype option \<times> ftwarg) list" where
  "walk p NoStat = [(p, None, FTW_NS)]"
| "walk p (Plain st) = [(p, Some st, FTW_F)]"
| "walk p Unreadable = [(p, Some S_IFDIR, FTW_D), (p @ ''/'', Some S_IFDIR, FTW_DNR)]"
| "walk p (Dir es) = (p, Some S_IFDIR, FTW_D) # concat (map (\<lambda>e. walk (p @ ''/'' @ fst e) (snd e)) es)"

fun visit_all :: "'u myfunc \<Rightarrow> (string \<times> ftype option \<times> ftwarg) list \<Rightarrow> ('u, int) io" where
  "visit_all func [] = ret_io 0"
| "visit_all func ((p, st, a) # vs) = bind_io (func p st a) (\<lambda>r. if r \<noteq> 0 then ret_io r else visit_all func vs)"

lemma visit_all_append:
  "visit_all func (vs @ ws) u = (case visit_all func vs u of Inl e \<Rightarrow> Inl e | Inr (r, u') \<Rightarrow> if r \<noteq> 0 then Inr (r, u') else visit_all func ws u')"
  by (induction func vs arbitrary: u rule: visit_all.induct) (auto simp: io_simps split: sum.splits)

section \<open>The walk follows the tree\<close>

definition buf_at :: "string \<Rightarrow> string \<Rightarrow> bool" where
  "buf_at p b \<longleftrightarrow> NUL \<notin> set p \<and> (\<exists>rest. b = p @ NUL # rest) \<and> NAME_MAX < length b"

text \<open>
  The action \<open>m\<close> has the effect of the calls \<open>vs\<close>; it keeps what the buffer holds of the path \<open>p\<close>, and
  closes the directories it opens.
\<close>

definition performs :: "'u myfunc \<Rightarrow> string \<Rightarrow> (string \<times> ftype option \<times> ftwarg) list \<Rightarrow> ('u ftw, int) io \<Rightarrow> 'u ftw \<Rightarrow> bool" where
  "performs func p vs m s \<longleftrightarrow>
     (case visit_all func vs (ustate s) of
        Inl e \<Rightarrow> m s = Inl e
      | Inr (r, u) \<Rightarrow> \<exists>s'. m s = Inr (r, s') \<and> ustate s' = u \<and> take (length p) (fullpath s') = p \<and>
          length (fullpath s) \<le> length (fullpath s') \<and> reallocs s' = [] \<and> nopen s' = nopen s)"

lemma performs_same: "m s = m' s \<Longrightarrow> performs func p vs m' s \<Longrightarrow> performs func p vs m s"
  by (simp only: performs_def)

lemma cstr_buf: "buf_at p b \<Longrightarrow> cstr b = p"
  by (auto simp: buf_at_def)

lemma buf_take: "buf_at p b \<Longrightarrow> take (length p) b = p \<and> length p < length b"
  by (auto simp: buf_at_def)

lemma take_prefix:
  assumes "take (length (p @ q)) b = p @ q"
  shows "take (length p) b = p \<and> length (p @ q) \<le> length b"
proof -
  have "b = (p @ q) @ drop (length (p @ q)) b" using assms by (metis append_take_drop_id)
  then show ?thesis by (metis append.assoc append_eq_conv_conj length_append le_add1)
qed

lemma buf_prefix: "buf_at (p @ q) b \<Longrightarrow> take (length p) b = p"
  by (auto simp: buf_at_def)

lemma performs_call:
  "buf_at (p @ q) (fullpath s) \<Longrightarrow> reallocs s = [] \<Longrightarrow> performs func p [(p @ q, st, a)] (call_func func st a) s"
  using cstr_buf [of "p @ q" "fullpath s"] buf_prefix [of p q "fullpath s"]
  by (simp add: performs_def call_func_def io_simps split: sum.splits)

text \<open>The loop over a directory, for a recursive call that does its part for each name.\<close>

lemma dir_loop_performs:
  assumes "filter (\<lambda>d. d \<noteq> ''.'' \<and> d \<noteq> ''..'') ns = map fst es"
    "\<forall>e \<in> set es. length (fst e) \<le> NAME_MAX \<and> NUL \<notin> set (fst e) \<and>
       (\<forall>s. buf_at (q @ fst e) (fullpath s) \<longrightarrow> reallocs s = [] \<longrightarrow> performs func (q @ fst e) (ws e) visit s)"
    "NUL \<notin> set q" "take (length q) (fullpath s) = q" "length q + NAME_MAX < length (fullpath s)" "reallocs s = []"
  shows "performs func q (concat (map ws es)) (dir_loop visit (length q) ns 0) s"
  using assms
proof (induction ns arbitrary: es s)
  case Nil
  then show ?case by (auto simp: performs_def io_simps)
next
  case (Cons d ns)
  show ?case
  proof (cases "d = ''.'' \<or> d = ''..''")
    case True
    with Cons.prems Cons.IH [of es s] show ?thesis by (auto simp: performs_def)
  next
    case False
    with Cons.prems(1) obtain e es' where es: "es = e # es'" "d = fst e" "filter (\<lambda>d. d \<noteq> ''.'' \<and> d \<noteq> ''..'') ns = map fst es'"
      by (cases es) auto
    define s1 where "s1 = s\<lparr>fullpath := q @ d @ NUL # drop (length q + length d + 1) (fullpath s)\<rparr>"
    have cp: "strcpy_at (length q) d s = Inr ((), s1)" using Cons.prems es by (simp add: strcpy_at_def s1_def)
    have b: "buf_at (q @ d) (fullpath s1)" "length (fullpath s1) = length (fullpath s)"
      using Cons.prems(2-5) es by (auto simp: buf_at_def s1_def)
    have p1: "performs func (q @ d) (ws e) visit s1" using Cons.prems(2,6) es b by (simp add: s1_def)
    have u1: "ustate s1 = ustate s" "nopen s1 = nopen s" by (simp_all add: s1_def)
    show ?thesis
    proof (cases "visit_all func (ws e) (ustate s)")
      case (Inl x)
      with p1 cp es False u1 show ?thesis by (simp add: performs_def visit_all_append io_simps)
    next
      case (Inr y)
      obtain r u where y: "y = (r, u)" by (cases y)
      with p1 Inr u1 obtain s2 where s2: "visit s1 = Inr (r, s2)" "ustate s2 = u" "take (length (q @ d)) (fullpath s2) = q @ d"
        "length (fullpath s1) \<le> length (fullpath s2)" "reallocs s2 = []" "nopen s2 = nopen s" by (auto simp: performs_def)
      have q2: "take (length q) (fullpath s2) = q"
        using take_prefix [OF s2(3)] by simp
      show ?thesis
      proof (cases "r = 0")
        case True
        have "performs func q (concat (map ws es')) (dir_loop visit (length q) ns 0) s2"
          using Cons.IH [OF es(3) _ Cons.prems(3) q2 _ s2(5)] Cons.prems(2,5) es(1) s2(4) b(2) by auto
        with True Inr y s2 cp es False b(2) show ?thesis
          by (auto simp: performs_def visit_all_append io_simps split: sum.splits)
      next
        case nz: False
        with Inr y s2 cp es False b(2) q2 show ?thesis by (auto simp: performs_def visit_all_append io_simps)
      qed
    qed
  qed
qed

lemma height_entry: "e \<in> set es \<Longrightarrow> height (snd e) < height (Dir es)"
  by (induction es) auto

text \<open>Growing the buffer, and appending the slash.\<close>

lemma grow_path_run:
  assumes "buf_at p (fullpath s)" "reallocs s = []"
  shows "\<exists>b. when_io (length (fullpath s) < length p + NAME_MAX + 2) (grow_path (length (fullpath s) * 2)) s = Inr ((), s\<lparr>fullpath := b\<rparr>) \<and>
    buf_at p b \<and> length (fullpath s) \<le> length b \<and> length p + NAME_MAX + 2 \<le> length b"
proof (cases "length (fullpath s) < length p + NAME_MAX + 2")
  case True
  let ?b = "fullpath s @ replicate (length (fullpath s)) (CHR ''?'')"
  have "buf_at p ?b" "length p + NAME_MAX + 2 \<le> length ?b" using assms(1) by (auto simp: buf_at_def)
  with True assms(2) show ?thesis by (intro exI [of _ ?b]) (simp add: when_io_def grow_path_def)
next
  case False
  with assms(1) show ?thesis by (intro exI [of _ "fullpath s"]) (simp add: when_io_def io_simps)
qed

lemma put_slash_run:
  assumes "buf_at p b" "length p + NAME_MAX + 2 \<le> length b"
  shows "\<exists>b'. seq_io (put_char (length p) (CHR ''/'')) (put_char (Suc (length p)) NUL) (s\<lparr>fullpath := b\<rparr>) = Inr ((), s\<lparr>fullpath := b'\<rparr>) \<and>
    buf_at (p @ ''/'') b' \<and> length b' = length b"
proof -
  obtain c rest where "b = p @ NUL # c # rest" 
  proof -
    obtain r where r: "b = p @ NUL # r" using assms(1) by (auto simp: buf_at_def)
    with assms(2) have "r \<noteq> []" by auto
    with r that show thesis by (cases r) auto
  qed
  with assms show ?thesis by (auto simp: put_char_def io_simps buf_at_def list_update_append)
qed

lemma read_dir_performs:
  assumes "opendir fs (p @ ''/'') = Some ns" "filter (\<lambda>d. d \<noteq> ''.'' \<and> d \<noteq> ''..'') ns = map fst es"
    "\<forall>e \<in> set es. length (fst e) \<le> NAME_MAX \<and> NUL \<notin> set (fst e) \<and>
       (\<forall>s. buf_at (p @ ''/'' @ fst e) (fullpath s) \<longrightarrow> reallocs s = [] \<longrightarrow> performs func (p @ ''/'' @ fst e) (ws e) visit s)"
    "buf_at (p @ ''/'') (fullpath s)" "length p + NAME_MAX + 2 \<le> length (fullpath s)" "reallocs s = []"
  shows "performs func p (concat (map ws es)) (read_dir visit fs func st (length p + 1) 0) s"
proof -
  let ?s = "s\<lparr>nopen := nopen s + 1\<rparr>"
  have "performs func (p @ ''/'') (concat (map ws es)) (dir_loop visit (length (p @ ''/'')) ns 0) ?s"
    using assms buf_take [OF assms(4)] by (intro dir_loop_performs) (auto simp: buf_at_def)
  moreover note take_prefix [of p "''/''"]
  ultimately show ?thesis using assms(1) cstr_buf [OF assms(4)]
    by (auto simp: performs_def read_dir_def io_simps put_char_def split: sum.splits)
qed

lemma read_dir_unreadable:
  assumes "opendir fs (p @ ''/'') = None" "buf_at (p @ ''/'') (fullpath s)" "reallocs s = []"
  shows "performs func p [(p @ ''/'', Some st, FTW_DNR)] (read_dir visit fs func st n ret) s"
proof -
  have "read_dir visit fs func st n ret s = call_func func (Some st) FTW_DNR s"
    using assms(1) cstr_buf [OF assms(2)] by (simp add: read_dir_def io_simps)
  then show ?thesis using performs_call [OF assms(2,3), of func "Some st" FTW_DNR] by (rule performs_same)
qed

lemma dopath_dir:
  assumes "lstat fs p = Some S_IFDIR" "buf_at p (fullpath s)" "reallocs s = []"
    and rest: "\<And>s1. buf_at (p @ ''/'') (fullpath s1) \<Longrightarrow> length p + NAME_MAX + 2 \<le> length (fullpath s1) \<Longrightarrow> reallocs s1 = [] \<Longrightarrow>
      performs func p vs (read_dir (dopath fuel fs func) fs func S_IFDIR (length p + 1) 0) s1"
  shows "performs func p ((p, Some S_IFDIR, FTW_D) # vs) (dopath (Suc fuel) fs func) s"
proof (cases "func p (Some S_IFDIR) FTW_D (ustate s)")
  case (Inl e)
  then show ?thesis using assms(1) cstr_buf [OF assms(2)] by (simp add: performs_def io_simps call_func_def)
next
  case (Inr y)
  obtain r u where y: "y = (r, u)" by (cases y)
  let ?s0 = "s\<lparr>ustate := u\<rparr>"
  have call: "call_func func (Some S_IFDIR) FTW_D s = Inr (r, ?s0)" using Inr y cstr_buf [OF assms(2)] by (simp add: call_func_def)
  show ?thesis
  proof (cases "r = 0")
    case False
    with Inr y call assms(1) cstr_buf [OF assms(2)] buf_take [OF assms(2)] assms(3) show ?thesis by (simp add: performs_def io_simps)
  next
    case True
    obtain b where b: "when_io (length (fullpath s) < length p + NAME_MAX + 2) (grow_path (length (fullpath s) * 2)) ?s0 = Inr ((), ?s0\<lparr>fullpath := b\<rparr>)"
      "buf_at p b" "length (fullpath s) \<le> length b" "length p + NAME_MAX + 2 \<le> length b"
      using grow_path_run [of p ?s0] assms(2,3) by auto
    obtain b' where b': "seq_io (put_char (length p) (CHR ''/'')) (put_char (Suc (length p)) NUL) (?s0\<lparr>fullpath := b\<rparr>) = Inr ((), ?s0\<lparr>fullpath := b'\<rparr>)"
      "buf_at (p @ ''/'') b'" "length b' = length b" using put_slash_run [OF b(2,4)] by blast
    let ?m = "read_dir (dopath fuel fs func) fs func S_IFDIR (length p + 1) 0"
    have run: "dopath (Suc fuel) fs func s = ?m (?s0\<lparr>fullpath := b'\<rparr>)"
      using assms(1) cstr_buf [OF assms(2)] call True b(1) b'(1)
      by (simp only: dopath.simps Let_def io_simps) (simp add: io_simps)
    have "performs func p vs ?m (?s0\<lparr>fullpath := b'\<rparr>)" using rest b b' assms(3) by simp
    with run Inr y True b(3) b'(3) show ?thesis
      by (auto simp: performs_def io_simps simp del: dopath.simps split: sum.splits)
  qed
qed

lemma dopath_performs:
  assumes "denotes fs p t" "height t \<le> fuel" "buf_at p (fullpath s)" "reallocs s = []"
  shows "performs func p (walk p t) (dopath fuel fs func) s"
  using assms
proof (induction fuel arbitrary: p t s)
  case 0
  then show ?case by (cases t) auto
next
  case (Suc fuel)
  have call: "performs func p [(p, st, a)] (call_func func st a) s" for st a
    using performs_call [of p "[]" s func st a] Suc.prems(3,4) by simp
  show ?case
  proof (cases t)
    case (Dir es)
    with Suc.prems(1) obtain ns where ns: "opendir fs (p @ ''/'') = Some ns" "filter (\<lambda>d. d \<noteq> ''.'' \<and> d \<noteq> ''..'') ns = map fst es"
      by (auto split: option.splits)
    have e: "\<forall>e \<in> set es. length (fst e) \<le> NAME_MAX \<and> NUL \<notin> set (fst e) \<and> (\<forall>s. buf_at (p @ ''/'' @ fst e) (fullpath s) \<longrightarrow> reallocs s = [] \<longrightarrow>
        performs func (p @ ''/'' @ fst e) (walk (p @ ''/'' @ fst e) (snd e)) (dopath fuel fs func) s)"
      using Suc.prems(1,2) Dir by (fastforce intro: Suc.IH dest: height_entry)
    show ?thesis unfolding Dir walk.simps
      using Suc.prems(1,3,4) Dir by (intro dopath_dir read_dir_performs [OF ns e]) auto
  next
    case Unreadable
    show ?thesis unfolding Unreadable walk.simps
      using Suc.prems(1,3,4) Unreadable by (intro dopath_dir read_dir_unreadable) auto
  next
    case NoStat
    show ?thesis unfolding NoStat walk.simps
      using Suc.prems(1) [unfolded NoStat] cstr_buf [OF Suc.prems(3)] by (intro performs_same [OF _ call]) (simp add: io_simps)
  next
    case (Plain st)
    show ?thesis unfolding Plain walk.simps
      using Suc.prems(1) [unfolded Plain] cstr_buf [OF Suc.prems(3)] by (intro performs_same [OF _ call]) (simp add: io_simps)
  qed
qed

lemma myftw_performs:
  assumes "denotes fs p t" "height t \<le> fuel" "NUL \<notin> set p" "NAME_MAX < pathlen" "reallocs s = []"
  shows "case visit_all func (walk p t) (ustate s) of
      Inl e \<Rightarrow> myftw fuel fs pathlen p func s = Inl e
    | Inr (r, u) \<Rightarrow> \<exists>s'. myftw fuel fs pathlen p func s = Inr (r, s') \<and> ustate s' = u \<and> nopen s' = nopen s"
proof -
  let ?n = "if pathlen \<le> length p then length p * 2 else pathlen"
  define s1 where "s1 = s\<lparr>fullpath := p @ NUL # replicate (?n - (length p + 1)) (CHR ''?'')\<rparr>"
  have n: "length p < ?n" "NAME_MAX < ?n" using assms(4) by auto
  have grow: "when_io (pathlen \<le> length p) (grow_path (length p * 2)) (s\<lparr>fullpath := replicate pathlen (CHR ''?'')\<rparr>)
      = Inr ((), s\<lparr>fullpath := replicate ?n (CHR ''?'')\<rparr>)"
    using assms(5) by (simp add: when_io_def grow_path_def io_simps replicate_add [symmetric])
  have "myftw fuel fs pathlen p func s = dopath fuel fs func s1"
    using grow n(1) by (simp add: myftw_def io_simps strcpy_at_def s1_def)
  moreover have "performs func p (walk p t) (dopath fuel fs func) s1"
    using assms n by (intro dopath_performs) (auto simp: buf_at_def s1_def)
  ultimately show ?thesis by (auto simp: performs_def s1_def split: sum.splits)
qed

section \<open>What is counted\<close>

fun file_types :: "ftree \<Rightarrow> ftype list" where
  "file_types NoStat = []"
| "file_types (Plain st) = [st]"
| "file_types Unreadable = [S_IFDIR]"
| "file_types (Dir es) = S_IFDIR # concat (map (\<lambda>e. file_types (snd e)) es)"

fun counter :: "ftype \<Rightarrow> counts \<Rightarrow> int" where
  "counter S_IFREG c = nreg c" | "counter S_IFDIR c = ndir c" | "counter S_IFBLK c = nblk c" | "counter S_IFCHR c = nchr c"
| "counter S_IFIFO c = nfifo c" | "counter S_IFLNK c = nslink c" | "counter S_IFSOCK c = nsock c" | "counter S_OTHER c = 0"

fun visit_types :: "string \<times> ftype option \<times> ftwarg \<Rightarrow> ftype list" where
  "visit_types (p, Some st, FTW_F) = [st]"
| "visit_types (p, st, FTW_D) = [S_IFDIR]"
| "visit_types v = []"

lemma concat_visits: "concat (map f (concat (map g xs))) = concat (map (\<lambda>x. concat (map f (g x))) xs)"
  by (induction xs) auto

lemma walk_types: "concat (map visit_types (walk p t)) = file_types t"
proof (induction p t rule: walk.induct)
  case (4 p es)
  then have "concat (map (\<lambda>e. concat (map visit_types (walk (p @ ''/'' @ fst e) (snd e)))) es) = concat (map (\<lambda>e. file_types (snd e)) es)"
    by (intro arg_cong [where f = concat] map_cong) auto
  then show ?case by (simp add: concat_visits)
qed auto

lemma myfunc_counts:
  assumes "a = FTW_F \<Longrightarrow> st \<noteq> None \<and> st \<noteq> Some S_IFDIR"
  shows "\<exists>c'. myfunc p st a c = Inr (0, c') \<and> (\<forall>k. k \<noteq> S_OTHER \<longrightarrow> counter k c' = counter k c + int (count_list (visit_types (p, st, a)) k))"
proof (cases a)
  case FTW_F
  with assms obtain x where x: "st = Some x" "x \<noteq> S_IFDIR" by auto
  have "counter k (c\<lparr>nreg := nreg c + 1\<rparr>) = counter k c + (if k = S_IFREG then 1 else 0)"
    "counter k (c\<lparr>nblk := nblk c + 1\<rparr>) = counter k c + (if k = S_IFBLK then 1 else 0)"
    "counter k (c\<lparr>nchr := nchr c + 1\<rparr>) = counter k c + (if k = S_IFCHR then 1 else 0)"
    "counter k (c\<lparr>nfifo := nfifo c + 1\<rparr>) = counter k c + (if k = S_IFIFO then 1 else 0)"
    "counter k (c\<lparr>nslink := nslink c + 1\<rparr>) = counter k c + (if k = S_IFLNK then 1 else 0)"
    "counter k (c\<lparr>nsock := nsock c + 1\<rparr>) = counter k c + (if k = S_IFSOCK then 1 else 0)" for k
    by (cases k; simp)+
  with FTW_F x show ?thesis by (cases x) (auto simp: myfunc_def count_file_def io_simps)
next
  case FTW_D
  have "counter k (c\<lparr>ndir := ndir c + 1\<rparr>) = counter k c + (if k = S_IFDIR then 1 else 0)" for k by (cases k) simp_all
  with FTW_D show ?thesis by (auto simp: myfunc_def io_simps)
next
  case FTW_DNR
  have "counter k (c\<lparr>cmsgs := m\<rparr>) = counter k c" for k m by (cases k) simp_all
  with FTW_DNR show ?thesis by (auto simp: myfunc_def io_simps)
next
  case FTW_NS
  have "counter k (c\<lparr>cmsgs := m\<rparr>) = counter k c" for k m by (cases k) simp_all
  with FTW_NS show ?thesis by (auto simp: myfunc_def io_simps)
qed

lemma visit_all_counts:
  assumes "\<forall>(p, st, a) \<in> set vs. a = FTW_F \<longrightarrow> st \<noteq> None \<and> st \<noteq> Some S_IFDIR"
  shows "\<exists>c'. visit_all myfunc vs c = Inr (0, c') \<and> (\<forall>k. k \<noteq> S_OTHER \<longrightarrow> counter k c' = counter k c + int (count_list (concat (map visit_types vs)) k))"
  using assms
proof (induction vs arbitrary: c)
  case (Cons v vs)
  obtain p st a where v: "v = (p, st, a)" by (cases v)
  with Cons.prems obtain c1 where c1: "myfunc p st a c = Inr (0, c1)"
    "\<forall>k. k \<noteq> S_OTHER \<longrightarrow> counter k c1 = counter k c + int (count_list (visit_types (p, st, a)) k)"
    using myfunc_counts [of a st p c] by auto
  from Cons.IH [of c1] Cons.prems obtain c' where "visit_all myfunc vs c1 = Inr (0, c')"
    "\<forall>k. k \<noteq> S_OTHER \<longrightarrow> counter k c' = counter k c1 + int (count_list (concat (map visit_types vs)) k)" by auto
  with c1 v show ?case by (simp add: io_simps)
qed (simp add: io_simps)

lemma walk_plain: "denotes fs p t \<Longrightarrow> (q, st, FTW_F) \<in> set (walk p t) \<Longrightarrow> st \<noteq> None \<and> st \<noteq> Some S_IFDIR"
  by (induction p t rule: walk.induct) auto

section \<open>Properties\<close>

text \<open>C37: the walk is the preorder of the tree. When the path name denotes a tree of files, whatever the
  function that is called does, it is called for the files of the tree in preorder, each
  directory before what it contains and in the order of its entries, until a call returns
  nonzero, and this is what \<open>myftw\<close> returns; a directory that cannot be read is reported besides.
  The path names never leave the buffer, however long they become, and every directory that
  was opened is closed.\<close>

theorem ftw_preorder:
  assumes "denotes fs p t" "height t \<le> fuel" "NUL \<notin> set p" "NAME_MAX < pathlen" "reallocs s = []"
  shows "case visit_all func (walk p t) (ustate s) of
      Inl e \<Rightarrow> myftw fuel fs pathlen p func s = Inl e
    | Inr (r, u) \<Rightarrow> \<exists>s'. myftw fuel fs pathlen p func s = Inr (r, s') \<and> ustate s' = u \<and> nopen s' = nopen s"
  using assms by (rule myftw_performs)

definition sample_hier :: hier where
  "sample_hier = \<lparr>lstat = (\<lambda>p. if p = ''d'' \<or> p = ''d/e'' then Some S_IFDIR else if p = ''d/f'' then Some S_IFREG else None),
     opendir = (\<lambda>p. if p = ''d/'' then Some [''.'', ''f'', ''..'', ''e''] else None), closedir_ok = (\<lambda>p. True)\<rparr>"

definition sample_ftree :: ftree where
  "sample_ftree = Dir [(''f'', Plain S_IFREG), (''e'', Unreadable)]"

definition list_names :: "string list myfunc" where
  "list_names p st a u = Inr (0, u @ [p])"

definition sample_ftw :: "'u \<Rightarrow> 'u ftw" where
  "sample_ftw u = \<lparr>fullpath = [], ustate = u, nopen = 0, fmsgs = [], reallocs = []\<rparr>"

lemma sample_denotes: "denotes sample_hier ''d'' sample_ftree"
  by (simp add: sample_hier_def sample_ftree_def)

theorem ftw_preorder_witness:
  "\<exists>s'. myftw 2 sample_hier 1024 ''d'' list_names (sample_ftw []) = Inr (0, s') \<and> ustate s' = [''d'', ''d/f'', ''d/e'', ''d/e/'']"
  using ftw_preorder [OF sample_denotes, of 2 1024 "sample_ftw []" list_names]
  by (auto simp: sample_ftree_def sample_ftw_def list_names_def io_simps)

text \<open>The program counts every file once. \<open>main\<close> exits with status 0, and each counter has grown by
  the number of files of its type in the tree; directories that cannot be read are counted,
  files that cannot be examined are not.\<close>

theorem ftw_counts_files:
  assumes "denotes fs p t" "height t \<le> fuel" "NUL \<notin> set p" "NAME_MAX < pathlen" "reallocs s = []"
  shows "\<exists>ntot s'. ftw_main fuel fs pathlen [prog, p] s = Inr ((0, ntot), s') \<and>
    (\<forall>k. k \<noteq> S_OTHER \<longrightarrow> counter k (ustate s') = counter k (ustate s) + int (count_list (file_types t) k)) \<and>
    ntot = (let n = sum_list (map (\<lambda>k. counter k (ustate s')) [S_IFREG, S_IFDIR, S_IFBLK, S_IFCHR, S_IFIFO, S_IFLNK, S_IFSOCK]) in if n = 0 then 1 else n)"
proof -
  obtain c' where c: "visit_all myfunc (walk p t) (ustate s) = Inr (0, c')"
    "\<forall>k. k \<noteq> S_OTHER \<longrightarrow> counter k c' = counter k (ustate s) + int (count_list (file_types t) k)"
    using visit_all_counts [of "walk p t" "ustate s"] walk_plain [OF assms(1)] by (auto simp: walk_types)
  with myftw_performs [OF assms, of myfunc] obtain s' where "myftw fuel fs pathlen p myfunc s = Inr (0, s')" "ustate s' = c'" by auto
  with c(2) show ?thesis by (auto simp: ftw_main_def io_simps Let_def)
qed

theorem ftw_counts_files_witness:
  "\<exists>ntot s'. ftw_main 2 sample_hier 1024 [''ftw'', ''d''] (sample_ftw \<lparr>nreg = 0, ndir = 0, nblk = 0, nchr = 0, nfifo = 0, nslink = 0, nsock = 0, cmsgs = []\<rparr>)
     = Inr ((0, ntot), s') \<and> nreg (ustate s') = 1 \<and> ndir (ustate s') = 2"
proof -
  let ?c = "\<lparr>nreg = 0, ndir = 0, nblk = 0, nchr = 0, nfifo = 0, nslink = 0, nsock = 0, cmsgs = []\<rparr>"
  obtain ntot s' where "ftw_main 2 sample_hier 1024 [''ftw'', ''d''] (sample_ftw ?c) = Inr ((0, ntot), s')"
    "\<forall>k. k \<noteq> S_OTHER \<longrightarrow> counter k (ustate s') = counter k ?c + int (count_list (file_types sample_ftree) k)"
    using ftw_counts_files [OF sample_denotes, of 2 1024 "sample_ftw ?c" "''ftw''"] by (auto simp: sample_ftree_def sample_ftw_def)
  moreover from spec [OF this(2), of S_IFREG] spec [OF this(2), of S_IFDIR] have "nreg (ustate s') = 1" "ndir (ustate s') = 2"
    by (simp_all add: sample_ftree_def)
  ultimately show ?thesis by blast
qed

end
