(* ===== verification/Env_Lookup.thy ===== *)
theory Env_Lookup
  imports Apue_Prelude
begin

text \<open>
  The three versions of \<open>getenv\<close> in \<open>threadctl\<close>: with one static buffer (\<open>getenv1.c\<close>), with a buffer
  of the caller (\<open>getenv2.c\<close>), and with a buffer for each thread (\<open>getenv3.c\<close>). They share the
  search of the environment, a list of strings; the mutex makes each call a single step.
\<close>

section \<open>The search\<close>

text \<open>The character at \<open>i\<close> of a null-terminated string, and \<open>strncmp\<close> of a name with the start of an entry.\<close>

definition char_at :: "string \<Rightarrow> nat \<Rightarrow> char" where
  "char_at s i = (if i < length s then s ! i else NUL)"

fun env_find :: "string list \<Rightarrow> string \<Rightarrow> string option" where
  "env_find [] name = None"
| "env_find (e # es) name =
     (let len = length name in
      if take len e = name \<and> char_at e len = CHR ''='' then Some (drop (len + 1) e) else env_find es name)"

text \<open>What the environment says of a name: the value in the first entry for it.\<close>

definition env_value :: "string list \<Rightarrow> string \<Rightarrow> string option" where
  "env_value env name = map_option (drop (Suc (length name))) (find (\<lambda>e. \<exists>v. e = name @ ''='' @ v) env)"

lemma entry_iff: "take (length name) e = name \<and> char_at e (length name) = CHR ''='' \<longleftrightarrow> (\<exists>v. e = name @ ''='' @ v)"
proof
  assume a: "take (length name) e = name \<and> char_at e (length name) = CHR ''=''"
  then have l: "length name < length e" by (auto simp: char_at_def split: if_splits)
  with a have "e = name @ CHR ''='' # drop (Suc (length name)) e"
    using id_take_nth_drop [OF l] by (simp add: char_at_def)
  then show "\<exists>v. e = name @ ''='' @ v" by auto
qed (auto simp: char_at_def)

lemma env_find_value: "env_find env name = env_value env name"
  by (induction env name rule: env_find.induct) (auto simp: env_value_def Let_def entry_iff simp flip: One_nat_def)

lemma env_value_clean: "env_value env name = Some v \<Longrightarrow> \<forall>e \<in> set env. NUL \<notin> set e \<Longrightarrow> NUL \<notin> set v"
proof -
  assume v: "env_value env name = Some v" and clean: "\<forall>e \<in> set env. NUL \<notin> set e"
  from v have "name @ ''='' @ v \<in> set env" by (auto simp: env_value_def find_Some_iff in_set_conv_nth)
  with clean have "NUL \<notin> set (name @ ''='' @ v)" by blast
  then show ?thesis by simp
qed

section \<open>The three versions\<close>

abbreviation MAXSTRINGSZ :: nat where "MAXSTRINGSZ \<equiv> 4096"
abbreviation EL_ENOENT :: int where "EL_ENOENT \<equiv> 2"
abbreviation EL_ENOSPC :: int where "EL_ENOSPC \<equiv> 28"

text \<open>\<open>strncpy\<close> into the start of a buffer, which it fills up to \<open>n\<close> with null bytes.\<close>

definition strncpy_buf :: "nat \<Rightarrow> string \<Rightarrow> string \<Rightarrow> string" where
  "strncpy_buf n v buf = take n v @ replicate (n - length v) NUL @ drop n buf"

text \<open>\<open>getenv1.c\<close>: the result is the string in \<open>envbuf\<close>, which is returned too.\<close>

definition getenv1 :: "string list \<Rightarrow> string \<Rightarrow> string \<Rightarrow> string option \<times> string" where
  "getenv1 env name envbuf =
     (case env_find env name of
        None \<Rightarrow> (None, envbuf)
      | Some v \<Rightarrow> let b = strncpy_buf (MAXSTRINGSZ - 1) v envbuf in (Some (cstr b), b))"

text \<open>\<open>getenv2.c\<close>, with a buffer of \<open>buflen\<close> bytes.\<close>

definition getenv_r :: "string list \<Rightarrow> string \<Rightarrow> string \<Rightarrow> int \<Rightarrow> exit_reason + (int \<times> string)" where
  "getenv_r env name buf buflen =
     (case env_find env name of
        None \<Rightarrow> Inr (EL_ENOENT, buf)
      | Some v \<Rightarrow>
          if buflen \<le> int (length v) then Inr (EL_ENOSPC, buf)
          else if length buf < length v + 1 then Inl (Undefined ''write past the buffer'')
          else Inr (0, v @ NUL # drop (length v + 1) buf))"

text \<open>\<open>getenv3.c\<close>, called by thread \<open>t\<close>; \<open>mem\<close> is what \<open>malloc\<close> returns.\<close>

definition getenv3 :: "'t \<Rightarrow> string option \<Rightarrow> string list \<Rightarrow> string \<Rightarrow> ('t \<rightharpoonup> string) \<Rightarrow> string option \<times> ('t \<rightharpoonup> string)" where
  "getenv3 t mem env name tsd =
     (case (case tsd t of None \<Rightarrow> mem | Some b \<Rightarrow> Some b) of
        None \<Rightarrow> (None, tsd)
      | Some b \<Rightarrow>
          (case env_find env name of
             None \<Rightarrow> (None, tsd(t \<mapsto> b))
           | Some v \<Rightarrow> let b' = strncpy_buf (MAXSTRINGSZ - 1) v b in (Some (cstr b'), tsd(t \<mapsto> b'))))"

lemma cstr_strncpy: "length v < n \<Longrightarrow> NUL \<notin> set v \<Longrightarrow> cstr (strncpy_buf n v buf) = v"
  by (cases "n - length v") (auto simp: strncpy_buf_def)

section \<open>Property\<close>

text \<open>The versions of \<open>getenv\<close> agree with the environment. \<open>getenv_r\<close> copies the value of the first
  entry for the name into the caller's buffer, or returns \<open>ENOENT\<close> when there is no entry and
  \<open>ENOSPC\<close> when the value does not fit, with the buffer unchanged; it never writes outside the
  buffer. For values of less than 4095 bytes the other versions return the same value, and that
  with a buffer for each thread changes no other thread's.\<close>

theorem getenv_versions:
  assumes "\<forall>e \<in> set env. NUL \<notin> set e" "length buf = nat buflen" "tsd t = Some b"
    "\<forall>v. env_value env name = Some v \<longrightarrow> length v < MAXSTRINGSZ - 1"
  shows "(case env_value env name of
      None \<Rightarrow> getenv_r env name buf buflen = Inr (EL_ENOENT, buf)
    | Some v \<Rightarrow>
        if int (length v) < buflen
        then \<exists>buf'. getenv_r env name buf buflen = Inr (0, buf') \<and> cstr buf' = v \<and> length buf' = length buf
        else getenv_r env name buf buflen = Inr (EL_ENOSPC, buf)) \<and>
    fst (getenv1 env name envbuf) = env_value env name \<and>
    fst (getenv3 t mem env name tsd) = env_value env name \<and> (\<forall>u. u \<noteq> t \<longrightarrow> snd (getenv3 t mem env name tsd) u = tsd u)"
  using assms env_value_clean [of env name]
  by (auto simp: getenv_r_def getenv1_def getenv3_def env_find_value Let_def cstr_strncpy split: option.splits)

theorem getenv_versions_witness:
  "fst (getenv1 [''A=1'', ''HOME=/root'', ''HOME=/x''] ''HOME'' (replicate 4096 NUL)) = Some ''/root''"
proof -
  have v: "env_value [''A=1'', ''HOME=/root'', ''HOME=/x''] ''HOME'' = Some ''/root''" by (simp add: env_value_def)
  with getenv_versions [of "[''A=1'', ''HOME=/root'', ''HOME=/x'']" "[]" 0 "[() \<mapsto> []]" "()" "[]" "''HOME''" "replicate 4096 NUL" None]
  show ?thesis by auto
qed

text \<open>
  A value of 4095 bytes or more in a buffer that \<open>malloc\<close> has not cleared is not terminated:
  what the thread reads as the value goes on with the last byte of the buffer.
\<close>

lemma getenv3_unterminated:
  assumes "env_value env name = Some v" "MAXSTRINGSZ - 1 \<le> length v" "length b = MAXSTRINGSZ" "NUL \<notin> set v" "b ! (MAXSTRINGSZ - 1) \<noteq> NUL" "tsd t = Some b"
  shows "NUL \<notin> set (the (snd (getenv3 t mem env name tsd) t))"
proof -
  have "drop (MAXSTRINGSZ - 1) b = [b ! (MAXSTRINGSZ - 1)]"
    using assms(3) by (simp add: Cons_nth_drop_Suc [symmetric])
  with assms show ?thesis
    by (auto simp: getenv3_def env_find_value Let_def strncpy_buf_def dest: in_set_takeD)
qed

end
