(* ===== verification/Run_Command.thy ===== *)
theory Run_Command
  imports Apue_Prelude
begin

text \<open>
  The two versions of \<open>system\<close>: without signal handling (\<open>proc/system.c\<close>) and with it
  (\<open>signals/system.c\<close>). The second is the first with the signals SIGINT and SIGQUIT ignored and
  SIGCHLD blocked while the caller waits.
\<close>

section \<open>State\<close>

datatype disposition = SigDfl | SigIgn | Catch nat

abbreviation SIGINT :: nat where "SIGINT \<equiv> 2"
abbreviation SIGQUIT :: nat where "SIGQUIT \<equiv> 3"
abbreviation SIGCHLD :: nat where "SIGCHLD \<equiv> 17"
abbreviation SY_EINTR :: int where "SY_EINTR \<equiv> 4"

text \<open>
  A child that has been started: its command, and the dispositions and the mask with which it
  runs; and the dispositions and the mask of the parent while it waits.
\<close>

record started =
  st_cmd :: string
  st_acts :: "nat \<Rightarrow> disposition"
  st_mask :: "nat set"
  wait_acts :: "nat \<Rightarrow> disposition"
  wait_mask :: "nat set"

text \<open>
  The caller. \<open>sig_fails\<close> says which of the coming calls of \<open>sigaction\<close> and \<open>sigprocmask\<close> fail;
  \<open>fork_ok\<close> whether \<open>fork\<close> succeeds; \<open>wait_res\<close> what the coming calls of \<open>waitpid\<close> return: an error
  or the status of the child.
\<close>

record caller =
  acts :: "nat \<Rightarrow> disposition"
  mask :: "nat set"
  sig_fails :: "bool list"
  fork_ok :: bool
  wait_res :: "(int + int) list"
  children_run :: "started list"

section \<open>The functions\<close>

definition sig_call :: "(caller \<Rightarrow> caller) \<Rightarrow> (caller, bool) io" where
  "sig_call f s =
     (case sig_fails s of
        [] \<Rightarrow> Inr (True, f s)
      | True # bs \<Rightarrow> Inr (False, s\<lparr>sig_fails := bs\<rparr>)
      | False # bs \<Rightarrow> Inr (True, f (s\<lparr>sig_fails := bs\<rparr>)))"

definition sigaction :: "nat \<Rightarrow> disposition \<Rightarrow> (caller, bool) io" where
  "sigaction sig d = sig_call (\<lambda>s. s\<lparr>acts := (acts s)(sig := d)\<rparr>)"

definition sigprocmask :: "nat set \<Rightarrow> (caller, bool) io" where
  "sigprocmask m = sig_call (\<lambda>s. s\<lparr>mask := m\<rparr>)"

text \<open>The loop around \<open>waitpid\<close>; a child that never ends blocks it.\<close>

fun wait_status :: "(int + int) list \<Rightarrow> exit_reason + int \<times> (int + int) list" where
  "wait_status [] = Inl Blocked"
| "wait_status (Inr st # ws) = Inr (st, ws)"
| "wait_status (Inl e # ws) = (if e \<noteq> SY_EINTR then Inr (-1, ws) else wait_status ws)"

definition wait_command :: "(caller, int) io" where
  "wait_command s = (case wait_status (wait_res s) of Inl e \<Rightarrow> Inl e | Inr (st, ws) \<Rightarrow> Inr (st, s\<lparr>wait_res := ws\<rparr>))"

text \<open>\<open>fork\<close> and what follows in parent and child; the child runs the shell with the signal state \<open>a\<close>, \<open>m\<close>.\<close>

definition fork_wait :: "string \<Rightarrow> (nat \<Rightarrow> disposition) \<Rightarrow> nat set \<Rightarrow> (caller, int) io" where
  "fork_wait cmd a m =
     bind_io (gets_io fork_ok) (\<lambda>ok.
     if \<not> ok then ret_io (-1)
     else
       seq_io (modify_io (\<lambda>s. s\<lparr>children_run := children_run s @
         [\<lparr>st_cmd = cmd, st_acts = a, st_mask = m, wait_acts = acts s, wait_mask = mask s\<rparr>]\<rparr>))
       wait_command)"

definition system_plain :: "string option \<Rightarrow> (caller, int) io" where
  "system_plain cmdstring =
     (case cmdstring of
        None \<Rightarrow> ret_io 1
      | Some cmd \<Rightarrow>
          bind_io (gets_io acts) (\<lambda>a.
          bind_io (gets_io mask) (\<lambda>m.
          fork_wait cmd a m)))"

text \<open>The last part of the second version: the saved dispositions and mask are set again.\<close>

definition restore_signals :: "disposition \<Rightarrow> disposition \<Rightarrow> nat set \<Rightarrow> int \<Rightarrow> (caller, int) io" where
  "restore_signals saveintr savequit savemask status =
     bind_io (sigaction SIGINT saveintr) (\<lambda>ok.
     if \<not> ok then ret_io (-1)
     else
       bind_io (sigaction SIGQUIT savequit) (\<lambda>ok.
       if \<not> ok then ret_io (-1)
       else
         bind_io (sigprocmask savemask) (\<lambda>ok.
         if \<not> ok then ret_io (-1)
         else ret_io status)))"

definition system_signals :: "string option \<Rightarrow> (caller, int) io" where
  "system_signals cmdstring =
     (case cmdstring of
        None \<Rightarrow> ret_io 1
      | Some cmd \<Rightarrow>
          bind_io (gets_io (\<lambda>s. acts s SIGINT)) (\<lambda>saveintr.
          bind_io (sigaction SIGINT SigIgn) (\<lambda>ok.
          if \<not> ok then ret_io (-1)
          else
            bind_io (gets_io (\<lambda>s. acts s SIGQUIT)) (\<lambda>savequit.
            bind_io (sigaction SIGQUIT SigIgn) (\<lambda>ok.
            if \<not> ok then ret_io (-1)
            else
              bind_io (gets_io mask) (\<lambda>savemask.
              bind_io (sigprocmask (insert SIGCHLD savemask)) (\<lambda>ok.
              if \<not> ok then ret_io (-1)
              else
                bind_io (gets_io (\<lambda>s. (acts s)(SIGINT := saveintr, SIGQUIT := savequit))) (\<lambda>a.
                bind_io (fork_wait cmd a savemask) (\<lambda>status.
                restore_signals saveintr savequit savemask status)))))))))"

section \<open>Properties\<close>

lemma fork_wait_frame:
  assumes "fork_wait cmd a m s = Inr (r, s')"
  shows "acts s' = acts s \<and> mask s' = mask s \<and> sig_fails s' = sig_fails s"
  using assms by (auto simp: fork_wait_def wait_command_def io_simps split: if_splits sum.splits)

lemma sig_calls_ok:
  "sig_fails s = [] \<Longrightarrow> sigaction n d s = Inr (True, s\<lparr>acts := (acts s)(n := d)\<rparr>)"
  "sig_fails s = [] \<Longrightarrow> sigprocmask m s = Inr (True, s\<lparr>mask := m\<rparr>)"
  by (simp_all add: sigaction_def sigprocmask_def sig_call_def)

text \<open>The outcome of \<open>fork\<close> and \<open>waitpid\<close> does not depend on the caller's own dispositions and mask.\<close>

lemma fork_wait_shift:
  "fork_wait cmd a m (s\<lparr>acts := a', mask := m'\<rparr>) =
     (case fork_wait cmd a m s of
        Inl e \<Rightarrow> Inl e
      | Inr (r, s') \<Rightarrow> Inr (r, s\<lparr>acts := a', mask := m', wait_res := wait_res s',
          children_run := (if fork_ok s then children_run s @ [\<lparr>st_cmd = cmd, st_acts = a, st_mask = m, wait_acts = a', wait_mask = m'\<rparr>] else children_run s)\<rparr>))"
  by (auto simp: fork_wait_def wait_command_def io_simps split: sum.splits)

text \<open>C39: the version with signal handling is the plain one for its caller. When the calls that set
  dispositions and mask succeed, it returns what the version without signal handling returns
  for the same answers of \<open>fork\<close> and \<open>waitpid\<close> (a status, -1 when \<open>fork\<close> or \<open>waitpid\<close> fails, however often \<open>waitpid\<close> is interrupted), leaves
  the caller's dispositions and mask as they were, and runs the command with just these; while
  it waits, SIGINT and SIGQUIT are ignored and SIGCHLD is blocked.\<close>

theorem system_versions_agree:
  assumes "sig_fails s = []"
  shows "case system_plain cmdstring s of
      Inl e \<Rightarrow> system_signals cmdstring s = Inl e
    | Inr (r, s') \<Rightarrow> \<exists>t. system_signals cmdstring s = Inr (r, t) \<and> acts t = acts s \<and> mask t = mask s \<and> wait_res t = wait_res s' \<and>
        (\<forall>cmd. cmdstring = Some cmd \<longrightarrow> fork_ok s \<longrightarrow> children_run t = children_run s @
          [\<lparr>st_cmd = cmd, st_acts = acts s, st_mask = mask s,
            wait_acts = (acts s)(SIGINT := SigIgn, SIGQUIT := SigIgn), wait_mask = insert SIGCHLD (mask s)\<rparr>])"
proof (cases cmdstring)
  case (Some cmd)
  let ?a = "(acts s)(SIGINT := SigIgn, SIGQUIT := SigIgn)"
  have undo: "?a(SIGINT := acts s SIGINT, SIGQUIT := acts s SIGQUIT) = acts s" by (simp add: fun_eq_iff)
  let ?t = "s\<lparr>acts := ?a, mask := insert SIGCHLD (mask s)\<rparr>"
  have run: "system_signals (Some cmd) s = (case fork_wait cmd (acts s) (mask s) ?t of Inl e \<Rightarrow> Inl e
      | Inr (r, t) \<Rightarrow> restore_signals (acts s SIGINT) (acts s SIGQUIT) (mask s) r t)"
    using assms undo by (simp add: system_signals_def io_simps sig_calls_ok)
  have plain: "system_plain (Some cmd) s = fork_wait cmd (acts s) (mask s) s" by (simp add: system_plain_def io_simps)
  show ?thesis
    unfolding Some run plain fork_wait_shift
    using assms undo by (auto simp: restore_signals_def io_simps sig_calls_ok split: sum.splits)
qed (simp add: system_plain_def system_signals_def io_simps)

definition sample_caller :: caller where
  "sample_caller = \<lparr>acts = (\<lambda>n. Catch n), mask = {}, sig_fails = [], fork_ok = True, wait_res = [Inl SY_EINTR, Inr 256], children_run = []\<rparr>"

theorem system_versions_agree_witness:
  "\<exists>t. system_signals (Some ''date'') sample_caller = Inr (256, t) \<and> acts t = acts sample_caller \<and> mask t = mask sample_caller"
  using system_versions_agree [of sample_caller "Some ''date''"]
  by (auto simp: sample_caller_def system_plain_def fork_wait_def wait_command_def io_simps)

text \<open>When the second call of \<open>sigaction\<close> fails, SIGINT remains ignored.\<close>

lemma system_leaves_ignored:
  "sig_fails s = [False, True] \<Longrightarrow> \<exists>t. system_signals (Some cmd) s = Inr (-1, t) \<and> acts t SIGINT = SigIgn"
  by (auto simp: system_signals_def io_simps sigaction_def sig_call_def)

end
