(* ===== verification/Timers.thy ===== *)
theory Timers
  imports Apue_Prelude
begin

text \<open>
  Functions that compute times: the call of a function at a given time in a thread of its own
  (\<open>threadctl/timeout.c\<close>, with \<open>makethread\<close> of \<open>threadctl/detach.c\<close>), the absolute time of a
  timeout (\<open>threads/maketimeout.c\<close>), and sleeping for microseconds and seconds
  (\<open>lib/sleepus.c\<close>, \<open>exercises/sleepus_select.c\<close>, \<open>exercises/sleepus_poll.c\<close>, \<open>exercises/sleep.c\<close>).
\<close>

section \<open>Calling a function at a given time\<close>

record timespec =
  tv_sec :: int
  tv_nsec :: int

abbreviation SECTONSEC :: int where "SECTONSEC \<equiv> 1000000000"

text \<open>A time in nanoseconds, and the times that a clock shows.\<close>

definition nsecs :: "timespec \<Rightarrow> int" where
  "nsecs t = tv_sec t * SECTONSEC + tv_nsec t"

definition clock_time :: "timespec \<Rightarrow> bool" where
  "clock_time t \<longleftrightarrow> 0 \<le> tv_nsec t \<and> tv_nsec t < SECTONSEC"

text \<open>
  \<open>makethread\<close>, from the errors of \<open>pthread_attr_init\<close>, \<open>pthread_attr_setdetachstate\<close> and
  \<open>pthread_create\<close> (0 for none): its result, whether a thread was created, and whether the attributes
  were destroyed.
\<close>

definition makethread :: "int \<Rightarrow> int \<Rightarrow> int \<Rightarrow> int \<times> bool \<times> bool" where
  "makethread init_err detach_err create_err =
     (if init_err \<noteq> 0 then (init_err, False, False)
      else
        let err = (if detach_err = 0 then create_err else detach_err) in
        (err, detach_err = 0 \<and> create_err = 0, True))"

text \<open>
  What \<open>timeout\<close> brings about: the times at which the function is called, now or by the thread,
  and the blocks of memory that remain allocated.
\<close>

record outcome =
  calls :: "timespec list"
  blocks :: int

text \<open>The time to wait from \<open>now\<close> until \<open>when\<close>.\<close>

definition to_wait :: "timespec \<Rightarrow> timespec \<Rightarrow> timespec" where
  "to_wait wh now =
     (if tv_nsec now \<le> tv_nsec wh
      then \<lparr>tv_sec = tv_sec wh - tv_sec now, tv_nsec = tv_nsec wh - tv_nsec now\<rparr>
      else \<lparr>tv_sec = tv_sec wh - tv_sec now - 1, tv_nsec = SECTONSEC - tv_nsec now + tv_nsec wh\<rparr>)"

text \<open>A time of the clock later, by a time to wait.\<close>

definition later :: "timespec \<Rightarrow> timespec \<Rightarrow> timespec" where
  "later now w =
     (let n = tv_nsec now + tv_nsec w in
      \<lparr>tv_sec = tv_sec now + tv_sec w + n div SECTONSEC, tv_nsec = n mod SECTONSEC\<rparr>)"

text \<open>\<open>timeout_helper\<close>: it sleeps, calls the function and frees its argument.\<close>

definition timeout_helper :: "timespec \<Rightarrow> timespec \<Rightarrow> outcome \<Rightarrow> outcome" where
  "timeout_helper now w r = r\<lparr>calls := calls r @ [later now w], blocks := blocks r - 1\<rparr>"

definition timeout :: "timespec \<Rightarrow> timespec \<Rightarrow> bool \<Rightarrow> int \<times> int \<times> int \<Rightarrow> outcome" where
  "timeout wh now malloc_ok errs =
     (let r = \<lparr>calls = [], blocks = 0\<rparr>;
          now_call = (\<lambda>r. r\<lparr>calls := calls r @ [now]\<rparr>) in
      if tv_sec now < tv_sec wh \<or> tv_sec wh = tv_sec now \<and> tv_nsec now < tv_nsec wh then
        if malloc_ok then
          (case errs of (e1, e2, e3) \<Rightarrow>
           (case makethread e1 e2 e3 of (err, started, _) \<Rightarrow>
            let r = r\<lparr>blocks := 1\<rparr>; r = (if started then timeout_helper now (to_wait wh now) r else r) in
            if err = 0 then r else now_call (r\<lparr>blocks := blocks r - 1\<rparr>)))
        else now_call r
      else now_call r)"

definition maketimeout :: "int \<Rightarrow> int \<Rightarrow> int \<Rightarrow> timespec" where
  "maketimeout now_sec now_usec minutes = \<lparr>tv_sec = now_sec + minutes * 60, tv_nsec = now_usec * 1000\<rparr>"

section \<open>Sleeping\<close>

text \<open>The seconds and microseconds that \<open>select\<close> waits, and the milliseconds that \<open>poll\<close> waits.\<close>

definition sleep_us :: "32 word \<Rightarrow> 32 word \<times> 32 word" where
  "sleep_us nusecs = (nusecs div 1000000, nusecs mod 1000000)"

definition sleep_us_poll :: "32 word \<Rightarrow> int" where
  "sleep_us_poll nusecs = (let timeout = sint (nusecs div 1000) in if timeout \<le> 0 then 1 else timeout)"

text \<open>
  \<open>sleep\<close> by \<open>select\<close>: whether it was interrupted, and the times before and after; the result is the
  number of seconds not slept.
\<close>

definition sleep_select :: "32 word \<Rightarrow> bool \<Rightarrow> int \<Rightarrow> int \<Rightarrow> 32 word" where
  "sleep_select seconds interrupted start fin =
     (if \<not> interrupted then 0
      else let slept = word_of_int (fin - start) in
      if seconds \<le> slept then 0 else seconds - slept)"

section \<open>Properties\<close>

lemma to_wait_exact:
  assumes "clock_time wh" "clock_time now" "nsecs now < nsecs wh"
  shows "clock_time (to_wait wh now)" "nsecs (to_wait wh now) = nsecs wh - nsecs now" "0 \<le> tv_sec (to_wait wh now)"
  using assms by (auto simp: clock_time_def nsecs_def to_wait_def)

lemma later_than_iff:
  assumes "clock_time wh" "clock_time now"
  shows "(tv_sec now < tv_sec wh \<or> tv_sec wh = tv_sec now \<and> tv_nsec now < tv_nsec wh) \<longleftrightarrow> nsecs now < nsecs wh"
  using assms by (auto simp: clock_time_def nsecs_def)

lemma nsecs_later: "nsecs (later now w) = nsecs now + nsecs w"
  by (simp add: later_def nsecs_def Let_def algebra_simps)

text \<open>The function is called exactly once, and not too early when a thread can be made. Whatever
  fails, there is one call, and no memory remains allocated. When the time lies in the future
  and memory and thread are available, the thread waits for the exact difference, which is a
  valid time with a part of less than a second in nanoseconds, and the call is made at the time
  asked for; in every other case it is made at once.\<close>

theorem timeout_calls_once:
  assumes "clock_time wh" "clock_time now" "timeout wh now malloc_ok (e1, e2, e3) = r"
  shows "blocks r = 0 \<and> length (calls r) = 1 \<and>
    (if nsecs now < nsecs wh \<and> malloc_ok \<and> e1 = 0 \<and> e2 = 0 \<and> e3 = 0
     then nsecs (hd (calls r)) = nsecs wh \<and> clock_time (to_wait wh now) \<and> 0 \<le> tv_sec (to_wait wh now)
     else calls r = [now])"
  using assms(3) later_than_iff [OF assms(1,2)] to_wait_exact [OF assms(1,2)]
  by (auto simp: timeout_def makethread_def timeout_helper_def Let_def nsecs_later)

theorem timeout_calls_once_witness:
  "nsecs (hd (calls (timeout \<lparr>tv_sec = 12, tv_nsec = 5\<rparr> \<lparr>tv_sec = 10, tv_nsec = 900000000\<rparr> True (0, 0, 0)))) = 12000000005"
  using timeout_calls_once [of "\<lparr>tv_sec = 12, tv_nsec = 5\<rparr>" "\<lparr>tv_sec = 10, tv_nsec = 900000000\<rparr>" True 0 0 0]
  by (simp add: clock_time_def nsecs_def)

text \<open>The parts of a time in microseconds; \<open>poll\<close> is given at least one millisecond, but less than asked for when it rounds.\<close>

lemma sleep_us_exact:
  "unat (fst (sleep_us n)) * 1000000 + unat (snd (sleep_us n)) = unat n \<and> unat (snd (sleep_us n)) < 1000000"
  by (simp add: sleep_us_def unat_div unat_mod)

lemma sleep_us_poll_short: "sleep_us_poll 1999 = 1"
  by code_simp

text \<open>The time not slept: correct when the clock has not gone back; otherwise the function says that it has slept enough.\<close>

lemma sleep_select_rest:
  assumes "0 \<le> fin - start" "fin - start < 4294967296"
  shows "uint (sleep_select seconds True start fin) = max 0 (uint seconds - (fin - start))"
proof -
  have "uint (word_of_int d :: 32 word) = d" if "0 \<le> d" "d < 4294967296" for d
    using that by (simp add: uint_word_of_int)
  from this [OF assms] show ?thesis
    by (auto simp: sleep_select_def Let_def word_le_def uint_sub_lem [THEN iffD1] simp del: of_int_diff)
qed

lemma maketimeout_clock: "0 \<le> u \<Longrightarrow> u < 1000000 \<Longrightarrow> clock_time (maketimeout s u m) \<and> nsecs (maketimeout s u m) = (s + 60 * m) * SECTONSEC + u * 1000"
  by (simp add: maketimeout_def clock_time_def nsecs_def)

end
