(* ===== verification/Copy_Loop.thy ===== *)
theory Copy_Loop
  imports Stream_Io
begin

text \<open>
  The programs that copy one descriptor to another: \<open>intro/mycat.c\<close>, the clients of the open server
  (\<open>ipc2/open/main.c\<close>, \<open>ipc2/open.fe/main.c\<close>), and the two processes of \<open>pty/loop.c\<close>. They share one
  loop over \<open>read\<close>; the function that writes is \<open>write\<close> in some and \<open>writen\<close> in others, and the
  locale \<open>writer\<close> says what the loop relies on.
\<close>

section \<open>The loop\<close>

text \<open>What remains of the input, as a measure.\<close>

fun in_size :: "rd_event list \<Rightarrow> nat" where
  "in_size [] = 0"
| "in_size (Data bs # es) = Suc (length bs) + in_size es"
| "in_size (e # es) = Suc (in_size es)"

lemma rd_next_shrinks: "rd_next n es = (Inr bs, es') \<Longrightarrow> 0 < n \<Longrightarrow> bs \<noteq> [] \<Longrightarrow> in_size es' < in_size es"
  by (induction n es rule: rd_next.induct) (auto split: if_splits)

lemma sys_read_shrinks: "sys_read n c = (Some bs, c') \<Longrightarrow> bs \<noteq> [] \<Longrightarrow> in_size (c_in c') < in_size (c_in c)"
  by (auto simp: sys_read_def split: if_splits prod.splits sum.splits dest: rd_next_shrinks)


text \<open>How the loop ends.\<close>

datatype copy_end = CopyEof | ReadError | WriteError

function copy_loop :: "(string \<Rightarrow> chan \<Rightarrow> int \<times> chan) \<Rightarrow> nat \<Rightarrow> chan \<Rightarrow> chan \<Rightarrow> copy_end \<times> chan \<times> chan" where
  "copy_loop wr bufsz inp out =
     (case sys_read bufsz inp of
        (None, inp1) \<Rightarrow> (ReadError, inp1, out)
      | (Some bs, inp1) \<Rightarrow>
          if bs = [] then (CopyEof, inp1, out)
          else case wr bs out of
            (n, out1) \<Rightarrow> if n \<noteq> int (length bs) then (WriteError, inp1, out1) else copy_loop wr bufsz inp1 out1)"
  by pat_completeness auto
termination
  by (relation "measure (\<lambda>(wr, bufsz, inp, out). in_size (c_in inp))") (auto intro: sys_read_shrinks [OF sym])

declare copy_loop.simps [simp del]

section \<open>The programs\<close>

definition mycat_main :: "chan \<Rightarrow> chan \<Rightarrow> exit_reason \<times> chan" where
  "mycat_main stdin stdout =
     (case copy_loop sys_write 4096 stdin stdout of
        (WriteError, _, out) \<Rightarrow> (SysExit ''write error'', out)
      | (ReadError, _, out) \<Rightarrow> (SysExit ''read error'', out)
      | (CopyEof, _, out) \<Rightarrow> (Exit 0, out))"

text \<open>
  The clients of the open server: \<open>csopen\<close> is given by the stream behind the descriptor that it
  returns, if any; \<open>lines\<close> are what \<open>fgets\<close> returns, one after the other.
\<close>

definition chop_newline :: "string \<Rightarrow> exit_reason + string" where
  "chop_newline line =
     (let len = length (cstr line) in
      if len = 0 then Inl (Undefined ''access before the buffer'')
      else if line ! (len - 1) = NEWLINE then Inr (take (len - 1) line) else Inr (cstr line))"

fun open_main :: "(string \<Rightarrow> chan option) \<Rightarrow> string list \<Rightarrow> chan \<Rightarrow> exit_reason \<times> chan" where
  "open_main csopen [] out = (Exit 0, out)"
| "open_main csopen (line # lines) out =
     (case chop_newline line of
        Inl e \<Rightarrow> (e, out)
      | Inr name \<Rightarrow>
          (case csopen name of
             None \<Rightarrow> open_main csopen lines out
           | Some fd \<Rightarrow>
               (case copy_loop sys_write 8192 fd out of
                  (WriteError, _, out1) \<Rightarrow> (SysExit ''write error'', out1)
                | (ReadError, _, out1) \<Rightarrow> (SysExit ''read error'', out1)
                | (CopyEof, _, out1) \<Rightarrow> open_main csopen lines out1)))"







section \<open>What a copy writes\<close>

locale writer =
  fixes wr :: "string \<Rightarrow> chan \<Rightarrow> int \<times> chan"
  assumes wr_appends: "wr bs c = (r, c') \<Longrightarrow> \<exists>k \<le> length bs. c_out c' = c_out c @ take k bs \<and> (r = int (length bs) \<longrightarrow> k = length bs)"
begin

text \<open>
  What is written is a prefix of what the input delivers, and all of it unless a write falls
  short; the loop ends with a read error just when the input does.
\<close>

lemma copy_prefix:
  assumes "0 < bufsz" "copy_loop wr bufsz inp out = (e, inp', out')"
  shows "\<exists>k \<le> length (rd_bytes (c_in inp)). c_out out' = c_out out @ take k (rd_bytes (c_in inp)) \<and>
    (e \<noteq> WriteError \<longrightarrow> k = length (rd_bytes (c_in inp)) \<and> (e = ReadError \<longleftrightarrow> rd_fails (c_in inp)))"
  using assms(2)
proof (induction "in_size (c_in inp)" arbitrary: inp out rule: less_induct)
  case less
  obtain v inp1 where rd: "sys_read bufsz inp = (v, inp1)" by fastforce
  show ?case
  proof (cases v)
    case None
    with less.prems rd plain.rd_none [OF assms(1), of inp inp1] show ?thesis by (simp add: copy_loop.simps [of wr bufsz inp])
  next
    case (Some bs)
    note got = plain.rd_some [OF assms(1) rd [unfolded Some]]
    show ?thesis
    proof (cases "bs = []")
      case True
      with less.prems rd Some plain.rd_empty [OF assms(1), of inp inp1] show ?thesis by (simp add: copy_loop.simps [of wr bufsz inp])
    next
      case False
      obtain n out1 where w: "wr bs out = (n, out1)" by fastforce
      from wr_appends [OF w] obtain k where k: "k \<le> length bs" "c_out out1 = c_out out @ take k bs" "n = int (length bs) \<longrightarrow> k = length bs" by blast
      show ?thesis
      proof (cases "n = int (length bs)")
        case True
        have "copy_loop wr bufsz inp1 out1 = (e, inp', out')"
          using less.prems rd Some False w True by (simp add: copy_loop.simps [of wr bufsz inp])
        with less.hyps [OF sys_read_shrinks [OF rd [unfolded Some] False]] obtain j where j: "j \<le> length (rd_bytes (c_in inp1))"
          "c_out out' = c_out out1 @ take j (rd_bytes (c_in inp1))"
          "e \<noteq> WriteError \<longrightarrow> j = length (rd_bytes (c_in inp1)) \<and> (e = ReadError \<longleftrightarrow> rd_fails (c_in inp1))" by blast
        with k True got show ?thesis by (intro exI [of _ "length bs + j"]) auto
      next
        case False
        with less.prems rd Some \<open>bs \<noteq> []\<close> w have "e = WriteError" "out' = out1" by (auto simp: copy_loop.simps [of wr bufsz inp])
        with k got show ?thesis by (intro exI [of _ k]) auto
      qed
    qed
  qed
qed

end

interpretation raw: writer sys_write
proof (unfold_locales, goal_cases)
  case (1 bs c r c')
  then show ?case by (intro exI [of _ "if r < 0 then 0 else nat r"]) (auto simp: sys_write_def min_def split: list.splits wr_event.splits if_splits)
qed











section \<open>Properties\<close>



text \<open>\<open>mycat\<close> reports every loss: it exits with status 0 only when it has written all that its input delivers and the input did not fail.\<close>

lemma mycat_reports:
  assumes "mycat_main stdin stdout = (r, out)"
  shows "\<exists>k. c_out out = c_out stdout @ take k (rd_bytes (c_in stdin)) \<and>
    (r = Exit 0 \<longrightarrow> k = length (rd_bytes (c_in stdin)) \<and> \<not> rd_fails (c_in stdin))"
proof -
  obtain e i m where c: "copy_loop sys_write 4096 stdin stdout = (e, i, m)" by (cases "copy_loop sys_write 4096 stdin stdout") auto
  from raw.copy_prefix [OF _ c] obtain k where "c_out m = c_out stdout @ take k (rd_bytes (c_in stdin))"
    "e \<noteq> WriteError \<longrightarrow> k = length (rd_bytes (c_in stdin)) \<and> (e = ReadError \<longleftrightarrow> rd_fails (c_in stdin))" by auto
  with assms c show ?thesis by (intro exI [of _ k]) (cases e; auto simp: mycat_main_def)
qed

text \<open>The clients of the open server: with status 0, the files that could be opened have been copied, one after the other.\<close>

lemma open_main_copies:
  assumes "open_main csopen lines out = (Exit 0, out')" "\<forall>l \<in> set lines. \<exists>n. chop_newline l = Inr n"
  shows "c_out out' = c_out out @ concat (map (\<lambda>l. case chop_newline l of Inr n \<Rightarrow> (case csopen n of Some fd \<Rightarrow> rd_bytes (c_in fd) | None \<Rightarrow> []) | Inl e \<Rightarrow> []) lines)"
  using assms
proof (induction csopen lines out rule: open_main.induct)
  case (2 csopen line lines out)
  from "2.prems"(2) obtain n where n: "chop_newline line = Inr n" by auto
  show ?case
  proof (cases "csopen n")
    case None
    with 2 n show ?thesis by simp
  next
    case (Some fd)
    obtain e i m where c: "copy_loop sys_write 8192 fd out = (e, i, m)" by (cases "copy_loop sys_write 8192 fd out") auto
    with "2.prems"(1) n Some have "e = CopyEof" by (cases e) auto
    with 2 n Some c raw.copy_prefix [OF _ c] show ?thesis by auto
  qed
qed auto

end
