(* ===== verification/Spec2Isabelle.thy ===== *)
theory Spec2Isabelle
  imports Db_Properties Stream_Io Printd_Queue Printd_Wire Printd_Config Printd_Client Printd_Status
    Printd_Printer Print_Client Open_Loop Herd_Pool Error_Report Sem_V Mem_Stream Bit_Ops
    Tty_Modes Ref_Hash Sort_Merge My_Barrier My_Dup2 Tell_Wait Unix_Conn Ftw
    Env_Lookup Run_Command Timers Copy_Loop
begin

text \<open>
  A verification development for the programs and libraries of \<open>apue.3e\<close>: the source code of
  \<^emph>\<open>Advanced Programming in the UNIX Environment\<close> with the exercises and tests of its maintainer.
  The repository is a collection. Its larger parts are a key-value database (\<open>db/\<close>), a print
  spooler of a command and a daemon (\<open>printer/\<close>), a server that opens files for its clients
  (\<open>ipc2/\<close>), and the library that they and the small programs are built on (\<open>lib/\<close>, \<open>sockets/\<close>).
  Beside them the development covers the smaller programs that have logic of their own:
  synchronisation of threads and processes, memory streams, a barrier, reference counts,
  parallel sorting, a walk through a file hierarchy, lookup in the environment, and others.

  \<^bold>\<open>Modelling.\<close> A C function is a function in the monad \<open>('s, 'a) io\<close> of \<open>Apue_Prelude\<close>: it
  maps a state to a result with a new state, or to the reason for which it does not return
  (\<open>exit_reason\<close>: the exits of the error routines, blocking in the kernel, divergence, undefined
  behaviour). A struct and the static variables of a file are a record; pointers into the heap
  are addresses in a finite map, so that a dangling pointer or a null pointer is \<open>Undefined\<close>.
  Buffers are lists of characters with their length, and a store outside is \<open>Undefined\<close> too.
  Machine integers are words where they can wrap, integers elsewhere. Loops are recursive
  functions with a termination proof; where the end depends on the shape of a data structure
  on disk or on the heap the loop takes fuel, \<open>Diverges\<close> is its exhaustion, and the theorems
  show that the fuel suffices: the search in a hash chain has one step for each record and
  chains are acyclic (\<open>Db_Chains\<close>), a walk needs the height of the tree (\<open>Ftw\<close>), a list needs the
  number of nodes. What the kernel, the network and the C library answer is an argument of
  the definitions: a list of answers to come, a schedule of events, or a function.

  \<^bold>\<open>Shared theories.\<close> \<open>Apue_Prelude\<close>: exits, monad, C strings, decimal numbers, descriptor
  tables. \<open>Posix_File\<close>: files and record locks (\<open>lib/lockreg.c\<close>, \<open>lib/locktest.c\<close>, \<open>include/apue.h\<close>),
  and what each locking macro does to exactly which bytes. \<open>Stream_Io\<close>: channels with short transfers, silence and errors; \<open>readn\<close>,
  \<open>writen\<close> (\<open>lib/\<close>, \<open>advio/\<close>), \<open>tread\<close> and \<open>treadn\<close> (\<open>printer/util.c\<close>), the reading loops proved
  once in the locale \<open>reader\<close>. \<open>Dl_List\<close>: doubly linked lists on a heap. \<open>Step_System\<close>: reachable
  states, invariants and executable schedules of concurrent programs, as the locales
  \<open>step_invariant\<close> and \<open>schedules\<close>.

  \<^bold>\<open>The database\<close> (\<open>db/db.c\<close>). \<open>Db_Model\<close> has every function of the file over the bytes of the index
  and data file, with locks and failing system calls. \<open>Db_Layout\<close> and \<open>Db_Chains\<close> say when bytes
  represent a hash table of chains with a free list; \<open>Db_Ops\<close>, \<open>Db_Surgery\<close>, \<open>Db_Delete\<close>, \<open>Db_Store\<close>
  and \<open>Db_Correct\<close> show what the operations do to them. \<open>Db_Interface\<close> states the contract as the
  locale \<open>kv_store\<close>, proves runs of commands from it and interprets it on the model; \<open>Db_Scan\<close>
  adds the sequential reading, \<open>Db_Faults\<close> the behaviour under failures. The properties are in
  \<open>Db_Properties\<close>: any run of fetches, stores and deletions returns what a finite map returns,
  each operation is correct on each branch, \<open>db_open\<close> is correct for every combination of flags
  and files, a run in which calls fail dumps core or gives the right answer, a scan returns all
  records with a key that is not blank; and \<open>db/t4.c\<close>.

  \<^bold>\<open>The print spooler\<close> (\<open>printer/\<close>). \<open>Printd_Queue\<close>: the daemon's state, its job list as the locale
  \<open>pending\<close>, and its workers. \<open>Printd_Wire\<close>: requests, answers and the IPP and HTTP headers as
  bytes. \<open>Printd_Config\<close>: the configuration file. \<open>Printd_Client\<close>: the thread that serves a client,
  and the restart. \<open>Printd_Status\<close>: the printer's answer. \<open>Printd_Printer\<close>: a round of the printer
  thread. \<open>Print_Client\<close>: the command, and the composition of command and daemon. Shown: what a
  client sends is spooled and queued, or spool and queue are cleaned up as far as the calls of
  \<open>unlink\<close> succeed; jobs leave the queue in order, also when clients add jobs while one is in
  hand; a job is removed only after the printer got all of it and its answer was judged a
  success; a restart queues the jobs whose control files are there; the headers fit their buffers
  exactly under stated bounds, and can then be parsed back.

  \<^bold>\<open>The open server\<close> (\<open>ipc2/opend\<close>, \<open>ipc2/open\<close> and the versions with \<open>fork\<close>). \<open>Unix_Conn\<close>: how
  client and server meet (\<open>lib/servlisten.c\<close>, \<open>lib/cliconn.c\<close>, \<open>lib/servaccept.c\<close>). \<open>Fd_Passing\<close>:
  descriptors over sockets (\<open>lib/sendfd.c\<close>, \<open>lib/recvfd.c\<close>, \<open>lib/senderr.c\<close>, \<open>ipc2/\<close>).
  \<open>Client_Table\<close>: the table of clients as the locale \<open>client_table\<close>, a map for its users.
  \<open>Open_Server\<close>: requests and \<open>csopen\<close>. \<open>Open_Loop\<close>: both loops. \<open>Error_Report\<close>: the error routines
  (\<open>lib/error.c\<close>, \<open>lib/errorlog.c\<close>, \<open>librlt/error.c\<close>). Shown: a request gets one answer, the
  descriptor that the server opened arrives (a descriptor is named by the open file it refers
  to, since its number differs between the processes), a stream cut between the last two bytes of
  a message makes the receiver dump core, the server knows the client's user ID, and each turn of the
  loop serves the clients that are ready.

  \<^bold>\<open>Concurrent programs\<close>, each with its steps, an invariant and an interpretation of
  \<open>step_invariant\<close>. \<open>Sem_V\<close>: semaphores (\<open>lib/semaph.c\<close>), one system call at a time. \<open>Job_Queue\<close>: the
  queue with a reader-writer lock (\<open>threads/rwlock.c\<close>) as the locale \<open>job_list\<close>; \<open>Worker_Pool\<close> and
  \<open>Herd_Pool\<close>: the pools of workers on it (\<open>mytests/threads/Ex11_3*\<close>). \<open>Ref_Hash\<close>: reference counts
  (\<open>threads/mutex2.c\<close>, \<open>threads/mutex3.c\<close>), with a count that is an \<open>int\<close>. \<open>My_Barrier\<close>: a barrier (\<open>mytests/threads/Ex11_5*\<close>).
  \<open>Tell_Wait\<close>: parent and child synchronised by signals (\<open>lib/tellwait.c\<close>,
  \<open>mytests/signals/Ex10_6_procsync.c\<close>). \<open>Sort_Merge\<close>: parallel sorting (\<open>threads/barrier.c\<close>).

  \<^bold>\<open>Processes, files and time.\<close> \<open>Popen\<close> (\<open>lib/popen.c\<close>), \<open>My_Dup2\<close> (\<open>mytests/fileio/Ex3_2_dup2_recur.c\<close>),
  \<open>Run_Command\<close> (\<open>proc/system.c\<close>, \<open>signals/system.c\<close>), \<open>Tty_Modes\<close> (\<open>lib/ttymodes.c\<close>), \<open>Mem_Stream\<close>
  (\<open>exercises/fmemopen.c\<close>), \<open>Ftw\<close> (\<open>filedir/ftw8.c\<close>, \<open>lib/pathalloc.c\<close>), \<open>Copy_Loop\<close> (\<open>intro/mycat.c\<close>,
  \<open>ipc2/open/main.c\<close>, \<open>pty/loop.c\<close>; the locale \<open>writer\<close>), \<open>Env_Lookup\<close> (\<open>threadctl/getenv*.c\<close>), \<open>Timers\<close>
  (\<open>threadctl/timeout.c\<close> and others), \<open>Bit_Ops\<close> (\<open>librlt/bitops.c\<close>).

  \<^bold>\<open>Bounds.\<close> Theorems on the database assume that offsets fit the seven digits of a pointer field
  and records the four of a length field, which the file format demands. Sizes and limits
  of the platform (\<open>sun_path\<close>, \<open>NAME_MAX\<close>, error numbers, signal numbers, flags of terminals) are
  those of Linux. The job number of the print daemon wraps around, as its code expects.

  \<^bold>\<open>Not modelled.\<close> Programs that show one system call and print what it returns (most of \<open>intro\<close>,
  \<open>fileio\<close>, \<open>filedir\<close>, \<open>stdio\<close>, \<open>proc\<close>, \<open>environ\<close>, \<open>signals\<close>, \<open>termios\<close>, \<open>ipc1\<close>, \<open>mytests\<close>): what
  they compute is what the kernel answers. Wrappers of single calls in \<open>lib\<close> and \<open>librlt\<close>. Option
  parsing, start-up as a daemon, pseudo-terminals, thread creation and the formatting of
  output for people. Preemption between the instructions of a critical section: a section
  under a mutex is one step.
\<close>

end
